(* ===== verification/Prelude.thy ===== *)
theory Prelude
  imports Main "HOL-Library.Word" "HOL-Library.Multiset"
begin

text \<open>
  The vocabulary the components share: C integer conversions, the character classes of
  \<^verbatim>\<open>ctype.h\<close>, C strings as character lists without their terminating NUL, generic
  facts on lists, and the collections of hints the component proofs draw on.
\<close>

section \<open>Hint collections\<close>

named_theorems field_frames \<open>what an operation leaves unchanged\<close>
named_theorems inv_keeps \<open>operations that keep a component's invariant\<close>
named_theorems abs_laws \<open>what an operation does to a component's abstract value\<close>

section \<open>C integers\<close>

text \<open>
  Conversions to the fixed-width integers of the LP64 model: conversion to an unsigned type
  reduces modulo its range, conversion to a signed type takes the two's complement value.
\<close>

type_synonym byte = "8 word"

definition cast_short :: "int \<Rightarrow> int" where
  "cast_short x = signed_take_bit 15 x"

definition cast_int :: "int \<Rightarrow> int" where
  "cast_int x = signed_take_bit 31 x"

definition cast_uint32 :: "int \<Rightarrow> int" where
  "cast_uint32 x = take_bit 32 x"

definition cast_uint64 :: "int \<Rightarrow> int" where
  "cast_uint64 x = take_bit 64 x"

definition EV_SIZE_MAX :: nat where
  "EV_SIZE_MAX = 2 ^ 64 - 1"

definition LONG_MAX :: int where
  "LONG_MAX = 2 ^ 63 - 1"

definition LONG_MIN :: int where
  "LONG_MIN = - (2 ^ 63)"

lemma cast_short_id: "- (2 ^ 15) \<le> x \<Longrightarrow> x < 2 ^ 15 \<Longrightarrow> cast_short x = x"
  by (simp add: cast_short_def signed_take_bit_int_eq_self)

lemma cast_int_id: "- (2 ^ 31) \<le> x \<Longrightarrow> x < 2 ^ 31 \<Longrightarrow> cast_int x = x"
  by (simp add: cast_int_def signed_take_bit_int_eq_self)

lemma cast_uint32_id: "0 \<le> x \<Longrightarrow> x < 2 ^ 32 \<Longrightarrow> cast_uint32 x = x"
  by (simp add: cast_uint32_def take_bit_int_eq_self)

lemma cast_uint64_id: "0 \<le> x \<Longrightarrow> x < 2 ^ 64 \<Longrightarrow> cast_uint64 x = x"
  by (simp add: cast_uint64_def take_bit_int_eq_self)

section \<open>C characters and strings\<close>

text \<open>The classes of \<^verbatim>\<open>ctype.h\<close> in the C locale.\<close>

definition isspace :: "char \<Rightarrow> bool" where
  "isspace c \<longleftrightarrow> c \<in> set [CHR '' '', CHR 0x09, CHR 0x0A, CHR 0x0B, CHR 0x0C, CHR 0x0D]"

definition tolower :: "char \<Rightarrow> char" where
  "tolower c = (if 65 \<le> (of_char c :: nat) \<and> of_char c \<le> (90 :: nat)
    then char_of (of_char c + 32 :: nat) else c)"

text \<open>What a C function that takes a \<^verbatim>\<open>char *\<close> sees of the bytes in the array.\<close>

definition c_str :: "string \<Rightarrow> string" where
  "c_str bs = takeWhile (\<lambda>c. c \<noteq> CHR 0x00) bs"

lemma c_str_id [simp]: "CHR 0x00 \<notin> set s \<Longrightarrow> c_str s = s"
  by (auto simp: c_str_def takeWhile_eq_all_conv)

lemma tolower_idem [simp]: "tolower (tolower c) = tolower c"
  by (auto simp: tolower_def)

lemma map_tolower_idem [simp]: "map tolower (map tolower s) = map tolower s"
  by simp

section \<open>Case splits and lists\<close>

lemma if_intro: "(c \<Longrightarrow> P a) \<Longrightarrow> (\<not> c \<Longrightarrow> P b) \<Longrightarrow> P (if c then a else b)"
  by simp

lemma takeWhile_eq_prefix:
  "(\<forall>x \<in> set xs. P x) \<Longrightarrow> \<not> P y \<Longrightarrow> takeWhile P (xs @ y # ys) = xs"
  by (induction xs) auto

lemma dropWhile_eq_suffix:
  "(\<forall>x \<in> set xs. P x) \<Longrightarrow> \<not> P y \<Longrightarrow> dropWhile P (xs @ y # ys) = y # ys"
  by (induction xs) auto

lemma dropWhile_last_id:
  "xs \<noteq> [] \<Longrightarrow> \<not> P (last xs) \<Longrightarrow> rev (dropWhile P (rev xs)) = xs"
  by (cases xs rule: rev_cases) auto

lemma mset_remove1_append:
  "x \<in> set xs \<Longrightarrow> mset (remove1 x xs @ [x]) = mset xs"
  by simp

end
