(* ===== verification/ThreadPool.thy ===== *)
theory ThreadPool
  imports Prelude
begin

text \<open>
  The thread pool of \<^verbatim>\<open>SyPthreadPool.cpp\<close>: a ring buffer of tasks under one mutex and one
  condition variable, the operations of the class, and the threads as a step relation. Sizes
  and indices are natural numbers below \<open>2 ^ 31\<close>. What the \<^verbatim>\<open>pthread\<close> functions return is a
  parameter; the mutex is of the default kind, so a thread that locks it twice blocks itself.
\<close>

section \<open>Data\<close>

type_synonym ptr = nat  \<comment> \<open>0 is the null pointer\<close>

record task =
  startfunc :: ptr
  arg :: ptr

datatype SyPthreadPoolErr =
    PoolErr | Success | MutexInitErr | CondInitErr | LockErr | UnLockErr | CondWaitErr
  | CondSignalErr | DeleteErr | DistoryErr | VarIsNULL | QueueIsMax | PthShutdown

text \<open>
  \<^verbatim>\<open>threadpool_t\<close>. An array is \<^term>\<open>None\<close> when its pointer is null; a slot of the task
  array is \<^term>\<open>None\<close> until it is written. \<open>freed\<close> records \<^verbatim>\<open>delete pool\<close>.
\<close>

record threadpool =
  mutex_live :: bool
  cond_live :: bool
  threads :: "nat list option"
  Taskqueue :: "task option list"
  queue_size :: nat
  count :: nat
  HeadIndex :: nat
  TailIndex :: nat
  thread_count :: nat
  PthpoolClose :: bool
  started :: int
  freed :: bool

datatype PTHREAD_LINK_STATUS = PTHREAD_STATUS_CLOSE | PTHREAD_STATUS_WORK

record SyinxPthreadPool =
  PthreadStatus :: PTHREAD_LINK_STATUS
  PthPool :: "threadpool option"

definition new_SyinxPthreadPool :: SyinxPthreadPool where
  "new_SyinxPthreadPool = \<lparr>PthreadStatus = PTHREAD_STATUS_CLOSE, PthPool = None\<rparr>"

section \<open>Operations\<close>

text \<open>
  One critical section of \<^verbatim>\<open>SyPthreadPool_thread\<close>, from the test of the inner loop with the
  mutex held: it waits on the condition, goes back to the top of the loop (still holding the
  mutex), leaves the loop, or takes the task at the head.
\<close>

datatype section_result =
    Cond_wait
  | Continue_locked
  | Break_loop
  | Take "task option" threadpool

definition worker_section :: "threadpool \<Rightarrow> section_result" where
  "worker_section p =
     (if count p = 0 \<and> PthpoolClose p = False then Cond_wait
      else if count p = queue_size p then Continue_locked
      else if PthpoolClose p then Break_loop
      else
        (let t = Taskqueue p ! HeadIndex p;
             p1 = p\<lparr>HeadIndex := HeadIndex p + 1\<rparr>;
             p2 = p1\<lparr>HeadIndex := (if HeadIndex p1 = queue_size p1 then 0 else HeadIndex p1)\<rparr>;
             p3 = p2\<lparr>count := count p2 - 1\<rparr>
         in Take t p3))"

definition worker_exit :: "threadpool \<Rightarrow> threadpool" where
  "worker_exit p = p\<lparr>started := started p - 1\<rparr>"

text \<open>The result and the pool as \<^verbatim>\<open>SyPthreadPool_free\<close> leaves it.\<close>

definition SyPthreadPool_free :: "threadpool option \<Rightarrow> bool \<times> threadpool option" where
  "SyPthreadPool_free pool =
     (case pool of
        None \<Rightarrow> (False, None)
      | Some p \<Rightarrow>
          (let p1 = p\<lparr>threads := None, Taskqueue := []\<rparr>;
               p2 = (if threads p1 \<noteq> None then p1\<lparr>mutex_live := False, cond_live := False\<rparr> else p1)
           in (True, Some (p2\<lparr>freed := True\<rparr>))))"

text \<open>
  What a call comes to: it returns a code, with the state of the object and whether the calling
  thread still holds the mutex; it blocks on a mutex it holds; or it goes through a null or
  freed pool.
\<close>

datatype 'a outcome = Returned 'a SyinxPthreadPool bool | Self_deadlock | Bad_pool

text \<open>The loop that creates the threads: one code per call of \<^verbatim>\<open>pthread_create\<close>.\<close>

fun create_threads :: "int list \<Rightarrow> threadpool \<Rightarrow> bool \<times> threadpool" where
  "create_threads [] p = (True, p)"
| "create_threads (rc # rcs) p =
     (if rc \<noteq> 0 then (False, p) else create_threads rcs (p\<lparr>started := started p + 1\<rparr>))"

definition Pool_Initialize ::
    "int \<Rightarrow> int \<Rightarrow> int \<Rightarrow> int list \<Rightarrow> nat \<Rightarrow> SyinxPthreadPool \<Rightarrow> bool \<times> SyinxPthreadPool" where
  "Pool_Initialize mutex_rc cond_rc attr_rc create_rcs qsize this =
     (let p = \<lparr>mutex_live = (mutex_rc = 0), cond_live = (mutex_rc = 0 \<and> cond_rc = 0),
               threads = Some (replicate (length create_rcs) 0),
               Taskqueue = replicate qsize None, queue_size = qsize, count = 0,
               HeadIndex = 0, TailIndex = 0, thread_count = length create_rcs,
               PthpoolClose = False, started = 0, freed = False\<rparr>
      in if mutex_rc \<noteq> 0 then (False, this\<lparr>PthPool := Some p\<rparr>)
         else if cond_rc \<noteq> 0 then (False, this\<lparr>PthPool := Some p\<rparr>)
         else if attr_rc \<noteq> 0 then (False, this\<lparr>PthPool := Some p\<rparr>)
         else
           (let (ok, p1) = create_threads create_rcs p
            in if ok then (True, this\<lparr>PthPool := Some p1, PthreadStatus := PTHREAD_STATUS_WORK\<rparr>)
               else (False, this\<lparr>PthPool := Some p1\<rparr>)))"

text \<open>
  \<^verbatim>\<open>Close\<close>, called by a thread that holds the mutex or not.
\<close>

definition Pool_Close ::
    "int \<Rightarrow> int \<Rightarrow> bool \<Rightarrow> SyinxPthreadPool \<Rightarrow> SyPthreadPoolErr outcome" where
  "Pool_Close lock_rc broadcast_rc holds this0 =
     (let this = this0\<lparr>PthreadStatus := PTHREAD_STATUS_CLOSE\<rparr>
      in case PthPool this of
           None \<Rightarrow> Bad_pool
         | Some p \<Rightarrow>
             if freed p then Bad_pool
             else if holds then Self_deadlock
             else if lock_rc \<noteq> 0 then Returned LockErr this False
             else if broadcast_rc \<noteq> 0 then Returned CondSignalErr this True
             else (let (ok, p') = SyPthreadPool_free (Some p)
                   in Returned (if ok then Success else PoolErr) (this\<lparr>PthPool := p'\<rparr>) False))"

text \<open>The stores of \<^verbatim>\<open>AddTaskFunc\<close>; \<open>i\<close> is the next tail index it has computed.\<close>

definition push_task :: "nat \<Rightarrow> ptr \<Rightarrow> ptr \<Rightarrow> threadpool \<Rightarrow> threadpool" where
  "push_task i callback a p =
     (let p1 = p\<lparr>Taskqueue := (Taskqueue p)[TailIndex p :=
                   Some \<lparr>startfunc = callback, arg = a\<rparr>]\<rparr>;
          p2 = p1\<lparr>TailIndex := i\<rparr>
      in p2\<lparr>count := count p2 + 1\<rparr>)"

definition AddTaskFunc ::
    "int \<Rightarrow> int \<Rightarrow> ptr \<Rightarrow> ptr \<Rightarrow> SyinxPthreadPool \<Rightarrow> SyPthreadPoolErr outcome" where
  "AddTaskFunc lock_rc signal_rc callback a this =
     (if callback = 0 then Returned VarIsNULL this False
      else case PthPool this of
        None \<Rightarrow> Bad_pool
      | Some p \<Rightarrow>
          if freed p then Bad_pool
          else if lock_rc \<noteq> 0 then Returned LockErr this False
          else
            (let i = TailIndex p + 1;
                 i = (if i = queue_size p then 0 else i)
             in if queue_size p = count p then Returned QueueIsMax this True
                else if PthpoolClose p then Pool_Close 0 0 True this
                else
                  (let this' = this\<lparr>PthPool := Some (push_task i callback a p)\<rparr>
                   in if signal_rc \<noteq> 0 then Returned CondSignalErr this' True
                      else Returned Success this' False)))"

section \<open>The ring buffer is a queue\<close>

definition ring_inv :: "threadpool \<Rightarrow> bool" where
  "ring_inv p \<longleftrightarrow> length (Taskqueue p) = queue_size p \<and> count p \<le> queue_size p \<and>
     (0 < queue_size p \<longrightarrow> HeadIndex p < queue_size p \<and>
        TailIndex p = (HeadIndex p + count p) mod queue_size p)"

definition ring_list :: "threadpool \<Rightarrow> task option list" where
  "ring_list p = map (\<lambda>i. Taskqueue p ! ((HeadIndex p + i) mod queue_size p)) [0..<count p]"

text \<open>
  What a bounded queue promises its users: an accepted element goes to the back, the element
  handed out is the one at the front, and nothing else changes.
\<close>

locale bounded_fifo =
  fixes elems :: "'q \<Rightarrow> 'x list"
    and inv :: "'q \<Rightarrow> bool"
    and enqueue :: "'x \<Rightarrow> 'q \<Rightarrow> 'q option"
    and dequeue :: "'q \<Rightarrow> ('x \<times> 'q) option"
  assumes enqueue_elems: "inv q \<Longrightarrow> enqueue x q = Some q' \<Longrightarrow> elems q' = elems q @ [x]"
    and enqueue_inv: "inv q \<Longrightarrow> enqueue x q = Some q' \<Longrightarrow> inv q'"
    and dequeue_elems: "inv q \<Longrightarrow> dequeue q = Some (x, q') \<Longrightarrow> elems q = x # elems q'"
    and dequeue_inv: "inv q \<Longrightarrow> dequeue q = Some (x, q') \<Longrightarrow> inv q'"
begin

text \<open>A queue with the history of what went in and what came out of it.\<close>

definition history :: "'x list \<Rightarrow> 'x list \<Rightarrow> 'q \<Rightarrow> bool" where
  "history ins outs q \<longleftrightarrow> inv q \<and> ins = outs @ elems q"

lemma history_enqueue:
  "history ins outs q \<Longrightarrow> enqueue x q = Some q' \<Longrightarrow> history (ins @ [x]) outs q'"
  by (auto simp: history_def enqueue_elems enqueue_inv)

lemma history_dequeue:
  "history ins outs q \<Longrightarrow> dequeue q = Some (x, q') \<Longrightarrow> history ins (outs @ [x]) q'"
  by (auto simp: history_def dequeue_elems dequeue_inv)

end

text \<open>The two operations of the ring, as the pool and its threads perform them.\<close>

definition ring_put :: "task option \<Rightarrow> threadpool \<Rightarrow> threadpool option" where
  "ring_put t p = (case t of None \<Rightarrow> None | Some tk \<Rightarrow>
     (case AddTaskFunc 0 0 (startfunc tk) (arg tk)
         \<lparr>PthreadStatus = PTHREAD_STATUS_WORK, PthPool = Some p\<rparr> of
        Returned Success s _ \<Rightarrow> PthPool s
      | _ \<Rightarrow> None))"

definition ring_take :: "threadpool \<Rightarrow> (task option \<times> threadpool) option" where
  "ring_take p = (case worker_section p of Take t p' \<Rightarrow> Some (t, p') | _ \<Rightarrow> None)"

lemma ring_list_nth:
  "i < count p \<Longrightarrow> ring_list p ! i = Taskqueue p ! ((HeadIndex p + i) mod queue_size p)"
  by (simp add: ring_list_def)

lemma length_ring_list [simp]: "length (ring_list p) = count p"
  by (simp add: ring_list_def)

lemma next_index:
  fixes i n :: nat
  assumes "i < n"
  shows "(if i + 1 = n then 0 else i + 1) = (i + 1) mod n"
  using assms by (simp add: mod_less)

lemma ring_slots_distinct:
  fixes h :: nat
  assumes "i < j" and "j < n"
  shows "(h + i) mod n \<noteq> (h + j) mod n"
proof
  assume "(h + i) mod n = (h + j) mod n"
  then have "i mod n = j mod n"
    by (simp add: nat_mod_eq_iff)
  with assms show False by simp
qed

definition next_tail :: "threadpool \<Rightarrow> nat" where
  "next_tail p = (if TailIndex p + 1 = queue_size p then 0 else TailIndex p + 1)"

lemma push_task_fields [field_frames]:
  "queue_size (push_task i c a p) = queue_size p"
  "HeadIndex (push_task i c a p) = HeadIndex p"
  "count (push_task i c a p) = count p + 1"
  "TailIndex (push_task i c a p) = i"
  "PthpoolClose (push_task i c a p) = PthpoolClose p"
  "freed (push_task i c a p) = freed p"
  by (simp_all add: push_task_def Let_def)

lemma ring_list_push [abs_laws]:
  assumes "ring_inv p" and "count p < queue_size p"
  shows "ring_list (push_task (next_tail p) c a p) =
    ring_list p @ [Some \<lparr>startfunc = c, arg = a\<rparr>]"
proof (rule nth_equalityI)
  fix i
  assume "i < length (ring_list (push_task (next_tail p) c a p))"
  then have i: "i < count p \<or> i = count p"
    by (auto simp: field_frames)
  have tail: "TailIndex p = (HeadIndex p + count p) mod queue_size p"
    and "TailIndex p < length (Taskqueue p)"
    using assms by (auto simp: ring_inv_def)
  then show "ring_list (push_task (next_tail p) c a p) ! i =
      (ring_list p @ [Some \<lparr>startfunc = c, arg = a\<rparr>]) ! i"
    using i assms ring_slots_distinct [of i "count p" "queue_size p" "HeadIndex p"]
    by (auto simp: ring_list_nth field_frames nth_append push_task_def Let_def)
qed (simp add: field_frames)

lemma ring_inv_push [inv_keeps]:
  assumes "ring_inv p" and "count p < queue_size p"
  shows "ring_inv (push_task (next_tail p) c a p)"
proof -
  have "next_tail p = (HeadIndex p + (count p + 1)) mod queue_size p"
    using assms next_index [of "TailIndex p" "queue_size p"]
    by (simp add: ring_inv_def next_tail_def mod_Suc_eq)
  with assms show ?thesis
    by (simp add: ring_inv_def field_frames) (simp add: push_task_def Let_def)
qed

lemma worker_section_Take:
  "worker_section p = Take t p' \<longleftrightarrow>
    count p \<noteq> queue_size p \<and> \<not> PthpoolClose p \<and> count p \<noteq> 0 \<and> t = Taskqueue p ! HeadIndex p \<and>
    p' = p\<lparr>HeadIndex := (if HeadIndex p + 1 = queue_size p then 0 else HeadIndex p + 1),
           count := count p - 1\<rparr>"
  by (auto simp: worker_section_def Let_def)

lemma ring_list_take:
  assumes "ring_inv p" and "worker_section p = Take t p'"
  shows "ring_list p = t # ring_list p'" and "ring_inv p'"
proof -
  from assms have p': "p' = p\<lparr>HeadIndex := (HeadIndex p + 1) mod queue_size p, count := count p - 1\<rparr>"
    and t: "t = Taskqueue p ! HeadIndex p" and c: "0 < count p" "count p < queue_size p"
    and h: "HeadIndex p < queue_size p"
    using next_index [of "HeadIndex p" "queue_size p"]
    by (auto simp: worker_section_Take ring_inv_def)
  show "ring_list p = t # ring_list p'"
  proof (rule nth_equalityI)
    fix i
    assume "i < length (ring_list p)"
    then show "ring_list p ! i = (t # ring_list p') ! i"
      using c h by (cases i) (auto simp: p' t ring_list_nth mod_add_left_eq)
  qed (use c in \<open>simp add: p'\<close>)
  have "(HeadIndex p + count p) mod queue_size p =
      ((HeadIndex p + 1) mod queue_size p + (count p - 1)) mod queue_size p"
    using c by (cases "count p") (simp_all add: mod_add_left_eq)
  with assms c show "ring_inv p'"
    by (auto simp: p' ring_inv_def)
qed

lemma AddTaskFunc_accepts:
  assumes "PthPool this = Some p" and "\<not> freed p" and "\<not> PthpoolClose p"
    and "callback \<noteq> 0" and "count p \<noteq> queue_size p"
  shows "AddTaskFunc 0 0 callback a this =
    Returned Success (this\<lparr>PthPool := Some (push_task (next_tail p) callback a p)\<rparr>) False"
  using assms by (simp add: AddTaskFunc_def next_tail_def Let_def)

lemma ring_put_Some:
  assumes "ring_inv p" and "ring_put t p = Some p'"
  obtains tk where "t = Some tk" and "p' = push_task (next_tail p) (startfunc tk) (arg tk) p"
    and "count p < queue_size p"
  using assms
  by (auto simp: ring_put_def AddTaskFunc_def Pool_Close_def Let_def next_tail_def ring_inv_def
      split: option.splits if_splits)

interpretation ring: bounded_fifo ring_list ring_inv ring_put ring_take
proof
  fix p t p'
  assume p: "ring_inv p" and "ring_put t p = Some p'"
  then obtain tk where "t = Some tk" and "p' = push_task (next_tail p) (startfunc tk) (arg tk) p"
    and "count p < queue_size p"
    by (rule ring_put_Some)
  with p show "ring_list p' = ring_list p @ [t]" and "ring_inv p'"
    by (simp_all add: ring_list_push ring_inv_push)
next
  fix p t p'
  assume "ring_inv p" and "ring_take p = Some (t, p')"
  then show "ring_list p = t # ring_list p'" and "ring_inv p'"
    using ring_list_take [of p t p'] by (auto simp: ring_take_def split: section_result.splits)
qed

end
