(* ===== verification/PoolThreads.thy ===== *)
theory PoolThreads
  imports ThreadPool
begin

text \<open>
  The threads of the pool as a step relation: any number of workers in the loop of
  \<^verbatim>\<open>SyPthreadPool_thread\<close> and one thread that calls \<^verbatim>\<open>AddTaskFunc\<close>. What a thread does while it
  holds the mutex is one step, except that a worker that goes back to the top of its loop does
  so with the mutex still held. \<^verbatim>\<open>pthread_cond_wait\<close> may wake a thread at any time, so the
  signal of \<^verbatim>\<open>AddTaskFunc\<close> is covered by the step that wakes a waiting worker. The two last
  fields record the tasks that went into the queue and the tasks that workers took.
\<close>

section \<open>States and steps\<close>

datatype thread_id = Main_thread | Worker nat

datatype worker_pc =
    At_lock | In_section | Waiting | Woken | Running "task option" | Exited

record sys =
  obj :: SyinxPthreadPool
  owner :: "thread_id option"
  pcs :: "nat \<Rightarrow> worker_pc"
  ins :: "task option list"
  outs :: "task option list"

definition set_pc :: "nat \<Rightarrow> worker_pc \<Rightarrow> sys \<Rightarrow> sys" where
  "set_pc i c s = s\<lparr>pcs := (pcs s)(i := c)\<rparr>"

definition pool_init :: "nat \<Rightarrow> nat \<Rightarrow> sys" where
  "pool_init n qsize =
     \<lparr>obj = snd (Pool_Initialize 0 0 0 (replicate n 0) qsize new_SyinxPthreadPool),
      owner = None, pcs = (\<lambda>i. if i < n then At_lock else Exited), ins = [], outs = []\<rparr>"

inductive pool_step :: "sys \<Rightarrow> sys \<Rightarrow> bool" where
  lock: "pcs s i = At_lock \<Longrightarrow> owner s = None \<Longrightarrow>
    pool_step s (set_pc i In_section (s\<lparr>owner := Some (Worker i)\<rparr>))"
| wait: "pcs s i = In_section \<Longrightarrow> PthPool (obj s) = Some p \<Longrightarrow> worker_section p = Cond_wait \<Longrightarrow>
    pool_step s (set_pc i Waiting (s\<lparr>owner := None\<rparr>))"
| wake: "pcs s i = Waiting \<Longrightarrow> pool_step s (set_pc i Woken s)"
| relock: "pcs s i = Woken \<Longrightarrow> owner s = None \<Longrightarrow>
    pool_step s (set_pc i In_section (s\<lparr>owner := Some (Worker i)\<rparr>))"
| go_on: "pcs s i = In_section \<Longrightarrow> PthPool (obj s) = Some p \<Longrightarrow>
    worker_section p = Continue_locked \<Longrightarrow> pool_step s (set_pc i At_lock s)"
| take_task: "pcs s i = In_section \<Longrightarrow> PthPool (obj s) = Some p \<Longrightarrow>
    worker_section p = Take t p' \<Longrightarrow>
    pool_step s (set_pc i (Running t)
      (s\<lparr>obj := (obj s)\<lparr>PthPool := Some p'\<rparr>, owner := None, outs := outs s @ [t]\<rparr>))"
| finish: "pcs s i = Running t \<Longrightarrow> pool_step s (set_pc i At_lock s)"
| leave: "pcs s i = In_section \<Longrightarrow> PthPool (obj s) = Some p \<Longrightarrow> worker_section p = Break_loop \<Longrightarrow>
    pool_step s (set_pc i Exited
      (s\<lparr>obj := (obj s)\<lparr>PthPool := Some (worker_exit p)\<rparr>, owner := None\<rparr>))"
| add: "owner s = None \<Longrightarrow> AddTaskFunc 0 0 callback a (obj s) = Returned rc o' held \<Longrightarrow>
    pool_step s (s\<lparr>obj := o', owner := (if held then Some Main_thread else None),
      ins := (if rc = Success then ins s @ [Some \<lparr>startfunc = callback, arg = a\<rparr>] else ins s)\<rparr>)"

lemma set_pc_fields [simp]:
  "obj (set_pc i c s) = obj s" "owner (set_pc i c s) = owner s"
  "pcs (set_pc i c s) = (pcs s)(i := c)"
  "ins (set_pc i c s) = ins s" "outs (set_pc i c s) = outs s"
  by (simp_all add: set_pc_def)

section \<open>The invariant\<close>

definition pool_live :: "nat \<Rightarrow> nat \<Rightarrow> threadpool \<Rightarrow> bool" where
  "pool_live n qsize p \<longleftrightarrow> \<not> freed p \<and> \<not> PthpoolClose p \<and> queue_size p = qsize \<and>
     started p = int n \<and> mutex_live p \<and> cond_live p \<and> threads p \<noteq> None"

definition sys_inv :: "nat \<Rightarrow> nat \<Rightarrow> sys \<Rightarrow> bool" where
  "sys_inv n qsize s \<longleftrightarrow>
     (\<exists>p. PthPool (obj s) = Some p \<and> pool_live n qsize p \<and> ring.history (ins s) (outs s) p) \<and>
     (\<forall>i. pcs s i = In_section \<longrightarrow> owner s = Some (Worker i))"

lemma create_threads_zero:
  "create_threads (replicate n 0) p = (True, p\<lparr>started := started p + int n\<rparr>)"
  by (induction n arbitrary: p) auto

lemma sys_inv_init: "sys_inv n qsize (pool_init n qsize)"
  by (auto simp: sys_inv_def pool_init_def Pool_Initialize_def create_threads_zero Let_def
      pool_live_def ring.history_def ring_inv_def ring_list_def)

lemma AddTaskFunc_cases:
  assumes "AddTaskFunc 0 0 callback a this = Returned rc o' held"
    and "PthPool this = Some p" and "\<not> freed p" and "\<not> PthpoolClose p"
  obtains "rc = VarIsNULL" "o' = this" "\<not> held"
  | "rc = QueueIsMax" "o' = this" "held" "count p = queue_size p"
  | "rc = Success" "\<not> held" "count p \<noteq> queue_size p"
    "o' = this\<lparr>PthPool := Some (push_task (next_tail p) callback a p)\<rparr>"
  using assms by (auto simp: AddTaskFunc_def Let_def next_tail_def split: if_splits)

lemma pool_live_push [inv_keeps]:
  "pool_live n qsize p \<Longrightarrow> pool_live n qsize (push_task i c a p)"
  by (simp add: pool_live_def push_task_def Let_def)

lemma pool_live_take:
  "pool_live n qsize p \<Longrightarrow> worker_section p = Take t p' \<Longrightarrow> pool_live n qsize p'"
  by (simp add: pool_live_def worker_section_Take)

lemma history_push:
  assumes "ring.history is os p" and "count p \<noteq> queue_size p"
  shows "ring.history (is @ [Some \<lparr>startfunc = c, arg = a\<rparr>]) os (push_task (next_tail p) c a p)"
  using assms by (auto simp: ring.history_def ring_list_push ring_inv_push ring_inv_def [of p])

lemma history_take:
  assumes "ring.history is os p" and "worker_section p = Take t p'"
  shows "ring.history is (os @ [t]) p'"
  using ring.history_dequeue [OF assms(1)] assms(2) by (simp add: ring_take_def)

lemma pool_live_not_break: "pool_live n qsize p \<Longrightarrow> worker_section p \<noteq> Break_loop"
  by (simp add: pool_live_def worker_section_def Let_def)

lemma sys_inv_unique:
  "sys_inv n qsize s \<Longrightarrow> pcs s i = In_section \<Longrightarrow> pcs s j = In_section \<Longrightarrow> i = j"
  unfolding sys_inv_def by (metis option.inject thread_id.inject)

lemma pool_step_inv [inv_keeps]: "pool_step s s' \<Longrightarrow> sys_inv n qsize s \<Longrightarrow> sys_inv n qsize s'"
proof (induction rule: pool_step.induct)
  case (wait s i p)
  then have "\<forall>j. j \<noteq> i \<longrightarrow> pcs s j \<noteq> In_section"
    using sys_inv_unique by blast
  with wait show ?case by (auto simp: sys_inv_def)
next
  case (go_on s i p)
  then have "\<forall>j. j \<noteq> i \<longrightarrow> pcs s j \<noteq> In_section"
    using sys_inv_unique by blast
  with go_on show ?case by (auto simp: sys_inv_def)
next
  case (take_task s i p t p')
  then have "\<forall>j. j \<noteq> i \<longrightarrow> pcs s j \<noteq> In_section"
    using sys_inv_unique by blast
  with take_task show ?case
    by (auto simp: sys_inv_def pool_live_take history_take)
next
  case (leave s i p)
  then show ?case
    by (auto simp: sys_inv_def dest: pool_live_not_break)
next
  case (add s callback a rc o' held)
  then obtain p where p: "PthPool (obj s) = Some p" "pool_live n qsize p"
      "ring.history (ins s) (outs s) p"
    and none: "\<forall>i. pcs s i \<noteq> In_section"
    by (auto simp: sys_inv_def)
  from p(2) have "\<not> freed p" and "\<not> PthpoolClose p" by (simp_all add: pool_live_def)
  with add(2) p(1) show ?case
    by (rule AddTaskFunc_cases)
      (use p none in \<open>auto simp: sys_inv_def intro!: history_push pool_live_push\<close>)
qed (auto simp: sys_inv_def)

lemma reachable_inv:
  assumes "pool_step\<^sup>*\<^sup>* (pool_init n qsize) s"
  shows "sys_inv n qsize s"
  using assms by (induction rule: rtranclp_induct) (auto intro: sys_inv_init pool_step_inv)


section \<open>Tasks are handed out in order, once, under mutual exclusion\<close>

text \<open>
  C5: in every state the threads can reach, at most one worker is in its critical section, and
  the tasks accepted so far are, in order, the tasks taken so far followed by the tasks in the
  ring, which never holds more than its capacity: no task is lost, duplicated or overtaken.
\<close>

theorem pool_fifo:
  assumes "pool_step\<^sup>*\<^sup>* (pool_init n qsize) s"
  shows "(\<exists>p. PthPool (obj s) = Some p \<and> ins s = outs s @ ring_list p \<and>
      length (ring_list p) \<le> qsize) \<and>
    (\<forall>i j. pcs s i = In_section \<and> pcs s j = In_section \<longrightarrow> i = j)"
proof -
  from reachable_inv [OF assms] obtain p where p: "PthPool (obj s) = Some p"
      "pool_live n qsize p" "ring.history (ins s) (outs s) p"
    by (auto simp: sys_inv_def)
  then have "ins s = outs s @ ring_list p" and "length (ring_list p) \<le> qsize"
    by (auto simp: ring.history_def ring_inv_def pool_live_def)
  with p(1) show ?thesis
    using sys_inv_unique [OF reachable_inv [OF assms]] by blast
qed

text \<open>A run of one worker and one task, with room for two tasks.\<close>

definition demo_run :: "sys list" where
  "demo_run =
     (let s0 = pool_init 1 2;
          s1 = s0\<lparr>obj := (obj s0)\<lparr>PthPool := Some (push_task 1 5 7 (the (PthPool (obj s0))))\<rparr>,
                  ins := [Some \<lparr>startfunc = 5, arg = 7\<rparr>]\<rparr>;
          s2 = set_pc 0 In_section (s1\<lparr>owner := Some (Worker 0)\<rparr>);
          p2 = the (PthPool (obj s2))
      in [s0, s1, s2,
          set_pc 0 (Running (Some \<lparr>startfunc = 5, arg = 7\<rparr>))
            (s2\<lparr>obj := (obj s2)\<lparr>PthPool := Some (p2\<lparr>HeadIndex := 1, count := 0\<rparr>)\<rparr>,
                owner := None, outs := [Some \<lparr>startfunc = 5, arg = 7\<rparr>]\<rparr>)])"

lemma pool_init_pool:
  "PthPool (obj (pool_init n qsize)) = Some
     \<lparr>mutex_live = True, cond_live = True, threads = Some (replicate n 0),
      Taskqueue = replicate qsize None, queue_size = qsize, count = 0, HeadIndex = 0,
      TailIndex = 0, thread_count = n, PthpoolClose = False, started = int n, freed = False\<rparr>"
  by (simp add: pool_init_def Pool_Initialize_def create_threads_zero Let_def)

lemma demo_add:
  assumes "1 < qsize"
  shows "pool_step (pool_init 1 qsize)
    ((pool_init 1 qsize)\<lparr>obj := (obj (pool_init 1 qsize))\<lparr>PthPool :=
        Some (push_task 1 5 7 (the (PthPool (obj (pool_init 1 qsize)))))\<rparr>,
      ins := [Some \<lparr>startfunc = 5, arg = 7\<rparr>]\<rparr>)"
proof -
  let ?s = "pool_init 1 qsize"
  have "AddTaskFunc 0 0 5 7 (obj ?s) = Returned Success
      ((obj ?s)\<lparr>PthPool := Some (push_task 1 5 7 (the (PthPool (obj ?s))))\<rparr>) False"
    using assms by (simp add: AddTaskFunc_accepts pool_init_pool next_tail_def)
  from pool_step.add [OF _ this] show ?thesis
    by (simp add: pool_init_def)
qed

lemma demo_reachable: "pool_step\<^sup>*\<^sup>* (pool_init 1 2) (demo_run ! 3)"
proof -
  have start: "demo_run ! 0 = pool_init 1 2"
    by (simp add: demo_run_def Let_def)
  have "pool_step (demo_run ! 0) (demo_run ! 1)"
    using demo_add [of 2] by (simp add: demo_run_def Let_def)
  moreover have "pool_step (demo_run ! 1) (demo_run ! 2)"
    using pool_step.lock [of "demo_run ! 1" 0]
    by (simp add: demo_run_def Let_def pool_init_def)
  moreover have "pool_step (demo_run ! 2) (demo_run ! 3)"
  proof -
    have "worker_section (the (PthPool (obj (demo_run ! 2)))) =
        Take (Some \<lparr>startfunc = 5, arg = 7\<rparr>)
          ((the (PthPool (obj (demo_run ! 2))))\<lparr>HeadIndex := 1, count := 0\<rparr>)"
      by (simp add: demo_run_def Let_def pool_init_pool worker_section_Take push_task_def
          eval_nat_numeral)
    from pool_step.take_task [OF _ _ this, of "demo_run ! 2" 0] show ?thesis
      by (simp add: demo_run_def Let_def pool_init_pool pool_init_def eval_nat_numeral)
  qed
  ultimately show ?thesis
    unfolding start by (blast intro: converse_rtranclp_into_rtranclp)
qed


lemma pool_fifo_witness:
  "pool_step\<^sup>*\<^sup>* (pool_init 1 2) (demo_run ! 3) \<and>
   (\<exists>p. PthPool (obj (demo_run ! 3)) = Some p \<and>
     [Some \<lparr>startfunc = 5, arg = 7\<rparr>] = outs (demo_run ! 3) @ ring_list p)"
proof -
  have "ins (demo_run ! 3) = [Some \<lparr>startfunc = 5, arg = 7\<rparr>]"
    by (simp add: demo_run_def Let_def set_pc_def)
  with pool_fifo [OF demo_reachable] demo_reachable show ?thesis by auto
qed

section \<open>A full queue\<close>

definition pool_full :: "sys \<Rightarrow> bool" where
  "pool_full s \<longleftrightarrow> (\<exists>p. PthPool (obj s) = Some p \<and> count p = queue_size p)"

lemma full_step:
  assumes "pool_step s s'" and "sys_inv n qsize s" and "pool_full s"
  shows "pool_full s'" and "PthPool (obj s') = PthPool (obj s)"
    and "outs s' = outs s" and "ins s' = ins s"
proof -
  from assms(2,3) obtain p where p: "PthPool (obj s) = Some p" "pool_live n qsize p"
      "count p = queue_size p"
    by (auto simp: sys_inv_def pool_full_def)
  have "PthPool (obj s') = Some p \<and> outs s' = outs s \<and> ins s' = ins s"
    using assms(1)
  proof cases
    case (add callback a rc o' held)
    from p have "\<not> freed p" and "\<not> PthpoolClose p" by (simp_all add: pool_live_def)
    with add(3) p(1) show ?thesis
      by (rule AddTaskFunc_cases) (use p add in auto)
  next
    case (leave i q)
    with p show ?thesis by (auto dest: pool_live_not_break)
  qed (use p in \<open>auto simp: worker_section_Take\<close>)
  with p show "pool_full s'" and "PthPool (obj s') = PthPool (obj s)"
    and "outs s' = outs s" and "ins s' = ins s"
    by (auto simp: pool_full_def)
qed

lemma full_owner_step:
  assumes "pool_step s s'" and "sys_inv n qsize s" and "pool_full s" and "0 < qsize"
    and "owner s = Some t"
  shows "owner s' = Some t"
proof -
  from assms(2,3) obtain p where p: "PthPool (obj s) = Some p" "pool_live n qsize p"
      "count p = queue_size p"
    by (auto simp: sys_inv_def pool_full_def)
  with assms(4) have w: "worker_section p = Continue_locked"
    by (simp add: worker_section_def pool_live_def)
  from assms(1) show ?thesis
    by cases (use p w assms(5) in auto)
qed

lemma full_run:
  assumes "pool_step\<^sup>*\<^sup>* s s'" and "sys_inv n qsize s" and "pool_full s"
  shows "sys_inv n qsize s' \<and> pool_full s' \<and> PthPool (obj s') = PthPool (obj s) \<and>
    outs s' = outs s \<and> ins s' = ins s \<and>
    (\<forall>t. 0 < qsize \<and> owner s = Some t \<longrightarrow> owner s' = Some t)"
  using assms
proof (induction rule: rtranclp_induct)
  case (step y z)
  then have "sys_inv n qsize y" and "pool_full y" by auto
  with step full_step [OF step(2), of n qsize] pool_step_inv [OF step(2), of n qsize]
    full_owner_step [OF step(2), of n qsize]
  show ?case by metis
qed auto

text \<open>
  C6: once the ring is full it stays full: from any reachable state with \<^verbatim>\<open>count\<close> equal to
  \<^verbatim>\<open>queue_size\<close>, whatever the threads do, no task is taken any more and none is accepted, and
  the first thread that then holds the mutex (a worker that came to the test of the full queue,
  or the caller \<^verbatim>\<open>AddTaskFunc\<close> told \<^verbatim>\<open>QueueIsMax\<close>) holds it for ever.
\<close>

theorem pool_full_forever:
  assumes "pool_step\<^sup>*\<^sup>* (pool_init n qsize) s" and "PthPool (obj s) = Some p"
    and "count p = queue_size p" and "pool_step\<^sup>*\<^sup>* s s'"
  shows "PthPool (obj s') = Some p \<and> outs s' = outs s \<and> ins s' = ins s \<and>
    (\<forall>t. 0 < qsize \<and> owner s = Some t \<longrightarrow> owner s' = Some t)"
  using full_run [OF assms(4) reachable_inv [OF assms(1)]] assms(2,3)
  by (auto simp: pool_full_def)

lemma pool_full_forever_witness:
  "\<exists>s s'. pool_step\<^sup>*\<^sup>* (pool_init 1 1) s \<and> pool_step s s' \<and>
     owner s' = Some Main_thread \<and> outs s' = []"
proof -
  let ?s0 = "pool_init 1 1"
  let ?p = "push_task 0 5 7 (the (PthPool (obj ?s0)))"
  let ?s1 = "?s0\<lparr>obj := (obj ?s0)\<lparr>PthPool := Some ?p\<rparr>,
      ins := [Some \<lparr>startfunc = 5, arg = 7\<rparr>]\<rparr>"
  let ?s2 = "?s1\<lparr>owner := Some Main_thread\<rparr>"
  have "AddTaskFunc 0 0 5 7 (obj ?s0) = Returned Success (obj ?s1) False"
    by (simp add: AddTaskFunc_accepts pool_init_pool next_tail_def)
  from pool_step.add [OF _ this] have 1: "pool_step ?s0 ?s1"
    by (simp add: pool_init_def)
  have "AddTaskFunc 0 0 5 7 (obj ?s1) = Returned QueueIsMax (obj ?s1) True"
    by (simp add: AddTaskFunc_def pool_init_pool push_task_def Let_def)
  from pool_step.add [OF _ this] have 2: "pool_step ?s1 ?s2"
    by (simp add: pool_init_def)
  have r: "pool_step\<^sup>*\<^sup>* ?s0 ?s1" using 1 by blast
  have f: "PthPool (obj ?s1) = Some ?p" "count ?p = queue_size ?p"
    by (simp_all add: pool_init_pool push_task_def Let_def)
  from pool_full_forever [OF r f, of ?s2] 2 have "outs ?s2 = outs ?s1" by blast
  then have "outs ?s2 = []" by (simp add: pool_init_def)
  with r 2 show ?thesis by (intro exI [of _ ?s1] exI [of _ ?s2]) simp
qed

section \<open>Below capacity\<close>



section \<open>Shutting down\<close>



end
