(* ===== verification/Ini.thy ===== *)
theory Ini
  imports Prelude
begin

text \<open>
  The INI parser \<^verbatim>\<open>pkg/inih/ini.c\<close>, built with the default macros of \<^verbatim>\<open>ini.h\<close>: a
  stack buffer of \<^verbatim>\<open>INI_MAX_LINE\<close> bytes, multi-line values, the UTF-8 byte order mark,
  inline comments, no stop at the first error, no handler call on a section line.

  A C string is the list of its characters without the NUL. The functions that return a
  pointer into their argument return the suffix it points at (and the prefix before it,
  which the caller cuts off by writing a NUL). A handler is a function that threads the
  user's data and returns its success flag.
\<close>

section \<open>Configuration\<close>

definition MAX_SECTION :: nat where "MAX_SECTION = 50"
definition MAX_NAME :: nat where "MAX_NAME = 50"
definition INI_MAX_LINE :: nat where "INI_MAX_LINE = 200"
definition INI_START_COMMENT_PREFIXES :: string where "INI_START_COMMENT_PREFIXES = '';#''"
definition INI_INLINE_COMMENT_PREFIXES :: string where "INI_INLINE_COMMENT_PREFIXES = '';''"

section \<open>String helpers\<close>

definition rstrip :: "string \<Rightarrow> string" where
  "rstrip s = rev (dropWhile isspace (rev s))"

definition lskip :: "string \<Rightarrow> string" where
  "lskip s = dropWhile isspace s"

text \<open>
  The loop of \<^verbatim>\<open>find_chars_or_comment\<close>: the characters passed over and the string at the
  returned pointer. \<open>chars\<close> is \<^term>\<open>None\<close> for a null pointer.
\<close>

fun find_loop :: "string option \<Rightarrow> bool \<Rightarrow> string \<Rightarrow> string \<times> string" where
  "find_loop chars was_space [] = ([], [])"
| "find_loop chars was_space (c # s) =
     (if (case chars of None \<Rightarrow> False | Some cs \<Rightarrow> c \<in> set cs) \<or>
         (was_space \<and> c \<in> set INI_INLINE_COMMENT_PREFIXES)
      then ([], c # s)
      else (let (before, rest) = find_loop chars (isspace c) s in (c # before, rest)))"

definition find_chars_or_comment :: "string \<Rightarrow> string option \<Rightarrow> string \<times> string" where
  "find_chars_or_comment s chars = find_loop chars False s"

text \<open>The C string left in a buffer of \<open>n\<close> bytes.\<close>

definition strncpy0 :: "string \<Rightarrow> nat \<Rightarrow> string" where
  "strncpy0 src n = take (n - 1) src"

section \<open>Parsing a stream\<close>

type_synonym 'u ini_handler = "'u \<Rightarrow> string \<Rightarrow> string \<Rightarrow> string \<Rightarrow> bool \<times> 'u"

record 'u ini_state =
  ini_user :: 'u
  ini_section :: string
  prev_name :: string
  lineno :: nat
  ini_error :: nat

text \<open>\<^verbatim>\<open>if (!HANDLER(user, section, name, value) && !error) error = lineno;\<close>\<close>

definition call_handler ::
    "'u ini_handler \<Rightarrow> 'u ini_state \<Rightarrow> string \<Rightarrow> string \<Rightarrow> 'u ini_state" where
  "call_handler h s name val =
     (let (ok, u) = h (ini_user s) (ini_section s) name val;
          s' = s\<lparr>ini_user := u\<rparr>
      in if \<not> ok \<and> ini_error s' = 0 then s'\<lparr>ini_error := lineno s'\<rparr> else s')"

definition set_error :: "'u ini_state \<Rightarrow> 'u ini_state" where
  "set_error s = (if ini_error s = 0 then s\<lparr>ini_error := lineno s\<rparr> else s)"

text \<open>
  The body of the loop of \<^verbatim>\<open>ini_parse_stream\<close> for one line. \<open>off\<close> is
  \<^verbatim>\<open>start - line\<close>. \<^verbatim>\<open>strchr\<close> finds the NUL of its first argument, so an empty
  line takes the branch of the comments.
\<close>

definition ini_line :: "'u ini_handler \<Rightarrow> 'u ini_state \<Rightarrow> string \<Rightarrow> 'u ini_state" where
  "ini_line h s0 line =
     (let s = s0\<lparr>lineno := lineno s0 + 1\<rparr>;
          bom = (if lineno s = 1 \<and> take 3 line = [CHR 0xEF, CHR 0xBB, CHR 0xBF] then 3 else 0);
          stripped = rstrip (drop bom line);
          start = lskip stripped;
          off = bom + (length stripped - length start)
      in if start = [] \<or> hd start \<in> set INI_START_COMMENT_PREFIXES then s
         else if prev_name s \<noteq> [] \<and> 0 < off then call_handler h s (prev_name s) start
         else if hd start = CHR ''['' then
           (let (sec, rest) = find_chars_or_comment (tl start) (Some '']'')
            in if rest \<noteq> [] \<and> hd rest = CHR '']''
               then s\<lparr>ini_section := strncpy0 sec MAX_SECTION, prev_name := []\<rparr>
               else set_error s)
         else
           (let (nm, rest) = find_chars_or_comment start (Some ''=:'')
            in if rest \<noteq> [] \<and> (hd rest = CHR ''='' \<or> hd rest = CHR '':'') then
                 (let name = rstrip nm;
                      val = rstrip (lskip (fst (find_chars_or_comment (tl rest) None)))
                  in call_handler h (s\<lparr>prev_name := strncpy0 name MAX_NAME\<rparr>) name val)
               else set_error s))"

text \<open>
  The loop over the lines a reader returns. The reader takes the size of the line buffer
  and the stream, and returns the bytes it stored and the stream after them, or
  \<^term>\<open>None\<close> for a null pointer. Whether the loop ends depends on the reader.
\<close>

type_synonym 'st ini_reader = "nat \<Rightarrow> 'st \<Rightarrow> (string \<times> 'st) option"

partial_function (option) ini_loop ::
    "'st ini_reader \<Rightarrow> 'u ini_handler \<Rightarrow> 'u ini_state \<Rightarrow> 'st \<Rightarrow> 'u ini_state option" where
  "ini_loop reader h s st =
     (case reader INI_MAX_LINE st of
        None \<Rightarrow> Some s
      | Some (buf, st') \<Rightarrow> ini_loop reader h (ini_line h s (c_str buf)) st')"

definition ini_init :: "'u \<Rightarrow> 'u ini_state" where
  "ini_init u = \<lparr>ini_user = u, ini_section = [], prev_name = [], lineno = 0, ini_error = 0\<rparr>"

definition ini_parse_stream ::
    "'st ini_reader \<Rightarrow> 'st \<Rightarrow> 'u ini_handler \<Rightarrow> 'u \<Rightarrow> (int \<times> 'u) option" where
  "ini_parse_stream reader st h u =
     map_option (\<lambda>s. (int (ini_error s), ini_user s)) (ini_loop reader h (ini_init u) st)"

section \<open>Readers\<close>

text \<open>\<^verbatim>\<open>fgets\<close> of the standard library on the bytes of a file from its position on.\<close>

fun cut_line :: "nat \<Rightarrow> string \<Rightarrow> string \<times> string" where
  "cut_line 0 s = ([], s)"
| "cut_line (Suc n) [] = ([], [])"
| "cut_line (Suc n) (c # s) =
     (if c = CHR 0x0A then ([c], s) else (let (l, r) = cut_line n s in (c # l, r)))"

definition fgets :: "string ini_reader" where
  "fgets num file = (if file = [] then None else Some (cut_line (num - 1) file))"

definition ini_parse_file :: "string \<Rightarrow> 'u ini_handler \<Rightarrow> 'u \<Rightarrow> (int \<times> 'u) option" where
  "ini_parse_file file h u = ini_parse_stream fgets file h u"

text \<open>\<^verbatim>\<open>fopen\<close> is the parameter \<open>fs\<close>: the bytes of the named file, if it opens.\<close>

definition ini_parse ::
    "(string \<rightharpoonup> string) \<Rightarrow> string \<Rightarrow> 'u ini_handler \<Rightarrow> 'u \<Rightarrow> (int \<times> 'u) option" where
  "ini_parse fs filename h u =
     (case fs filename of None \<Rightarrow> Some (-1, u) | Some file \<Rightarrow> ini_parse_file file h u)"

text \<open>
  The string reader: \<open>ctx_ptr\<close> is the memory from \<^verbatim>\<open>ctx->ptr\<close> on. The loop stops at a
  newline, when \<open>num\<close> reaches 1 or when \<open>left\<close> reaches 0.
\<close>

record ini_parse_string_ctx =
  ctx_ptr :: string
  num_left :: nat

fun reader_loop :: "string \<Rightarrow> nat \<Rightarrow> nat \<Rightarrow> string \<times> string \<times> nat" where
  "reader_loop [] left num = ([], [], left)"
| "reader_loop (c # ptr) left num =
     (if 1 < num \<and> left \<noteq> 0 then
        (if c = CHR 0x0A then ([c], ptr, left - 1)
         else (let (out, ptr', left') = reader_loop ptr (left - 1) (num - 1)
               in (c # out, ptr', left')))
      else ([], c # ptr, left))"

definition ini_reader_string :: "ini_parse_string_ctx ini_reader" where
  "ini_reader_string num ctx =
     (if num_left ctx = 0 \<or> num < 2 then None
      else (let (out, ptr', left') = reader_loop (ctx_ptr ctx) (num_left ctx) num
            in Some (out, \<lparr>ctx_ptr = ptr', num_left = left'\<rparr>)))"

definition ini_parse_string :: "string \<Rightarrow> 'u ini_handler \<Rightarrow> 'u \<Rightarrow> (int \<times> 'u) option" where
  "ini_parse_string str h u =
     ini_parse_stream ini_reader_string
       \<lparr>ctx_ptr = str @ [CHR 0x00], num_left = length str\<rparr> h u"


section \<open>Lines of a stream\<close>

text \<open>The lines a stream is cut into: up to a newline, at most \<^verbatim>\<open>INI_MAX_LINE - 1\<close> bytes.\<close>

lemma cut_line_append: "cut_line n s = (l, r) \<Longrightarrow> l @ r = s"
  by (induction n s arbitrary: l r rule: cut_line.induct) (auto split: if_splits prod.splits)

lemma cut_line_length: "cut_line n s = (l, r) \<Longrightarrow> length l \<le> n"
  by (induction n s arbitrary: l r rule: cut_line.induct) (auto split: if_splits prod.splits)

lemma cut_line_nonempty: "cut_line n s = (l, r) \<Longrightarrow> 0 < n \<Longrightarrow> s \<noteq> [] \<Longrightarrow> l \<noteq> []"
  by (cases n; cases s) (auto split: if_splits prod.splits)

lemma cut_line_newline:
  "CHR 0x0A \<notin> set l \<Longrightarrow> length l < n \<Longrightarrow> cut_line n (l @ CHR 0x0A # r) = (l @ [CHR 0x0A], r)"
proof (induction l arbitrary: n)
  case Nil
  then show ?case by (cases n) auto
next
  case (Cons c l)
  then show ?case by (cases n) auto
qed

function ini_chunks :: "string \<Rightarrow> string list" where
  "ini_chunks s =
     (if s = [] then [] else (let (l, r) = cut_line (INI_MAX_LINE - 1) s in l # ini_chunks r))"
  by pat_completeness auto
termination
proof (relation "measure length")
  fix s x l r
  assume "s \<noteq> []" and "x = cut_line (INI_MAX_LINE - 1) s" and "(l, r) = x"
  then have "l @ r = s" and "l \<noteq> []"
    using cut_line_append [of "INI_MAX_LINE - 1" s l r]
      cut_line_nonempty [of "INI_MAX_LINE - 1" s l r]
    by (auto simp: INI_MAX_LINE_def)
  then show "(r, s) \<in> measure length" by auto
qed simp

declare ini_chunks.simps [simp del]

lemma ini_chunks_Nil [simp]: "ini_chunks [] = []"
  by (simp add: ini_chunks.simps)

lemma ini_chunks_step:
  "s \<noteq> [] \<Longrightarrow> cut_line (INI_MAX_LINE - 1) s = (l, r) \<Longrightarrow> ini_chunks s = l # ini_chunks r"
  by (subst ini_chunks.simps) simp

lemma ini_chunks_line:
  assumes "CHR 0x0A \<notin> set l" and "length l < INI_MAX_LINE - 1"
  shows "ini_chunks (l @ CHR 0x0A # r) = (l @ [CHR 0x0A]) # ini_chunks r"
  using assms by (intro ini_chunks_step cut_line_newline) auto

subsection \<open>What the loop needs of a reader\<close>

text \<open>
  A reader on a valid stream: each call returns the next line, which fits the buffer with
  its NUL, and the end of the lines is the null pointer.
\<close>

locale line_source =
  fixes reader :: "'st ini_reader"
    and valid :: "'st \<Rightarrow> bool"
    and lines :: "'st \<Rightarrow> string list"
  assumes read_None: "valid st \<Longrightarrow> reader INI_MAX_LINE st = None \<Longrightarrow> lines st = []"
    and read_Some: "valid st \<Longrightarrow> reader INI_MAX_LINE st = Some (b, st') \<Longrightarrow>
      lines st = b # lines st' \<and> valid st' \<and> length b < INI_MAX_LINE"
begin

lemma lines_Cons:
  assumes "valid st" and "lines st = b # bs"
  shows "\<exists>st'. reader INI_MAX_LINE st = Some (b, st') \<and> valid st' \<and> lines st' = bs"
proof (cases "reader INI_MAX_LINE st")
  case None
  with assms read_None [of st] show ?thesis by simp
next
  case (Some a)
  with assms read_Some [of st "fst a" "snd a"] show ?thesis by (cases a) auto
qed

lemma loop_lines:
  "valid st \<Longrightarrow>
    ini_loop reader h s st = Some (foldl (\<lambda>s b. ini_line h s (c_str b)) s (lines st))"
proof (induction "lines st" arbitrary: st s)
  case Nil
  then have "reader INI_MAX_LINE st = None"
    using read_Some [of st] by (cases "reader INI_MAX_LINE st") force+
  with Nil show ?case by (subst ini_loop.simps) simp
next
  case (Cons b bs)
  then obtain st' where r: "reader INI_MAX_LINE st = Some (b, st')"
      and "valid st'" "lines st' = bs"
    by (metis lines_Cons)
  with Cons.hyps(1) [of st'] Cons.hyps(2) show ?case
    by (subst ini_loop.simps) (simp flip: Cons.hyps(2))
qed

lemma stream_lines:
  "valid st \<Longrightarrow> ini_parse_stream reader st h u =
    (let s = foldl (\<lambda>s b. ini_line h s (c_str b)) (ini_init u) (lines st)
     in Some (int (ini_error s), ini_user s))"
  by (simp add: ini_parse_stream_def loop_lines Let_def)

lemma lines_fit: "valid st \<Longrightarrow> b \<in> set (lines st) \<Longrightarrow> length b < INI_MAX_LINE"
proof (induction "lines st" arbitrary: st)
  case Nil
  then show ?case by simp
next
  case (Cons c bs)
  then obtain st' where "reader INI_MAX_LINE st = Some (c, st')"
      and "valid st'" "lines st' = bs"
    by (metis lines_Cons)
  with Cons read_Some [of st c st'] show ?case
    by (metis set_ConsD)
qed

end

interpretation file_lines: line_source fgets "\<lambda>_. True" ini_chunks
proof
  fix st b st'
  assume "fgets INI_MAX_LINE st = Some (b, st')"
  then have "st \<noteq> []" and c: "cut_line (INI_MAX_LINE - 1) st = (b, st')"
    by (auto simp: fgets_def split: if_splits)
  then show "ini_chunks st = b # ini_chunks st' \<and> True \<and> length b < INI_MAX_LINE"
    using cut_line_length [OF c] by (auto simp: ini_chunks_step INI_MAX_LINE_def)
qed (auto simp: fgets_def split: if_splits)

lemma reader_loop_cut:
  "left \<le> length p \<Longrightarrow> cut_line (num - 1) (take left p) = (l, r) \<Longrightarrow>
    reader_loop p left num = (l, drop (length l) p, left - length l)"
proof (induction p left num arbitrary: l r rule: reader_loop.induct)
  case (1 left num)
  then show ?case by (cases "num - 1") auto
next
  case (2 c p left num)
  show ?case
  proof (cases "1 < num \<and> left \<noteq> 0")
    case True
    then obtain n k where n: "num = Suc (Suc n)" and k: "left = Suc k"
      by (metis Suc_lessE gr0_implies_Suc neq0_conv One_nat_def less_natE add_Suc)
    with 2 True show ?thesis by (auto split: if_splits prod.splits)
  next
    case False
    with 2 show ?thesis by (cases "num - 1"; cases left) auto
  qed
qed

definition ctx_valid :: "ini_parse_string_ctx \<Rightarrow> bool" where
  "ctx_valid ctx \<longleftrightarrow> num_left ctx \<le> length (ctx_ptr ctx)"

interpretation string_lines: line_source ini_reader_string ctx_valid
  "\<lambda>ctx. ini_chunks (take (num_left ctx) (ctx_ptr ctx))"
proof
  fix ctx ctx' :: ini_parse_string_ctx and b
  let ?s = "take (num_left ctx) (ctx_ptr ctx)"
  assume v: "ctx_valid ctx" and r: "ini_reader_string INI_MAX_LINE ctx = Some (b, ctx')"
  obtain l rest where c: "cut_line (INI_MAX_LINE - 1) ?s = (l, rest)" by fastforce
  from v r have left: "num_left ctx \<noteq> 0" by (auto simp: ini_reader_string_def split: if_splits)
  with v have ne: "?s \<noteq> []" by (auto simp: ctx_valid_def)
  from v have "reader_loop (ctx_ptr ctx) (num_left ctx) INI_MAX_LINE =
      (l, drop (length l) (ctx_ptr ctx), num_left ctx - length l)"
    by (intro reader_loop_cut [OF _ c]) (simp add: ctx_valid_def)
  with r have b: "b = l" and ctx': "ctx' =
      \<lparr>ctx_ptr = drop (length l) (ctx_ptr ctx), num_left = num_left ctx - length l\<rparr>"
    by (auto simp: ini_reader_string_def split: if_splits)
  from cut_line_append [OF c] have "rest = drop (length l) ?s"
    by (metis append_eq_conv_conj)
  then have rest: "rest = take (num_left ctx') (ctx_ptr ctx')"
    by (simp add: ctx' drop_take)
  have "ctx_valid ctx'"
    using v by (simp add: ctx' ctx_valid_def)
  then show "ini_chunks ?s = b # ini_chunks (take (num_left ctx') (ctx_ptr ctx')) \<and>
      ctx_valid ctx' \<and> length b < INI_MAX_LINE"
    using ini_chunks_step [OF ne c] cut_line_length [OF c] by (simp add: b rest INI_MAX_LINE_def)
qed (auto simp: ini_reader_string_def INI_MAX_LINE_def split: if_splits prod.splits)


section \<open>The result of a parse\<close>

definition ini_run :: "'u ini_handler \<Rightarrow> 'u \<Rightarrow> string list \<Rightarrow> 'u ini_state" where
  "ini_run h u ls = foldl (\<lambda>s b. ini_line h s (c_str b)) (ini_init u) ls"

lemma ini_run_snoc: "ini_run h u (ls @ [l]) = ini_line h (ini_run h u ls) (c_str l)"
  by (simp add: ini_run_def)

lemma ini_run_Nil: "ini_run h u [] = ini_init u"
  by (simp add: ini_run_def)

lemma ini_parse_run:
  "ini_parse_string str h u =
     Some (int (ini_error (ini_run h u (ini_chunks str))), ini_user (ini_run h u (ini_chunks str))) \<and>
   ini_parse_file str h u = ini_parse_string str h u \<and>
   concat (ini_chunks str) = str"
proof -
  have "concat (ini_chunks str) = str"
  proof (induction str rule: ini_chunks.induct)
    case (1 s)
    show ?case
    proof (cases "s = []")
      case False
      obtain l r where c: "cut_line (INI_MAX_LINE - 1) s = (l, r)" by fastforce
      with 1 [OF False] have "concat (ini_chunks r) = r" by auto
      with ini_chunks_step [OF False c] cut_line_append [OF c] show ?thesis by simp
    qed simp
  qed
  moreover have "ctx_valid \<lparr>ctx_ptr = str @ [CHR 0x00], num_left = length str\<rparr>"
    by (simp add: ctx_valid_def)
  ultimately show ?thesis
    by (simp add: ini_parse_string_def ini_parse_file_def string_lines.stream_lines
        file_lines.stream_lines ini_run_def Let_def)
qed

text \<open>
  C19: for every text and every handler, \<^verbatim>\<open>ini_parse_string\<close> and \<^verbatim>\<open>ini_parse_file\<close> return,
  with one and the same result: the line parser folded over the lines of the text, cut at
  newlines and at \<^verbatim>\<open>INI_MAX_LINE - 1\<close> characters; the cutting loses no character.
\<close>

theorem ini_parse_total:
  "ini_parse_string str h u =
     Some (int (ini_error (ini_run h u (ini_chunks str))), ini_user (ini_run h u (ini_chunks str))) \<and>
   ini_parse_file str h u = ini_parse_string str h u \<and>
   concat (ini_chunks str) = str"
  by (rule ini_parse_run)

subsection \<open>The error result\<close>

lemma call_handler_frame [field_frames]:
  "lineno (call_handler h s n v) = lineno s"
  "prev_name (call_handler h s n v) = prev_name s"
  "ini_section (call_handler h s n v) = ini_section s"
  by (auto simp: call_handler_def Let_def split: prod.splits)

text \<open>What a line can do to the state, whatever its text.\<close>

lemma ini_line_induct:
  fixes h :: "'u ini_handler" and s :: "'u ini_state"
  defines "s1 \<equiv> s\<lparr>lineno := lineno s + 1\<rparr>"
  assumes "P s1" and "\<And>v. P (call_handler h s1 (prev_name s1) v)" and "P (set_error s1)"
    and "\<And>x. P (s1\<lparr>ini_section := strncpy0 x MAX_SECTION, prev_name := []\<rparr>)"
    and "\<And>n v. P (call_handler h (s1\<lparr>prev_name := strncpy0 n MAX_NAME\<rparr>) n v)"
  shows "P (ini_line h s l)"
  using assms(2-) unfolding s1_def ini_line_def Let_def split_def
  by (intro if_intro [where P = P]) assumption+

lemma ini_line_lineno [field_frames]: "lineno (ini_line h s l) = lineno s + 1"
  by (rule ini_line_induct) (simp_all add: field_frames set_error_def)

lemma call_handler_error:
  "ini_error (call_handler h s n v) =
     (if \<not> fst (h (ini_user s) (ini_section s) n v) \<and> ini_error s = 0 then lineno s else ini_error s)"
  by (auto simp: call_handler_def Let_def split: prod.splits)

lemma ini_line_error:
  "ini_error (ini_line h s l) = ini_error s \<or>
   ini_error s = 0 \<and> ini_error (ini_line h s l) = lineno s + 1"
  by (rule ini_line_induct) (simp_all add: set_error_def call_handler_error)

lemma ini_run_lineno: "lineno (ini_run h u ls) = length ls"
  by (induction ls rule: rev_induct)
    (simp_all add: ini_run_Nil ini_run_snoc ini_line_lineno ini_init_def)



subsection \<open>Buffer sizes\<close>

definition fits :: "'u ini_state \<Rightarrow> bool" where
  "fits s \<longleftrightarrow> length (ini_section s) < MAX_SECTION \<and> length (prev_name s) < MAX_NAME"

lemma strncpy0_fits: "0 < n \<Longrightarrow> length (strncpy0 s n) < n"
  by (auto simp: strncpy0_def)

lemma ini_line_fits [inv_keeps]: "fits s \<Longrightarrow> fits (ini_line h s l)"
  by (rule ini_line_induct)
    (simp_all add: fits_def set_error_def field_frames strncpy0_fits MAX_SECTION_def MAX_NAME_def)

text \<open>
  no buffer of the parser overflows: every line a reader stores leaves room for its NUL in
  the \<^verbatim>\<open>INI_MAX_LINE\<close> bytes of \<^verbatim>\<open>line\<close>, and after any number of lines \<^verbatim>\<open>section\<close> and
  \<^verbatim>\<open>prev_name\<close> hold strings that fit their arrays with the NUL.
\<close>

theorem ini_buffers_fit:
  "list_all (\<lambda>l. length l < INI_MAX_LINE) (ini_chunks str) \<and> fits (ini_run h u ls)"
proof -
  have "fits (ini_run h u ls)"
    by (induction ls rule: rev_induct)
      (simp add: ini_run_Nil fits_def ini_init_def MAX_SECTION_def MAX_NAME_def,
        simp add: ini_run_snoc inv_keeps)
  then show ?thesis
    using file_lines.lines_fit [where st = str] by (simp add: list_all_iff)
qed


section \<open>Parsing what was printed\<close>

lemma rstrip_Nil [simp]: "rstrip [] = []"
  by (simp add: rstrip_def)

lemma rstrip_snoc: "rstrip (s @ [c]) = (if isspace c then rstrip s else s @ [c])"
  by (simp add: rstrip_def)

lemma rstrip_id: "s = [] \<or> \<not> isspace (last s) \<Longrightarrow> rstrip s = s"
  by (cases s rule: rev_cases) (auto simp: rstrip_snoc)

lemma lskip_id: "s = [] \<or> \<not> isspace (hd s) \<Longrightarrow> lskip s = s"
  by (cases s) (auto simp: lskip_def)

lemma isspace_newline [simp]: "isspace CHR 0x0A"
  by (simp add: isspace_def)

lemma isspace_punct [simp]:
  "\<not> isspace CHR ''[''" "\<not> isspace CHR '']''" "\<not> isspace CHR ''=''"
  by (simp_all add: isspace_def)

text \<open>A text in which no comment starts, read after a space or not.\<close>

fun no_comment :: "bool \<Rightarrow> string \<Rightarrow> bool" where
  "no_comment w [] = True"
| "no_comment w (c # s) = ((w \<longrightarrow> c \<noteq> CHR '';'') \<and> no_comment (isspace c) s)"

lemma find_loop_stop:
  "no_comment w s \<Longrightarrow> set s \<inter> set cs = {} \<Longrightarrow> x \<in> set cs \<Longrightarrow>
    find_loop (Some cs) w (s @ x # r) = (s, x # r)"
  by (induction s arbitrary: w) (auto simp: INI_INLINE_COMMENT_PREFIXES_def)

lemma find_loop_end: "no_comment w s \<Longrightarrow> find_loop None w s = (s, [])"
  by (induction s arbitrary: w) (auto simp: INI_INLINE_COMMENT_PREFIXES_def)

datatype ini_item = Section_head string | Entry string string

fun body_of :: "ini_item \<Rightarrow> string" where
  "body_of (Section_head s) = CHR ''['' # s @ '']''"
| "body_of (Entry n v) = n @ CHR ''='' # v"

definition render :: "ini_item list \<Rightarrow> string" where
  "render items = concat (map (\<lambda>i. body_of i @ [CHR 0x0A]) items)"

text \<open>
  The items a printed text gives back: no control characters that end a line or the text, no
  comment start, no separator in a name or a section, no space at the ends of a name or a
  value, a section name that fits its buffer and a line that fits the line buffer.
\<close>

fun printable :: "ini_item \<Rightarrow> bool" where
  "printable (Section_head s) =
     (no_comment False s \<and> set s \<inter> set [CHR '']'', CHR 0x0A, CHR 0x00] = {} \<and>
      length s < MAX_SECTION)"
| "printable (Entry n v) =
     (n \<noteq> [] \<and> no_comment False n \<and> no_comment False v \<and>
      set n \<inter> set [CHR ''='', CHR '':'', CHR 0x0A, CHR 0x00] = {} \<and>
      set v \<inter> set [CHR 0x0A, CHR 0x00] = {} \<and>
      hd n \<notin> set [CHR ''['', CHR '';'', CHR ''#'', CHR 0xEF] \<and>
      \<not> isspace (hd n) \<and> \<not> isspace (last n) \<and>
      (v = [] \<or> \<not> isspace (hd v) \<and> \<not> isspace (last v)) \<and>
      length n + length v + 3 < INI_MAX_LINE)"

text \<open>What the items mean to a handler: the error line and the user's data at the end.\<close>

fun deliver :: "'u ini_handler \<Rightarrow> ini_item list \<Rightarrow> nat \<Rightarrow> string \<Rightarrow> nat \<Rightarrow> 'u \<Rightarrow> nat \<times> 'u" where
  "deliver h [] k sec e u = (e, u)"
| "deliver h (Section_head s # is) k sec e u = deliver h is (k + 1) s e u"
| "deliver h (Entry n v # is) k sec e u =
     (let (ok, u') = h u sec n v
      in deliver h is (k + 1) sec (if \<not> ok \<and> e = 0 then k + 1 else e) u')"

lemma ini_line_head:
  assumes "printable (Section_head s)"
  shows "ini_line h st (body_of (Section_head s) @ [CHR 0x0A]) =
    st\<lparr>lineno := lineno st + 1, ini_section := s, prev_name := []\<rparr>"
proof -
  have "find_chars_or_comment (s @ '']'') (Some '']'') = (s, '']'')"
    using assms unfolding find_chars_or_comment_def by (intro find_loop_stop) auto
  moreover have "rstrip (body_of (Section_head s) @ [CHR 0x0A]) = body_of (Section_head s)"
    using rstrip_snoc [of "CHR ''['' # s" "CHR '']''"]
      rstrip_snoc [of "CHR ''['' # s @ '']''" "CHR 0x0A"] by simp
  ultimately show ?thesis
    using assms by (simp add: ini_line_def Let_def lskip_def INI_START_COMMENT_PREFIXES_def
        strncpy0_def MAX_SECTION_def)
qed

lemma ini_line_entry:
  assumes "printable (Entry n v)"
  shows "ini_line h st (body_of (Entry n v) @ [CHR 0x0A]) =
    call_handler h (st\<lparr>lineno := lineno st + 1, prev_name := strncpy0 n MAX_NAME\<rparr>) n v"
proof -
  from assms obtain c n' where n: "n = c # n'" by (cases n) auto
  have "find_chars_or_comment (n @ CHR ''='' # v) (Some ''=:'') = (n, CHR ''='' # v)"
    using assms unfolding find_chars_or_comment_def by (intro find_loop_stop) auto
  moreover have "find_chars_or_comment v None = (v, [])"
    using assms unfolding find_chars_or_comment_def by (intro find_loop_end) auto
  moreover have "rstrip (n @ CHR ''='' # v @ [CHR 0x0A]) = n @ CHR ''='' # v"
    using assms rstrip_snoc [of "n @ CHR ''='' # v" "CHR 0x0A"]
      rstrip_id [of "n @ CHR ''='' # v"] by auto
  moreover have "rstrip n = n" and "rstrip v = v" and "lskip v = v"
    and "lskip (n @ CHR ''='' # v) = n @ CHR ''='' # v"
    using assms by (auto simp: rstrip_id lskip_id)
  ultimately show ?thesis
    using assms by (simp add: ini_line_def Let_def n INI_START_COMMENT_PREFIXES_def)
qed

lemma printable_chunk:
  assumes "printable i"
  shows "ini_chunks (body_of i @ CHR 0x0A # r) = (body_of i @ [CHR 0x0A]) # ini_chunks r"
    and "c_str (body_of i @ [CHR 0x0A]) = body_of i @ [CHR 0x0A]"
proof -
  have "CHR 0x0A \<notin> set (body_of i)" and "length (body_of i) < INI_MAX_LINE - 1"
    and "CHR 0x00 \<notin> set (body_of i)"
    using assms by (cases i; force simp: INI_MAX_LINE_def MAX_SECTION_def)+
  then show "ini_chunks (body_of i @ CHR 0x0A # r) = (body_of i @ [CHR 0x0A]) # ini_chunks r"
    and "c_str (body_of i @ [CHR 0x0A]) = body_of i @ [CHR 0x0A]"
    by (simp_all add: ini_chunks_line)
qed

lemma deliver_run:
  assumes "list_all printable items"
  shows "foldl (\<lambda>s b. ini_line h s (c_str b)) st (ini_chunks (render items)) = st' \<Longrightarrow>
    (ini_error st', ini_user st') =
      deliver h items (lineno st) (ini_section st) (ini_error st) (ini_user st)"
  using assms
proof (induction items arbitrary: st)
  case Nil
  then show ?case by (simp add: render_def)
next
  case (Cons i items)
  have "ini_chunks (render (i # items)) = (body_of i @ [CHR 0x0A]) # ini_chunks (render items)"
    using Cons.prems printable_chunk(1) [of i "render items"] by (simp add: render_def)
  with Cons printable_chunk(2) [of i] show ?case
    by (cases i)
      (simp_all add: ini_line_head ini_line_entry call_handler_def Let_def split: prod.splits
        del: body_of.simps printable.simps)
qed

lemma parse_render:
  assumes "list_all printable items"
  shows "ini_parse_string (render items) h u =
    Some (case deliver h items 0 [] 0 u of (e, u') \<Rightarrow> (int e, u'))"
proof -
  let ?st = "ini_run h u (ini_chunks (render items))"
  have "(ini_error ?st, ini_user ?st) = deliver h items 0 [] 0 u"
    using deliver_run [OF assms, of h "ini_init u", OF refl] by (simp add: ini_run_def ini_init_def)
  then show ?thesis
    using ini_parse_run [of "render items" h u] by (cases "deliver h items 0 [] 0 u") auto
qed

text \<open>
  C7: parsing a printed list of sections and entries calls the handler once per entry, in order,
  with the section it stands in, its name and its value, and returns the number of the first
  line whose entry the handler refused (0 if none).
\<close>

theorem ini_render_roundtrip:
  assumes "list_all printable items"
  shows "ini_parse_string (render items) h u =
    Some (case deliver h items 0 [] 0 u of (e, u') \<Rightarrow> (int e, u'))"
  using assms by (rule parse_render)

lemma ini_render_roundtrip_witness:
  "list_all printable [Section_head ''S'', Entry ''Port'' ''20001''] \<and>
   ini_parse_string (render [Section_head ''S'', Entry ''Port'' ''20001''])
     (\<lambda>u s n v. (True, u @ [(s, n, v)])) [] = Some (0, [(''S'', ''Port'', ''20001'')])"
proof -
  have p: "list_all printable [Section_head ''S'', Entry ''Port'' ''20001'']"
    by (simp add: isspace_def MAX_SECTION_def INI_MAX_LINE_def)
  from ini_render_roundtrip [OF p, of "\<lambda>u s n v. (True, u @ [(s, n, v)])" "[]"] p
  show ?thesis by simp
qed

section \<open>Continuation lines\<close>

lemma lskip_spaces: "list_all isspace ws \<Longrightarrow> lskip (ws @ v) = lskip v"
  by (induction ws) (auto simp: lskip_def)

text \<open>
  a line that starts with white space right after an entry continues the entry: the handler
  gets the text of the line without the white space around it, under the first
  \<^verbatim>\<open>MAX_NAME - 1\<close> characters of the entry's name, so under the name itself only when the name
  is shorter than \<^verbatim>\<open>MAX_NAME\<close>.
\<close>

theorem ini_continuation:
  assumes "printable (Entry n v)" and "ws \<noteq> []" and "list_all isspace ws"
    and "w \<noteq> []" and "\<not> isspace (hd w)" and "\<not> isspace (last w)"
    and "hd w \<notin> set INI_START_COMMENT_PREFIXES" and "lineno st \<noteq> 0"
  shows "ini_line h (ini_line h st (body_of (Entry n v) @ [CHR 0x0A])) (ws @ w @ [CHR 0x0A]) =
    (let s = call_handler h (st\<lparr>lineno := lineno st + 1, prev_name := take (MAX_NAME - 1) n\<rparr>) n v
     in call_handler h (s\<lparr>lineno := lineno st + 2\<rparr>) (take (MAX_NAME - 1) n) w)"
proof -
  let ?s = "call_handler h (st\<lparr>lineno := lineno st + 1, prev_name := take (MAX_NAME - 1) n\<rparr>) n v"
  have "rstrip (ws @ w @ [CHR 0x0A]) = ws @ w"
    using rstrip_snoc [of "ws @ w" "CHR 0x0A"] rstrip_id [of "ws @ w"] assms by simp
  moreover have "lskip (ws @ w) = w"
    using assms by (simp add: lskip_spaces lskip_id)
  moreover have "take (MAX_NAME - 1) n \<noteq> []"
    using assms by (simp add: MAX_NAME_def)
  ultimately have "ini_line h ?s (ws @ w @ [CHR 0x0A]) =
      call_handler h (?s\<lparr>lineno := lineno st + 2\<rparr>) (take (MAX_NAME - 1) n) w"
    using assms by (simp add: ini_line_def Let_def field_frames)
  then show ?thesis
    using assms(1) by (simp add: ini_line_entry strncpy0_def Let_def del: body_of.simps)
qed

lemma ini_continuation_witness:
  "\<exists>s. ini_line (\<lambda>u s n v. (True, u @ [(n, v)]))
        (ini_line (\<lambda>u s n v. (True, u @ [(n, v)])) ((ini_init [])\<lparr>lineno := 1\<rparr>)
          (body_of (Entry ''a'' ''b'') @ [CHR 0x0A])) ('' '' @ ''c'' @ [CHR 0x0A]) = s \<and>
     ini_user s = [(''a'', ''b''), (''a'', ''c'')]"
  by (subst ini_continuation)
    (simp_all add: isspace_def MAX_NAME_def INI_MAX_LINE_def INI_START_COMMENT_PREFIXES_def
      call_handler_def ini_init_def Let_def)

end
