(* ===== verification/CNumbers.thy ===== *)
theory CNumbers
  imports Prelude
begin

text \<open>
  Numbers in text, as the C library reads and writes them: \<^verbatim>\<open>strtol\<close> with the base given or chosen
  by the prefix, and what \<^verbatim>\<open>%d\<close>, \<^verbatim>\<open>%u\<close> and \<^verbatim>\<open>%x\<close> print and \<^verbatim>\<open>sscanf\<close> reads. A number that was
  printed is read back.
\<close>

section \<open>Reading\<close>

definition digit_val :: "char \<Rightarrow> nat" where
  "digit_val c =
     (let n = of_char c :: nat in
      if 48 \<le> n \<and> n \<le> 57 then n - 48
      else if 97 \<le> n \<and> n \<le> 122 then n - 97 + 10
      else if 65 \<le> n \<and> n \<le> 90 then n - 65 + 10
      else 36)"

definition is_digit :: "nat \<Rightarrow> char \<Rightarrow> bool" where
  "is_digit base c \<longleftrightarrow> digit_val c < base"

definition digits_val :: "nat \<Rightarrow> string \<Rightarrow> int" where
  "digits_val base ds = foldl (\<lambda>n c. n * int base + int (digit_val c)) 0 ds"

definition clamp_long :: "int \<Rightarrow> int" where
  "clamp_long n = max LONG_MIN (min LONG_MAX n)"

text \<open>
  The digits after the sign, with the base their prefix selects; \<^term>\<open>None\<close> when no digit
  was read, so that the end pointer is the start.
\<close>

definition hex_prefix :: "string \<Rightarrow> bool" where
  "hex_prefix s = (case s of
      a # x # d # _ \<Rightarrow> a = CHR ''0'' \<and> (x = CHR ''x'' \<or> x = CHR ''X'') \<and> is_digit 16 d
    | _ \<Rightarrow> False)"

definition strtol_digits :: "string \<Rightarrow> int option" where
  "strtol_digits s =
     (let hex = hex_prefix s;
          base = (if hex then 16 else if s \<noteq> [] \<and> hd s = CHR ''0'' then 8 else 10);
          ds = takeWhile (is_digit base) (if hex then drop 2 s else s)
      in if ds = [] then None else Some (digits_val base ds))"

definition strtol0 :: "string \<Rightarrow> int option" where
  "strtol0 s =
     (let s1 = dropWhile isspace s;
          neg = (s1 \<noteq> [] \<and> hd s1 = CHR ''-'');
          s2 = (if s1 \<noteq> [] \<and> (hd s1 = CHR ''-'' \<or> hd s1 = CHR ''+'') then tl s1 else s1)
      in map_option (\<lambda>n. clamp_long (if neg then - n else n)) (strtol_digits s2))"

text \<open>\<^verbatim>\<open>strtol\<close> and \<^verbatim>\<open>strtoll\<close> with base 10 or 16: the value and what is left at the end pointer.\<close>

definition strtol :: "nat \<Rightarrow> string \<Rightarrow> int \<times> string" where
  "strtol base s =
     (let s1 = dropWhile isspace s;
          neg = (s1 \<noteq> [] \<and> hd s1 = CHR ''-'');
          s2 = (if s1 \<noteq> [] \<and> (hd s1 = CHR ''-'' \<or> hd s1 = CHR ''+'') then tl s1 else s1);
          s3 = (if base = 16 \<and> hex_prefix s2 then drop 2 s2 else s2);
          n = digits_val base (takeWhile (is_digit base) s3)
      in if takeWhile (is_digit base) s3 = [] then (0, s)
         else (clamp_long (if neg then - n else n), dropWhile (is_digit base) s3))"

text \<open>
  The directive \<^verbatim>\<open>%u\<close> of \<^verbatim>\<open>sscanf\<close>: the number goes through \<^verbatim>\<open>strtoul\<close>, which keeps it within 64 bits
  and negates it after a minus sign, and its low 32 bits are stored.
\<close>

definition scan_u :: "string \<Rightarrow> (int \<times> string) option" where
  "scan_u s =
     (let s1 = dropWhile isspace s;
          neg = (s1 \<noteq> [] \<and> hd s1 = CHR ''-'');
          s2 = (if s1 \<noteq> [] \<and> (hd s1 = CHR ''-'' \<or> hd s1 = CHR ''+'') then tl s1 else s1);
          n = min (2 ^ 64 - 1) (digits_val 10 (takeWhile (is_digit 10) s2))
      in if takeWhile (is_digit 10) s2 = [] then None
         else Some (cast_uint32 (if neg then - n else n), dropWhile (is_digit 10) s2))"

section \<open>Writing\<close>

definition digit_of :: "nat \<Rightarrow> char" where
  "digit_of d = char_of (if d < 10 then 48 + d else 87 + d)"

function show_base :: "nat \<Rightarrow> nat \<Rightarrow> string" where
  "show_base b n =
     (if b < 2 \<or> n < b then [digit_of n] else show_base b (n div b) @ [digit_of (n mod b)])"
  by pat_completeness auto
termination
  by (relation "measure snd") auto

declare show_base.simps [simp del]

abbreviation show_dec :: "nat \<Rightarrow> string" where "show_dec \<equiv> show_base 10"
abbreviation show_hex :: "nat \<Rightarrow> string" where "show_hex \<equiv> show_base 16"

section \<open>What was written is read\<close>

lemma digit_of_val:
  assumes "d < 16"
  shows "digit_val (digit_of d) = d"
  using assms by (auto simp: digit_val_def digit_of_def Let_def)

lemma digits_val_snoc:
  "digits_val b (ds @ [c]) = digits_val b ds * int b + int (digit_val c)"
  by (simp add: digits_val_def)

lemma digits_val_Nil [simp]: "digits_val b [] = 0"
  by (simp add: digits_val_def)

lemma show_base_digits:
  assumes b: "2 \<le> b" "b \<le> 16"
  shows "digits_val b (show_base b n) = int n \<and> list_all (is_digit b) (show_base b n) \<and>
    show_base b n \<noteq> [] \<and> (0 < n \<longrightarrow> hd (show_base b n) \<noteq> CHR ''0'')"
  using b
proof (induction b n rule: show_base.induct)
  case (1 b n)
  show ?case
  proof (cases "n < b")
    case True
    then have s: "show_base b n = [digit_of n]" by (simp add: show_base.simps)
    have "n < 16" using True 1 by linarith
    moreover have "0 < n \<Longrightarrow> digit_of n \<noteq> CHR ''0''"
      using digit_of_val [OF \<open>n < 16\<close>] by (auto simp: digit_val_def)
    ultimately show ?thesis
      using True by (simp add: s digits_val_def digit_of_val is_digit_def)
  next
    case False
    with 1 have c: "\<not> (b < 2 \<or> n < b)" by simp
    then have "show_base b n = show_base b (n div b) @ [digit_of (n mod b)]"
      by (simp add: show_base.simps [of b n])
    moreover have "n mod b < b" using 1 by simp
    moreover have "n mod b < 16" using \<open>n mod b < b\<close> 1 by linarith
    moreover have "int (n div b) * int b + int (n mod b) = int n"
      by (metis div_mult_mod_eq of_nat_add of_nat_mult)
    moreover have "0 < n div b" using c by (simp add: div_greater_zero_iff)
    ultimately show ?thesis
      using 1(1) [OF c] 1(2,3)
      by (simp add: digits_val_snoc digit_of_val is_digit_def)
  qed
qed

lemmas show_dec_digits = show_base_digits [of 10, simplified]
lemmas show_hex_digits = show_base_digits [of 16, simplified]

lemma is_digit_10: "is_digit 10 c \<longleftrightarrow> 48 \<le> (of_char c :: nat) \<and> of_char c \<le> (57 :: nat)"
  by (auto simp: is_digit_def digit_val_def Let_def)

lemma is_digit_16:
  "is_digit 16 c \<longleftrightarrow> 48 \<le> (of_char c :: nat) \<and> of_char c \<le> (57 :: nat) \<or>
    97 \<le> (of_char c :: nat) \<and> of_char c \<le> (102 :: nat) \<or>
    65 \<le> (of_char c :: nat) \<and> of_char c \<le> (70 :: nat)"
  by (auto simp: is_digit_def digit_val_def Let_def)

lemma is_digit_10_16: "is_digit 10 c \<Longrightarrow> is_digit 16 c"
  by (simp add: is_digit_def)

lemma show_dec_hd:
  "48 \<le> (of_char (hd (show_dec n)) :: nat) \<and> of_char (hd (show_dec n)) \<le> (57 :: nat)"
  using show_dec_digits [of n] by (cases "show_dec n") (auto simp: is_digit_10)

lemma show_dec_0: "show_dec 0 = ''0''"
  by (simp add: show_base.simps digit_of_def) (simp add: char_of_eq_iff)

lemma digits_not_special:
  assumes "is_digit 16 c"
  shows "\<not> isspace c" "c \<noteq> CHR ''-''" "c \<noteq> CHR ''+''" "c \<noteq> CHR ''x''" "c \<noteq> CHR ''X''"
    "c \<noteq> CHR '':''" "c \<noteq> CHR ''.''" "c \<noteq> CHR 0x00" "c \<noteq> CHR ''['' " "c \<noteq> CHR '']'' "
  using assms by (auto simp: is_digit_16 isspace_def)

lemma takeWhile_digits:
  assumes "list_all P ds" "rest = [] \<or> \<not> P (hd rest)"
  shows "takeWhile P (ds @ rest) = ds" "dropWhile P (ds @ rest) = rest"
proof -
  have "takeWhile P rest = []" "dropWhile P rest = rest"
    using assms(2) by (cases rest; auto)+
  then show "takeWhile P (ds @ rest) = ds" "dropWhile P (ds @ rest) = rest"
    using assms(1) by (auto simp: list_all_iff takeWhile_append2 dropWhile_append2)
qed

lemma strtol_digits_dec: "strtol_digits (show_dec n) = Some (int n)"
proof (cases "n = 0")
  case True
  have "strtol_digits ''0'' = Some 0" by code_simp
  with True show ?thesis by (simp add: show_dec_0)
next
  case False
  note d = show_dec_digits [of n]
  from False d have "hd (show_dec n) \<noteq> CHR ''0''" by auto
  moreover from this have "\<not> hex_prefix (show_dec n)"
    by (auto simp: hex_prefix_def split: list.splits)
  moreover have "takeWhile (is_digit 10) (show_dec n) = show_dec n"
    using d unfolding takeWhile_eq_all_conv list_all_iff by blast
  ultimately show ?thesis
    using d unfolding strtol_digits_def Let_def by (simp only: if_False simp_thms)
qed

lemma strtol0_dec:
  "strtol0 (show_dec n) = Some (clamp_long (int n))"
  "strtol0 (CHR ''-'' # show_dec n) = Some (clamp_long (- int n))"
proof -
  have "is_digit 16 (hd (show_dec n))"
    using show_dec_digits [of n] by (cases "show_dec n") (auto simp: is_digit_10_16)
  from digits_not_special [OF this] have h: "hd (show_dec n) \<noteq> CHR ''-''" "hd (show_dec n) \<noteq> CHR ''+''"
    "\<not> isspace (hd (show_dec n))" "show_dec n \<noteq> []"
    using show_dec_digits [of n] by auto
  then have "dropWhile isspace (show_dec n) = show_dec n"
    by (cases "show_dec n") auto
  with h strtol_digits_dec [of n]
  show "strtol0 (show_dec n) = Some (clamp_long (int n))"
    and "strtol0 (CHR ''-'' # show_dec n) = Some (clamp_long (- int n))"
    by (simp_all add: strtol0_def Let_def isspace_def)
qed

text \<open>A printed numeral followed by anything but a digit is read back, by each of the readers.\<close>

lemma start_of_digits:
  assumes "list_all (is_digit b) ds" "ds \<noteq> []" "b \<le> 16"
  shows "dropWhile isspace (ds @ rest) = ds @ rest" "hd (ds @ rest) \<noteq> CHR ''-''"
    "hd (ds @ rest) \<noteq> CHR ''+''"
proof -
  have "is_digit 16 (hd ds)"
    using assms by (cases ds) (auto simp: is_digit_def)
  from digits_not_special [OF this] assms(2)
  show "dropWhile isspace (ds @ rest) = ds @ rest" "hd (ds @ rest) \<noteq> CHR ''-''"
    "hd (ds @ rest) \<noteq> CHR ''+''"
    by (cases ds; simp)+
qed

lemma scan_u_digits:
  assumes ds: "list_all (is_digit 10) ds" "ds \<noteq> []" "digits_val 10 ds < 2 ^ 32" "0 \<le> digits_val 10 ds"
    and r: "rest = [] \<or> \<not> is_digit 10 (hd rest)"
  shows "scan_u (ds @ rest) = Some (digits_val 10 ds, rest)"
  using start_of_digits [OF ds(1,2), of rest] takeWhile_digits [OF ds(1) r] ds
  by (simp add: scan_u_def Let_def cast_uint32_id)

lemma strtol_digits_end:
  assumes ds: "list_all (is_digit b) ds" "ds \<noteq> []" "b \<le> 16"
    and p: "\<not> hex_prefix (ds @ rest)"
    and v: "digits_val b ds \<le> LONG_MAX" "0 \<le> digits_val b ds"
    and r: "rest = [] \<or> \<not> is_digit b (hd rest)"
  shows "strtol b (ds @ rest) = (digits_val b ds, rest)"
proof -
  have "clamp_long (digits_val b ds) = digits_val b ds"
    using v by (simp add: clamp_long_def LONG_MIN_def)
  then show ?thesis
    using start_of_digits [OF ds, of rest] takeWhile_digits [OF ds(1) r] ds(2) p
    by (simp add: strtol_def Let_def)
qed

lemma no_hex_prefix:
  assumes "list_all (is_digit 16) ds" "ds \<noteq> []" "rest = [] \<or> hd rest \<noteq> CHR ''x'' \<and> hd rest \<noteq> CHR ''X''"
  shows "\<not> hex_prefix (ds @ rest)"
proof -
  obtain a s where s: "ds = a # s" using assms(2) by (cases ds) auto
  have "s = [] \<or> hd s \<noteq> CHR ''x'' \<and> hd s \<noteq> CHR ''X''"
    using assms(1) digits_not_special by (cases s) (auto simp: s)
  then show ?thesis
    using assms(3) by (cases s; cases rest) (auto simp: s hex_prefix_def split: list.splits)
qed

end
