(* ===== verification/IniReader.thy ===== *)
theory IniReader
  imports Ini CNumbers "HOL-Library.Char_ord" "HOL-Library.List_Lexorder"
begin

text \<open>
  The name/value store \<^verbatim>\<open>pkg/inih/cpp/INIReader.cpp\<close> on top of the INI parser. The member
  \<^verbatim>\<open>_values\<close>, a \<^verbatim>\<open>std::map\<close>, is its entries in key order; \<^verbatim>\<open>std::string\<close> compares
  characters as unsigned, which is the library's lexicographic order on strings.
\<close>

section \<open>The ordered map\<close>

type_synonym table = "(string \<times> string) list"

text \<open>\<^verbatim>\<open>m[key]\<close> with an assignment through the reference: a missing key starts empty.\<close>

fun map_assign :: "string \<Rightarrow> (string \<Rightarrow> string) \<Rightarrow> table \<Rightarrow> table" where
  "map_assign key f [] = [(key, f [])]"
| "map_assign key f ((k, v) # t) =
     (if key = k then (k, f v) # t
      else if key < k then (key, f []) # (k, v) # t
      else (k, v) # map_assign key f t)"

definition lower_bound :: "string \<Rightarrow> table \<Rightarrow> table" where
  "lower_bound key t = dropWhile (\<lambda>e. fst e < key) t"

section \<open>The reader\<close>

record INIReader =
  reader_error :: int
  reader_values :: table

definition MakeKey :: "string \<Rightarrow> string \<Rightarrow> string" where
  "MakeKey sec name = map tolower (sec @ CHR ''='' # name)"

definition ValueHandler :: "table ini_handler" where
  "ValueHandler vals sec name val =
     (let key = MakeKey sec name;
          vals' = map_assign key (\<lambda>v. if length v > 0 then v @ [CHR 0x0A] else v) vals
      in (True, map_assign key (\<lambda>v. v @ val) vals'))"

text \<open>The two constructors; \<open>fs\<close> gives the bytes of the files that open.\<close>

definition INIReader_file :: "(string \<rightharpoonup> string) \<Rightarrow> string \<Rightarrow> INIReader option" where
  "INIReader_file fs filename =
     map_option (\<lambda>(e, vals). \<lparr>reader_error = e, reader_values = vals\<rparr>)
       (ini_parse fs filename ValueHandler [])"

definition INIReader_buffer :: "string \<Rightarrow> nat \<Rightarrow> INIReader option" where
  "INIReader_buffer buffer buffer_size =
     map_option (\<lambda>(e, vals). \<lparr>reader_error = e, reader_values = vals\<rparr>)
       (ini_parse_string (c_str (take buffer_size buffer)) ValueHandler [])"

definition ParseError :: "INIReader \<Rightarrow> int" where
  "ParseError r = reader_error r"

definition Get :: "INIReader \<Rightarrow> string \<Rightarrow> string \<Rightarrow> string \<Rightarrow> string" where
  "Get r sec name default_value =
     (case map_of (reader_values r) (MakeKey sec name) of
        Some v \<Rightarrow> v | None \<Rightarrow> default_value)"

definition GetString :: "INIReader \<Rightarrow> string \<Rightarrow> string \<Rightarrow> string \<Rightarrow> string" where
  "GetString r sec name default_value =
     (let str = Get r sec name [] in if str = [] then default_value else str)"

subsection \<open>Integers, truth values and tests\<close>

definition GetInteger :: "INIReader \<Rightarrow> string \<Rightarrow> string \<Rightarrow> int \<Rightarrow> int" where
  "GetInteger r sec name default_value =
     (case strtol0 (c_str (Get r sec name [])) of Some n \<Rightarrow> n | None \<Rightarrow> default_value)"

definition GetBoolean :: "INIReader \<Rightarrow> string \<Rightarrow> string \<Rightarrow> bool \<Rightarrow> bool" where
  "GetBoolean r sec name default_value =
     (let valstr = map tolower (Get r sec name [])
      in if valstr = ''true'' \<or> valstr = ''yes'' \<or> valstr = ''on'' \<or> valstr = ''1'' then True
         else if valstr = ''false'' \<or> valstr = ''no'' \<or> valstr = ''off'' \<or> valstr = ''0'' then False
         else default_value)"

definition HasSection :: "INIReader \<Rightarrow> string \<Rightarrow> bool" where
  "HasSection r sec =
     (let key = MakeKey sec []
      in case lower_bound key (reader_values r) of
           [] \<Rightarrow> False
         | (k, _) # _ \<Rightarrow> take (length key) k = key)"

definition HasValue :: "INIReader \<Rightarrow> string \<Rightarrow> string \<Rightarrow> bool" where
  "HasValue r sec name \<longleftrightarrow> map_of (reader_values r) (MakeKey sec name) \<noteq> None"


section \<open>The store as a map\<close>

text \<open>What the reader needs of its map: an assignment changes the value of its key only.\<close>

locale string_map =
  fixes lookup :: "'m \<Rightarrow> string \<Rightarrow> string option"
    and assign :: "string \<Rightarrow> (string \<Rightarrow> string) \<Rightarrow> 'm \<Rightarrow> 'm"
    and ok :: "'m \<Rightarrow> bool"
  assumes lookup_assign: "ok m \<Longrightarrow>
      lookup (assign k f m) = (lookup m)(k \<mapsto> f (case lookup m k of None \<Rightarrow> [] | Some v \<Rightarrow> v))"
    and ok_assign: "ok m \<Longrightarrow> ok (assign k f m)"
begin

lemma lookup_assign_twice:
  "ok m \<Longrightarrow> lookup (assign k g (assign k f m)) =
    (lookup m)(k \<mapsto> g (f (case lookup m k of None \<Rightarrow> [] | Some v \<Rightarrow> v)))"
  by (simp add: lookup_assign ok_assign)

end

definition sorted_table :: "table \<Rightarrow> bool" where
  "sorted_table t \<longleftrightarrow> sorted_wrt (<) (map fst t)"

lemma map_assign_keys: "set (map fst (map_assign k f t)) = insert k (set (map fst t))"
  by (induction k f t rule: map_assign.induct) auto

lemma sorted_map_assign: "sorted_table t \<Longrightarrow> sorted_table (map_assign k f t)"
proof (induction k f t rule: map_assign.induct)
  case (2 key f k v t)
  then have lt: "\<forall>x \<in> set (map fst t). k < x" and st: "sorted_table t"
    by (auto simp: sorted_table_def)
  consider "key = k" | "key < k" | "k < key" by (meson less_linear)
  then show ?case
  proof cases
    case 2
    with lt have "\<forall>x \<in> set (map fst t). key < x" by (meson less_trans)
    with 2 "2.prems" lt show ?thesis by (auto simp: sorted_table_def)
  next
    case 3
    then have "key \<noteq> k" and "\<not> key < k" by auto
    with "2.IH" [OF _ _ st] 3 show ?thesis
      using lt map_assign_keys [of key f t] by (auto simp: sorted_table_def)
  qed (use "2.prems" in \<open>auto simp: sorted_table_def\<close>)
qed (simp add: sorted_table_def)

lemma sorted_table_less: "sorted_table ((k, v) # t) \<Longrightarrow> key < k \<Longrightarrow> map_of t key = None"
  by (auto simp: sorted_table_def map_of_eq_None_iff)

lemma map_of_map_assign:
  "sorted_table t \<Longrightarrow> map_of (map_assign k f t) =
    (map_of t)(k \<mapsto> f (case map_of t k of None \<Rightarrow> [] | Some v \<Rightarrow> v))"
proof (induction k f t rule: map_assign.induct)
  case (2 key f k v t)
  then have "map_of (map_assign key f t) =
      (map_of t)(key \<mapsto> f (case map_of t key of None \<Rightarrow> [] | Some v \<Rightarrow> v))" if "k < key"
    using that by (auto simp: sorted_table_def)
  with 2 show ?case
    using sorted_table_less [of k v t key]
    by (auto simp: fun_eq_iff)
qed (simp add: fun_eq_iff)

interpretation values_map: string_map map_of map_assign sorted_table
  by unfold_locales (simp_all add: map_of_map_assign sorted_map_assign)

definition add_value :: "string \<Rightarrow> string \<Rightarrow> string" where
  "add_value v new = (if length v > 0 then v @ [CHR 0x0A] else v) @ new"

lemma ValueHandler_lookup:
  "sorted_table t \<Longrightarrow> map_of (snd (ValueHandler t sec n v)) =
    (map_of t)(MakeKey sec n \<mapsto>
      add_value (case map_of t (MakeKey sec n) of None \<Rightarrow> [] | Some w \<Rightarrow> w) v)"
  by (simp add: ValueHandler_def Let_def values_map.lookup_assign_twice add_value_def)

lemma ValueHandler_sorted: "sorted_table t \<Longrightarrow> sorted_table (snd (ValueHandler t sec n v))"
  by (simp add: ValueHandler_def Let_def sorted_map_assign)

lemma ValueHandler_ok: "fst (ValueHandler t sec n v)"
  by (simp add: ValueHandler_def Let_def)

section \<open>Lookups after a parse\<close>

text \<open>The keys and values of a list of items, in order.\<close>

fun entries_of :: "string \<Rightarrow> ini_item list \<Rightarrow> (string \<times> string) list" where
  "entries_of sec [] = []"
| "entries_of sec (Section_head s # is) = entries_of s is"
| "entries_of sec (Entry n v # is) = (MakeKey sec n, v) # entries_of sec is"

definition values_of :: "ini_item list \<Rightarrow> string \<Rightarrow> string list" where
  "values_of items key = map snd (filter (\<lambda>(k, v). k = key) (entries_of [] items))"

lemma deliver_values:
  "sorted_table t \<Longrightarrow> deliver ValueHandler items k sec e t = (e', t') \<Longrightarrow>
    e' = e \<and> sorted_table t' \<and>
    map_of t' key =
      (let vs = map snd (filter (\<lambda>(k, v). k = key) (entries_of sec items))
       in if vs = [] then map_of t key
          else Some (foldl add_value (case map_of t key of None \<Rightarrow> [] | Some w \<Rightarrow> w) vs))"
proof (induction ValueHandler items k sec e t arbitrary: e' t' rule: deliver.induct)
  case (3 n v items k sec e t)
  obtain ok u where h: "ValueHandler t sec n v = (ok, u)" by fastforce
  with 3(2) ValueHandler_lookup [of t sec n v] ValueHandler_sorted [of t sec n v]
    ValueHandler_ok [of t sec n v]
  have "ok" "sorted_table u" "map_of u = (map_of t)(MakeKey sec n \<mapsto>
      add_value (case map_of t (MakeKey sec n) of None \<Rightarrow> [] | Some w \<Rightarrow> w) v)"
    by auto
  with 3 h show ?case by (auto simp: Let_def)
qed (auto simp: Let_def)

text \<open>The table a printed list leaves, read from memory or from a file.\<close>

lemma render_nul: "list_all printable items \<Longrightarrow> CHR 0x00 \<notin> set (render items)"
proof -
  have "CHR 0x00 \<notin> set (body_of i)" if "printable i" for i
    using that by (cases i) auto
  then show "list_all printable items \<Longrightarrow> CHR 0x00 \<notin> set (render items)"
    by (auto simp: render_def list_all_iff)
qed

lemma reader_render:
  assumes "list_all printable items"
  shows "\<exists>t. INIReader_buffer (render items) (length (render items)) =
      Some \<lparr>reader_error = 0, reader_values = t\<rparr> \<and>
    (\<forall>fs f. fs f = Some (render items) \<longrightarrow>
      INIReader_file fs f = Some \<lparr>reader_error = 0, reader_values = t\<rparr>) \<and>
    (\<forall>key. map_of t key = (if values_of items key = [] then None
      else Some (foldl add_value [] (values_of items key))))"
proof -
  obtain e t where d: "deliver ValueHandler items 0 [] 0 [] = (e, t)" by fastforce
  have t: "e = 0 \<and> map_of t key = (if values_of items key = [] then None
      else Some (foldl add_value [] (values_of items key)))" for key
    using deliver_values [OF _ d, of key] by (simp add: values_of_def sorted_table_def Let_def)
  have parse: "ini_parse_string (render items) ValueHandler [] = Some (0, t)"
    using parse_render [OF assms, of ValueHandler "[]"] d t by simp
  then have "ini_parse_file (render items) ValueHandler [] = Some (0, t)"
    by (simp add: ini_parse_run)
  with parse t render_nul [OF assms] show ?thesis
    by (auto simp: INIReader_buffer_def INIReader_file_def ini_parse_def)
qed

text \<open>
  C8: a reader built from a printed list of printable items reports no error, and looking a
  section and a name up gives the values of all the entries with that section and that name,
  compared without case and in order, joined by newlines (leading empty values dropped), and the
  default exactly when there is no such entry.
\<close>

theorem INIReader_lookup:
  assumes "list_all printable items"
  shows "\<exists>r. INIReader_buffer (render items) (length (render items)) = Some r \<and>
    ParseError r = 0 \<and>
    (\<forall>sec n d. Get r sec n d =
      (case values_of items (MakeKey sec n) of [] \<Rightarrow> d | v # vs \<Rightarrow> foldl add_value v vs)) \<and>
    (\<forall>sec n. HasValue r sec n = (values_of items (MakeKey sec n) \<noteq> []))"
proof -
  obtain t where t: "INIReader_buffer (render items) (length (render items)) =
      Some \<lparr>reader_error = 0, reader_values = t\<rparr>"
    "\<forall>key. map_of t key = (if values_of items key = [] then None
      else Some (foldl add_value [] (values_of items key)))"
    using reader_render [OF assms] by blast
  have "foldl add_value [] (v # vs) = foldl add_value v vs" for v vs
    by (simp add: add_value_def)
  with t show ?thesis
    by (auto simp: ParseError_def Get_def HasValue_def split: list.splits)
qed

lemma INIReader_lookup_witness:
  "list_all printable [Entry ''a'' ''1'', Entry ''A'' ''2''] \<and>
   (\<exists>r. INIReader_buffer (render [Entry ''a'' ''1'', Entry ''A'' ''2'']) 8 = Some r \<and>
     Get r [] ''a'' [] = [CHR ''1'', CHR 0x0A, CHR ''2''])"
proof -
  let ?is = "[Entry ''a'' ''1'', Entry ''A'' ''2'']"
  have p: "list_all printable ?is"
    by (simp add: isspace_def INI_MAX_LINE_def)
  have v: "values_of ?is (MakeKey [] ''a'') = [''1'', ''2'']" by code_simp
  have l: "length (render ?is) = 8" by (simp add: render_def)
  from INIReader_lookup [OF p] obtain r
    where "INIReader_buffer (render ?is) (length (render ?is)) = Some r"
      and "Get r [] ''a'' [] =
        (case values_of ?is (MakeKey [] ''a'') of [] \<Rightarrow> [] | v # vs \<Rightarrow> foldl add_value v vs)"
    by blast
  with p v l show ?thesis by (simp add: add_value_def)
qed


section \<open>Sections\<close>

lemma prefix_between:
  fixes p k z :: string
  shows "p \<le> k \<Longrightarrow> k \<le> p @ z \<Longrightarrow> take (length p) k = p"
proof (induction p arbitrary: k)
  case (Cons a p)
  then show ?case by (cases k) auto
qed simp

lemma le_append: "(p :: string) \<le> p @ z"
  by (induction p) auto

lemma lower_bound_prefix:
  assumes "sorted_table t"
  shows "(case lower_bound p t of [] \<Rightarrow> False | (k, _) # _ \<Rightarrow> take (length p) k = p) \<longleftrightarrow>
    (\<exists>k \<in> set (map fst t). take (length p) k = p)"
  using assms
proof (induction t)
  case (Cons e t)
  obtain k v where e: "e = (k, v)" by fastforce
  show ?case
  proof (cases "k < p")
    case True
    then have "take (length p) k \<noteq> p"
      using le_append [of p "drop (length p) k"] by (metis append_take_drop_id leD)
    with True Cons e show ?thesis by (auto simp: lower_bound_def sorted_table_def)
  next
    case False
    have "take (length p) k = p" if "k' \<in> set (map fst t)" and "take (length p) k' = p" for k'
    proof -
      from that(1) Cons.prems e have "k \<le> k'" by (auto simp: sorted_table_def)
      with that(2) have "k \<le> p @ drop (length p) k'" by (metis append_take_drop_id)
      with False show ?thesis by (intro prefix_between [of p k "drop (length p) k'"]) auto
    qed
    with False e show ?thesis by (auto simp: lower_bound_def)
  qed
qed (simp add: lower_bound_def)

lemma ini_run_sorted: "sorted_table (ini_user (ini_run ValueHandler [] ls))"
proof (induction ls rule: rev_induct)
  case Nil
  show ?case by (simp add: ini_run_Nil ini_init_def sorted_table_def)
next
  case (snoc l ls)
  have "sorted_table (ini_user (call_handler ValueHandler s n v))"
    if "sorted_table (ini_user s)" for s n v
    using that ValueHandler_sorted [of "ini_user s" "ini_section s" n v]
    by (auto simp: call_handler_def Let_def split: prod.splits)
  with snoc show ?case
    unfolding ini_run_snoc
    by (rule_tac ini_line_induct [where P = "\<lambda>s. sorted_table (ini_user s)"])
      (simp_all add: set_error_def)
qed

text \<open>
  \<^verbatim>\<open>HasSection\<close>, which inspects one entry of the ordered map, holds exactly when some key
  of the map starts with the section's name in lower case and an equals sign, for a reader built
  from any text.
\<close>

theorem HasSection_iff:
  assumes "INIReader_buffer buffer n = Some r"
  shows "HasSection r sec \<longleftrightarrow>
    (\<exists>rest. map_of (reader_values r) (map tolower sec @ CHR ''='' # rest) \<noteq> None)"
proof -
  have "sorted_table (reader_values r)"
    using assms ini_parse_run [of "c_str (take n buffer)" ValueHandler "[]"] ini_run_sorted
    by (auto simp: INIReader_buffer_def)
  note lb = lower_bound_prefix [OF this, of "MakeKey sec []"]
  have key: "MakeKey sec [] = map tolower sec @ ''=''"
    by (simp add: MakeKey_def tolower_def)
  have "(\<exists>k \<in> set (map fst (reader_values r)). take (length (MakeKey sec [])) k = MakeKey sec [])
    \<longleftrightarrow> (\<exists>rest. MakeKey sec [] @ rest \<in> set (map fst (reader_values r)))"
    by (metis append_eq_conv_conj append_take_drop_id)
  then have "HasSection r sec \<longleftrightarrow>
      (\<exists>rest. MakeKey sec [] @ rest \<in> set (map fst (reader_values r)))"
    using lb by (simp only: HasSection_def Let_def)
  then show ?thesis
    by (simp add: key map_of_eq_None_iff)
qed

lemma HasSection_iff_witness:
  "\<exists>r. INIReader_buffer ''[S]'' 3 = Some r \<and> \<not> HasSection r ''s''"
proof -
  have "INIReader_buffer ''[S]'' 3 =
      Some \<lparr>reader_error = 0, reader_values = []\<rparr>"
  proof -
    have "ini_chunks ''[S]'' = [''[S]'']"
      by (simp add: ini_chunks.simps INI_MAX_LINE_def eval_nat_numeral)
    moreover have "ini_run ValueHandler [] [''[S]''] =
        \<lparr>ini_user = [], ini_section = ''S'', prev_name = [], lineno = 1, ini_error = 0\<rparr>"
      by code_simp
    moreover have "c_str (take 3 ''[S]'') = ''[S]''" by code_simp
    ultimately show ?thesis
      by (simp add: INIReader_buffer_def ini_parse_run)
  qed
  with HasSection_iff [OF this, of "''s''"] show ?thesis by simp
qed


section \<open>Integers\<close>

text \<open>
  when the value of an entry is a decimal numeral, with or without a minus sign,
  \<^verbatim>\<open>GetInteger\<close> returns the number it writes, cut to the range of \<^verbatim>\<open>long\<close>; the
  default is not used.
\<close>

theorem GetInteger_decimal:
  assumes "Get r sec name [] = (if neg then CHR ''-'' # show_dec n else show_dec n)"
  shows "GetInteger r sec name d = clamp_long (if neg then - int n else int n)"
proof -
  have "CHR 0x00 \<notin> set (show_dec n)"
    using show_dec_digits [of n] by (auto simp: list_all_iff is_digit_10)
  with assms show ?thesis
    by (auto simp: GetInteger_def strtol0_dec)
qed

lemma GetInteger_decimal_witness:
  "GetInteger \<lparr>reader_error = 0, reader_values = [(''s=port'', ''-42'')]\<rparr> ''S'' ''Port'' 7 = - 42"
proof -
  have "Get \<lparr>reader_error = 0, reader_values = [(''s=port'', ''-42'')]\<rparr> ''S'' ''Port'' [] =
      (if True then CHR ''-'' # show_dec 42 else show_dec 42)"
    by code_simp
  from GetInteger_decimal [OF this, of 7] show ?thesis
    by (simp add: clamp_long_def LONG_MIN_def LONG_MAX_def)
qed

end
