(* ===== verification/Evbuffer.thy ===== *)
theory Evbuffer
  imports Prelude
begin

text \<open>
  The byte buffers of \<^verbatim>\<open>buffer.c\<close>, which carry all input and output of the server. An
  \<^verbatim>\<open>evbuffer\<close> is a list of chains; the chain pointer \<^verbatim>\<open>last_with_datap\<close>, which points at the
  pointer to the last chain with data, is the number of that pointer: 0 is \<^verbatim>\<open>&buf->first\<close> and
  \<open>k + 1\<close> the \<^verbatim>\<open>next\<close> field of chain \<open>k\<close>. Sizes are those of the LP64 model.

  The allocator is the parameter \<open>m\<close>: it returns a block with whatever bytes it had, or nothing.
  Chains are owned by one buffer and hold their bytes themselves: reference chains, file
  segments and multicast chains are left out. Callbacks are recorded when they are invoked, with
  what they are passed; what their functions do is not part of the buffer.
\<close>

section \<open>Chains\<close>

type_synonym malloc = "nat \<Rightarrow> byte list option"

definition EV_SSIZE_MAX :: nat where "EV_SSIZE_MAX = 2 ^ 63 - 1"
definition EVBUFFER_CHAIN_MAX :: nat where "EVBUFFER_CHAIN_MAX = EV_SSIZE_MAX"
definition EVBUFFER_CHAIN_SIZE :: nat where "EVBUFFER_CHAIN_SIZE = 48"
definition MIN_BUFFER_SIZE :: nat where "MIN_BUFFER_SIZE = 1024"
definition EVBUFFER_CHAIN_MAX_AUTO_SIZE :: nat where "EVBUFFER_CHAIN_MAX_AUTO_SIZE = 4096"
definition MAX_TO_COPY_IN_EXPAND :: nat where "MAX_TO_COPY_IN_EXPAND = 4096"
definition MAX_TO_REALIGN_IN_EXPAND :: nat where "MAX_TO_REALIGN_IN_EXPAND = 2048"
definition EVBUFFER_MAX_READ_DEFAULT :: nat where "EVBUFFER_MAX_READ_DEFAULT = 4096"

record evchain =
  buffer :: "byte list"
  misalign :: nat
  off :: nat
  immutable :: bool
  pinned_r :: bool
  pinned_w :: bool

definition buffer_len :: "evchain \<Rightarrow> nat" where
  "buffer_len c = length (buffer c)"

definition CHAIN_SPACE_LEN :: "evchain \<Rightarrow> nat" where
  "CHAIN_SPACE_LEN c = (if immutable c then 0 else buffer_len c - (misalign c + off c))"

definition CHAIN_PINNED :: "evchain \<Rightarrow> bool" where
  "CHAIN_PINNED c \<longleftrightarrow> pinned_r c \<or> pinned_w c"

text \<open>The loop that doubles the size to allocate; it starts at \<^verbatim>\<open>MIN_BUFFER_SIZE\<close>.\<close>

function alloc_size :: "nat \<Rightarrow> nat \<Rightarrow> nat" where
  "alloc_size to_alloc sz =
     (if 0 < to_alloc \<and> to_alloc < sz then alloc_size (2 * to_alloc) sz else to_alloc)"
  by pat_completeness auto
termination
  by (relation "measure (\<lambda>(a, s). s - a)") auto

declare alloc_size.simps [simp del]

definition evbuffer_chain_new :: "malloc \<Rightarrow> nat \<Rightarrow> evchain option" where
  "evbuffer_chain_new m sz =
     (if EVBUFFER_CHAIN_MAX - EVBUFFER_CHAIN_SIZE < sz then None
      else
        (let sz = sz + EVBUFFER_CHAIN_SIZE;
             to_alloc = (if sz < EVBUFFER_CHAIN_MAX div 2 then alloc_size MIN_BUFFER_SIZE sz else sz)
         in case m to_alloc of
              None \<Rightarrow> None
            | Some block \<Rightarrow>
                Some \<lparr>buffer = drop EVBUFFER_CHAIN_SIZE block, misalign = 0, off = 0,
                      immutable = False, pinned_r = False, pinned_w = False\<rparr>))"

text \<open>\<^verbatim>\<open>memcpy\<close> of \<open>bs\<close> to offset \<open>i\<close> of a chain's memory.\<close>

definition chain_write :: "nat \<Rightarrow> byte list \<Rightarrow> evchain \<Rightarrow> evchain" where
  "chain_write i bs c = c\<lparr>buffer := take i (buffer c) @ bs @ drop (i + length bs) (buffer c)\<rparr>"

text \<open>The bytes the chain holds.\<close>

definition chain_data :: "evchain \<Rightarrow> byte list" where
  "chain_data c = take (off c) (drop (misalign c) (buffer c))"

definition evbuffer_chain_align :: "evchain \<Rightarrow> evchain" where
  "evbuffer_chain_align c = (chain_write 0 (chain_data c) c)\<lparr>misalign := 0\<rparr>"

definition evbuffer_chain_should_realign :: "evchain \<Rightarrow> nat \<Rightarrow> bool" where
  "evbuffer_chain_should_realign c datlen \<longleftrightarrow>
     buffer_len c - off c \<ge> datlen \<and> off c < buffer_len c div 2 \<and>
     off c \<le> MAX_TO_REALIGN_IN_EXPAND"

section \<open>Buffers\<close>

record cb_entry =
  cb_func :: nat
  cbarg :: nat
  cb_enabled :: bool
  cb_nodefer :: bool
  cb_obsolete :: bool

record cb_call =
  called :: cb_entry
  orig_size :: nat
  n_added :: nat
  n_deleted :: nat

record evbuffer =
  chains :: "evchain list"
  lwd :: nat  \<comment> \<open>\<^verbatim>\<open>last_with_datap\<close>\<close>
  total_len :: nat
  max_read :: nat
  n_add_for_cb :: nat
  n_del_for_cb :: nat
  has_lock :: bool
  lock_count :: nat
  freeze_start :: bool
  freeze_end :: bool
  deferred_cbs :: bool
  deferred_pending :: bool
  refcnt :: nat
  callbacks :: "cb_entry list"
  calls :: "cb_call list"

definition evbuffer_new :: evbuffer where
  "evbuffer_new = \<lparr>chains = [], lwd = 0, total_len = 0, max_read = EVBUFFER_MAX_READ_DEFAULT,
     n_add_for_cb = 0, n_del_for_cb = 0, has_lock = False, lock_count = 0,
     freeze_start = False, freeze_end = False, deferred_cbs = False, deferred_pending = False,
     refcnt = 1, callbacks = [], calls = []\<rparr>"

definition evbuffer_get_length :: "evbuffer \<Rightarrow> nat" where
  "evbuffer_get_length b = total_len b"

definition evbuffer_get_contiguous_space :: "evbuffer \<Rightarrow> nat" where
  "evbuffer_get_contiguous_space b = (case chains b of [] \<Rightarrow> 0 | c # _ \<Rightarrow> off c)"

definition evbuffer_freeze :: "evbuffer \<Rightarrow> bool \<Rightarrow> evbuffer" where
  "evbuffer_freeze b start =
     (if start then b\<lparr>freeze_start := True\<rparr> else b\<lparr>freeze_end := True\<rparr>)"

definition evbuffer_unfreeze :: "evbuffer \<Rightarrow> bool \<Rightarrow> evbuffer" where
  "evbuffer_unfreeze b start =
     (if start then b\<lparr>freeze_start := False\<rparr> else b\<lparr>freeze_end := False\<rparr>)"

text \<open>The recursive lock of a buffer; locking a buffer that has none does nothing.\<close>

definition evbuffer_enable_locking :: "evbuffer \<Rightarrow> int \<times> evbuffer" where
  "evbuffer_enable_locking b = (if has_lock b then (-1, b) else (0, b\<lparr>has_lock := True\<rparr>))"

definition evbuffer_lock :: "evbuffer \<Rightarrow> evbuffer" where
  "evbuffer_lock b = (if has_lock b then b\<lparr>lock_count := lock_count b + 1\<rparr> else b)"

definition evbuffer_unlock :: "evbuffer \<Rightarrow> evbuffer" where
  "evbuffer_unlock b = (if has_lock b then b\<lparr>lock_count := lock_count b - 1\<rparr> else b)"

subsection \<open>Callbacks\<close>

definition evbuffer_run_callbacks :: "evbuffer \<Rightarrow> bool \<Rightarrow> evbuffer" where
  "evbuffer_run_callbacks b running_deferred =
     (let sel = (if running_deferred then (\<lambda>e. cb_enabled e \<and> \<not> cb_nodefer e)
                 else if deferred_cbs b then (\<lambda>e. cb_enabled e \<and> cb_nodefer e)
                 else cb_enabled);
          clear = (running_deferred \<or> \<not> deferred_cbs b)
      in if callbacks b = [] then b\<lparr>n_add_for_cb := 0, n_del_for_cb := 0\<rparr>
         else if n_add_for_cb b = 0 \<and> n_del_for_cb b = 0 then b
         else
           (let orig = total_len b + n_del_for_cb b - n_add_for_cb b;
                new = map (\<lambda>e. \<lparr>called = e, orig_size = orig, n_added = n_add_for_cb b,
                                n_deleted = n_del_for_cb b\<rparr>) (filter sel (callbacks b));
                b1 = (if clear then b\<lparr>n_add_for_cb := 0, n_del_for_cb := 0\<rparr> else b)
            in b1\<lparr>calls := calls b1 @ new\<rparr>))"

definition evbuffer_invoke_callbacks :: "evbuffer \<Rightarrow> evbuffer" where
  "evbuffer_invoke_callbacks b =
     (if callbacks b = [] then b\<lparr>n_add_for_cb := 0, n_del_for_cb := 0\<rparr>
      else
        (let b1 = (if deferred_cbs b \<and> \<not> deferred_pending b
                   then b\<lparr>deferred_pending := True, refcnt := refcnt b + 1\<rparr> else b)
         in evbuffer_run_callbacks b1 False))"

section \<open>Adding at the end\<close>

text \<open>
  The number of the pointer \<^verbatim>\<open>evbuffer_free_trailing_empty_chains\<close> returns; the chains from it
  on are freed.
\<close>

definition trailing_slot :: "evbuffer \<Rightarrow> nat" where
  "trailing_slot b =
     lwd b + length (takeWhile (\<lambda>c. off c \<noteq> 0 \<or> CHAIN_PINNED c) (drop (lwd b) (chains b)))"

definition evbuffer_free_trailing_empty_chains :: "evbuffer \<Rightarrow> nat \<times> evbuffer" where
  "evbuffer_free_trailing_empty_chains b =
     (trailing_slot b, b\<lparr>chains := take (trailing_slot b) (chains b)\<rparr>)"

definition evbuffer_chain_insert :: "evbuffer \<Rightarrow> evchain \<Rightarrow> evbuffer" where
  "evbuffer_chain_insert b c =
     (let b' = (if length (chains b) \<le> lwd b then b\<lparr>chains := [c]\<rparr>
                else
                  (let (chp, b1) = evbuffer_free_trailing_empty_chains b;
                       b2 = b1\<lparr>chains := chains b1 @ [c]\<rparr>
                   in if off c \<noteq> 0 then b2\<lparr>lwd := chp\<rparr> else b2))
      in b'\<lparr>total_len := total_len b' + off c\<rparr>)"

text \<open>\<open>chain->off += n\<close> with the counters of the buffer, after a copy into chain \<open>i\<close>.\<close>

definition append_to_chain :: "nat \<Rightarrow> byte list \<Rightarrow> evbuffer \<Rightarrow> evbuffer" where
  "append_to_chain i data b =
     (let c = chains b ! i;
          c1 = chain_write (misalign c + off c) data c;
          c2 = c1\<lparr>off := off c1 + length data\<rparr>
      in b\<lparr>chains := (chains b)[i := c2], total_len := total_len b + length data,
           n_add_for_cb := n_add_for_cb b + length data\<rparr>)"

text \<open>The end of \<^verbatim>\<open>evbuffer_add\<close>: fill the last chain with data and put the rest in a new one.\<close>

definition add_new_chain :: "malloc \<Rightarrow> nat \<Rightarrow> nat \<Rightarrow> byte list \<Rightarrow> evbuffer \<Rightarrow> int \<times> evbuffer" where
  "add_new_chain m i remain data b =
     (let to_alloc = buffer_len (chains b ! i);
          to_alloc = (if to_alloc \<le> EVBUFFER_CHAIN_MAX_AUTO_SIZE div 2 then 2 * to_alloc else to_alloc);
          to_alloc = (if to_alloc < length data then length data else to_alloc)
      in case evbuffer_chain_new m to_alloc of
           None \<Rightarrow> (-1, b)
         | Some tmp \<Rightarrow>
             (let b1 = (if remain \<noteq> 0 then append_to_chain i (take remain data) b else b);
                  rest = drop remain data;
                  tmp1 = (chain_write 0 rest tmp)\<lparr>off := length rest\<rparr>;
                  b2 = evbuffer_chain_insert b1 tmp1;
                  b3 = b2\<lparr>n_add_for_cb := n_add_for_cb b2 + length rest\<rparr>
              in (0, evbuffer_invoke_callbacks b3)))"

definition add_to_last :: "malloc \<Rightarrow> byte list \<Rightarrow> evbuffer \<Rightarrow> int \<times> evbuffer" where
  "add_to_last m data b =
     (let i = (if lwd b < length (chains b) then lwd b else length (chains b) - 1);
          c = chains b ! i;
          remain = buffer_len c - misalign c - off c
      in if \<not> immutable c then
           (if length data \<le> remain then
              (0, evbuffer_invoke_callbacks (append_to_chain i data b))
            else if \<not> CHAIN_PINNED c \<and> evbuffer_chain_should_realign c (length data) then
              (0, evbuffer_invoke_callbacks (append_to_chain i data
                    (b\<lparr>chains := (chains b)[i := evbuffer_chain_align c]\<rparr>)))
            else add_new_chain m i remain data b)
         else add_new_chain m i 0 data b)"

definition evbuffer_add :: "malloc \<Rightarrow> evbuffer \<Rightarrow> byte list \<Rightarrow> int \<times> evbuffer" where
  "evbuffer_add m b data =
     (if freeze_end b then (-1, b)
      else if EV_SIZE_MAX - total_len b < length data then (-1, b)
      else if chains b = [] then
        (case evbuffer_chain_new m (length data) of
           None \<Rightarrow> (-1, b)
         | Some c \<Rightarrow> add_to_last m data (evbuffer_chain_insert b c))
      else add_to_last m data b)"

section \<open>Adding at the front\<close>

text \<open>A new first chain with \<open>data\<close> at the end of its memory.\<close>

definition prepend_new_chain :: "malloc \<Rightarrow> byte list \<Rightarrow> evbuffer \<Rightarrow> int \<times> evbuffer" where
  "prepend_new_chain m data b =
     (case evbuffer_chain_new m (length data) of
        None \<Rightarrow> (-1, b)
      | Some tmp \<Rightarrow>
          (let mis = buffer_len tmp - length data;
               tmp1 = chain_write mis data (tmp\<lparr>off := length data, misalign := mis\<rparr>);
               b1 = b\<lparr>chains := tmp1 # chains b,
                      lwd := (if lwd b = 0 then (if off (hd (chains b)) \<noteq> 0 then 1 else 0)
                              else lwd b + 1),
                      total_len := total_len b + length data,
                      n_add_for_cb := n_add_for_cb b + length data\<rparr>
           in (0, evbuffer_invoke_callbacks b1)))"

text \<open>
  The bytes that go into the free memory before the first chain's data: \<open>n\<close> of them, taken from
  the end of \<open>data\<close>.
\<close>

definition prepend_into_first :: "nat \<Rightarrow> byte list \<Rightarrow> evbuffer \<Rightarrow> evbuffer" where
  "prepend_into_first n data b =
     (let c = hd (chains b);
          c1 = chain_write (misalign c - n) (drop (length data - n) data) c;
          c2 = c1\<lparr>off := off c1 + n, misalign := misalign c1 - n\<rparr>
      in b\<lparr>chains := c2 # tl (chains b), total_len := total_len b + n,
           n_add_for_cb := n_add_for_cb b + n\<rparr>)"

definition prepend_to_first :: "malloc \<Rightarrow> byte list \<Rightarrow> evbuffer \<Rightarrow> int \<times> evbuffer" where
  "prepend_to_first m data b =
     (let c = hd (chains b)
      in if \<not> immutable c then
           (let c1 = (if off c = 0 then c\<lparr>misalign := buffer_len c\<rparr> else c);
                b1 = b\<lparr>chains := c1 # tl (chains b)\<rparr>
            in if length data \<le> misalign c1 then
                 (0, evbuffer_invoke_callbacks (prepend_into_first (length data) data b1))
               else if misalign c1 \<noteq> 0 then
                 prepend_new_chain m (take (length data - misalign c1) data)
                   (prepend_into_first (misalign c1) data b1)
               else prepend_new_chain m data b1)
         else prepend_new_chain m data b)"

definition evbuffer_prepend :: "malloc \<Rightarrow> evbuffer \<Rightarrow> byte list \<Rightarrow> int \<times> evbuffer" where
  "evbuffer_prepend m b data =
     (if data = [] then (0, b)
      else if freeze_start b then (-1, b)
      else if EV_SIZE_MAX - total_len b < length data then (-1, b)
      else if chains b = [] then
        (case evbuffer_chain_new m (length data) of
           None \<Rightarrow> (-1, b)
         | Some c \<Rightarrow> prepend_to_first m data (evbuffer_chain_insert b c))
      else prepend_to_first m data b)"

section \<open>Removing from the front\<close>

definition HAS_PINNED_R :: "evbuffer \<Rightarrow> bool" where
  "HAS_PINNED_R b \<longleftrightarrow> chains b \<noteq> [] \<and> pinned_r (last (chains b))"

definition ZERO_CHAIN :: "evbuffer \<Rightarrow> evbuffer" where
  "ZERO_CHAIN b = b\<lparr>chains := [], lwd := 0, total_len := 0\<rparr>"

text \<open>
  The loop of \<^verbatim>\<open>evbuffer_drain\<close> over the chains left, with the bytes still to drain and
  \<^verbatim>\<open>last_with_datap\<close> counted from the chain at hand: it is reset to the front when the chain
  that is freed holds the pointer or is what it points at. A chain pinned for reading is emptied
  and ends the loop.
\<close>

fun drain_loop :: "evchain list \<Rightarrow> nat \<Rightarrow> nat \<Rightarrow> evchain list \<times> nat \<times> nat" where
  "drain_loop [] remaining l = ([], remaining, l)"
| "drain_loop (c # cs) remaining l =
     (if off c \<le> remaining then
        (let l' = (if l = 0 then 0 else l - 1)
         in if pinned_r c
            then (c\<lparr>misalign := misalign c + off c, off := 0\<rparr> # cs, remaining - off c,
                  if l \<le> 1 then 0 else l)
            else drain_loop cs (remaining - off c) l')
      else (c # cs, remaining, l))"

definition evbuffer_drain :: "evbuffer \<Rightarrow> nat \<Rightarrow> int \<times> evbuffer" where
  "evbuffer_drain b len =
     (let old_len = total_len b
      in if old_len = 0 then (0, b)
         else if freeze_start b then (-1, b)
         else if old_len \<le> len \<and> \<not> HAS_PINNED_R b then
           (let b1 = ZERO_CHAIN b
            in (0, evbuffer_invoke_callbacks (b1\<lparr>n_del_for_cb := n_del_for_cb b1 + old_len\<rparr>)))
         else
           (let len = (if old_len \<le> len then old_len else len);
                (cs, remaining, l) = drain_loop (chains b) len (lwd b);
                cs' = (case cs of [] \<Rightarrow> [] | c # cs \<Rightarrow>
                        c\<lparr>misalign := misalign c + remaining, off := off c - remaining\<rparr> # cs);
                b1 = b\<lparr>chains := cs', lwd := l, total_len := total_len b - len,
                       n_del_for_cb := n_del_for_cb b + len\<rparr>
            in (0, evbuffer_invoke_callbacks b1)))"

text \<open>
  A position in a buffer: the chain by number, \<^term>\<open>None\<close> for a null chain.
\<close>

record evbuffer_ptr =
  pos :: int
  ptr_chain :: "nat option"
  pos_in_chain :: nat

text \<open>The copy loop of \<^verbatim>\<open>evbuffer_copyout_from\<close>, from position \<open>p\<close> of the first chain.\<close>

fun copyout_loop :: "evchain list \<Rightarrow> nat \<Rightarrow> nat \<Rightarrow> byte list" where
  "copyout_loop [] p datlen = []"
| "copyout_loop (c # cs) p datlen =
     (let copylen = off c - p
      in if datlen \<noteq> 0 \<and> copylen \<le> datlen
         then take copylen (drop (misalign c + p) (buffer c)) @ copyout_loop cs 0 (datlen - copylen)
         else take datlen (drop (misalign c + p) (buffer c)))"

definition evbuffer_copyout_from ::
    "evbuffer \<Rightarrow> evbuffer_ptr option \<Rightarrow> nat \<Rightarrow> int \<times> byte list" where
  "evbuffer_copyout_from b p datlen =
     (if (case p of None \<Rightarrow> False | Some q \<Rightarrow> int EV_SSIZE_MAX - pos q < int datlen) then (-1, [])
      else
        (let (cs, start, at) =
               (case p of
                  None \<Rightarrow> (chains b, 0, 0)
                | Some q \<Rightarrow>
                    ((case ptr_chain q of None \<Rightarrow> [] | Some i \<Rightarrow> drop i (chains b)),
                     pos_in_chain q, nat (pos q)));
             datlen = (if total_len b < datlen + at then total_len b - at else datlen)
         in if datlen = 0 then (0, [])
            else if freeze_start b then (-1, [])
            else (int datlen, copyout_loop cs start datlen)))"

definition evbuffer_copyout :: "evbuffer \<Rightarrow> nat \<Rightarrow> int \<times> byte list" where
  "evbuffer_copyout b datlen = evbuffer_copyout_from b None datlen"

text \<open>The result, the bytes stored at \<^verbatim>\<open>data_out\<close> and the buffer.\<close>

definition evbuffer_remove :: "evbuffer \<Rightarrow> nat \<Rightarrow> int \<times> byte list \<times> evbuffer" where
  "evbuffer_remove b datlen =
     (let (n, bytes) = evbuffer_copyout_from b None datlen
      in if n > 0 then
           (let (r, b') = evbuffer_drain b (nat n)
            in (cast_int (if r < 0 then -1 else n), bytes, b'))
         else (cast_int n, bytes, b))"

section \<open>Moving between buffers\<close>

text \<open>
  Two different buffers; with one and the same buffer for both the code returns 0 and does
  nothing.

  The chains kept back because they are pinned for reading, taken off \<open>src\<close>; \<^term>\<open>None\<close> when
  the allocation fails.
\<close>

definition PRESERVE_PINNED :: "malloc \<Rightarrow> evbuffer \<Rightarrow> (evbuffer \<times> evchain list) option" where
  "PRESERVE_PINNED m src =
     (if \<not> HAS_PINNED_R src then Some (src, [])
      else
        (let k = (if pinned_r (chains src ! lwd src) then lwd src else lwd src + 1);
             c = chains src ! k
         in if off c \<noteq> 0 then
              (case evbuffer_chain_new m (off c) of
                 None \<Rightarrow> None
               | Some tmp \<Rightarrow>
                   Some (src\<lparr>chains := take k (chains src) @
                             [(chain_write 0 (chain_data c) tmp)\<lparr>off := off c\<rparr>]\<rparr>,
                         c\<lparr>misalign := misalign c + off c, off := 0\<rparr> # drop (k + 1) (chains src)))
            else Some (src\<lparr>chains := take k (chains src)\<rparr>, drop k (chains src))))"

definition RESTORE_PINNED :: "evbuffer \<Rightarrow> evchain list \<Rightarrow> evbuffer" where
  "RESTORE_PINNED src pinned =
     (if pinned = [] then ZERO_CHAIN src
      else src\<lparr>chains := pinned, lwd := 0, total_len := 0\<rparr>)"

definition COPY_CHAIN :: "evbuffer \<Rightarrow> evbuffer \<Rightarrow> evbuffer" where
  "COPY_CHAIN dst src = dst\<lparr>chains := chains src, lwd := lwd src, total_len := total_len src\<rparr>"

definition APPEND_CHAIN :: "evbuffer \<Rightarrow> evbuffer \<Rightarrow> evbuffer" where
  "APPEND_CHAIN dst src =
     (let (chp, dst1) = evbuffer_free_trailing_empty_chains dst
      in dst1\<lparr>chains := chains dst1 @ chains src,
              lwd := (if lwd src = 0 then chp else chp + lwd src),
              total_len := total_len dst1 + total_len src\<rparr>)"

definition PREPEND_CHAIN :: "evbuffer \<Rightarrow> evbuffer \<Rightarrow> evbuffer" where
  "PREPEND_CHAIN dst src =
     dst\<lparr>chains := chains src @ chains dst,
         total_len := total_len dst + total_len src,
         lwd := (if length (chains dst) \<le> lwd dst then lwd src
                 else length (chains src) + lwd dst)\<rparr>"

definition evbuffer_add_buffer ::
    "malloc \<Rightarrow> evbuffer \<Rightarrow> evbuffer \<Rightarrow> int \<times> evbuffer \<times> evbuffer" where
  "evbuffer_add_buffer m outbuf inbuf =
     (let in_total_len = total_len inbuf; out_total_len = total_len outbuf
      in if in_total_len = 0 then (0, outbuf, inbuf)
         else if freeze_end outbuf \<or> freeze_start inbuf then (-1, outbuf, inbuf)
         else case PRESERVE_PINNED m inbuf of
           None \<Rightarrow> (-1, outbuf, inbuf)
         | Some (inbuf, pinned) \<Rightarrow>
             (let outbuf = (if out_total_len = 0 then COPY_CHAIN outbuf inbuf
                            else APPEND_CHAIN outbuf inbuf);
                  inbuf = RESTORE_PINNED inbuf pinned;
                  inbuf = inbuf\<lparr>n_del_for_cb := n_del_for_cb inbuf + in_total_len\<rparr>;
                  outbuf = outbuf\<lparr>n_add_for_cb := n_add_for_cb outbuf + in_total_len\<rparr>
              in (0, evbuffer_invoke_callbacks outbuf, evbuffer_invoke_callbacks inbuf)))"

definition evbuffer_prepend_buffer ::
    "malloc \<Rightarrow> evbuffer \<Rightarrow> evbuffer \<Rightarrow> int \<times> evbuffer \<times> evbuffer" where
  "evbuffer_prepend_buffer m outbuf inbuf =
     (let in_total_len = total_len inbuf; out_total_len = total_len outbuf
      in if in_total_len = 0 then (0, outbuf, inbuf)
         else if freeze_start outbuf \<or> freeze_start inbuf then (-1, outbuf, inbuf)
         else case PRESERVE_PINNED m inbuf of
           None \<Rightarrow> (-1, outbuf, inbuf)
         | Some (inbuf, pinned) \<Rightarrow>
             (let outbuf = (if out_total_len = 0 then COPY_CHAIN outbuf inbuf
                            else PREPEND_CHAIN outbuf inbuf);
                  inbuf = RESTORE_PINNED inbuf pinned;
                  inbuf = inbuf\<lparr>n_del_for_cb := n_del_for_cb inbuf + in_total_len\<rparr>;
                  outbuf = outbuf\<lparr>n_add_for_cb := n_add_for_cb outbuf + in_total_len\<rparr>
              in (0, evbuffer_invoke_callbacks outbuf, evbuffer_invoke_callbacks inbuf)))"

text \<open>
  The chains of \<open>src\<close> that \<^verbatim>\<open>evbuffer_remove_buffer\<close> moves whole: their number, the bytes
  they hold, and \<^verbatim>\<open>last_with_datap\<close> counted from the first chain that stays.
\<close>

fun whole_chains :: "evchain list \<Rightarrow> nat \<Rightarrow> nat \<Rightarrow> nat \<times> nat \<times> nat" where
  "whole_chains [] datlen l = (0, 0, l)"
| "whole_chains (c # cs) datlen l =
     (if off c \<le> datlen then
        (let (k, n, l') = whole_chains cs (datlen - off c) (if l = 0 then 0 else l - 1)
         in (k + 1, off c + n, l'))
      else (0, 0, l))"

text \<open>The slot \<^verbatim>\<open>advance_last_with_data\<close> leaves: the last chain with data from \<open>lwd\<close> on.\<close>

fun last_data_from :: "evchain list \<Rightarrow> nat \<Rightarrow> nat \<Rightarrow> nat" where
  "last_data_from [] i l = l"
| "last_data_from (c # cs) i l = last_data_from cs (i + 1) (if off c \<noteq> 0 then i else l)"

definition advance_last_with_data :: "evbuffer \<Rightarrow> evbuffer" where
  "advance_last_with_data b =
     b\<lparr>lwd := last_data_from (drop (lwd b + 1) (chains b)) (lwd b + 1) (lwd b)\<rparr>"

text \<open>Whole chains, with \<open>nread\<close> bytes in them, put after the data of \<open>dst\<close>.\<close>

definition move_chains :: "evbuffer \<Rightarrow> evchain list \<Rightarrow> nat \<Rightarrow> evbuffer" where
  "move_chains dst moved nread =
     (let (chp, d) = evbuffer_free_trailing_empty_chains dst;
          d1 = advance_last_with_data (d\<lparr>chains := chains d @ moved\<rparr>)
      in d1\<lparr>total_len := total_len d1 + nread, n_add_for_cb := n_add_for_cb d1 + nread\<rparr>)"

definition evbuffer_remove_buffer ::
    "malloc \<Rightarrow> evbuffer \<Rightarrow> evbuffer \<Rightarrow> nat \<Rightarrow> int \<times> evbuffer \<times> evbuffer" where
  "evbuffer_remove_buffer m src dst datlen =
     (if datlen = 0 then (0, src, dst)
      else if freeze_end dst \<or> freeze_start src then (-1, src, dst)
      else if total_len src \<le> datlen then
        (let (r, dst', src') = evbuffer_add_buffer m dst src
         in (cast_int (int (total_len src)), src', dst'))
      else
        (let (k, nread, l) = whole_chains (chains src) datlen (lwd src);
             left = datlen - nread;
             dst1 = (if k = 0 then dst else move_chains dst (take k (chains src)) nread);
             c = chains src ! k;
             (r, dst2) = evbuffer_add m dst1 (take left (chain_data c));
             c1 = c\<lparr>misalign := misalign c + left, off := off c - left\<rparr>;
             nread = nread + left;
             src1 = src\<lparr>chains := c1 # drop (k + 1) (chains src), lwd := l,
                        total_len := total_len src - nread,
                        n_del_for_cb := n_del_for_cb src + nread\<rparr>
         in if nread \<noteq> 0
            then (cast_int (int nread), evbuffer_invoke_callbacks src1, evbuffer_invoke_callbacks dst2)
            else (cast_int (int nread), src1, dst2)))"


section \<open>Growing the last chain\<close>

text \<open>
  \<^verbatim>\<open>evbuffer_expand_singlechain\<close>: the number of the chain with room for \<open>datlen\<close> bytes, or
  \<^term>\<open>None\<close>, and the buffer.
\<close>

definition evbuffer_chain_insert_new ::
    "malloc \<Rightarrow> evbuffer \<Rightarrow> nat \<Rightarrow> nat option \<times> evbuffer" where
  "evbuffer_chain_insert_new m b datlen =
     (case evbuffer_chain_new m datlen of
        None \<Rightarrow> (None, b)
      | Some c \<Rightarrow>
          (let b1 = evbuffer_chain_insert b c in (Some (length (chains b1) - 1), b1)))"

definition evbuffer_expand_singlechain ::
    "malloc \<Rightarrow> evbuffer \<Rightarrow> nat \<Rightarrow> nat option \<times> evbuffer" where
  "evbuffer_expand_singlechain m b datlen =
     (let i = (if lwd b < length (chains b) \<and> CHAIN_SPACE_LEN (chains b ! lwd b) = 0
               then lwd b + 1 else lwd b)
      in if length (chains b) \<le> i then evbuffer_chain_insert_new m b datlen
         else
           (let c = chains b ! i
            in if immutable c \<or> CHAIN_PINNED c then evbuffer_chain_insert_new m b datlen
               else if datlen \<le> CHAIN_SPACE_LEN c then (Some i, b)
               else if off c = 0 then evbuffer_chain_insert_new m b datlen
               else if evbuffer_chain_should_realign c datlen then
                 (Some i, b\<lparr>chains := (chains b)[i := evbuffer_chain_align c]\<rparr>)
               else if CHAIN_SPACE_LEN c < buffer_len c div 8 \<or> MAX_TO_COPY_IN_EXPAND < off c \<or>
                       EVBUFFER_CHAIN_MAX - off c \<le> datlen then
                 (if i + 1 < length (chains b) \<and> datlen \<le> CHAIN_SPACE_LEN (chains b ! (i + 1))
                  then (Some (i + 1), b)
                  else evbuffer_chain_insert_new m b datlen)
               else
                 (case evbuffer_chain_new m (off c + datlen) of
                    None \<Rightarrow> (None, b)
                  | Some tmp \<Rightarrow>
                      (Some i, b\<lparr>chains := (chains b)[i :=
                         chain_write 0 (chain_data c) (tmp\<lparr>off := off c\<rparr>)]\<rparr>))))"

definition evbuffer_expand :: "malloc \<Rightarrow> evbuffer \<Rightarrow> nat \<Rightarrow> int \<times> evbuffer" where
  "evbuffer_expand m b datlen =
     (case evbuffer_expand_singlechain m b datlen of
        (None, b') \<Rightarrow> (-1, b') | (Some _, b') \<Rightarrow> (0, b'))"

end
