(* ===== verification/EvbufferLaws.thy ===== *)
theory EvbufferLaws
  imports Evbuffer
begin

text \<open>
  What the operations of an \<^verbatim>\<open>evbuffer\<close> do to the byte string it holds, and the invariant
  between its chains, its length and its \<^verbatim>\<open>last_with_datap\<close>. The invariant covers buffers
  without chains pinned for reading, which only the overlapped I/O of Windows makes.
\<close>

section \<open>The invariant and the contents\<close>

definition mm_ok :: "malloc \<Rightarrow> bool" where
  "mm_ok m \<longleftrightarrow> (\<forall>n b. m n = Some b \<longrightarrow> length b = n)"

definition mm_total :: "malloc \<Rightarrow> bool" where
  "mm_total m \<longleftrightarrow> mm_ok m \<and> (\<forall>n. m n \<noteq> None)"

definition chain_ok :: "evchain \<Rightarrow> bool" where
  "chain_ok c \<longleftrightarrow> misalign c + off c \<le> buffer_len c \<and> \<not> pinned_r c \<and>
     buffer_len c \<le> EVBUFFER_CHAIN_MAX - EVBUFFER_CHAIN_SIZE"

definition data_of :: "evchain list \<Rightarrow> byte list" where
  "data_of cs = concat (map chain_data cs)"

definition content :: "evbuffer \<Rightarrow> byte list" where
  "content b = data_of (chains b)"

definition lwd_ok :: "evchain list \<Rightarrow> nat \<Rightarrow> bool" where
  "lwd_ok cs l \<longleftrightarrow>
     (if cs = [] then l = 0
      else l < length cs \<and> list_all (\<lambda>c. off c = 0) (drop (l + 1) cs) \<and>
        (off (cs ! l) = 0 \<longrightarrow> l = 0))"

definition evb_ok :: "evbuffer \<Rightarrow> bool" where
  "evb_ok b \<longleftrightarrow> list_all chain_ok (chains b) \<and> total_len b = length (content b) \<and>
     lwd_ok (chains b) (lwd b)"

lemma data_of_simps [simp]:
  "data_of [] = []" "data_of (c # cs) = chain_data c @ data_of cs"
  "data_of (cs @ ds) = data_of cs @ data_of ds"
  by (simp_all add: data_of_def)

lemma length_chain_data: "chain_ok c \<Longrightarrow> length (chain_data c) = off c"
  by (auto simp: chain_ok_def chain_data_def buffer_len_def)

lemma data_of_empty: "list_all (\<lambda>c. off c = 0) cs \<Longrightarrow> data_of cs = []"
  by (induction cs) (auto simp: chain_data_def)

lemma data_of_split:
  "i < length cs \<Longrightarrow> data_of cs = data_of (take i cs) @ chain_data (cs ! i) @ data_of (drop (i + 1) cs)"
  by (metis Suc_eq_plus1 append_Cons data_of_simps(2,3) id_take_nth_drop)

lemma data_of_update:
  "i < length cs \<Longrightarrow> data_of (cs[i := c]) =
    data_of (take i cs) @ chain_data c @ data_of (drop (i + 1) cs)"
  by (simp add: upd_conv_take_nth_drop)

lemma invoke_callbacks_fields [simp]:
  "chains (evbuffer_invoke_callbacks b) = chains b"
  "lwd (evbuffer_invoke_callbacks b) = lwd b"
  "total_len (evbuffer_invoke_callbacks b) = total_len b"
  "freeze_start (evbuffer_invoke_callbacks b) = freeze_start b"
  "freeze_end (evbuffer_invoke_callbacks b) = freeze_end b"
  "has_lock (evbuffer_invoke_callbacks b) = has_lock b"
  "lock_count (evbuffer_invoke_callbacks b) = lock_count b"
  by (simp_all add: evbuffer_invoke_callbacks_def evbuffer_run_callbacks_def Let_def)

lemma invoke_callbacks_ok [simp]:
  "content (evbuffer_invoke_callbacks b) = content b"
  "evb_ok (evbuffer_invoke_callbacks b) = evb_ok b"
  by (simp_all add: content_def evb_ok_def)

lemma evb_ok_new [simp]: "evb_ok evbuffer_new" "content evbuffer_new = []"
  by (simp_all add: evb_ok_def evbuffer_new_def content_def lwd_ok_def)

section \<open>New chains\<close>

lemma alloc_size_ge: "0 < a \<Longrightarrow> sz \<le> alloc_size a sz"
proof (induction a sz rule: alloc_size.induct)
  case (1 a sz)
  then show ?case by (cases "a < sz") (auto simp: alloc_size.simps [of a sz])
qed

lemma alloc_size_bound: "a \<le> k \<Longrightarrow> 2 * sz \<le> k \<Longrightarrow> alloc_size a sz \<le> k"
proof (induction a sz rule: alloc_size.induct)
  case (1 a sz)
  then show ?case by (cases "0 < a \<and> a < sz") (auto simp: alloc_size.simps [of a sz])
qed

lemma chain_new_fields:
  assumes "mm_ok m" and "evbuffer_chain_new m sz = Some c"
  shows "sz \<le> buffer_len c" "misalign c = 0" "off c = 0" "\<not> immutable c"
    "\<not> pinned_r c" "\<not> pinned_w c" "chain_ok c" "chain_data c = []"
proof -
  let ?sz = "sz + EVBUFFER_CHAIN_SIZE"
  from assms(2) obtain a block where a: "m a = Some block" and ge: "?sz \<le> a"
    and c: "c = \<lparr>buffer = drop EVBUFFER_CHAIN_SIZE block, misalign = 0, off = 0,
                 immutable = False, pinned_r = False, pinned_w = False\<rparr>"
    and le: "a \<le> EVBUFFER_CHAIN_MAX"
    using alloc_size_ge [of MIN_BUFFER_SIZE ?sz]
      alloc_size_bound [of MIN_BUFFER_SIZE EVBUFFER_CHAIN_MAX ?sz]
    by (auto simp: evbuffer_chain_new_def Let_def MIN_BUFFER_SIZE_def EVBUFFER_CHAIN_MAX_def
        EV_SSIZE_MAX_def EVBUFFER_CHAIN_SIZE_def split: if_splits option.splits)
  from a assms(1) have "length block = a" by (simp add: mm_ok_def)
  with ge c show "sz \<le> buffer_len c" by (simp add: buffer_len_def)
  from c show "misalign c = 0" "off c = 0" "\<not> immutable c" "\<not> pinned_r c" "\<not> pinned_w c"
    "chain_data c = []"
    by (simp_all add: chain_data_def)
  from c le \<open>length block = a\<close> show "chain_ok c" by (simp add: chain_ok_def buffer_len_def)
qed

lemma chain_new_exists:
  assumes "mm_total m" and "sz \<le> EVBUFFER_CHAIN_MAX - EVBUFFER_CHAIN_SIZE"
  obtains c where "evbuffer_chain_new m sz = Some c"
proof -
  from assms(1) have "\<forall>n. \<exists>y. m n = Some y" by (simp add: mm_total_def)
  from choice [OF this] obtain f where "\<forall>n. m n = Some (f n)" ..
  with assms(2) have "evbuffer_chain_new m sz \<noteq> None"
    by (simp add: evbuffer_chain_new_def Let_def not_less split: option.split)
  with that show thesis by blast
qed

section \<open>Writing into chains\<close>

lemma chain_write_fields [simp]:
  "misalign (chain_write i bs c) = misalign c" "off (chain_write i bs c) = off c"
  "immutable (chain_write i bs c) = immutable c" "pinned_r (chain_write i bs c) = pinned_r c"
  "pinned_w (chain_write i bs c) = pinned_w c"
  by (simp_all add: chain_write_def)

lemma buffer_len_write [simp]:
  "i + length bs \<le> buffer_len c \<Longrightarrow> buffer_len (chain_write i bs c) = buffer_len c"
  by (simp add: chain_write_def buffer_len_def)

lemma chain_data_write_end:
  assumes "misalign c + off c + length bs \<le> buffer_len c"
  shows "chain_data ((chain_write (misalign c + off c) bs c)\<lparr>off := off c + length bs\<rparr>) =
    chain_data c @ bs"
proof -
  let ?i = "misalign c" and ?n = "off c"
  from assms have le: "?i + ?n \<le> length (buffer c)" by (simp add: buffer_len_def)
  then have "drop ?i (take (?i + ?n) (buffer c)) = take ?n (drop ?i (buffer c))"
    by (simp add: drop_take)
  with le show ?thesis by (simp add: chain_data_def chain_write_def)
qed

lemma chain_align_fields:
  assumes "chain_ok c"
  shows "chain_ok (evbuffer_chain_align c)" "chain_data (evbuffer_chain_align c) = chain_data c"
    "off (evbuffer_chain_align c) = off c" "misalign (evbuffer_chain_align c) = 0"
    "buffer_len (evbuffer_chain_align c) = buffer_len c"
proof -
  from assms have l: "length (chain_data c) = off c" and le: "off c \<le> buffer_len c"
    by (auto simp: length_chain_data chain_ok_def)
  then show "buffer_len (evbuffer_chain_align c) = buffer_len c"
    by (simp add: evbuffer_chain_align_def buffer_len_def chain_write_def)
  with assms le show "chain_ok (evbuffer_chain_align c)"
    by (simp add: chain_ok_def evbuffer_chain_align_def)
  show "chain_data (evbuffer_chain_align c) = chain_data c"
    using l by (simp add: evbuffer_chain_align_def chain_data_def [of "_ \<lparr> misalign := 0 \<rparr>"]
        chain_write_def)
qed (simp_all add: evbuffer_chain_align_def)

section \<open>Trailing chains\<close>

lemma lwd_tail_empty:
  assumes "lwd_ok cs l" and "cs \<noteq> []" and "off (cs ! l) = 0"
  shows "data_of cs = []"
proof -
  from assms have "l = 0" and "list_all (\<lambda>c. off c = 0) (drop 1 cs)"
    by (auto simp: lwd_ok_def)
  with assms show ?thesis
    by (intro data_of_empty) (cases cs; simp)
qed

lemma trailing_slot_facts:
  assumes "evb_ok b" and "chains b \<noteq> []"
  shows "lwd b \<le> trailing_slot b" "trailing_slot b \<le> length (chains b)"
    "data_of (take (trailing_slot b) (chains b)) = content b"
    "trailing_slot b = lwd b \<Longrightarrow> lwd b = 0"
    "list_all (\<lambda>c. off c = 0) (drop (lwd b + 1) (take (trailing_slot b) (chains b)))"
proof -
  let ?p = "\<lambda>c. off c \<noteq> 0 \<or> CHAIN_PINNED c"
  let ?cs = "chains b" and ?l = "lwd b" and ?k = "trailing_slot b"
  from assms have l: "?l < length ?cs" and tl: "list_all (\<lambda>c. off c = 0) (drop (?l + 1) ?cs)"
    and z: "off (?cs ! ?l) = 0 \<longrightarrow> ?l = 0"
    by (auto simp: evb_ok_def lwd_ok_def)
  show "?l \<le> ?k" by (simp add: trailing_slot_def)
  show k: "?k \<le> length ?cs"
    using l length_takeWhile_le [of ?p "drop ?l ?cs"] by (simp add: trailing_slot_def)
  have hd: "drop ?l ?cs = ?cs ! ?l # drop (?l + 1) ?cs"
    using l by (simp add: Cons_nth_drop_Suc)
  then show "?k = ?l \<Longrightarrow> ?l = 0"
    using z by (simp add: trailing_slot_def split: if_splits)
  show "list_all (\<lambda>c. off c = 0) (drop (?l + 1) (take ?k ?cs))"
    using tl by (auto simp: list_all_iff drop_take dest: in_set_takeD)
  have "list_all (\<lambda>c. off c = 0) (drop ?k ?cs)"
  proof (cases "off (?cs ! ?l) = 0 \<and> \<not> CHAIN_PINNED (?cs ! ?l)")
    case True
    with hd have "?k = ?l" by (simp add: trailing_slot_def)
    with True tl hd show ?thesis by simp
  next
    case False
    with hd have "?l + 1 \<le> ?k" by (simp add: trailing_slot_def)
    then have "drop ?k ?cs = drop (?k - (?l + 1)) (drop (?l + 1) ?cs)" by simp
    with tl show ?thesis by (metis in_set_dropD list_all_iff)
  qed
  then have "data_of (drop ?k ?cs) = []" by (rule data_of_empty)
  then show "data_of (take ?k ?cs) = content b"
    unfolding content_def by (metis append_Nil2 append_take_drop_id data_of_simps(3))
qed

lemma chain_insert_ok:
  assumes "evb_ok b" and "chain_ok c"
  shows "evb_ok (evbuffer_chain_insert b c)"
    and "content (evbuffer_chain_insert b c) = content b @ chain_data c"
    and "freeze_end (evbuffer_chain_insert b c) = freeze_end b"
    and "freeze_start (evbuffer_chain_insert b c) = freeze_start b"
proof -
  show "freeze_end (evbuffer_chain_insert b c) = freeze_end b"
    and "freeze_start (evbuffer_chain_insert b c) = freeze_start b"
    by (auto simp: evbuffer_chain_insert_def evbuffer_free_trailing_empty_chains_def Let_def)
  have *: "evb_ok (evbuffer_chain_insert b c) \<and>
      content (evbuffer_chain_insert b c) = content b @ chain_data c"
  proof (cases "chains b = []")
    case True
    with assms show ?thesis
      by (simp add: evb_ok_def evbuffer_chain_insert_def content_def lwd_ok_def length_chain_data)
  next
    case False
    with assms have l: "\<not> length (chains b) \<le> lwd b" by (auto simp: evb_ok_def lwd_ok_def)
    note t = trailing_slot_facts [OF assms(1) False]
    let ?b = "evbuffer_chain_insert b c"
    let ?k = "trailing_slot b"
    have cs: "chains ?b = take ?k (chains b) @ [c]" and tl: "total_len ?b = total_len b + off c"
      and lw: "lwd ?b = (if off c \<noteq> 0 then ?k else lwd b)"
      using l by (auto simp: evbuffer_chain_insert_def evbuffer_free_trailing_empty_chains_def Let_def)
    have len: "length (take ?k (chains b)) = ?k" using t(2) by simp
    have cont: "content ?b = content b @ chain_data c"
      using t(3) by (simp add: content_def cs)
    moreover have "list_all chain_ok (chains ?b)"
      using assms by (auto simp: cs evb_ok_def list_all_iff dest: in_set_takeD)
    moreover have "total_len ?b = length (content ?b)"
      using assms cont tl by (simp add: evb_ok_def length_chain_data)
    moreover have "lwd_ok (chains ?b) (lwd ?b)"
    proof (cases "off c = 0")
      case True
      have "off ((take ?k (chains b) @ [c]) ! lwd b) = 0 \<longrightarrow> lwd b = 0"
        using t(1,4) assms False len
        by (cases "?k = lwd b") (auto simp: nth_append evb_ok_def lwd_ok_def)
      moreover have "list_all (\<lambda>c. off c = 0) (drop n [c])" for n
        using True by (cases n) auto
      ultimately show ?thesis using True t(1,5) len
        by (simp add: lwd_ok_def cs lw del: length_take)
    next
      case False
      with len show ?thesis by (simp add: lwd_ok_def cs lw nth_append del: length_take)
    qed
    ultimately show ?thesis by (simp add: evb_ok_def)
  qed
  then show "evb_ok (evbuffer_chain_insert b c)"
    and "content (evbuffer_chain_insert b c) = content b @ chain_data c" by simp_all
qed

section \<open>Adding at the end\<close>

lemma update_chain_ok:
  assumes "evb_ok b" and "i < length (chains b)" and "chain_ok c"
    and "chain_data c = chain_data (chains b ! i)"
  shows "evb_ok (b\<lparr>chains := (chains b)[i := c]\<rparr>)"
    and "content (b\<lparr>chains := (chains b)[i := c]\<rparr>) = content b"
proof -
  from assms have off: "off c = off (chains b ! i)"
    by (metis evb_ok_def length_chain_data list_all_length)
  show cont: "content (b\<lparr>chains := (chains b)[i := c]\<rparr>) = content b"
    using assms by (simp add: content_def data_of_update data_of_split [of i "chains b"])
  have "lwd_ok ((chains b)[i := c]) (lwd b)"
    using assms off by (auto simp: lwd_ok_def evb_ok_def list_all_length nth_list_update)
  with assms cont show "evb_ok (b\<lparr>chains := (chains b)[i := c]\<rparr>)"
    by (auto simp: evb_ok_def list_all_iff dest!: set_update_subset_insert [THEN subsetD])
qed

lemma append_to_chain_ok:
  assumes ok: "evb_ok b" and l: "lwd b < length (chains b)"
    and fits: "misalign (chains b ! lwd b) + off (chains b ! lwd b) + length data
               \<le> buffer_len (chains b ! lwd b)"
  shows "evb_ok (append_to_chain (lwd b) data b)"
    and "content (append_to_chain (lwd b) data b) = content b @ data"
    and "lwd (append_to_chain (lwd b) data b) = lwd b"
    and "length (chains (append_to_chain (lwd b) data b)) = length (chains b)"
    and "freeze_start (append_to_chain (lwd b) data b) = freeze_start b"
    and "freeze_end (append_to_chain (lwd b) data b) = freeze_end b"
proof -
  let ?cs = "chains b" and ?l = "lwd b"
  let ?c = "(chain_write (misalign (?cs ! ?l) + off (?cs ! ?l)) data (?cs ! ?l))
              \<lparr>off := off (?cs ! ?l) + length data\<rparr>"
  let ?b = "append_to_chain ?l data b"
  have cs: "chains ?b = ?cs[?l := ?c]" and lw: "lwd ?b = ?l"
    and tot: "total_len ?b = total_len b + length data"
    by (simp_all add: append_to_chain_def Let_def)
  from lw show "lwd ?b = ?l" .
  from cs show "length (chains ?b) = length ?cs" by simp
  show "freeze_start ?b = freeze_start b" "freeze_end ?b = freeze_end b"
    by (simp_all add: append_to_chain_def Let_def)
  have okc: "chain_ok (?cs ! ?l)" using ok l by (simp add: evb_ok_def list_all_length)
  have c: "chain_ok ?c" using okc fits by (simp add: chain_ok_def buffer_len_def chain_write_def)
  have tl: "list_all (\<lambda>c. off c = 0) (drop (?l + 1) ?cs)"
    using ok l by (auto simp: evb_ok_def lwd_ok_def split: if_splits)
  then have "data_of (drop (?l + 1) ?cs) = []" by (rule data_of_empty)
  then show cont: "content ?b = content b @ data"
    using l chain_data_write_end [OF fits] data_of_split [OF l]
    by (simp add: content_def cs data_of_update)
  have "lwd_ok (chains ?b) (lwd ?b)"
    using ok l tl by (auto simp: lwd_ok_def evb_ok_def cs lw)
  with ok cont c show "evb_ok ?b"
    by (auto simp: evb_ok_def cs tot list_all_iff dest!: set_update_subset_insert [THEN subsetD])
qed

lemma add_new_chain_ok:
  assumes mm: "mm_ok m" and ok: "evb_ok b" and l: "lwd b < length (chains b)"
    and rem: "remain = 0 \<or>
      misalign (chains b ! lwd b) + off (chains b ! lwd b) + remain \<le> buffer_len (chains b ! lwd b)"
    and short: "remain \<le> length data"
    and res: "add_new_chain m (lwd b) remain data b = (r, b')"
  shows "evb_ok b'" "r = 0 \<and> content b' = content b @ data \<or> r = -1 \<and> b' = b"
    "freeze_start b' = freeze_start b" "freeze_end b' = freeze_end b"
proof -
  let ?t = "let to_alloc = buffer_len (chains b ! lwd b);
          to_alloc = (if to_alloc \<le> EVBUFFER_CHAIN_MAX_AUTO_SIZE div 2 then 2 * to_alloc else to_alloc)
          in if to_alloc < length data then length data else to_alloc"
  have "length data \<le> ?t" by (simp add: Let_def)
  let ?P = "evb_ok b' \<and> (r = 0 \<and> content b' = content b @ data \<or> r = -1 \<and> b' = b) \<and>
    freeze_start b' = freeze_start b \<and> freeze_end b' = freeze_end b"
  have ?P
  proof (cases "evbuffer_chain_new m ?t")
    case None
    with res ok show ?thesis by (simp add: add_new_chain_def Let_def)
  next
    case (Some tmp)
    note new = chain_new_fields [OF mm Some]
    let ?rest = "drop remain data"
    let ?tmp = "(chain_write 0 ?rest tmp)\<lparr>off := length ?rest\<rparr>"
    let ?b1 = "if remain \<noteq> 0 then append_to_chain (lwd b) (take remain data) b else b"
    have fit: "length ?rest \<le> buffer_len tmp" using new(1) \<open>length data \<le> ?t\<close> by simp
    have tmp: "chain_ok ?tmp" "chain_data ?tmp = ?rest"
      using new(7) fit chain_data_write_end [of tmp ?rest] new
      by (simp_all add: chain_ok_def buffer_len_def chain_write_def)
    have b1: "evb_ok ?b1 \<and> content ?b1 = content b @ take remain data \<and>
        freeze_start ?b1 = freeze_start b \<and> freeze_end ?b1 = freeze_end b"
      using ok l rem short append_to_chain_ok [OF ok l, of "take remain data"] by auto
    note ins = chain_insert_ok [of ?b1 ?tmp]
    let ?b2 = "evbuffer_chain_insert ?b1 ?tmp"
    have "(r, b') = (0, evbuffer_invoke_callbacks
        (?b2\<lparr>n_add_for_cb := n_add_for_cb ?b2 + length ?rest\<rparr>))"
      using res Some by (simp add: add_new_chain_def Let_def)
    with ins b1 tmp show ?thesis
      by (simp add: evb_ok_def content_def)
  qed
  then show "evb_ok b'" "r = 0 \<and> content b' = content b @ data \<or> r = -1 \<and> b' = b"
    "freeze_start b' = freeze_start b" "freeze_end b' = freeze_end b" by simp_all
qed

lemma add_to_last_ok:
  assumes mm: "mm_ok m" and ok: "evb_ok b" and ne: "chains b \<noteq> []"
    and res: "add_to_last m data b = (r, b')"
  shows "evb_ok b' \<and> (r = 0 \<and> content b' = content b @ data \<or> r = -1 \<and> content b' = content b) \<and>
    freeze_start b' = freeze_start b \<and> freeze_end b' = freeze_end b"
proof -
  from ok ne have l: "lwd b < length (chains b)" by (auto simp: evb_ok_def lwd_ok_def)
  let ?c = "chains b ! lwd b" and ?rem = "buffer_len (chains b ! lwd b) - misalign (chains b ! lwd b) - off (chains b ! lwd b)"
  let ?d = "b\<lparr>chains := (chains b)[lwd b := evbuffer_chain_align ?c]\<rparr>"
  have c: "chain_ok ?c" using ok l by (simp add: evb_ok_def list_all_length)
  then have room: "misalign ?c + off ?c \<le> buffer_len ?c" by (simp add: chain_ok_def)
  note al = chain_align_fields [OF c]
  have d: "evb_ok ?d" "content ?d = content b"
    using update_chain_ok [OF ok l al(1,2)] by simp_all
  consider (fits) "\<not> immutable ?c" "length data \<le> ?rem"
    | (realign) "\<not> immutable ?c" "\<not> length data \<le> ?rem" "\<not> CHAIN_PINNED ?c"
        "evbuffer_chain_should_realign ?c (length data)"
    | (full) "\<not> immutable ?c" "\<not> length data \<le> ?rem"
        "\<not> (\<not> CHAIN_PINNED ?c \<and> evbuffer_chain_should_realign ?c (length data))"
    | (immut) "immutable ?c"
    by blast
  then show ?thesis
  proof cases
    case fits
    with res l have "r = 0" "b' = evbuffer_invoke_callbacks (append_to_chain (lwd b) data b)"
      by (simp_all add: add_to_last_def Let_def)
    with fits(2) room append_to_chain_ok [OF ok l, of data] show ?thesis by simp
  next
    case realign
    with res l have "r = 0" "b' = evbuffer_invoke_callbacks (append_to_chain (lwd b) data ?d)"
      by (simp_all add: add_to_last_def Let_def)
    moreover have "off ?c + length data \<le> buffer_len ?c"
      using realign(4) room by (auto simp: evbuffer_chain_should_realign_def)
    ultimately show ?thesis using append_to_chain_ok [OF d(1), of data] d(2) l al by simp
  next
    case full
    with res l have "add_new_chain m (lwd b) ?rem data b = (r, b')"
      by (simp add: add_to_last_def Let_def split: if_splits)
    from add_new_chain_ok [OF mm ok l _ _ this] full(2) room show ?thesis by auto
  next
    case immut
    with res l have "add_new_chain m (lwd b) 0 data b = (r, b')"
      by (simp add: add_to_last_def Let_def)
    from add_new_chain_ok [OF mm ok l _ _ this] show ?thesis by auto
  qed
qed

lemma evbuffer_add_ok:
  assumes mm: "mm_ok m" and ok: "evb_ok b" and res: "evbuffer_add m b data = (r, b')"
  shows "evb_ok b'" "r = 0 \<and> content b' = content b @ data \<or> r = -1 \<and> content b' = content b"
    "freeze_start b' = freeze_start b" "freeze_end b' = freeze_end b"
proof -
  let ?P = "evb_ok b' \<and> (r = 0 \<and> content b' = content b @ data \<or> r = -1 \<and> content b' = content b) \<and>
    freeze_start b' = freeze_start b \<and> freeze_end b' = freeze_end b"
  consider "r = -1" "b' = b" | "chains b \<noteq> []" "add_to_last m data b = (r, b')"
    | c where "chains b = []" "evbuffer_chain_new m (length data) = Some c"
        "add_to_last m data (evbuffer_chain_insert b c) = (r, b')"
    using res by (auto simp: evbuffer_add_def split: if_splits option.splits)
  then have ?P
  proof cases
    case 1
    with ok show ?thesis by simp
  next
    case 2
    with add_to_last_ok [OF mm ok] show ?thesis by blast
  next
    case (3 c)
    note new = chain_new_fields [OF mm 3(2)]
    note ins = chain_insert_ok [OF ok new(7)]
    have "chains (evbuffer_chain_insert b c) \<noteq> []"
      using 3(1) by (simp add: evbuffer_chain_insert_def)
    from add_to_last_ok [OF mm ins(1) this 3(3)] ins new(8) show ?thesis by simp
  qed
  then show "evb_ok b'" "r = 0 \<and> content b' = content b @ data \<or> r = -1 \<and> content b' = content b"
    "freeze_start b' = freeze_start b" "freeze_end b' = freeze_end b" by simp_all
qed

lemma add_to_last_total:
  assumes mm: "mm_total m" and ok: "evb_ok b" and ne: "chains b \<noteq> []"
    and len: "length data \<le> EVBUFFER_CHAIN_MAX - EVBUFFER_CHAIN_SIZE"
  shows "fst (add_to_last m data b) = 0"
proof -
  from ok ne have l: "lwd b < length (chains b)" by (auto simp: evb_ok_def lwd_ok_def)
  let ?c = "chains b ! lwd b"
  let ?s = "if buffer_len ?c \<le> EVBUFFER_CHAIN_MAX_AUTO_SIZE div 2 then 2 * buffer_len ?c else buffer_len ?c"
  have "buffer_len ?c \<le> EVBUFFER_CHAIN_MAX - EVBUFFER_CHAIN_SIZE"
    using ok l by (simp add: evb_ok_def list_all_length chain_ok_def)
  with len have sz: "(if ?s < length data then length data else ?s) \<le> EVBUFFER_CHAIN_MAX - EVBUFFER_CHAIN_SIZE"
    by (auto simp: EVBUFFER_CHAIN_MAX_AUTO_SIZE_def EVBUFFER_CHAIN_MAX_def EV_SSIZE_MAX_def
        EVBUFFER_CHAIN_SIZE_def)
  obtain tmp where "evbuffer_chain_new m (if ?s < length data then length data else ?s) = Some tmp"
    using chain_new_exists [OF mm sz] .
  then have "fst (add_new_chain m (lwd b) k data b) = 0" for k
    by (simp add: add_new_chain_def Let_def)
  with l show ?thesis by (simp add: add_to_last_def Let_def)
qed

lemma evbuffer_add_total:
  assumes mm: "mm_total m" and ok: "evb_ok b" and fr: "\<not> freeze_end b"
    and len: "length data \<le> EVBUFFER_CHAIN_MAX - EVBUFFER_CHAIN_SIZE"
    and tot: "length (content b) + length data \<le> EV_SIZE_MAX"
  shows "fst (evbuffer_add m b data) = 0"
proof (cases "chains b = []")
  case False
  with add_to_last_total [OF mm ok _ len] fr tot ok show ?thesis
    by (simp add: evbuffer_add_def evb_ok_def)
next
  case True
  obtain c where c: "evbuffer_chain_new m (length data) = Some c" by (rule chain_new_exists [OF mm len])
  from mm have "mm_ok m" by (simp add: mm_total_def)
  note new = chain_new_fields [OF this c]
  have "chains (evbuffer_chain_insert b c) \<noteq> []"
    using True by (simp add: evbuffer_chain_insert_def)
  from add_to_last_total [OF mm chain_insert_ok(1) [OF ok new(7)] this len] True c fr tot ok show ?thesis
    by (simp add: evbuffer_add_def evb_ok_def)
qed

section \<open>Removing from the front\<close>

lemma no_pinned_r: "evb_ok b \<Longrightarrow> \<not> HAS_PINNED_R b"
  by (auto simp: evb_ok_def HAS_PINNED_R_def list_all_iff chain_ok_def)

lemma drain_loop_spec:
  assumes "list_all chain_ok cs" and "n \<le> length (data_of cs)"
    and "drain_loop cs n l = (cs', rem, l')"
  shows "\<exists>k \<le> length cs. cs' = drop k cs \<and> l' = l - k \<and>
    n = length (data_of (take k cs)) + rem \<and> (cs' \<noteq> [] \<longrightarrow> rem < off (hd cs'))"
  using assms
proof (induction cs arbitrary: n l)
  case Nil
  then show ?case by simp
next
  case (Cons c cs)
  from Cons.prems have len: "length (chain_data c) = off c" and "\<not> pinned_r c"
    by (auto simp: length_chain_data chain_ok_def)
  show ?case
  proof (cases "off c \<le> n")
    case True
    with Cons.prems \<open>\<not> pinned_r c\<close> have "drain_loop cs (n - off c) (l - 1) = (cs', rem, l')"
      by (cases l) (simp_all add: Let_def)
    moreover have "n - off c \<le> length (data_of cs)" "list_all chain_ok cs"
      using Cons.prems len by simp_all
    ultimately obtain k where
      k: "k \<le> length cs" "cs' = drop k cs" "l' = l - 1 - k"
        "n - off c = length (data_of (take k cs)) + rem" "cs' \<noteq> [] \<longrightarrow> rem < off (hd cs')"
      using Cons.IH by blast
    with True len show ?thesis by (intro exI [of _ "Suc k"]) auto
  next
    case False
    with Cons.prems show ?thesis by (intro exI [of _ 0]) auto
  qed
qed

text \<open>Dropping whole chains and then bytes of the next one keeps the invariant.\<close>

lemma drop_chains_ok:
  assumes ok: "list_all chain_ok cs" and l: "lwd_ok cs l" and k: "k < length cs"
    and rem: "rem < off (cs ! k)"
  defines "cs' \<equiv> (cs ! k)\<lparr>misalign := misalign (cs ! k) + rem, off := off (cs ! k) - rem\<rparr> # drop (k + 1) cs"
  shows "list_all chain_ok cs'" "lwd_ok cs' (l - k)"
    "data_of cs = data_of (take k cs) @ take rem (chain_data (cs ! k)) @ data_of cs'"
proof -
  let ?c = "cs ! k"
  have c: "chain_ok ?c" using ok k by (simp add: list_all_length)
  show "list_all chain_ok cs'"
    using ok c rem by (auto simp: cs'_def chain_ok_def buffer_len_def list_all_iff dest: in_set_dropD)
  have "chain_data (?c\<lparr>misalign := misalign ?c + rem, off := off ?c - rem\<rparr>) = drop rem (chain_data ?c)"
    by (simp add: chain_data_def drop_take add.commute)
  then show "data_of cs = data_of (take k cs) @ take rem (chain_data ?c) @ data_of cs'"
    using data_of_split [OF k] by (simp add: cs'_def)
  have kl: "k \<le> l"
  proof (rule ccontr)
    assume "\<not> k \<le> l"
    then have "cs ! k \<in> set (drop (l + 1) cs)"
      using k by (auto simp: in_set_conv_nth intro!: exI [of _ "k - (l + 1)"])
    with l k rem show False by (auto simp: lwd_ok_def list_all_iff split: if_splits)
  qed
  have ll: "l < length cs" "list_all (\<lambda>c. off c = 0) (drop (l + 1) cs)" "off (cs ! l) = 0 \<longrightarrow> l = 0"
    using l k by (auto simp: lwd_ok_def split: if_splits)
  show "lwd_ok cs' (l - k)"
  proof (cases "l = k")
    case True
    with ll rem show ?thesis by (simp add: lwd_ok_def cs'_def)
  next
    case False
    with kl have "k < l" by simp
    then have "drop (l - k + 1) cs' = drop (l + 1) cs" "cs' ! (l - k) = cs ! l"
      using ll(1) by (simp_all add: cs'_def nth_Cons' )
    with \<open>k < l\<close> ll k show ?thesis by (auto simp: lwd_ok_def cs'_def)
  qed
qed

lemma evbuffer_drain_ok:
  assumes ok: "evb_ok b" and res: "evbuffer_drain b len = (r, b')"
  shows "evb_ok b'"
    and "if content b \<noteq> [] \<and> freeze_start b then r = -1 \<and> b' = b
         else r = 0 \<and> content b' = drop len (content b)"
    and "freeze_start b' = freeze_start b" "freeze_end b' = freeze_end b"
proof -
  let ?P = "evb_ok b' \<and> (if content b \<noteq> [] \<and> freeze_start b then r = -1 \<and> b' = b
         else r = 0 \<and> content b' = drop len (content b)) \<and>
    freeze_start b' = freeze_start b \<and> freeze_end b' = freeze_end b"
  have tot: "total_len b = length (content b)" using ok by (simp add: evb_ok_def)
  consider (empty) "content b = []" | (frozen) "content b \<noteq> []" "freeze_start b"
    | (all) "content b \<noteq> []" "\<not> freeze_start b" "length (content b) \<le> len"
    | (part) "content b \<noteq> []" "\<not> freeze_start b" "len < length (content b)"
    by linarith
  then have ?P
  proof cases
    case empty
    with res ok tot show ?thesis by (simp add: evbuffer_drain_def Let_def)
  next
    case frozen
    with res ok tot show ?thesis by (simp add: evbuffer_drain_def Let_def)
  next
    case all
    with res tot no_pinned_r [OF ok] show ?thesis
      by (auto simp: evbuffer_drain_def Let_def ZERO_CHAIN_def evb_ok_def content_def lwd_ok_def)
  next
    case part
    obtain cs rem l where dl: "drain_loop (chains b) len (lwd b) = (cs, rem, l)"
      using prod_cases3 by blast
    have okc: "list_all chain_ok (chains b)" "lwd_ok (chains b) (lwd b)"
      using ok by (simp_all add: evb_ok_def)
    have "len \<le> length (data_of (chains b))" using part(3) by (simp add: content_def)
    from drain_loop_spec [OF okc(1) this dl] obtain k where
      k: "k \<le> length (chains b)" "cs = drop k (chains b)" "l = lwd b - k"
        "len = length (data_of (take k (chains b))) + rem" "cs \<noteq> [] \<longrightarrow> rem < off (hd cs)"
      by blast
    have "k < length (chains b)"
      using k part(3) by (cases "k = length (chains b)") (auto simp: content_def)
    then have cs: "cs = chains b ! k # drop (k + 1) (chains b)"
      using k(2) by (simp add: Cons_nth_drop_Suc)
    with k(5) have "rem < off (chains b ! k)" by simp
    note d = drop_chains_ok [OF okc \<open>k < length (chains b)\<close> this]
    have "length (chain_data (chains b ! k)) = off (chains b ! k)"
      using okc(1) \<open>k < length (chains b)\<close> by (simp add: list_all_length length_chain_data)
    then have "drop len (content b) = data_of ((chains b ! k)\<lparr>misalign := misalign (chains b ! k) + rem,
        off := off (chains b ! k) - rem\<rparr> # drop (k + 1) (chains b))"
      using d(3) k(4) \<open>rem < off (chains b ! k)\<close> by (simp add: content_def)
    moreover from this have "length (content b) - len = length \<dots>" by (metis length_drop)
    ultimately show ?thesis
      using res part tot dl d(1,2) k(3) cs
      by (auto simp: evbuffer_drain_def Let_def evb_ok_def content_def)
  qed
  then show "evb_ok b'"
    and "if content b \<noteq> [] \<and> freeze_start b then r = -1 \<and> b' = b
         else r = 0 \<and> content b' = drop len (content b)"
    and "freeze_start b' = freeze_start b" "freeze_end b' = freeze_end b" by simp_all
qed

section \<open>Copying out and removing\<close>

lemma copyout_loop_spec:
  assumes "list_all chain_ok cs" and "cs \<noteq> [] \<longrightarrow> p \<le> off (hd cs)" and "cs = [] \<longrightarrow> p = 0"
    and "n \<le> length (drop p (data_of cs))"
  shows "copyout_loop cs p n = take n (drop p (data_of cs))"
  using assms
proof (induction cs p n rule: copyout_loop.induct)
  case (1 p n)
  then show ?case by simp
next
  case (2 c cs p n)
  then have c: "chain_ok c" "length (chain_data c) = off c" and p: "p \<le> off c"
    by (auto simp: length_chain_data)
  have d: "take k (drop (misalign c + p) (buffer c)) = take k (drop p (chain_data c))"
    if "k \<le> off c - p" for k
    using that by (simp add: chain_data_def drop_take add.commute min_absorb1)
  show ?case
  proof (cases "n \<noteq> 0 \<and> off c - p \<le> n")
    case True
    then have "copyout_loop cs 0 (n - (off c - p)) = take (n - (off c - p)) (data_of cs)"
      using 2 c by simp
    with True c p show ?thesis by (simp add: Let_def d)
  next
    case False
    then have "n \<le> off c - p" by auto
    with c p False show ?thesis by (auto simp: Let_def d)
  qed
qed

text \<open>A position that \<^verbatim>\<open>evbuffer_ptr_set\<close> can leave: its chain holds the byte at \<open>pos\<close>, or it is
  the end of the buffer.\<close>

definition ptr_ok :: "evbuffer \<Rightarrow> evbuffer_ptr \<Rightarrow> bool" where
  "ptr_ok b p \<longleftrightarrow> 0 \<le> pos p \<and>
     (case ptr_chain p of
        None \<Rightarrow> nat (pos p) = length (content b) \<and> pos_in_chain p = 0
      | Some i \<Rightarrow> i < length (chains b) \<and> pos_in_chain p \<le> off (chains b ! i) \<and>
          nat (pos p) = length (data_of (take i (chains b))) + pos_in_chain p)"

lemma ptr_ok_le: "evb_ok b \<Longrightarrow> ptr_ok b p \<Longrightarrow> nat (pos p) \<le> length (content b)"
  by (auto simp: ptr_ok_def content_def data_of_split evb_ok_def list_all_length length_chain_data
      split: option.splits)

lemma evbuffer_copyout_from_ok:
  assumes ok: "evb_ok b" and p: "case p of None \<Rightarrow> True | Some q \<Rightarrow> ptr_ok b q"
    and big: "p \<noteq> None \<longrightarrow> at + n \<le> EV_SSIZE_MAX"
    and at: "at = (case p of None \<Rightarrow> 0 | Some q \<Rightarrow> nat (pos q))"
  shows "evbuffer_copyout_from b p n =
    (let k = min n (length (content b) - at)
     in if k = 0 then (0, []) else if freeze_start b then (-1, [])
        else (int k, take k (drop at (content b))))"
proof -
  define cs where "cs = (case p of None \<Rightarrow> chains b
      | Some q \<Rightarrow> (case ptr_chain q of None \<Rightarrow> [] | Some i \<Rightarrow> drop i (chains b)))"
  define start where "start = (case p of None \<Rightarrow> 0 | Some q \<Rightarrow> pos_in_chain q)"
  have tot: "total_len b = length (content b)" using ok by (simp add: evb_ok_def)
  have okc: "list_all chain_ok cs"
    using ok by (auto simp: cs_def evb_ok_def list_all_iff split: option.splits dest: in_set_dropD)
  have at_le: "at \<le> length (content b)"
    using at p ptr_ok_le [OF ok] by (auto split: option.splits)
  have st: "cs \<noteq> [] \<longrightarrow> start \<le> off (hd cs)" "cs = [] \<longrightarrow> start = 0"
    and data: "drop start (data_of cs) = drop at (content b)"
  proof -
    have "(cs \<noteq> [] \<longrightarrow> start \<le> off (hd cs)) \<and> (cs = [] \<longrightarrow> start = 0) \<and>
      drop start (data_of cs) = drop at (content b)"
    proof (cases p)
      case None
      then show ?thesis by (simp add: cs_def start_def at content_def)
    next
      case (Some q)
      then show ?thesis
      proof (cases "ptr_chain q")
        case None
        with Some p show ?thesis by (simp add: cs_def start_def at ptr_ok_def)
      next
        case (Some i)
        with \<open>p = Some q\<close> p have i: "i < length (chains b)" "pos_in_chain q \<le> off (chains b ! i)"
          "nat (pos q) = length (data_of (take i (chains b))) + pos_in_chain q"
          by (auto simp: ptr_ok_def)
        have "data_of (chains b) = data_of (take i (chains b)) @ data_of (drop i (chains b))"
          by (metis append_take_drop_id data_of_simps(3))
        with i Some \<open>p = Some q\<close> show ?thesis
          by (simp add: cs_def start_def at content_def hd_drop_conv_nth)
      qed
    qed
    then show "cs \<noteq> [] \<longrightarrow> start \<le> off (hd cs)" "cs = [] \<longrightarrow> start = 0"
      "drop start (data_of cs) = drop at (content b)" by simp_all
  qed
  have neg: "\<not> (case p of None \<Rightarrow> False | Some q \<Rightarrow> int EV_SSIZE_MAX - pos q < int n)"
    using big at p by (auto simp: ptr_ok_def split: option.splits)
  have k: "(if total_len b < n + at then total_len b - at else n) = min n (length (content b) - at)"
    using tot at_le by auto
  have "copyout_loop cs start (min n (length (content b) - at)) =
      take (min n (length (content b) - at)) (drop at (content b))"
    using copyout_loop_spec [OF okc st, of "min n (length (content b) - at)"] data by simp
  moreover have "evbuffer_copyout_from b p n =
      (let datlen = (if total_len b < n + at then total_len b - at else n)
       in if datlen = 0 then (0, []) else if freeze_start b then (-1, [])
          else (int datlen, copyout_loop cs start datlen))"
    using neg by (cases p) (simp_all add: evbuffer_copyout_from_def Let_def cs_def start_def at)
  ultimately show ?thesis by (simp only: Let_def k)
qed

lemma evbuffer_copyout_ok:
  assumes "evb_ok b"
  shows "evbuffer_copyout b n =
    (let k = min n (length (content b))
     in if k = 0 then (0, []) else if freeze_start b then (-1, []) else (int k, take k (content b)))"
proof -
  have "evbuffer_copyout_from b None n =
      (let k = min n (length (content b) - 0)
       in if k = 0 then (0, []) else if freeze_start b then (-1, [])
          else (int k, take k (drop 0 (content b))))"
    by (rule evbuffer_copyout_from_ok) (use assms in simp_all)
  then show ?thesis by (simp only: evbuffer_copyout_def drop_0 diff_zero)
qed

lemma evbuffer_remove_ok:
  assumes ok: "evb_ok b" and res: "evbuffer_remove b n = (r, out, b')"
  shows "evb_ok b'"
    and "if min n (length (content b)) \<noteq> 0 \<and> freeze_start b then r = -1 \<and> out = [] \<and> b' = b
         else r = cast_int (int (min n (length (content b)))) \<and> out = take n (content b) \<and>
              content b' = drop n (content b)"
    and "freeze_start b' = freeze_start b" "freeze_end b' = freeze_end b"
proof -
  let ?k = "min n (length (content b))"
  let ?P = "evb_ok b' \<and> (if ?k \<noteq> 0 \<and> freeze_start b then r = -1 \<and> out = [] \<and> b' = b
         else r = cast_int (int ?k) \<and> out = take n (content b) \<and> content b' = drop n (content b)) \<and>
    freeze_start b' = freeze_start b \<and> freeze_end b' = freeze_end b"
  have cp: "evbuffer_copyout_from b None n =
      (if ?k = 0 then (0, []) else if freeze_start b then (-1, []) else (int ?k, take ?k (content b)))"
    using evbuffer_copyout_ok [OF ok, of n] by (simp add: evbuffer_copyout_def Let_def)
  consider "?k = 0" | "?k \<noteq> 0" "freeze_start b" | "?k \<noteq> 0" "\<not> freeze_start b" by blast
  then have ?P
  proof cases
    case 1
    with res cp ok show ?thesis by (auto simp: evbuffer_remove_def min_def cast_int_def split: if_splits)
  next
    case 2
    with res cp ok show ?thesis by (simp add: evbuffer_remove_def cast_int_id)
  next
    case 3
    obtain q d where d: "evbuffer_drain b ?k = (q, d)" by fastforce
    note dr = evbuffer_drain_ok [OF ok d]
    from 3 dr have "q = 0" "content d = drop ?k (content b)" by (simp_all split: if_splits)
    moreover have "drop ?k (content b) = drop n (content b)" "take ?k (content b) = take n (content b)"
      by (simp_all add: min_def)
    ultimately show ?thesis using res cp 3 d dr by (auto simp: evbuffer_remove_def)
  qed
  then show "evb_ok b'" "if ?k \<noteq> 0 \<and> freeze_start b then r = -1 \<and> out = [] \<and> b' = b
         else r = cast_int (int ?k) \<and> out = take n (content b) \<and> content b' = drop n (content b)"
    "freeze_start b' = freeze_start b" "freeze_end b' = freeze_end b" by simp_all
qed

section \<open>Moving between buffers\<close>

lemma lwd_ok_nonempty:
  "evb_ok b \<Longrightarrow> content b \<noteq> [] \<Longrightarrow>
    lwd b < length (chains b) \<and> off (chains b ! lwd b) \<noteq> 0 \<and>
    list_all (\<lambda>c. off c = 0) (drop (lwd b + 1) (chains b))"
  using lwd_tail_empty [of "chains b" "lwd b"]
  by (auto simp: evb_ok_def lwd_ok_def content_def split: if_splits)

lemma append_lwd_ok:
  assumes "list_all (\<lambda>c. off c = 0) (drop (l + 1) ds)" and "l < length ds" and "off (ds ! l) \<noteq> 0"
  shows "lwd_ok (cs @ ds) (length cs + l)"
  using assms by (auto simp: lwd_ok_def nth_append)

lemma APPEND_CHAIN_ok:
  assumes ok: "evb_ok dst" "evb_ok src" and ne: "content dst \<noteq> []" "content src \<noteq> []"
  shows "evb_ok (APPEND_CHAIN dst src)" "content (APPEND_CHAIN dst src) = content dst @ content src"
proof -
  let ?k = "trailing_slot dst"
  have "chains dst \<noteq> []" using ne by (auto simp: content_def)
  note t = trailing_slot_facts [OF ok(1) this]
  note l = lwd_ok_nonempty [OF ok(2) ne(2)]
  have f: "chains (APPEND_CHAIN dst src) = take ?k (chains dst) @ chains src"
    "lwd (APPEND_CHAIN dst src) = length (take ?k (chains dst)) + lwd src"
    "total_len (APPEND_CHAIN dst src) = total_len dst + total_len src"
    using t(2) by (simp_all add: APPEND_CHAIN_def evbuffer_free_trailing_empty_chains_def Let_def)
  show c: "content (APPEND_CHAIN dst src) = content dst @ content src"
    using t(3) by (simp add: content_def f)
  have "lwd_ok (chains (APPEND_CHAIN dst src)) (lwd (APPEND_CHAIN dst src))"
    unfolding f using l by (intro append_lwd_ok) simp_all
  with ok c show "evb_ok (APPEND_CHAIN dst src)"
    by (auto simp: evb_ok_def f list_all_iff dest: in_set_takeD)
qed

lemma PREPEND_CHAIN_ok:
  assumes ok: "evb_ok dst" "evb_ok src" and ne: "content dst \<noteq> []"
  shows "evb_ok (PREPEND_CHAIN dst src)" "content (PREPEND_CHAIN dst src) = content src @ content dst"
proof -
  note l = lwd_ok_nonempty [OF ok(1) ne]
  have f: "chains (PREPEND_CHAIN dst src) = chains src @ chains dst"
    "lwd (PREPEND_CHAIN dst src) = length (chains src) + lwd dst"
    "total_len (PREPEND_CHAIN dst src) = total_len dst + total_len src"
    using l by (simp_all add: PREPEND_CHAIN_def)
  show c: "content (PREPEND_CHAIN dst src) = content src @ content dst"
    by (simp add: content_def f)
  have "lwd_ok (chains (PREPEND_CHAIN dst src)) (lwd (PREPEND_CHAIN dst src))"
    unfolding f using l by (intro append_lwd_ok) simp_all
  with ok c show "evb_ok (PREPEND_CHAIN dst src)" by (simp add: evb_ok_def f)
qed

lemma preserve_none: "evb_ok b \<Longrightarrow> PRESERVE_PINNED m b = Some (b, [])"
  by (simp add: PRESERVE_PINNED_def no_pinned_r)

lemma COPY_CHAIN_ok:
  "evb_ok src \<Longrightarrow> evb_ok (COPY_CHAIN dst src)" "content (COPY_CHAIN dst src) = content src"
  by (simp_all add: COPY_CHAIN_def evb_ok_def content_def)

lemma ZERO_CHAIN_ok: "evb_ok (ZERO_CHAIN b)" "content (ZERO_CHAIN b) = []"
  by (simp_all add: ZERO_CHAIN_def evb_ok_def content_def lwd_ok_def)

lemma total_len_content: "evb_ok b \<Longrightarrow> total_len b = length (content b)"
  by (simp add: evb_ok_def)

lemma counters_ok [simp]:
  "evb_ok (b\<lparr>n_add_for_cb := n\<rparr>) = evb_ok b" "content (b\<lparr>n_add_for_cb := n\<rparr>) = content b"
  "evb_ok (b\<lparr>n_del_for_cb := n\<rparr>) = evb_ok b" "content (b\<lparr>n_del_for_cb := n\<rparr>) = content b"
  by (simp_all add: evb_ok_def content_def)

lemma evb_ok_fields:
  "evb_ok (b\<lparr>chains := cs, lwd := l, total_len := n, n_del_for_cb := d\<rparr>) \<longleftrightarrow>
    list_all chain_ok cs \<and> n = length (data_of cs) \<and> lwd_ok cs l"
  by (simp add: evb_ok_def content_def)

lemma evbuffer_add_buffer_ok:
  assumes ok: "evb_ok outb" "evb_ok inb" and res: "evbuffer_add_buffer m outb inb = (r, outb', inb')"
  shows "evb_ok outb'" "evb_ok inb'"
    "if content inb \<noteq> [] \<and> (freeze_end outb \<or> freeze_start inb)
     then r = -1 \<and> outb' = outb \<and> inb' = inb
     else r = 0 \<and> content outb' = content outb @ content inb \<and> content inb' = []"
proof -
  let ?P = "evb_ok outb' \<and> evb_ok inb' \<and>
    (if content inb \<noteq> [] \<and> (freeze_end outb \<or> freeze_start inb)
     then r = -1 \<and> outb' = outb \<and> inb' = inb
     else r = 0 \<and> content outb' = content outb @ content inb \<and> content inb' = [])"
  have ?P
  proof (cases "content inb = [] \<or> freeze_end outb \<or> freeze_start inb")
    case True
    with res ok show ?thesis
      by (auto simp: evbuffer_add_buffer_def Let_def total_len_content)
  next
    case False
    let ?o = "if total_len outb = 0 then COPY_CHAIN outb inb else APPEND_CHAIN outb inb"
    have "evb_ok ?o \<and> content ?o = content outb @ content inb"
      using ok False APPEND_CHAIN_ok [OF ok] by (simp add: total_len_content COPY_CHAIN_ok)
    with False res ok show ?thesis
      by (auto simp: evbuffer_add_buffer_def Let_def total_len_content preserve_none
          RESTORE_PINNED_def ZERO_CHAIN_ok)
  qed
  then show "evb_ok outb'" "evb_ok inb'"
    "if content inb \<noteq> [] \<and> (freeze_end outb \<or> freeze_start inb)
     then r = -1 \<and> outb' = outb \<and> inb' = inb
     else r = 0 \<and> content outb' = content outb @ content inb \<and> content inb' = []" by simp_all
qed

lemma evbuffer_prepend_buffer_ok:
  assumes ok: "evb_ok outb" "evb_ok inb"
    and res: "evbuffer_prepend_buffer m outb inb = (r, outb', inb')"
  shows "evb_ok outb'" "evb_ok inb'"
    "if content inb \<noteq> [] \<and> (freeze_start outb \<or> freeze_start inb)
     then r = -1 \<and> outb' = outb \<and> inb' = inb
     else r = 0 \<and> content outb' = content inb @ content outb \<and> content inb' = []"
proof -
  let ?P = "evb_ok outb' \<and> evb_ok inb' \<and>
    (if content inb \<noteq> [] \<and> (freeze_start outb \<or> freeze_start inb)
     then r = -1 \<and> outb' = outb \<and> inb' = inb
     else r = 0 \<and> content outb' = content inb @ content outb \<and> content inb' = [])"
  have ?P
  proof (cases "content inb = [] \<or> freeze_start outb \<or> freeze_start inb")
    case True
    with res ok show ?thesis
      by (auto simp: evbuffer_prepend_buffer_def Let_def total_len_content)
  next
    case False
    let ?o = "if total_len outb = 0 then COPY_CHAIN outb inb else PREPEND_CHAIN outb inb"
    have "evb_ok ?o \<and> content ?o = content inb @ content outb"
      using ok False PREPEND_CHAIN_ok [OF ok] by (simp add: total_len_content COPY_CHAIN_ok)
    with False res ok show ?thesis
      by (auto simp: evbuffer_prepend_buffer_def Let_def total_len_content preserve_none
          RESTORE_PINNED_def ZERO_CHAIN_ok)
  qed
  then show "evb_ok outb'" "evb_ok inb'"
    "if content inb \<noteq> [] \<and> (freeze_start outb \<or> freeze_start inb)
     then r = -1 \<and> outb' = outb \<and> inb' = inb
     else r = 0 \<and> content outb' = content inb @ content outb \<and> content inb' = []" by simp_all
qed

section \<open>Adding at the front\<close>

lemma chain_data_write_front:
  assumes "n \<le> misalign c" and "misalign c + off c \<le> buffer_len c" and "length bs = n"
  shows "chain_data ((chain_write (misalign c - n) bs c)\<lparr>off := off c + n, misalign := misalign c - n\<rparr>) =
    bs @ chain_data c"
  using assms by (simp add: chain_data_def chain_write_def buffer_len_def)

lemma prepend_into_first_ok:
  assumes ok: "evb_ok b" and ne: "chains b \<noteq> []"
    and n: "n \<le> misalign (hd (chains b))" "n \<le> length data"
  shows "evb_ok (prepend_into_first n data b)"
    "content (prepend_into_first n data b) = drop (length data - n) data @ content b"
    "chains (prepend_into_first n data b) \<noteq> []"
proof -
  obtain c cs where cs: "chains b = c # cs" using ne by (cases "chains b") auto
  let ?bs = "drop (length data - n) data"
  let ?c = "(chain_write (misalign c - n) ?bs c)\<lparr>off := off c + n, misalign := misalign c - n\<rparr>"
  have c: "chain_ok c" using ok cs by (simp add: evb_ok_def)
  have f: "chains (prepend_into_first n data b) = ?c # cs" "lwd (prepend_into_first n data b) = lwd b"
    "total_len (prepend_into_first n data b) = total_len b + n"
    by (simp_all add: prepend_into_first_def cs Let_def)
  have d: "chain_data ?c = ?bs @ chain_data c"
    using n c cs by (intro chain_data_write_front) (simp_all add: chain_ok_def)
  then show cont: "content (prepend_into_first n data b) = ?bs @ content b"
    by (simp add: content_def f cs)
  have "chain_ok ?c" using c n cs by (auto simp: chain_ok_def buffer_len_def chain_write_def)
  moreover have "lwd_ok (?c # cs) (lwd b)"
    using ok by (cases "lwd b") (auto simp: evb_ok_def lwd_ok_def cs)
  ultimately show "evb_ok (prepend_into_first n data b)"
    using ok cont n by (simp add: evb_ok_def f cs)
  show "chains (prepend_into_first n data b) \<noteq> []" by (simp add: f)
qed

lemma prepend_new_chain_ok:
  assumes mm: "mm_ok m" and ok: "evb_ok b" and ne: "chains b \<noteq> []"
    and res: "prepend_new_chain m data b = (r, b')"
  shows "evb_ok b' \<and> (r = 0 \<and> content b' = data @ content b \<or> r = -1 \<and> b' = b)"
proof (cases "evbuffer_chain_new m (length data)")
  case None
  with res ok show ?thesis by (simp add: prepend_new_chain_def)
next
  case (Some tmp)
  note new = chain_new_fields [OF mm Some]
  let ?mis = "buffer_len tmp - length data"
  let ?t = "chain_write ?mis data (tmp\<lparr>off := length data, misalign := ?mis\<rparr>)"
  have len: "length data \<le> buffer_len tmp" by (rule new(1))
  then have t: "chain_ok ?t" "chain_data ?t = data"
    using new(7) by (simp_all add: chain_ok_def chain_data_def chain_write_def buffer_len_def)
  let ?l = "if lwd b = 0 then (if off (hd (chains b)) \<noteq> 0 then 1 else 0) else lwd b + 1"
  have "lwd_ok (?t # chains b) ?l"
  proof (cases "lwd b = 0")
    case True
    with ok ne show ?thesis
      by (cases "chains b") (auto simp: evb_ok_def lwd_ok_def)
  next
    case False
    with ok ne show ?thesis by (auto simp: evb_ok_def lwd_ok_def)
  qed
  with Some res ok t show ?thesis
    by (auto simp: prepend_new_chain_def Let_def evb_ok_def content_def)
qed

text \<open>When the second allocation fails, the tail of the data is already in the buffer.\<close>

lemma prepend_to_first_ok:
  assumes mm: "mm_ok m" and ok: "evb_ok b" and ne: "chains b \<noteq> []"
    and res: "prepend_to_first m data b = (r, b')"
  shows "evb_ok b' \<and> (r = 0 \<and> content b' = data @ content b \<or>
    r = -1 \<and> (\<exists>k \<le> length data. content b' = drop k data @ content b))"
proof -
  obtain c cs where cs: "chains b = c # cs" using ne by (cases "chains b") auto
  let ?c1 = "if off c = 0 then c\<lparr>misalign := buffer_len c\<rparr> else c"
  let ?b1 = "b\<lparr>chains := ?c1 # cs\<rparr>"
  have c: "chain_ok c" using ok cs by (simp add: evb_ok_def)
  have "chain_ok ?c1" "chain_data ?c1 = chain_data c"
    using c by (simp_all add: chain_ok_def buffer_len_def chain_data_def)
  with update_chain_ok [OF ok, of 0 ?c1] cs have b1: "evb_ok ?b1" "content ?b1 = content b" by auto
  consider (fits) "\<not> immutable c" "length data \<le> misalign ?c1"
    | (part) "\<not> immutable c" "\<not> length data \<le> misalign ?c1" "misalign ?c1 \<noteq> 0"
    | (none) "\<not> immutable c" "\<not> length data \<le> misalign ?c1" "misalign ?c1 = 0"
    | (immut) "immutable c" by blast
  then show ?thesis
  proof cases
    case fits
    with res cs have "r = 0"
      "b' = evbuffer_invoke_callbacks (prepend_into_first (length data) data ?b1)"
      by (auto simp: prepend_to_first_def Let_def)
    with fits b1 prepend_into_first_ok [OF b1(1), of "length data" data] show ?thesis by simp
  next
    case part
    let ?b2 = "prepend_into_first (misalign ?c1) data ?b1"
    from part have le: "misalign ?c1 \<le> length data" by linarith
    have b2: "evb_ok ?b2" "content ?b2 = drop (length data - misalign ?c1) data @ content b"
        "chains ?b2 \<noteq> []"
      using prepend_into_first_ok [OF b1(1), of "misalign ?c1" data] le b1(2) by (simp_all split del: if_split)
    from res cs part have "prepend_new_chain m (take (length data - misalign ?c1) data) ?b2 = (r, b')"
      by (simp add: prepend_to_first_def Let_def split del: if_split)
    from prepend_new_chain_ok [OF mm b2(1,3) this] b2(2) show ?thesis
      by (auto intro!: exI [of _ "length data - misalign ?c1"] split del: if_split)
  next
    case none
    with res cs have "prepend_new_chain m data ?b1 = (r, b')"
      by (simp add: prepend_to_first_def Let_def split del: if_split)
    from prepend_new_chain_ok [OF mm b1(1) _ this] b1(2) show ?thesis
      by (auto intro!: exI [of _ "length data"] simp: b1(1) split del: if_split)
  next
    case immut
    with res cs have "prepend_new_chain m data b = (r, b')"
      by (simp add: prepend_to_first_def Let_def)
    from prepend_new_chain_ok [OF mm ok ne this] show ?thesis
      by (auto intro!: exI [of _ "length data"])
  qed
qed

lemma evbuffer_prepend_ok:
  assumes mm: "mm_ok m" and ok: "evb_ok b" and res: "evbuffer_prepend m b data = (r, b')"
  shows "evb_ok b' \<and> (r = 0 \<and> content b' = data @ content b \<or>
    r = -1 \<and> (\<exists>k \<le> length data. content b' = drop k data @ content b))"
proof -
  consider "r = -1" "b' = b" | "data = []" "r = 0" "b' = b"
    | "chains b \<noteq> []" "prepend_to_first m data b = (r, b')"
    | c where "chains b = []" "evbuffer_chain_new m (length data) = Some c"
        "prepend_to_first m data (evbuffer_chain_insert b c) = (r, b')"
    using res by (auto simp: evbuffer_prepend_def split: if_splits option.splits)
  then show ?thesis
  proof cases
    case 1
    with ok show ?thesis by (auto intro!: exI [of _ "length data"])
  next
    case 2
    with ok show ?thesis by simp
  next
    case 3
    with prepend_to_first_ok [OF mm ok] show ?thesis by blast
  next
    case (4 c)
    note new = chain_new_fields [OF mm 4(2)]
    note ins = chain_insert_ok [OF ok new(7)]
    have "chains (evbuffer_chain_insert b c) \<noteq> []"
      using 4(1) by (simp add: evbuffer_chain_insert_def)
    from prepend_to_first_ok [OF mm ins(1) this 4(3)] ins(2) new(8) show ?thesis by simp
  qed
qed

section \<open>Moving part of a buffer\<close>

lemma whole_chains_spec:
  assumes "list_all chain_ok cs" and "n < length (data_of cs)"
    and "whole_chains cs n l = (k, nread, l')"
  shows "k < length cs \<and> l' = l - k \<and> nread = length (data_of (take k cs)) \<and> nread \<le> n \<and>
    n - nread < off (cs ! k)"
  using assms
proof (induction cs n l arbitrary: k nread l' rule: whole_chains.induct)
  case (1 n l)
  then show ?case by simp
next
  case (2 c cs n l)
  then have c: "length (chain_data c) = off c" by (simp add: length_chain_data)
  show ?case
  proof (cases "off c \<le> n")
    case True
    obtain k1 n1 l1 where w: "whole_chains cs (n - off c) (l - 1) = (k1, n1, l1)"
      using prod_cases3 by blast
    from True "2.prems" c have "list_all chain_ok cs" and "n - off c < length (data_of cs)" by auto
    moreover have "whole_chains cs (n - off c) (if l = 0 then 0 else l - 1) = (k1, n1, l1)"
      using w by (cases l) simp_all
    ultimately have "k1 < length cs \<and> l1 = (if l = 0 then 0 else l - 1) - k1 \<and>
        n1 = length (data_of (take k1 cs)) \<and> n1 \<le> n - off c \<and> n - off c - n1 < off (cs ! k1)"
      by (rule "2.IH" [OF True])
    with True "2.prems" w c show ?thesis by (cases l) auto
  next
    case False
    with 2 show ?thesis by auto
  qed
qed

lemma last_data_from_spec:
  "(last_data_from cs i l = l \<and> list_all (\<lambda>c. off c = 0) cs) \<or>
   (\<exists>j < length cs. last_data_from cs i l = i + j \<and> off (cs ! j) \<noteq> 0 \<and>
     list_all (\<lambda>c. off c = 0) (drop (j + 1) cs))"
proof (induction cs i l rule: last_data_from.induct)
  case (1 i l)
  then show ?case by simp
next
  case (2 c cs i l)
  let ?l = "if off c \<noteq> 0 then i else l"
  from "2.IH" show ?case
  proof
    assume "last_data_from cs (i + 1) ?l = ?l \<and> list_all (\<lambda>c. off c = 0) cs"
    then show ?thesis by (cases "off c = 0") (auto intro: exI [of _ 0])
  next
    assume "\<exists>j < length cs. last_data_from cs (i + 1) ?l = i + 1 + j \<and> off (cs ! j) \<noteq> 0 \<and>
      list_all (\<lambda>c. off c = 0) (drop (j + 1) cs)"
    then obtain j where "j < length cs" "last_data_from cs (i + 1) ?l = i + 1 + j"
      "off (cs ! j) \<noteq> 0" "list_all (\<lambda>c. off c = 0) (drop (j + 1) cs)" by blast
    then show ?thesis by (intro disjI2 exI [of _ "Suc j"]) simp
  qed
qed

lemma advance_lwd_ok:
  assumes "l < length cs \<or> cs = [] \<and> l = 0" and "off (cs ! l) = 0 \<longrightarrow> l = 0"
  shows "lwd_ok cs (last_data_from (drop (l + 1) cs) (l + 1) l)"
  using last_data_from_spec [of "drop (l + 1) cs" "l + 1" l]
proof
  assume "last_data_from (drop (l + 1) cs) (l + 1) l = l \<and>
    list_all (\<lambda>c. off c = 0) (drop (l + 1) cs)"
  with assms show ?thesis by (auto simp: lwd_ok_def)
next
  assume "\<exists>j < length (drop (l + 1) cs).
    last_data_from (drop (l + 1) cs) (l + 1) l = l + 1 + j \<and> off (drop (l + 1) cs ! j) \<noteq> 0 \<and>
    list_all (\<lambda>c. off c = 0) (drop (j + 1) (drop (l + 1) cs))"
  then obtain j where j: "j < length (drop (l + 1) cs)"
    "last_data_from (drop (l + 1) cs) (l + 1) l = l + 1 + j" "off (drop (l + 1) cs ! j) \<noteq> 0"
    "list_all (\<lambda>c. off c = 0) (drop (j + 1) (drop (l + 1) cs))" by blast
  then have "l + 1 + j < length cs" by simp
  with j show ?thesis by (auto simp: lwd_ok_def add.commute add.left_commute)
qed

lemma move_chains_ok:
  assumes ok: "evb_ok dst" "list_all chain_ok ds" and ne: "ds \<noteq> []"
  defines "d \<equiv> advance_last_with_data
      (dst\<lparr>chains := take (trailing_slot dst) (chains dst) @ ds\<rparr>)"
  shows "evb_ok (d\<lparr>total_len := total_len d + length (data_of ds)\<rparr>)"
    "content d = content dst @ data_of ds"
proof -
  let ?T = "take (trailing_slot dst) (chains dst)" and ?l = "lwd dst"
  have T: "data_of ?T = content dst \<and> ?l < length (?T @ ds) \<and> (off ((?T @ ds) ! ?l) = 0 \<longrightarrow> ?l = 0)"
  proof (cases "chains dst = []")
    case True
    with ok ne show ?thesis by (simp add: evb_ok_def lwd_ok_def content_def)
  next
    case False
    note t = trailing_slot_facts [OF ok(1) False]
    from ok False have l: "?l < length (chains dst)" "off (chains dst ! ?l) = 0 \<longrightarrow> ?l = 0"
      by (auto simp: evb_ok_def lwd_ok_def)
    show ?thesis
    proof (cases "trailing_slot dst = ?l")
      case True
      with t ne show ?thesis by simp
    next
      case False
      with t have "?l < trailing_slot dst" by simp
      with t l show ?thesis by (simp add: nth_append)
    qed
  qed
  have f: "chains d = ?T @ ds" "total_len d = total_len dst"
    "lwd d = last_data_from (drop (?l + 1) (?T @ ds)) (?l + 1) ?l"
    by (simp_all add: d_def advance_last_with_data_def)
  show c: "content d = content dst @ data_of ds" using T by (simp add: content_def f)
  have "lwd_ok (chains d) (lwd d)" unfolding f using T by (intro advance_lwd_ok) simp_all
  moreover have "list_all chain_ok (chains d)"
    using ok by (auto simp: f evb_ok_def list_all_iff dest: in_set_takeD)
  ultimately show "evb_ok (d\<lparr>total_len := total_len d + length (data_of ds)\<rparr>)"
    using c ok by (simp add: evb_ok_def f content_def)
qed

text \<open>
  With enough memory the bytes move, and the assertion of the loop, that no chain it moves holds
  \<^verbatim>\<open>last_with_datap\<close>'s chain, does not fail.
\<close>

lemma evbuffer_remove_buffer_ok:
  assumes mm: "mm_total m" and ok: "evb_ok src" "evb_ok dst"
    and fr: "\<not> freeze_start src" "\<not> freeze_end dst"
    and big: "length (content dst) + length (content src) \<le> EV_SIZE_MAX"
    and res: "evbuffer_remove_buffer m src dst n = (r, src', dst')"
  shows "evb_ok src'" "evb_ok dst'" "r = cast_int (int (min n (length (content src))))"
    "content src' = drop n (content src)" "content dst' = content dst @ take n (content src)"
proof -
  let ?P = "evb_ok src' \<and> evb_ok dst' \<and> r = cast_int (int (min n (length (content src)))) \<and>
    content src' = drop n (content src) \<and> content dst' = content dst @ take n (content src)"
  have okm: "mm_ok m" using mm by (simp add: mm_total_def)
  consider "n = 0" | "n \<noteq> 0" "length (content src) \<le> n" | "n \<noteq> 0" "n < length (content src)"
    by linarith
  then have ?P
  proof cases
    case 1
    with res ok show ?thesis by (simp add: evbuffer_remove_buffer_def cast_int_def)
  next
    case 2
    obtain q d s where q: "evbuffer_add_buffer m dst src = (q, d, s)" using prod_cases3 by blast
    note ab = evbuffer_add_buffer_ok [OF ok(2,1) q]
    from 2 res fr q have "r = cast_int (int (length (content src)))" "src' = s" "dst' = d"
      by (simp_all add: evbuffer_remove_buffer_def total_len_content [OF ok(1)])
    with ab fr 2 show ?thesis by (simp add: min_def)
  next
    case 3
    let ?cs = "chains src"
    have okc: "list_all chain_ok ?cs" "lwd_ok ?cs (lwd src)" using ok(1) by (simp_all add: evb_ok_def)
    obtain k nread l where w: "whole_chains ?cs n (lwd src) = (k, nread, l)"
      using prod_cases3 by blast
    have "n < length (data_of ?cs)" using 3 by (simp add: content_def)
    from whole_chains_spec [OF okc(1) this w] have k: "k < length ?cs" "l = lwd src - k"
      "nread = length (data_of (take k ?cs))" "nread \<le> n" "n - nread < off (?cs ! k)" by blast+
    let ?left = "n - nread" and ?c = "?cs ! k"
    let ?data = "take ?left (chain_data ?c)"
    note d = drop_chains_ok [OF okc k(1,5)]
    let ?s = "?c\<lparr>misalign := misalign ?c + ?left, off := off ?c - ?left\<rparr> # drop (k + 1) ?cs"
    have c: "length (chain_data ?c) = off ?c" "off ?c \<le> EVBUFFER_CHAIN_MAX - EVBUFFER_CHAIN_SIZE"
      using okc(1) k(1) by (auto simp: list_all_length length_chain_data chain_ok_def)
    have split: "take n (content src) = data_of (take k ?cs) @ ?data" "drop n (content src) = data_of ?s"
      using d(3) k(3,4,5) c(1) by (simp_all add: content_def)
    define d1 where "d1 = (if k = 0 then dst else move_chains dst (take k ?cs) nread)"
    have d1: "evb_ok d1 \<and> content d1 = content dst @ data_of (take k ?cs) \<and> \<not> freeze_end d1"
    proof (cases "k = 0")
      case True
      with ok fr show ?thesis by (simp add: d1_def)
    next
      case False
      have "list_all chain_ok (take k ?cs)" "take k ?cs \<noteq> []"
        using okc(1) False k(1) by (auto simp: list_all_iff dest: in_set_takeD)
      from move_chains_ok [OF ok(2) this] False k(3) fr(2) show ?thesis
        by (auto simp: evb_ok_def content_def advance_last_with_data_def d1_def move_chains_def
            evbuffer_free_trailing_empty_chains_def)
    qed
    obtain q d2 where q: "evbuffer_add m d1 ?data = (q, d2)" by fastforce
    note add = evbuffer_add_ok [OF okm _ q]
    have "content d1 @ ?data = content dst @ take n (content src)" using d1 split(1) by simp
    from arg_cong [OF this, of length] have "length (content d1) + length ?data \<le> EV_SIZE_MAX"
      using big 3(2) by (simp only: length_append length_take min_def split: if_split) linarith
    then have "fst (evbuffer_add m d1 ?data) = 0"
      using d1 c k(5) by (intro evbuffer_add_total [OF mm]) auto
    then have "q = 0" using q by simp
    with add d1 split have d2: "evb_ok d2" "content d2 = content dst @ take n (content src)" by simp_all
    have n: "nread + ?left = n" using k(4) by simp
    have "evbuffer_remove_buffer m src dst n = (cast_int (int n),
      evbuffer_invoke_callbacks (src\<lparr>chains := ?s, lwd := l, total_len := total_len src - n,
          n_del_for_cb := n_del_for_cb src + n\<rparr>), evbuffer_invoke_callbacks d2)"
      using 3 fr by (auto simp: evbuffer_remove_buffer_def Let_def n w q d1_def [symmetric]
          total_len_content [OF ok(1)])
    with res have "r = cast_int (int n)" "dst' = evbuffer_invoke_callbacks d2"
      "src' = evbuffer_invoke_callbacks (src\<lparr>chains := ?s, lwd := l, total_len := total_len src - n,
          n_del_for_cb := n_del_for_cb src + n\<rparr>)" by simp_all
    moreover have "evb_ok (src\<lparr>chains := ?s, lwd := l, total_len := total_len src - n,
          n_del_for_cb := n_del_for_cb src + n\<rparr>)"
    proof -
      have "length (content src) - n = length (data_of ?s)"
        using arg_cong [OF split(2), of length] by (simp only: length_drop)
      with d(1,2) k(2) show ?thesis by (simp only: evb_ok_fields total_len_content [OF ok(1)] simp_thms)
    qed
    ultimately show ?thesis using d2 split(2) 3 by (simp add: content_def)
  qed
  then show "evb_ok src'" "evb_ok dst'" "r = cast_int (int (min n (length (content src))))"
    "content src' = drop n (content src)" "content dst' = content dst @ take n (content src)" by simp_all
qed

section \<open>Growing\<close>

lemma chain_insert_new_ok:
  assumes mm: "mm_ok m" and ok: "evb_ok b" and res: "evbuffer_chain_insert_new m b n = (i, b')"
  shows "evb_ok b' \<and> content b' = content b \<and>
    (case i of None \<Rightarrow> b' = b
     | Some j \<Rightarrow> j < length (chains b') \<and> n \<le> CHAIN_SPACE_LEN (chains b' ! j) \<and>
        data_of (drop (j + 1) (chains b')) = [])"
proof (cases "evbuffer_chain_new m n")
  case None
  with res ok show ?thesis by (simp add: evbuffer_chain_insert_new_def)
next
  case (Some c)
  note new = chain_new_fields [OF mm Some]
  note ins = chain_insert_ok [OF ok new(7)]
  have l: "\<exists>cs. chains (evbuffer_chain_insert b c) = cs @ [c]"
    by (simp add: evbuffer_chain_insert_def Let_def evbuffer_free_trailing_empty_chains_def)
  with Some res ins new show ?thesis
    by (auto simp: evbuffer_chain_insert_new_def Let_def CHAIN_SPACE_LEN_def)
qed

lemma evbuffer_expand_singlechain_ok:
  assumes mm: "mm_ok m" and ok: "evb_ok b" and res: "evbuffer_expand_singlechain m b n = (i, b')"
  shows "evb_ok b' \<and> content b' = content b \<and>
    (case i of None \<Rightarrow> b' = b
     | Some j \<Rightarrow> j < length (chains b') \<and> n \<le> CHAIN_SPACE_LEN (chains b' ! j) \<and>
        data_of (drop (j + 1) (chains b')) = [])"
proof -
  let ?P = "\<lambda>x. evb_ok (snd x) \<and> content (snd x) = content b \<and>
    (case fst x of None \<Rightarrow> snd x = b
     | Some j \<Rightarrow> j < length (chains (snd x)) \<and> n \<le> CHAIN_SPACE_LEN (chains (snd x) ! j) \<and>
        data_of (drop (j + 1) (chains (snd x))) = [])"
  define i where "i = (if lwd b < length (chains b) \<and> CHAIN_SPACE_LEN (chains b ! lwd b) = 0
               then lwd b + 1 else lwd b)"
  let ?c = "chains b ! i"
  have li: "lwd b \<le> i" by (simp add: i_def)
  have new: "?P (evbuffer_chain_insert_new m b n)"
    by (rule chain_insert_new_ok [OF mm ok, of n "fst (evbuffer_chain_insert_new m b n)"]) simp
  have tl: "list_all (\<lambda>c. off c = 0) (drop (j + 1) (chains b))" if "lwd b \<le> j" for j
  proof -
    have "drop (j + 1) (chains b) = drop (j - lwd b) (drop (lwd b + 1) (chains b))"
      using that by simp
    moreover have "list_all (\<lambda>c. off c = 0) (drop (lwd b + 1) (chains b))"
      using ok by (auto simp: evb_ok_def lwd_ok_def split: if_splits)
    ultimately show ?thesis by (metis in_set_dropD list_all_iff)
  qed
  then have tl: "data_of (drop (j + 1) (chains b)) = []" if "lwd b \<le> j" for j
    using that data_of_empty by blast
  have upd: "?P (Some i, b\<lparr>chains := (chains b)[i := c']\<rparr>)"
    if "i < length (chains b)" "chain_ok c'" "chain_data c' = chain_data ?c"
      "n \<le> CHAIN_SPACE_LEN c'" for c'
    using update_chain_ok [OF ok that(1,2,3)] that tl [OF li] by simp
  have c: "chain_ok ?c" if "\<not> length (chains b) \<le> i"
    using that ok by (simp add: evb_ok_def list_all_length)
  have "?P (evbuffer_expand_singlechain m b n)"
    unfolding evbuffer_expand_singlechain_def Let_def i_def [symmetric]
  proof (intro if_intro [where P = ?P], goal_cases)
    case 1
    show ?case by (rule new)
  next
    case 2
    show ?case by (rule new)
  next
    case 3
    with ok tl [OF li] show ?case by simp
  next
    case 4
    show ?case by (rule new)
  next
    case 5
    note al = chain_align_fields [OF c [OF 5(1)]]
    have "n \<le> CHAIN_SPACE_LEN (evbuffer_chain_align ?c)"
      using 5 by (simp add: CHAIN_SPACE_LEN_def al) 
        (simp add: evbuffer_chain_align_def evbuffer_chain_should_realign_def)
    with 5(1) al show ?case by (intro upd) simp_all
  next
    case 6
    with ok tl [of "i + 1"] li show ?case by simp
  next
    case 7
    show ?case by (rule new)
  next
    case 8
    show ?case
    proof (cases "evbuffer_chain_new m (off ?c + n)")
      case None
      with ok show ?thesis by simp
    next
      case (Some tmp)
      note new = chain_new_fields [OF mm Some]
      let ?t = "chain_write 0 (chain_data ?c) (tmp\<lparr>off := off ?c\<rparr>)"
      have len: "length (chain_data ?c) = off ?c" using c [OF 8(1)] by (rule length_chain_data)
      with new have "chain_ok ?t" "chain_data ?t = chain_data ?c" "n \<le> CHAIN_SPACE_LEN ?t"
        by (simp_all add: chain_ok_def CHAIN_SPACE_LEN_def buffer_len_def chain_write_def
            chain_data_def [of "chain_write _ _ _"] chain_data_def [of "_ \<lparr> buffer := _ \<rparr>"])
      with 8(1) upd Some show ?thesis by simp
    qed
  qed
  then show ?thesis unfolding res by (simp only: fst_conv snd_conv)
qed

lemma evbuffer_expand_ok:
  assumes "mm_ok m" and "evb_ok b" and "evbuffer_expand m b n = (r, b')"
  shows "evb_ok b' \<and> content b' = content b \<and> (r = 0 \<or> r = -1 \<and> b' = b)"
  using assms evbuffer_expand_singlechain_ok [OF assms(1,2)]
  by (fastforce simp: evbuffer_expand_def split: prod.splits option.splits)

section \<open>Prepending with enough memory\<close>

lemma prepend_new_chain_total:
  assumes "mm_total m" and "length data \<le> EVBUFFER_CHAIN_MAX - EVBUFFER_CHAIN_SIZE"
  shows "fst (prepend_new_chain m data b) = 0"
proof -
  obtain tmp where "evbuffer_chain_new m (length data) = Some tmp" by (rule chain_new_exists [OF assms])
  then show ?thesis by (simp add: prepend_new_chain_def Let_def)
qed

lemma evbuffer_prepend_total:
  assumes mm: "mm_total m" and ok: "evb_ok b" and fr: "\<not> freeze_start b"
    and len: "length data \<le> EVBUFFER_CHAIN_MAX - EVBUFFER_CHAIN_SIZE"
    and tot: "length (content b) + length data \<le> EV_SIZE_MAX"
  shows "fst (evbuffer_prepend m b data) = 0"
proof -
  obtain c where c: "evbuffer_chain_new m (length data) = Some c" by (rule chain_new_exists [OF mm len])
  have *: "fst (prepend_to_first m data d) = 0" for d
  proof -
    have new: "fst (prepend_new_chain m (take k data) d) = 0" for k d
      using len by (intro prepend_new_chain_total [OF mm]) simp
    from new [of "length data"] have "fst (prepend_new_chain m data d) = 0" for d by simp
    with new show ?thesis by (simp add: prepend_to_first_def Let_def)
  qed
  with c fr tot ok show ?thesis by (auto simp: evbuffer_prepend_def total_len_content)
qed

end
