(* ===== verification/EvbufferSpec.thy ===== *)
theory EvbufferSpec
  imports EvbufferLaws
begin

text \<open>
  What an \<^verbatim>\<open>evbuffer\<close> promises: it is a byte string. Any sequence of operations on the chains
  returns what the same sequence on a byte string returns, as long as memory lasts; and what is
  left of the contract when it does not. The interface the channels use, a queue of bytes, is a
  locale with the buffer of \<^verbatim>\<open>buffer.c\<close> as its instance.
\<close>

section \<open>The byte string behind a buffer\<close>

datatype evb_op = Add "byte list" | Prepend "byte list" | Drain nat | Remove nat | Copyout nat
  | Expand nat

definition evb_step :: "malloc \<Rightarrow> evb_op \<Rightarrow> evbuffer \<Rightarrow> (int \<times> byte list) \<times> evbuffer" where
  "evb_step m oper b =
     (case oper of
        Add bs \<Rightarrow> (let (r, b') = evbuffer_add m b bs in ((r, []), b'))
      | Prepend bs \<Rightarrow> (let (r, b') = evbuffer_prepend m b bs in ((r, []), b'))
      | Drain n \<Rightarrow> (let (r, b') = evbuffer_drain b n in ((r, []), b'))
      | Remove n \<Rightarrow> (let (r, out, b') = evbuffer_remove b n in ((r, out), b'))
      | Copyout n \<Rightarrow> (evbuffer_copyout b n, b)
      | Expand n \<Rightarrow> (let (r, b') = evbuffer_expand m b n in ((r, []), b')))"

definition str_step :: "evb_op \<Rightarrow> byte list \<Rightarrow> (int \<times> byte list) \<times> byte list" where
  "str_step oper s =
     (case oper of
        Add bs \<Rightarrow> ((0, []), s @ bs)
      | Prepend bs \<Rightarrow> ((0, []), bs @ s)
      | Drain n \<Rightarrow> ((0, []), drop n s)
      | Remove n \<Rightarrow> ((int (length (take n s)), take n s), drop n s)
      | Copyout n \<Rightarrow> ((int (length (take n s)), take n s), s)
      | Expand n \<Rightarrow> ((0, []), s))"

fun evb_run :: "malloc \<Rightarrow> evb_op list \<Rightarrow> evbuffer \<Rightarrow> (int \<times> byte list) list \<times> evbuffer" where
  "evb_run m [] b = ([], b)"
| "evb_run m (oper # ops) b =
     (let (res, b1) = evb_step m oper b; (rs, b2) = evb_run m ops b1 in (res # rs, b2))"

fun str_run :: "evb_op list \<Rightarrow> byte list \<Rightarrow> (int \<times> byte list) list \<times> byte list" where
  "str_run [] s = ([], s)"
| "str_run (oper # ops) s =
     (let (res, s1) = str_step oper s; (rs, s2) = str_run ops s1 in (res # rs, s2))"

text \<open>The bytes a sequence of operations brings into the buffer.\<close>

fun bytes_in :: "evb_op \<Rightarrow> nat" where
  "bytes_in (Add bs) = length bs"
| "bytes_in (Prepend bs) = length bs"
| "bytes_in _ = 0"

definition evb_live :: "evbuffer \<Rightarrow> bool" where
  "evb_live b \<longleftrightarrow> evb_ok b \<and> \<not> freeze_start b \<and> \<not> freeze_end b"

lemma evb_live_new [simp]: "evb_live evbuffer_new"
  by (simp add: evb_live_def) (simp add: evbuffer_new_def)

lemma chain_insert_freeze [field_frames]:
  "freeze_start (evbuffer_chain_insert b c) = freeze_start b"
  "freeze_end (evbuffer_chain_insert b c) = freeze_end b"
  by (auto simp: evbuffer_chain_insert_def evbuffer_free_trailing_empty_chains_def Let_def)

lemma prepend_into_first_freeze [field_frames]:
  "freeze_start (prepend_into_first n data b) = freeze_start b"
  "freeze_end (prepend_into_first n data b) = freeze_end b"
  by (simp_all add: prepend_into_first_def Let_def)

lemma prepend_new_chain_freeze [field_frames]:
  "freeze_start (snd (prepend_new_chain m data b)) = freeze_start b"
  "freeze_end (snd (prepend_new_chain m data b)) = freeze_end b"
  by (simp_all add: prepend_new_chain_def Let_def split: option.split)

lemma evbuffer_prepend_freeze [field_frames]:
  "freeze_start (snd (evbuffer_prepend m b data)) = freeze_start b"
  "freeze_end (snd (evbuffer_prepend m b data)) = freeze_end b"
  by (simp_all add: evbuffer_prepend_def prepend_to_first_def Let_def field_frames split: option.split)

lemma chain_insert_new_freeze [field_frames]:
  "freeze_start (snd (evbuffer_chain_insert_new m b n)) = freeze_start b"
  "freeze_end (snd (evbuffer_chain_insert_new m b n)) = freeze_end b"
  by (simp_all add: evbuffer_chain_insert_new_def Let_def field_frames split: option.split)

lemma evbuffer_expand_freeze:
  "freeze_start (snd (evbuffer_expand m b n)) = freeze_start b \<and>
   freeze_end (snd (evbuffer_expand m b n)) = freeze_end b"
proof -
  let ?P = "\<lambda>x. freeze_start (snd x) = freeze_start b \<and> freeze_end (snd x) = freeze_end b"
  have "?P (evbuffer_expand_singlechain m b n)"
    unfolding evbuffer_expand_singlechain_def Let_def
    by (intro if_intro [where P = ?P]) (simp_all add: field_frames split: option.split)
  then show ?thesis
    by (cases "evbuffer_expand_singlechain m b n")
       (simp add: evbuffer_expand_def split: option.split)
qed

lemma evbuffer_expand_total:
  assumes mm: "mm_total m" and n: "n \<le> 2 ^ 31"
  shows "fst (evbuffer_expand m b n) = 0"
proof -
  have new: "\<exists>c. evbuffer_chain_new m k = Some c" if "k \<le> 2 ^ 31 + 4096" for k
    using chain_new_exists [OF mm, of k] that
    by (auto simp: EVBUFFER_CHAIN_MAX_def EV_SSIZE_MAX_def EVBUFFER_CHAIN_SIZE_def)
  then obtain c where "evbuffer_chain_new m n = Some c" using n by fastforce
  then have ins: "fst (evbuffer_chain_insert_new m b n) \<noteq> None"
    by (simp add: evbuffer_chain_insert_new_def Let_def)
  have "fst (evbuffer_expand_singlechain m b n) \<noteq> None"
    unfolding evbuffer_expand_singlechain_def Let_def
  proof (intro if_intro [where P = "\<lambda>x. fst x \<noteq> None"], goal_cases)
    case 8
    let ?c = "chains b ! (if lwd b < length (chains b) \<and> CHAIN_SPACE_LEN (chains b ! lwd b) = 0
      then lwd b + 1 else lwd b)"
    from 8 have "off ?c \<le> 4096" by (simp add: MAX_TO_COPY_IN_EXPAND_def)
    with new [of "off ?c + n"] n show ?case by auto
  qed (use ins in simp_all)
  then show ?thesis by (cases "evbuffer_expand_singlechain m b n") (auto simp: evbuffer_expand_def)
qed

lemma evb_step_refines:
  assumes mm: "mm_total m" and live: "evb_live b"
    and big: "length (content b) + bytes_in oper < 2 ^ 31"
    and ex: "case oper of Expand n \<Rightarrow> n \<le> 2 ^ 31 | _ \<Rightarrow> True"
    and step: "evb_step m oper b = (res, b')"
  shows "evb_live b' \<and> str_step oper (content b) = (res, content b')"
proof -
  have ok: "evb_ok b" "\<not> freeze_start b" "\<not> freeze_end b" and okm: "mm_ok m"
    using live mm by (simp_all add: evb_live_def mm_total_def)
  have le: "k \<le> EVBUFFER_CHAIN_MAX - EVBUFFER_CHAIN_SIZE" "k \<le> EV_SIZE_MAX" if "k < 2 ^ 31" for k
    using that by (simp_all add: EVBUFFER_CHAIN_MAX_def EV_SSIZE_MAX_def EVBUFFER_CHAIN_SIZE_def EV_SIZE_MAX_def)
  show ?thesis
  proof (cases oper)
    case (Add bs)
    obtain r d where r: "evbuffer_add m b bs = (r, d)" by fastforce
    have "r = 0" using evbuffer_add_total [OF mm ok(1,3), of bs] big le r Add by simp
    with evbuffer_add_ok [OF okm ok(1) r] Add step r ok show ?thesis
      by (auto simp: evb_step_def str_step_def evb_live_def)
  next
    case (Prepend bs)
    obtain r d where r: "evbuffer_prepend m b bs = (r, d)" by fastforce
    have "r = 0" using evbuffer_prepend_total [OF mm ok(1,2), of bs] big le r Prepend by simp
    with evbuffer_prepend_ok [OF okm ok(1) r] Prepend step r ok evbuffer_prepend_freeze [of m b bs]
    show ?thesis by (auto simp: evb_step_def str_step_def evb_live_def)
  next
    case (Drain n)
    obtain r d where r: "evbuffer_drain b n = (r, d)" by fastforce
    with evbuffer_drain_ok [OF ok(1) r] Drain step ok show ?thesis
      by (auto simp: evb_step_def str_step_def evb_live_def)
  next
    case (Remove n)
    obtain r out d where r: "evbuffer_remove b n = (r, out, d)" using prod_cases3 by blast
    have "cast_int (int (min n (length (content b)))) = int (length (take n (content b)))"
      using big by (simp add: cast_int_id min.commute)
    with evbuffer_remove_ok [OF ok(1) r] Remove step ok r show ?thesis
      by (auto simp: evb_step_def str_step_def evb_live_def)
  next
    case (Copyout n)
    have "evbuffer_copyout b n = (int (length (take n (content b))), take n (content b))"
      using evbuffer_copyout_ok [OF ok(1), of n] ok(2)
      by (cases "n = 0 \<or> content b = []") (auto simp: Let_def min_def)
    with Copyout step live show ?thesis by (auto simp: evb_step_def str_step_def)
  next
    case (Expand n)
    obtain r d where r: "evbuffer_expand m b n = (r, d)" by fastforce
    have "r = 0" using evbuffer_expand_total [OF mm, of n b] ex r Expand by simp
    with evbuffer_expand_ok [OF okm ok(1) r] Expand step r ok evbuffer_expand_freeze [of m b n]
    show ?thesis by (auto simp: evb_step_def str_step_def evb_live_def)
  qed
qed

lemma str_step_length:
  "length (snd (str_step oper s)) \<le> length s + bytes_in oper"
  by (cases oper) (simp_all add: str_step_def)

text \<open>
  C1: A buffer is a byte string. From an empty \<^verbatim>\<open>evbuffer\<close>, with memory that lasts and less than
  2 GB brought in, any sequence of \<^verbatim>\<open>evbuffer_add\<close>, \<^verbatim>\<open>evbuffer_prepend\<close>, \<^verbatim>\<open>evbuffer_drain\<close>,
  \<^verbatim>\<open>evbuffer_remove\<close>, \<^verbatim>\<open>evbuffer_copyout\<close> and \<^verbatim>\<open>evbuffer_expand\<close> returns, call by call, the
  values and bytes that the same operations on one byte string return, and the chains end up
  holding that string, with \<^verbatim>\<open>total_len\<close> and \<^verbatim>\<open>last_with_datap\<close> in order.
\<close>

theorem evbuffer_is_byte_string:
  assumes "mm_total m" and "sum_list (map bytes_in ops) < 2 ^ 31"
    and "\<forall>n. Expand n \<in> set ops \<longrightarrow> n \<le> 2 ^ 31"
    and "evb_run m ops evbuffer_new = (rs, b)"
  shows "str_run ops [] = (rs, content b) \<and> evb_ok b"
proof -
  have "str_run ops (content d) = (rs, content b) \<and> evb_ok b"
    if "evb_live d" "length (content d) + sum_list (map bytes_in ops) < 2 ^ 31"
      "\<forall>n. Expand n \<in> set ops \<longrightarrow> n \<le> 2 ^ 31" "evb_run m ops d = (rs, b)" for d rs
    using that
  proof (induction ops arbitrary: d rs)
    case Nil
    then show ?case by (simp add: evb_live_def)
  next
    case (Cons oper ops)
    obtain res d1 where s: "evb_step m oper d = (res, d1)" by fastforce
    obtain rs1 where r: "evb_run m ops d1 = (rs1, b)" and rs: "rs = res # rs1"
      using Cons.prems(4) s by (auto simp: Let_def split: prod.splits)
    have ex: "case oper of Expand n \<Rightarrow> n \<le> 2 ^ 31 | _ \<Rightarrow> True"
      using Cons.prems(3) by (cases oper) auto
    have "length (content d) + bytes_in oper < 2 ^ 31" using Cons.prems(2) by simp
    note st = evb_step_refines [OF assms(1) Cons.prems(1) this ex s]
    then have "length (content d1) + sum_list (map bytes_in ops) < 2 ^ 31"
      using str_step_length [of oper "content d"] Cons.prems(2) by simp
    with st r rs Cons.IH [of d1 rs1] Cons.prems(3) show ?case by simp
  qed
  from this [of evbuffer_new rs] assms show ?thesis by simp
qed

theorem evbuffer_is_byte_string_witness:
  "\<exists>b. evb_run (\<lambda>n. Some (replicate n 0))
      [Add [1, 2, 3], Prepend [9, 8], Remove 2, Expand 3000, Add [4], Copyout 9, Drain 1] evbuffer_new =
     ([(0, []), (0, []), (2, [9, 8]), (0, []), (0, []), (4, [1, 2, 3, 4]), (0, [])], b) \<and>
   content b = [2, 3, 4]"
proof -
  let ?m = "\<lambda>n. Some (replicate n (0 :: byte))"
  let ?ops = "[Add [1, 2, 3], Prepend [9, 8], Remove 2, Expand 3000, Add [4], Copyout 9, Drain 1]"
  obtain rs b where run: "evb_run ?m ?ops evbuffer_new = (rs, b)" by fastforce
  have "mm_total ?m" by (simp add: mm_total_def mm_ok_def)
  from evbuffer_is_byte_string [OF this _ _ run]
  have "str_run ?ops [] = (rs, content b)" by simp
  moreover have "str_run ?ops [] =
    ([(0, []), (0, []), (2, [9, 8]), (0, []), (0, []), (4, [1, 2, 3, 4]), (0, [])], [2, 3, 4])"
    by (simp add: str_step_def)
  ultimately have "rs = [(0, []), (0, []), (2, [9, 8]), (0, []), (0, []), (4, [1, 2, 3, 4]), (0, [])]"
    "content b = [2, 3, 4]" by (metis prod.inject)+
  with run show ?thesis by blast
qed

section \<open>When memory runs out\<close>

definition no_memory :: malloc where
  "no_memory n = None"

lemma no_memory_ok: "mm_ok no_memory" "evbuffer_chain_new no_memory n = None"
  by (simp_all add: mm_ok_def no_memory_def evbuffer_chain_new_def Let_def)

text \<open>A buffer with one chain that has \<open>k\<close> free bytes before its data.\<close>

definition one_chain :: "nat \<Rightarrow> byte list \<Rightarrow> evbuffer" where
  "one_chain k bs = evbuffer_new\<lparr>chains := [\<lparr>buffer = replicate k 0 @ bs, misalign = k,
     off = length bs, immutable = False, pinned_r = False, pinned_w = False\<rparr>],
     total_len := length bs\<rparr>"

lemma one_chain_ok:
  "k + length bs \<le> 10000 \<Longrightarrow> evb_ok (one_chain k bs)" "content (one_chain k bs) = bs"
  by (simp_all add: one_chain_def evb_ok_def evbuffer_new_def content_def chain_ok_def lwd_ok_def
      chain_data_def buffer_len_def EVBUFFER_CHAIN_MAX_def EV_SSIZE_MAX_def EVBUFFER_CHAIN_SIZE_def)

lemma one_chain_live [simp]: "\<not> freeze_start (one_chain k bs)" "\<not> freeze_end (one_chain k bs)"
  by (simp_all add: one_chain_def evbuffer_new_def)

text \<open>
  C10: Failures of the allocator. \<^verbatim>\<open>evbuffer_add\<close> is atomic: it appends all the bytes and
  returns 0, or returns -1 and the buffer holds what it held. \<^verbatim>\<open>evbuffer_prepend\<close> is not: when
  the bytes do not fit before the first chain's data it has already put the last of them there
  when the allocation of a new chain fails, so -1 can come with a suffix of the data inserted.
  The chains stay well formed in both.
\<close>

theorem evbuffer_add_prepend_failure:
  assumes "mm_ok m" and "evb_ok b"
  shows "(case evbuffer_add m b data of (r, b') \<Rightarrow>
      evb_ok b' \<and> (r = 0 \<and> content b' = content b @ data \<or> r = -1 \<and> content b' = content b)) \<and>
    (case evbuffer_prepend m b data of (r, b') \<Rightarrow>
      evb_ok b' \<and> (r = 0 \<and> content b' = data @ content b \<or>
        r = -1 \<and> (\<exists>k \<le> length data. content b' = drop k data @ content b)))"
  using evbuffer_add_ok [OF assms, of data] evbuffer_prepend_ok [OF assms, of data] by fastforce

lemma prepend_half:
  "evbuffer_prepend no_memory (one_chain 2 [5]) [1, 2, 3] =
    (-1, (one_chain 0 [2, 3, 5])\<lparr>n_add_for_cb := 2\<rparr>)"
proof -
  have "replicate 2 (0 :: byte) = [0, 0]" by (simp add: numeral_2_eq_2)
  then show ?thesis
    by (simp add: evbuffer_prepend_def prepend_to_first_def prepend_new_chain_def Let_def no_memory_ok
      prepend_into_first_def chain_write_def one_chain_def evbuffer_new_def EV_SIZE_MAX_def)
qed

theorem evbuffer_add_prepend_failure_witness:
  "content (snd (evbuffer_add no_memory (one_chain 2 [5]) [1, 2, 3])) \<in> {[5], [5, 1, 2, 3]} \<and>
   (\<exists>b'. evbuffer_prepend no_memory (one_chain 2 [5]) [1, 2, 3] = (-1, b') \<and>
      evb_ok b' \<and> content b' = [2, 3, 5])"
  using evbuffer_add_prepend_failure [OF no_memory_ok(1) one_chain_ok(1), of 2 "[5]" "[1, 2, 3]"]
    one_chain_ok(2) [of 0 "[2, 3, 5]"]
  by (auto simp: prepend_half one_chain_ok split: prod.splits)

section \<open>Moving between buffers\<close>

text \<open>
  Moving whole buffers. \<^verbatim>\<open>evbuffer_add_buffer\<close> puts all of the other buffer's bytes after
  those of a buffer and \<^verbatim>\<open>evbuffer_prepend_buffer\<close> puts them before, leaving the other one empty
  and both well formed; neither copies, so neither can fail for lack of memory. A frozen end
  makes them return -1 and change nothing, unless there is nothing to move.
\<close>

theorem evbuffer_move_whole:
  assumes "evb_ok outb" and "evb_ok inb"
  shows "(case evbuffer_add_buffer m outb inb of (r, outb', inb') \<Rightarrow>
      evb_ok outb' \<and> evb_ok inb' \<and>
      (if content inb \<noteq> [] \<and> (freeze_end outb \<or> freeze_start inb)
       then r = -1 \<and> outb' = outb \<and> inb' = inb
       else r = 0 \<and> content outb' = content outb @ content inb \<and> content inb' = [])) \<and>
    (case evbuffer_prepend_buffer m outb inb of (r, outb', inb') \<Rightarrow>
      evb_ok outb' \<and> evb_ok inb' \<and>
      (if content inb \<noteq> [] \<and> (freeze_start outb \<or> freeze_start inb)
       then r = -1 \<and> outb' = outb \<and> inb' = inb
       else r = 0 \<and> content outb' = content inb @ content outb \<and> content inb' = []))"
proof -
  obtain r o1 i1 where a: "evbuffer_add_buffer m outb inb = (r, o1, i1)" using prod_cases3 by blast
  obtain q o2 i2 where p: "evbuffer_prepend_buffer m outb inb = (q, o2, i2)" using prod_cases3 by blast
  show ?thesis
    unfolding a p prod.case
    using evbuffer_add_buffer_ok [OF assms a] evbuffer_prepend_buffer_ok [OF assms p] by blast
qed

theorem evbuffer_move_whole_witness:
  "\<exists>outb' inb'. evbuffer_add_buffer no_memory (one_chain 0 [1, 2]) (one_chain 4 [3]) = (0, outb', inb') \<and>
    content outb' = [1, 2, 3] \<and> content inb' = []"
  using evbuffer_move_whole [OF one_chain_ok(1) one_chain_ok(1), of 0 "[1, 2]" 4 "[3]" no_memory]
  by (auto simp: one_chain_ok split: prod.splits)

text \<open>
  C9: Moving a part. With memory that lasts \<^verbatim>\<open>evbuffer_remove_buffer\<close> takes exactly the first
  \<open>datlen\<close> bytes (or all there are) off the front of \<open>src\<close> and puts them at the end of \<open>dst\<close> in
  order, returns their number, and keeps both buffers well formed, with \<^verbatim>\<open>last_with_datap\<close> of both
  on the last chain with data, whichever chains move whole.
\<close>

theorem evbuffer_move_part:
  assumes "mm_total m" and "evb_live src" and "evb_live dst"
    and "length (content dst) + length (content src) < 2 ^ 31"
  shows "case evbuffer_remove_buffer m src dst n of (r, src', dst') \<Rightarrow>
    r = int (min n (length (content src))) \<and> evb_ok src' \<and> evb_ok dst' \<and>
    content src' = drop n (content src) \<and> content dst' = content dst @ take n (content src)"
proof -
  obtain r s d where r: "evbuffer_remove_buffer m src dst n = (r, s, d)" using prod_cases3 by blast
  have "length (content dst) + length (content src) \<le> EV_SIZE_MAX"
    using assms(4) by (simp add: EV_SIZE_MAX_def)
  with assms have "evb_ok s" "evb_ok d" "r = cast_int (int (min n (length (content src))))"
    "content s = drop n (content src)" "content d = content dst @ take n (content src)"
    using evbuffer_remove_buffer_ok [OF assms(1) _ _ _ _ _ r] by (auto simp: evb_live_def)
  moreover have "cast_int (int (min n (length (content src)))) = int (min n (length (content src)))"
    using assms(4) by (intro cast_int_id) auto
  ultimately show ?thesis by (simp add: r)
qed

theorem evbuffer_move_part_witness:
  "case evbuffer_remove_buffer (\<lambda>n. Some (replicate n 0)) (one_chain 0 [1, 2, 3]) evbuffer_new 2 of
    (r, src', dst') \<Rightarrow> r = 2 \<and> content src' = [3] \<and> content dst' = [1, 2]"
proof -
  let ?m = "\<lambda>n. Some (replicate n (0 :: byte))"
  have "mm_total ?m" by (simp add: mm_total_def mm_ok_def)
  moreover have "evb_live (one_chain 0 [1, 2, 3])"
    by (simp add: evb_live_def one_chain_ok)
  ultimately show ?thesis
    using evbuffer_move_part [of ?m "one_chain 0 [1, 2, 3]" evbuffer_new 2]
    by (simp add: one_chain_ok split: prod.splits)
qed

text \<open>
  Without memory the result of \<^verbatim>\<open>evbuffer_add\<close> in \<^verbatim>\<open>evbuffer_remove_buffer\<close> is not looked at:
  the bytes are gone from both buffers and counted as moved.
\<close>

lemma evbuffer_move_part_loses:
  "case evbuffer_remove_buffer no_memory (one_chain 0 [1, 2, 3]) evbuffer_new 2 of
    (r, src', dst') \<Rightarrow> r = 2 \<and> content src' = [3] \<and> content dst' = []"
  by (simp add: evbuffer_remove_buffer_def one_chain_def evbuffer_new_def evbuffer_add_def no_memory_ok
      Let_def content_def chain_data_def cast_int_id EV_SIZE_MAX_def)

end
