(* ===== verification/Channel.thy ===== *)
theory Channel
  imports EvbufferSpec
begin

text \<open>
  A client's channel (\<^verbatim>\<open>SyTaskAdapter.cpp\<close>): the bytes the kernel callbacks move in from the
  client's \<^verbatim>\<open>bufferevent\<close>, the parse function that cuts them into packets and the packets sent
  back. \<^verbatim>\<open>bufferevent\<close>s live in a heap, so that a freed one can be told; players only log.

  A result \<^term>\<open>None\<close> is undefined behaviour of the C++: a null or freed object used, a copy out
  of the bounds of an array, or a parse function that never says it is done.
\<close>

section \<open>Bufferevents\<close>

record bufferevent =
  bev_input :: evbuffer
  bev_output :: evbuffer
  bev_fd :: int
  bev_ctx :: "nat option"  \<comment> \<open>the channel the three kernel callbacks are set to\<close>
  wm_read_low :: nat
  wm_read_high :: nat
  bev_enabled :: bool

datatype player_event = Player_login nat | Player_logout nat | Player_close nat

record net =
  bevs :: "nat \<rightharpoonup> bufferevent"
  next_bev :: nat
  player_log :: "player_event list"

definition bufferevent_socket_new :: "int \<Rightarrow> net \<Rightarrow> nat \<times> net" where
  "bufferevent_socket_new fd w =
     (next_bev w,
      w\<lparr>bevs := (bevs w)(next_bev w \<mapsto>
           \<lparr>bev_input = evbuffer_freeze evbuffer_new False, bev_output = evbuffer_freeze evbuffer_new True,
            bev_fd = fd, bev_ctx = None, wm_read_low = 0, wm_read_high = 0, bev_enabled = False\<rparr>),
        next_bev := next_bev w + 1\<rparr>)"

definition bufferevent_write :: "malloc \<Rightarrow> nat \<Rightarrow> byte list \<Rightarrow> net \<Rightarrow> (int \<times> net) option" where
  "bufferevent_write m bev data w =
     (case bevs w bev of
        None \<Rightarrow> None
      | Some be \<Rightarrow>
          (let (r, out) = evbuffer_add m (bev_output be) data;
               w' = w\<lparr>bevs := (bevs w)(bev \<mapsto> be\<lparr>bev_output := out\<rparr>)\<rparr>
           in Some (if r = -1 then -1 else 0, w')))"

definition bufferevent_read_buffer ::
    "malloc \<Rightarrow> nat \<Rightarrow> evbuffer \<Rightarrow> net \<Rightarrow> (int \<times> evbuffer \<times> net) option" where
  "bufferevent_read_buffer m bev buf w =
     (case bevs w bev of
        None \<Rightarrow> None
      | Some be \<Rightarrow>
          (let (r, buf', inp) = evbuffer_add_buffer m buf (bev_input be)
           in Some (r, buf', w\<lparr>bevs := (bevs w)(bev \<mapsto> be\<lparr>bev_input := inp\<rparr>)\<rparr>)))"

text \<open>Freeing closes the socket; what is still in the output buffer is never written.\<close>

definition bufferevent_free :: "nat \<Rightarrow> net \<Rightarrow> net option" where
  "bufferevent_free bev w =
     (case bevs w bev of None \<Rightarrow> None | Some be \<Rightarrow> Some (w\<lparr>bevs := (bevs w)(bev := None)\<rparr>))"

text \<open>
  What the loop does when \<open>bs\<close> arrive on the socket: it adds them to the input buffer, whose end
  is frozen for everyone else.
\<close>

definition bev_arrive :: "malloc \<Rightarrow> nat \<Rightarrow> byte list \<Rightarrow> net \<Rightarrow> net" where
  "bev_arrive m bev bs w =
     (case bevs w bev of
        None \<Rightarrow> w
      | Some be \<Rightarrow>
          (let (r, inp) = evbuffer_add m (evbuffer_unfreeze (bev_input be) False) bs
           in w\<lparr>bevs := (bevs w)(bev \<mapsto> be\<lparr>bev_input := evbuffer_freeze inp False\<rparr>)\<rparr>))"

section \<open>Channels\<close>

definition BUFFSIZE :: nat where "BUFFSIZE = 4096"

datatype ICNANNEL_LINK_STATUS = CLIENT_LOGOUT | CLIENT_LOGIN

text \<open>
  A parse function: from the input array, its size, the index and the output array to its result,
  the new index, \<^verbatim>\<open>_OutLen\<close>, \<^verbatim>\<open>_OutType\<close> and the output array.
\<close>

type_synonym parse_func =
  "byte list \<Rightarrow> int \<Rightarrow> int \<Rightarrow> byte list \<Rightarrow> (bool \<times> int \<times> int \<times> int \<times> byte list) option"

record IChannel =
  m_Socket :: int
  m_IChannelID :: nat
  m_buffer :: "nat option"
  m_Inputevbuffer :: "evbuffer option"
  m_pPlayer :: bool  \<comment> \<open>whether it is not null\<close>
  ParseFunc :: "parse_func option"
  DoNotBindParse :: bool
  IChStatus :: ICNANNEL_LINK_STATUS

definition new_IChannel :: IChannel where
  "new_IChannel = \<lparr>m_Socket = 0, m_IChannelID = 0, m_buffer = None, m_Inputevbuffer = None,
     m_pPlayer = False, ParseFunc = None, DoNotBindParse = False, IChStatus = CLIENT_LOGOUT\<rparr>"

definition BindParse :: "parse_func option \<Rightarrow> IChannel \<Rightarrow> IChannel" where
  "BindParse f ch =
     (case f of
        Some g \<Rightarrow> ch\<lparr>ParseFunc := Some g, DoNotBindParse := True\<rparr>
      | None \<Rightarrow> ch\<lparr>DoNotBindParse := False\<rparr>)"

definition RecvValuesFromString :: parse_func where
  "RecvValuesFromString inp size_in index out =
     (if size_in < 0 \<or> int (length inp) < size_in \<or> int (length out) < size_in then None
      else Some (False, 0, size_in, 1, take (nat size_in) inp @ drop (nat size_in) out))"

definition SetupFrameInputFunc :: "IChannel \<Rightarrow> IChannel" where
  "SetupFrameInputFunc ch = BindParse (Some RecvValuesFromString) ch"

definition GetWhetherBindParseFunc :: "IChannel \<Rightarrow> bool" where
  "GetWhetherBindParseFunc ch = DoNotBindParse ch"

text \<open>\<open>threads\<close> is whether \<^verbatim>\<open>SYINX_USE_PTHREAD\<close> is defined.\<close>

definition Channel_Initialize :: "bool \<Rightarrow> IChannel \<Rightarrow> bool \<times> IChannel" where
  "Channel_Initialize threads ch =
     (let ch = SetupFrameInputFunc ch
      in if \<not> GetWhetherBindParseFunc ch then (False, ch)
         else
           (let ch = (if m_pPlayer ch then ch else ch\<lparr>m_pPlayer := True\<rparr>);
                buf = (case m_Inputevbuffer ch of None \<Rightarrow> evbuffer_new | Some b \<Rightarrow> b);
                buf = (if threads then snd (evbuffer_enable_locking buf) else buf)
            in (True, ch\<lparr>m_Inputevbuffer := Some buf\<rparr>)))"

definition SetIChannelID :: "nat \<Rightarrow> IChannel \<Rightarrow> IChannel" where
  "SetIChannelID index ch = (if m_IChannelID ch = 0 then ch\<lparr>m_IChannelID := index\<rparr> else ch)"

definition OnClientConnect :: "int \<Rightarrow> nat option \<Rightarrow> IChannel \<times> net \<Rightarrow> (IChannel \<times> net) option" where
  "OnClientConnect fd buf = (\<lambda>(ch, w).
     (let ch = ch\<lparr>m_Socket := fd\<rparr>;
          ch = (case buf of None \<Rightarrow> ch | Some b \<Rightarrow> ch\<lparr>m_buffer := Some b\<rparr>)
      in if \<not> m_pPlayer ch then None
         else Some (ch\<lparr>IChStatus := CLIENT_LOGIN\<rparr>,
                    w\<lparr>player_log := player_log w @ [Player_login (m_IChannelID ch)]\<rparr>)))"

section \<open>Sending\<close>

text \<open>\<open>data\<close> is the array the first \<open>packsize\<close> bytes of which are sent.\<close>

definition SendDataToClient :: "malloc \<Rightarrow> byte list \<Rightarrow> int \<Rightarrow> IChannel \<Rightarrow> net \<Rightarrow> (int \<times> net) option" where
  "SendDataToClient m data packsize ch w =
     (if IChStatus ch = CLIENT_LOGIN then
        (case m_buffer ch of
           None \<Rightarrow> None
         | Some b \<Rightarrow>
             if packsize < 0 \<or> int (length data) < packsize then None
             else bufferevent_write m b (take (nat packsize) data) w)
      else Some (-1, w))"

definition RecvClientPack :: "malloc \<Rightarrow> int \<Rightarrow> int \<Rightarrow> byte list \<Rightarrow> IChannel \<Rightarrow> net \<Rightarrow> (bool \<times> net) option" where
  "RecvClientPack m inlen intype instr ch w =
     (case SendDataToClient m instr inlen ch w of None \<Rightarrow> None | Some (r, w') \<Rightarrow> Some (True, w'))"

definition le32 :: "32 word \<Rightarrow> byte list" where
  "le32 x = [ucast x, ucast (drop_bit 8 x), ucast (drop_bit 16 x), ucast (drop_bit 24 x)]"

definition SendValuesToString ::
    "malloc \<Rightarrow> 32 word \<Rightarrow> 32 word \<Rightarrow> byte list \<Rightarrow> IChannel \<Rightarrow> net \<Rightarrow> (bool \<times> net) option" where
  "SendValuesToString m inlen intype instr ch w =
     (if 0 < inlen then
        (case m_buffer ch of
           None \<Rightarrow> None
         | Some b \<Rightarrow>
             (case bufferevent_write m b (le32 inlen @ le32 intype @ instr) w of
                None \<Rightarrow> None
              | Some (r, w') \<Rightarrow> Some (\<not> r < 0, w')))
      else Some (False, w))"

section \<open>Receiving\<close>

text \<open>The kernel's read callback.\<close>

definition SyinxKernel_Recv_Cb :: "malloc \<Rightarrow> nat \<Rightarrow> IChannel \<times> net \<Rightarrow> (IChannel \<times> net) option" where
  "SyinxKernel_Recv_Cb m bev = (\<lambda>(ch, w).
     (case m_Inputevbuffer ch of
        None \<Rightarrow> None
      | Some buf \<Rightarrow>
          (case bufferevent_read_buffer m bev buf w of
             None \<Rightarrow> None
           | Some (r, buf', w') \<Rightarrow> Some (ch\<lparr>m_Inputevbuffer := Some buf'\<rparr>, w'))))"

text \<open>The loop over the packets the parse function finds in \<open>str_data\<close>.\<close>

partial_function (option) parse_loop ::
    "malloc \<Rightarrow> IChannel \<Rightarrow> byte list \<Rightarrow> int \<Rightarrow> int \<Rightarrow> net \<Rightarrow> net option" where
  "parse_loop m ch str_data buffersize index w =
     (case ParseFunc ch of
        None \<Rightarrow> None
      | Some parse \<Rightarrow>
          (case parse str_data buffersize index (replicate BUFFSIZE 0) of
             None \<Rightarrow> None
           | Some (again, index', len, typ, out) \<Rightarrow>
               (case RecvClientPack m len typ out ch w of
                  None \<Rightarrow> None
                | Some (r, w') \<Rightarrow>
                    if again then parse_loop m ch str_data buffersize index' w' else Some w')))"

text \<open>\<^verbatim>\<open>strData\<close> after \<^verbatim>\<open>evbuffer_remove\<close> stored \<open>bytes\<close> in it.\<close>

definition str_data :: "byte list \<Rightarrow> byte list" where
  "str_data bytes = bytes @ replicate (BUFFSIZE - length bytes) 0"

text \<open>Without \<^verbatim>\<open>SYINX_USE_PTHREAD\<close>.\<close>

definition OnStatusDoAction :: "malloc \<Rightarrow> IChannel \<times> net \<Rightarrow> (IChannel \<times> net) option" where
  "OnStatusDoAction m = (\<lambda>(ch, w).
     (case m_Inputevbuffer ch of
        None \<Rightarrow> None
      | Some buf \<Rightarrow>
          if evbuffer_get_length buf = 0 then Some (ch, w)
          else
            (let (n, bytes, buf') = evbuffer_remove buf BUFFSIZE;
                 ch' = ch\<lparr>m_Inputevbuffer := Some buf'\<rparr>
             in case parse_loop m ch' (str_data bytes) n 0 w of
                  None \<Rightarrow> None | Some w' \<Rightarrow> Some (ch', w'))))"

text \<open>With it, in a thread of the pool.\<close>

definition OnStatusDoAcionInPthread :: "malloc \<Rightarrow> IChannel \<times> net \<Rightarrow> (IChannel \<times> net) option" where
  "OnStatusDoAcionInPthread m = (\<lambda>(ch, w).
     (case m_Inputevbuffer ch of
        None \<Rightarrow> None
      | Some buf0 \<Rightarrow>
          (let buf = evbuffer_lock buf0;
               (n, bytes, buf') = evbuffer_remove buf BUFFSIZE;
               ch' = ch\<lparr>m_Inputevbuffer := Some buf'\<rparr>
           in if n \<le> 0 then Some (ch', w)
              else case parse_loop m ch' (str_data bytes) n 0 w of
                     None \<Rightarrow> None
                   | Some w' \<Rightarrow> Some (ch'\<lparr>m_Inputevbuffer := Some (evbuffer_unlock buf')\<rparr>, w'))))"

section \<open>The end of a connection\<close>

definition Clear :: "malloc \<Rightarrow> IChannel \<times> net \<Rightarrow> (IChannel \<times> net) option" where
  "Clear m = (\<lambda>(ch, w).
     (case OnStatusDoAction m (ch\<lparr>m_Socket := 0\<rparr>, w) of
        None \<Rightarrow> None
      | Some (ch1, w1) \<Rightarrow>
          (let ch2 = ch1\<lparr>IChStatus := CLIENT_LOGOUT\<rparr>
           in case (case m_buffer ch2 of
                      None \<Rightarrow> Some (ch2, w1)
                    | Some b \<Rightarrow>
                        (case bufferevent_free b w1 of
                           None \<Rightarrow> None | Some w2 \<Rightarrow> Some (ch2\<lparr>m_buffer := None\<rparr>, w2))) of
                None \<Rightarrow> None
              | Some (ch3, w3) \<Rightarrow>
                  if \<not> m_pPlayer ch3 then None
                  else Some (ch3, w3\<lparr>player_log := player_log w3 @ [Player_logout (m_IChannelID ch3)]\<rparr>))))"

text \<open>\<^verbatim>\<open>m_Inputevbuffer\<close> still points at the freed buffer afterwards.\<close>

definition Channel_Close :: "IChannel \<times> net \<Rightarrow> IChannel \<times> net" where
  "Channel_Close = (\<lambda>(ch, w).
     (let (ch1, w1) = (if m_pPlayer ch
            then (ch\<lparr>m_pPlayer := False\<rparr>, w\<lparr>player_log := player_log w @ [Player_close (m_IChannelID ch)]\<rparr>)
            else (ch, w))
      in (ch1\<lparr>m_Inputevbuffer := None\<rparr>, w1)))"

end
