(* ===== verification/Resource.thy ===== *)
theory Resource
  imports Channel
begin

text \<open>
  The pool of channels (\<^verbatim>\<open>SyResAdapter.cpp\<close>) and the callbacks of the kernel that work on it
  (\<^verbatim>\<open>Syinx.cpp\<close>). Channels live in a heap by address; the two containers hold addresses, 0 being
  the null pointer.
\<close>

record resource =
  m_listConnectClient :: "nat list"
  m_queueILoop :: "nat list"
  m_IChannelNum :: nat
  chans :: "nat \<rightharpoonup> IChannel"
  next_chan :: nat
  nw :: net

definition new_SyinxAdapterResource :: "nat \<Rightarrow> net \<Rightarrow> resource" where
  "new_SyinxAdapterResource n w =
     \<lparr>m_listConnectClient = [], m_queueILoop = [], m_IChannelNum = n, chans = \<lambda>_. None,
      next_chan = 1, nw = w\<rparr>"

text \<open>The loop of \<^verbatim>\<open>Initialize\<close>, from \<open>index\<close> on.\<close>

function init_loop :: "bool \<Rightarrow> nat \<Rightarrow> resource \<Rightarrow> bool \<times> resource" where
  "init_loop threads index r =
     (if m_IChannelNum r < index then (True, r)
      else
        (let (ok, ch) = Channel_Initialize threads new_IChannel
         in if \<not> ok then (False, r)
            else
              (let a = next_chan r;
                   r' = r\<lparr>chans := (chans r)(a \<mapsto> SetIChannelID index ch), next_chan := a + 1,
                          m_queueILoop := m_queueILoop r @ [a]\<rparr>
               in init_loop threads (index + 1) r')))"
  by pat_completeness auto
termination
  by (relation "measure (\<lambda>(t, i, r). m_IChannelNum r + 1 - i)") (auto split: prod.splits)

declare init_loop.simps [simp del]

definition Resource_Initialize :: "bool \<Rightarrow> resource \<Rightarrow> bool \<times> resource" where
  "Resource_Initialize threads r =
     (let (ok, r') = init_loop threads 1 r
      in if \<not> ok then (False, r')
         else if length (m_queueILoop r') \<noteq> m_IChannelNum r' then (False, r')
         else (True, r'))"

text \<open>A method of the channel at address \<open>a\<close>.\<close>

definition with_channel :: "(IChannel \<times> net \<Rightarrow> (IChannel \<times> net) option) \<Rightarrow> nat \<Rightarrow> resource \<Rightarrow> resource option" where
  "with_channel f a r =
     (case chans r a of
        None \<Rightarrow> None
      | Some ch \<Rightarrow>
          (case f (ch, nw r) of
             None \<Rightarrow> None
           | Some (ch', w') \<Rightarrow> Some (r\<lparr>chans := (chans r)(a \<mapsto> ch'), nw := w'\<rparr>)))"

definition SocketFdAdd :: "nat \<Rightarrow> resource \<Rightarrow> bool \<times> resource" where
  "SocketFdAdd a r = (True, r\<lparr>m_listConnectClient := m_listConnectClient r @ [a]\<rparr>)"

definition SocketFdDel :: "malloc \<Rightarrow> nat \<Rightarrow> resource \<Rightarrow> (bool \<times> resource) option" where
  "SocketFdDel m a r =
     (case with_channel (Clear m) a (r\<lparr>m_listConnectClient := removeAll a (m_listConnectClient r)\<rparr>) of
        None \<Rightarrow> None
      | Some r' \<Rightarrow> Some (True, r'\<lparr>m_queueILoop := m_queueILoop r' @ [a]\<rparr>))"

text \<open>
  The three calls that set up the client's \<^verbatim>\<open>bufferevent\<close>: the kernel's callbacks with the channel
  as their argument, no read watermarks, reading and writing enabled.
\<close>

definition bev_setup :: "nat \<Rightarrow> nat \<Rightarrow> net \<Rightarrow> net option" where
  "bev_setup a b w =
     (case bevs w b of
        None \<Rightarrow> None
      | Some be \<Rightarrow> Some (w\<lparr>bevs := (bevs w)(b \<mapsto>
          be\<lparr>bev_ctx := Some a, wm_read_low := 0, wm_read_high := 0, bev_enabled := True\<rparr>)\<rparr>))"

definition AllocationIChannel :: "nat \<Rightarrow> int \<Rightarrow> resource \<Rightarrow> (bool \<times> resource) option" where
  "AllocationIChannel b fd r =
     (case m_queueILoop r of
        [] \<Rightarrow>
          (case bufferevent_free b (nw r) of None \<Rightarrow> None | Some w \<Rightarrow> Some (False, r\<lparr>nw := w\<rparr>))
      | a # q \<Rightarrow>
          if a = 0 then
            (case bufferevent_free b (nw r) of None \<Rightarrow> None | Some w \<Rightarrow> Some (False, r\<lparr>nw := w\<rparr>))
          else
            (case bev_setup a b (nw r) of
               None \<Rightarrow> None
             | Some w \<Rightarrow>
                 (case with_channel (OnClientConnect fd (Some b)) a (r\<lparr>m_queueILoop := q, nw := w\<rparr>) of
                    None \<Rightarrow> None
                  | Some r' \<Rightarrow> Some (SocketFdAdd a r'))))"

fun action_loop :: "malloc \<Rightarrow> nat list \<Rightarrow> resource \<Rightarrow> resource option" where
  "action_loop m [] r = Some r"
| "action_loop m (a # as) r =
     (case with_channel (OnStatusDoAction m) a r of None \<Rightarrow> None | Some r' \<Rightarrow> action_loop m as r')"

definition GameServerDoAction :: "malloc \<Rightarrow> resource \<Rightarrow> resource option" where
  "GameServerDoAction m r = action_loop m (m_listConnectClient r) r"

text \<open>The loop of \<^verbatim>\<open>Close\<close>: as many times as the queue was long at the start.\<close>

fun close_loop :: "malloc \<Rightarrow> nat \<Rightarrow> resource \<Rightarrow> resource option" where
  "close_loop m 0 r = Some r"
| "close_loop m (Suc k) r =
     (case m_queueILoop r of
        [] \<Rightarrow> None
      | a # q \<Rightarrow>
          (let r1 = r\<lparr>m_queueILoop := q\<rparr>
           in if a = 0 then close_loop m k r1
              else
                (case with_channel (Clear m) a r1 of
                   None \<Rightarrow> None
                 | Some r2 \<Rightarrow>
                     (case with_channel (\<lambda>x. Some (Channel_Close x)) a r2 of
                        None \<Rightarrow> None
                      | Some r3 \<Rightarrow> close_loop m k (r3\<lparr>chans := (chans r3)(a := None)\<rparr>)))))"

definition Resource_Close :: "malloc \<Rightarrow> resource \<Rightarrow> resource option" where
  "Resource_Close m r =
     (let r1 = r\<lparr>m_queueILoop := m_queueILoop r @ m_listConnectClient r\<rparr>
      in close_loop m (length (m_queueILoop r1)) r1)"

section \<open>The kernel's callbacks\<close>

definition SyinxKernel_Listen_CB :: "int \<Rightarrow> resource \<Rightarrow> resource option" where
  "SyinxKernel_Listen_CB fd r =
     (let (b, w) = bufferevent_socket_new fd (nw r)
      in case AllocationIChannel b fd (r\<lparr>nw := w\<rparr>) of None \<Rightarrow> None | Some (ok, r') \<Rightarrow> Some r')"

definition BEV_EVENT_READING :: int where "BEV_EVENT_READING = 0x01"
definition BEV_EVENT_WRITING :: int where "BEV_EVENT_WRITING = 0x02"
definition BEV_EVENT_EOF :: int where "BEV_EVENT_EOF = 0x10"
definition BEV_EVENT_ERROR :: int where "BEV_EVENT_ERROR = 0x20"
definition BEV_EVENT_TIMEOUT :: int where "BEV_EVENT_TIMEOUT = 0x40"
definition BEV_EVENT_CONNECTED :: int where "BEV_EVENT_CONNECTED = 0x80"

definition SyinxKernel_Event_Cb :: "malloc \<Rightarrow> int \<Rightarrow> nat \<Rightarrow> resource \<Rightarrow> resource option" where
  "SyinxKernel_Event_Cb m what a r =
     (if and what BEV_EVENT_CONNECTED \<noteq> 0 then Some r
      else if and what BEV_EVENT_ERROR \<noteq> 0 then
        (case SocketFdDel m a r of None \<Rightarrow> None | Some (ok, r') \<Rightarrow> Some r')
      else if and what BEV_EVENT_TIMEOUT \<noteq> 0 then Some r
      else if and what BEV_EVENT_EOF \<noteq> 0 then
        (case SocketFdDel m a r of None \<Rightarrow> None | Some (ok, r') \<Rightarrow> Some r')
      else Some r)"

end
