(* ===== verification/SConnects.thy ===== *)
theory SConnects
  imports Evbuffer
begin

text \<open>
  Connections the server makes to other servers (\<^verbatim>\<open>SConnect.cpp\<close>) and the kernel's list of the
  ones that are up. What the sockets answer is given by \<open>connect_env\<close>; connections live in a heap
  by address, with the pieces of libevent they own.
\<close>

datatype SCONNECT_LINK_STATUS = SC_NONE | SC_LOGOUT | SC_LOGIN

record SConnect =
  sc_input :: "evbuffer option"
  sc_buffer :: bool  \<comment> \<open>whether it has a bufferevent\<close>
  m_tag :: string
  m_Status :: SCONNECT_LINK_STATUS

record sconnects =
  m_AllConnect :: "nat list"
  sconns :: "nat \<rightharpoonup> SConnect"
  next_sconn :: nat
  live_bevs :: nat  \<comment> \<open>bufferevents made and not freed\<close>
  live_bufs :: nat  \<comment> \<open>buffers made and not freed\<close>

record connect_env =
  buf_ok :: bool
  has_base :: bool
  bev_made :: bool
  connect_rc :: int

definition no_connects :: sconnects where
  "no_connects = \<lparr>m_AllConnect = [], sconns = \<lambda>_. None, next_sconn = 1, live_bevs = 0, live_bufs = 0\<rparr>"

definition new_SConnect :: SConnect where
  "new_SConnect = \<lparr>sc_input = None, sc_buffer = False, m_tag = [], m_Status = SC_NONE\<rparr>"

text \<open>The object is deleted on failure; what it owns is not freed.\<close>

definition SConnect_Connect :: "connect_env \<Rightarrow> string \<Rightarrow> sconnects \<Rightarrow> nat option \<times> sconnects" where
  "SConnect_Connect e tag s =
     (let a = next_sconn s; s1 = s\<lparr>next_sconn := a + 1\<rparr>
      in if \<not> buf_ok e then (None, s1)
         else
           (let s2 = s1\<lparr>live_bufs := live_bufs s1 + 1\<rparr>
            in if \<not> has_base e then (None, s2)
               else if \<not> bev_made e then (None, s2)
               else
                 (let s3 = s2\<lparr>live_bevs := live_bevs s2 + 1\<rparr>
                  in if connect_rc e < 0 then (None, s3)
                     else (Some a, s3\<lparr>sconns := (sconns s3)(a \<mapsto>
                       new_SConnect\<lparr>sc_input := Some evbuffer_new, sc_buffer := True, m_tag := tag\<rparr>)\<rparr>))))"

definition ListenerConnect :: "nat \<Rightarrow> sconnects \<Rightarrow> sconnects" where
  "ListenerConnect a s = s\<lparr>m_AllConnect := m_AllConnect s @ [a]\<rparr>"

definition RemoveConnect :: "nat \<Rightarrow> sconnects \<Rightarrow> sconnects" where
  "RemoveConnect a s = s\<lparr>m_AllConnect := removeAll a (m_AllConnect s)\<rparr>"

definition Finish :: "nat \<Rightarrow> sconnects \<Rightarrow> sconnects option" where
  "Finish a s =
     (case sconns s a of
        None \<Rightarrow> None
      | Some c \<Rightarrow> Some (ListenerConnect a (s\<lparr>sconns := (sconns s)(a \<mapsto> c\<lparr>m_Status := SC_LOGIN\<rparr>)\<rparr>)))"

definition DisConnect :: "nat \<Rightarrow> sconnects \<Rightarrow> sconnects option" where
  "DisConnect a s =
     (case sconns s a of
        None \<Rightarrow> None
      | Some c \<Rightarrow> Some (RemoveConnect a (s\<lparr>sconns := (sconns s)(a \<mapsto> c\<lparr>m_Status := SC_LOGOUT\<rparr>)\<rparr>)))"

definition ConnectEvent :: "int \<Rightarrow> nat \<Rightarrow> sconnects \<Rightarrow> sconnects option" where
  "ConnectEvent what a s =
     (if a = 0 then Some s
      else if and what 0x80 \<noteq> 0 then Finish a s
      else if and what 0x20 \<noteq> 0 then DisConnect a s
      else if and what 0x40 \<noteq> 0 then Some s
      else if and what 0x10 \<noteq> 0 then DisConnect a s
      else Some s)"

definition ConnectInput :: "malloc \<Rightarrow> evbuffer \<Rightarrow> nat \<Rightarrow> sconnects \<Rightarrow> (evbuffer \<times> sconnects) option" where
  "ConnectInput m bev_in a s =
     (if a = 0 then Some (bev_in, s)
      else
        (case sconns s a of
           None \<Rightarrow> None
         | Some c \<Rightarrow>
             (case sc_input c of
                None \<Rightarrow> None
              | Some buf \<Rightarrow>
                  (let (r, buf', in') = evbuffer_add_buffer m buf bev_in
                   in Some (in', s\<lparr>sconns := (sconns s)(a \<mapsto> c\<lparr>sc_input := Some buf'\<rparr>)\<rparr>)))))"

text \<open>The object keeps its pointers after the frees.\<close>

definition SConnect_Close :: "nat \<Rightarrow> sconnects \<Rightarrow> sconnects option" where
  "SConnect_Close a s =
     (case sconns s a of
        None \<Rightarrow> None
      | Some c \<Rightarrow>
          Some (s\<lparr>live_bevs := live_bevs s - (if sc_buffer c then 1 else 0),
                 live_bufs := live_bufs s - (if sc_input c \<noteq> None then 1 else 0)\<rparr>))"

fun close_connects :: "nat list \<Rightarrow> sconnects \<Rightarrow> sconnects option" where
  "close_connects [] s = Some s"
| "close_connects (a # as) s =
     (case SConnect_Close a s of None \<Rightarrow> None | Some s' \<Rightarrow> close_connects as s')"

text \<open>The peer closes a connection: it leaves the list and its bufferevent is never freed.\<close>

lemma disconnect_leaks:
  assumes "Finish a s = Some s1" and "a \<notin> set (m_AllConnect s)" and "DisConnect a s1 = Some s2"
    and "close_connects (m_AllConnect s2) s2 = Some s3" and "m_AllConnect s = []"
  shows "m_AllConnect s3 = [] \<and> live_bevs s3 = live_bevs s \<and> live_bufs s3 = live_bufs s"
  using assms by (auto simp: Finish_def DisConnect_def ListenerConnect_def RemoveConnect_def
      split: option.splits)

end
