(* ===== verification/Kernel.thy ===== *)
theory Kernel
  imports Resource IniReader ThreadPool SConnects
begin

text \<open>
  The kernel of the server (\<^verbatim>\<open>Syinx.cpp\<close>, \<^verbatim>\<open>main.cpp\<close>): its configuration, start, loop and end,
  on Linux. What the system answers comes in as arguments: files, the results of the calls that
  make sockets and threads, and for each turn of the loop the events libevent handles, its result
  and the time.
\<close>

section \<open>State\<close>

datatype SYINX_LINK_STATUS = SYINX_LINK_CLOSE | SYINX_LINK_WORK | SYINX_LINK_WAIT

definition SERVER_MODE_TCP :: int where "SERVER_MODE_TCP = 1"
definition SERVER_MODE_HTTP :: int where "SERVER_MODE_HTTP = 2"
definition GAME_SERVER_FRAME_NUMS :: nat where "GAME_SERVER_FRAME_NUMS = 15"

record kernel =
  m_Port :: int
  m_ClientContentNum :: int
  m_PthPoolNum :: int
  m_TaskNum :: int
  m_TimerSec :: int
  mUsePthreadPool :: bool
  m_SvModle :: int
  mSyinxBase :: bool
  mSyinxListen :: bool
  mSyResource :: "resource option"
  mEvHttp :: bool
  mBoundSket :: bool
  m_nWorkStatus :: SYINX_LINK_STATUS
  m_endian :: int
  connects :: sconnects
  g_SyinxPthPool :: SyinxPthreadPool

definition new_SyinxKernel :: kernel where
  "new_SyinxKernel = \<lparr>m_Port = 0, m_ClientContentNum = 0, m_PthPoolNum = 0, m_TaskNum = 0,
     m_TimerSec = 0, mUsePthreadPool = False, m_SvModle = 0, mSyinxBase = False,
     mSyinxListen = False, mSyResource = None, mEvHttp = False, mBoundSket = False,
     m_nWorkStatus = SYINX_LINK_CLOSE, m_endian = 0, connects = no_connects,
     g_SyinxPthPool = new_SyinxPthreadPool\<rparr>"

section \<open>Configuration\<close>

definition Config :: "(string \<rightharpoonup> string) \<Rightarrow> kernel \<Rightarrow> (bool \<times> kernel) option" where
  "Config fs k =
     (case INIReader_file fs ''./Config.ini'' of
        None \<Rightarrow> None
      | Some c \<Rightarrow> Some
          (if ParseError c \<noteq> 0 then (False, k)
           else if GetString c ''ServerConfig'' ''LogConfigPath'' [] = [] then (False, k)
           else
             (let k = k\<lparr>m_Port := cast_short (GetInteger c ''ServerConfig'' ''Port'' (-1))\<rparr>
              in if m_Port k = -1 then (False, k)
                 else
                   (let k = k\<lparr>m_ClientContentNum := cast_int (GetInteger c ''ServerConfig'' ''ConnectNum'' (-1))\<rparr>
                    in if m_ClientContentNum k = -1 then (False, k)
                       else
                         (let k = k\<lparr>mUsePthreadPool := GetBoolean c ''PthreadSetting'' ''UsePthreadPool'' False,
                                    m_PthPoolNum := cast_int (GetInteger c ''PthreadSetting'' ''SetThreadNum'' (-1))\<rparr>
                          in if m_PthPoolNum k = -1 then (False, k)
                             else
                               (let k = k\<lparr>m_TaskNum := cast_int (GetInteger c ''PthreadSetting'' ''SetTaskNum'' (-1))\<rparr>
                                in if m_TaskNum k = -1 then (False, k)
                                   else
                                     (let temp = GetString c ''ServerConfig'' ''SetModel'' ''Failed''
                                      in if temp = ''Failed'' then (False, k)
                                         else if temp = ''TCP'' \<or> temp = ''Tcp'' \<or> temp = ''tcp''
                                         then (True, k\<lparr>m_SvModle := SERVER_MODE_TCP\<rparr>)
                                         else if temp = ''HTTP'' \<or> temp = ''Http'' \<or> temp = ''http''
                                         then (True, k\<lparr>m_SvModle := SERVER_MODE_HTTP\<rparr>)
                                         else (True, k))))))))"

section \<open>Start\<close>

record start_env =
  pool_rcs :: "int \<times> int \<times> int \<times> int list"  \<comment> \<open>mutex, condition, attribute, one per thread\<close>
  cfg_ok :: bool
  base_ok :: bool
  listen_ok :: bool
  http_ok :: bool
  bind_ok :: bool
  out_env :: connect_env

definition JudgeSystem :: int where "JudgeSystem = 1"

definition SyinxKernelInitAdapter :: "start_env \<Rightarrow> kernel \<Rightarrow> bool \<times> kernel" where
  "SyinxKernelInitAdapter e k =
     (let k = (if m_PthPoolNum k > 1 \<and> mUsePthreadPool k then
                 (let (rm, rc, ra, rts) = pool_rcs e;
                      (ok, p) = Pool_Initialize rm rc ra rts (nat (m_TaskNum k)) (g_SyinxPthPool k)
                  in k\<lparr>g_SyinxPthPool := p\<rparr>)
               else k);
          w = \<lparr>bevs = \<lambda>_. None, next_bev = 1, player_log = []\<rparr>;
          (ok, r) = Resource_Initialize False (new_SyinxAdapterResource (nat (m_ClientContentNum k)) w)
      in (ok, k\<lparr>mSyResource := Some r\<rparr>))"

definition OnStatusConnect :: "start_env \<Rightarrow> kernel \<Rightarrow> kernel" where
  "OnStatusConnect e k =
     k\<lparr>connects := snd (SConnect_Connect ((out_env e)\<lparr>has_base := mSyinxBase k\<rparr>) ''test'' (connects k))\<rparr>"

text \<open>The event base; \<^term>\<open>None\<close> when making it fails.\<close>

definition make_base :: "start_env \<Rightarrow> kernel \<Rightarrow> kernel option" where
  "make_base e k =
     (if mSyinxBase k then Some k
      else if cfg_ok e then (if base_ok e then Some (k\<lparr>mSyinxBase := True\<rparr>) else None)
      else Some k)"

definition TCPServer :: "start_env \<Rightarrow> kernel \<Rightarrow> bool \<times> kernel" where
  "TCPServer e k =
     (case make_base e k of
        None \<Rightarrow> (False, k)
      | Some k \<Rightarrow>
          if \<not> listen_ok e then (False, k\<lparr>mSyinxListen := False\<rparr>)
          else
            (let k = OnStatusConnect e (k\<lparr>mSyinxListen := True\<rparr>)
             in (True, k\<lparr>m_nWorkStatus := SYINX_LINK_WORK\<rparr>)))"

definition HTTPServer :: "start_env \<Rightarrow> kernel \<Rightarrow> bool \<times> kernel" where
  "HTTPServer e k =
     (case make_base e k of
        None \<Rightarrow> (False, k)
      | Some k \<Rightarrow>
          (let k = k\<lparr>mEvHttp := http_ok e\<rparr>
           in if \<not> mEvHttp k then (False, k)
              else
                (let k = k\<lparr>mBoundSket := bind_ok e\<rparr>
                 in if \<not> mBoundSket k then (False, k)
                    else (True, k\<lparr>m_nWorkStatus := SYINX_LINK_WORK\<rparr>))))"

definition Kernel_Initialize :: "start_env \<Rightarrow> kernel \<Rightarrow> bool \<times> kernel" where
  "Kernel_Initialize e k =
     (let k = k\<lparr>m_endian := JudgeSystem\<rparr>;
          (ok, k) = SyinxKernelInitAdapter e k
      in if \<not> ok then (False, k)
         else if and (m_SvModle k) SERVER_MODE_TCP \<noteq> 0 then TCPServer e k
         else if and (m_SvModle k) SERVER_MODE_HTTP \<noteq> 0 then HTTPServer e k
         else (False, k))"

section \<open>End\<close>

text \<open>\<^term>\<open>None\<close> is undefined behaviour. The process exits after it.\<close>

definition Kernel_Close :: "malloc \<Rightarrow> kernel \<Rightarrow> kernel option" where
  "Kernel_Close m k =
     (if m_nWorkStatus k = SYINX_LINK_CLOSE then Some k
      else
        (let k = k\<lparr>m_nWorkStatus := SYINX_LINK_CLOSE\<rparr>
         in case (case mSyResource k of
                    None \<Rightarrow> Some k
                  | Some r \<Rightarrow>
                      (case Resource_Close m r of
                         None \<Rightarrow> None | Some r' \<Rightarrow> Some (k\<lparr>mSyResource := None\<rparr>))) of
              None \<Rightarrow> None
            | Some k \<Rightarrow>
                (let k = k\<lparr>mSyinxBase := False, mEvHttp := False\<rparr>
                 in case close_connects (m_AllConnect (connects k)) (connects k) of
                      None \<Rightarrow> None
                    | Some s \<Rightarrow>
                        (case Pool_Close 0 0 False (g_SyinxPthPool k) of
                           Returned rc p holds \<Rightarrow> Some (k\<lparr>connects := s, g_SyinxPthPool := p\<rparr>)
                         | Self_deadlock \<Rightarrow> None
                         | Bad_pool \<Rightarrow> None))))"

definition SIGINT :: int where "SIGINT = 2"
definition SIGQUIT :: int where "SIGQUIT = 3"

definition SIG_HANDLE :: "malloc \<Rightarrow> int \<Rightarrow> kernel \<Rightarrow> kernel option" where
  "SIG_HANDLE m sig k = (if sig = SIGINT then Kernel_Close m k
     else if sig = SIGQUIT then Kernel_Close m k else Some k)"

text \<open>The destructor resets the status before it calls \<^verbatim>\<open>Close\<close>.\<close>

definition destroy_SyinxKernel :: "malloc \<Rightarrow> kernel \<Rightarrow> kernel option" where
  "destroy_SyinxKernel m k =
     Kernel_Close m (k\<lparr>m_Port := 0, m_ClientContentNum := 0, m_PthPoolNum := 0, m_TaskNum := 0,
       m_TimerSec := 0, m_endian := 0, mSyinxBase := False, mSyinxListen := False,
       mSyResource := None, mUsePthreadPool := False, m_nWorkStatus := SYINX_LINK_CLOSE,
       connects := (connects k)\<lparr>m_AllConnect := []\<rparr>, m_SvModle := 0, mBoundSket := False\<rparr>)"

section \<open>The loop\<close>

definition OnStatusDoAction_kernel :: "malloc \<Rightarrow> kernel \<Rightarrow> kernel option" where
  "OnStatusDoAction_kernel m k =
     (case mSyResource k of
        None \<Rightarrow> None
      | Some r \<Rightarrow>
          (case GameServerDoAction m r of None \<Rightarrow> None | Some r' \<Rightarrow> Some (k\<lparr>mSyResource := Some r'\<rparr>)))"

text \<open>The table \<^verbatim>\<open>m_SyinxStatusFunc\<close>; the entry for \<^verbatim>\<open>SYINX_LINK_WAIT\<close> is null.\<close>

definition status_func :: "malloc \<Rightarrow> kernel \<Rightarrow> kernel option" where
  "status_func m k =
     (case m_nWorkStatus k of
        SYINX_LINK_WORK \<Rightarrow> OnStatusDoAction_kernel m k
      | SYINX_LINK_CLOSE \<Rightarrow> Kernel_Close m k
      | SYINX_LINK_WAIT \<Rightarrow> None)"

text \<open>
  One turn of \<^verbatim>\<open>event_base_loop\<close> as the kernel sees it: what the callbacks did to it
  (\<^term>\<open>None\<close> for undefined behaviour in one of them), its result, and the time afterwards in
  milliseconds.
\<close>

record turn =
  callbacks_do :: "kernel \<Rightarrow> kernel option"
  loop_rc :: int
  now_ms :: nat

datatype run_end = Stopped kernel | Loop_error kernel | Turns_over kernel nat | Undefined

text \<open>\<open>next\<close> is \<^verbatim>\<open>NextMeslTime\<close>; the frames run are collected by their time.\<close>

fun TCPRun :: "malloc \<Rightarrow> turn list \<Rightarrow> nat \<Rightarrow> kernel \<Rightarrow> nat list \<times> run_end" where
  "TCPRun m ts nxt k =
     (if m_nWorkStatus k = SYINX_LINK_CLOSE then ([], Stopped k)
      else case ts of
        [] \<Rightarrow> ([], Turns_over k nxt)
      | t # ts \<Rightarrow>
          (case callbacks_do t k of
             None \<Rightarrow> ([], Undefined)
           | Some k \<Rightarrow>
               if loop_rc t = -1 then ([], Loop_error k)
               else if now_ms t < nxt then TCPRun m ts nxt k
               else
                 (case status_func m k of
                    None \<Rightarrow> ([now_ms t], Undefined)
                  | Some k \<Rightarrow>
                      (let (fs, e) = TCPRun m ts (now_ms t + 1000 div GAME_SERVER_FRAME_NUMS) k
                       in (now_ms t # fs, e)))))"

declare TCPRun.simps [simp del]

fun HTTPRun :: "turn list \<Rightarrow> kernel \<Rightarrow> run_end" where
  "HTTPRun ts k =
     (if m_nWorkStatus k = SYINX_LINK_CLOSE then Stopped k
      else case ts of
        [] \<Rightarrow> Turns_over k 0
      | t # ts \<Rightarrow>
          (case callbacks_do t k of
             None \<Rightarrow> Undefined
           | Some k \<Rightarrow> if loop_rc t = -1 then Loop_error k else HTTPRun ts k))"

declare HTTPRun.simps [simp del]

definition Run :: "malloc \<Rightarrow> turn list \<Rightarrow> kernel \<Rightarrow> run_end" where
  "Run m ts k =
     (if and (m_SvModle k) SERVER_MODE_TCP \<noteq> 0 then snd (TCPRun m ts 0 k)
      else if and (m_SvModle k) SERVER_MODE_HTTP \<noteq> 0 then HTTPRun ts k
      else Stopped k)"

text \<open>\<^verbatim>\<open>GetMselTime\<close>: unsigned arithmetic on the two fields of the time of day.\<close>

definition GetMselTime :: "int \<Rightarrow> int \<Rightarrow> int" where
  "GetMselTime tv_sec tv_usec = cast_uint64 (tv_sec * 1000 + tv_usec div 1000)"

end
