(* ===== verification/ByteQueue.thy ===== *)
theory ByteQueue
  imports EvbufferSpec
begin

text \<open>
  The interface the server's channels have to their buffers: a queue of bytes filled in blocks
  and emptied in chunks of a fixed size. What is proved here from its laws alone, that a session
  of puts and gets loses and reorders nothing, holds for the \<^verbatim>\<open>evbuffer\<close> and, in the theory of
  the channels, for a whole channel.
\<close>

datatype 'a qop = Put "'a list" | Get

fun q_run :: "('a list \<Rightarrow> 'q \<Rightarrow> 'q) \<Rightarrow> ('q \<Rightarrow> 'a list \<times> 'q) \<Rightarrow> 'a qop list \<Rightarrow> 'q \<Rightarrow> 'a list list \<times> 'q" where
  "q_run put get [] q = ([], q)"
| "q_run put get (Put xs # ops) q = q_run put get ops (put xs q)"
| "q_run put get (Get # ops) q =
     (let (out, q1) = get q; (outs, q2) = q_run put get ops q1 in (out # outs, q2))"

fun put_data :: "'a qop list \<Rightarrow> 'a list" where
  "put_data [] = []"
| "put_data (Put xs # ops) = xs @ put_data ops"
| "put_data (Get # ops) = put_data ops"

locale byte_queue =
  fixes cont :: "'q \<Rightarrow> 'a list" and good :: "'q \<Rightarrow> bool"
    and put :: "'a list \<Rightarrow> 'q \<Rightarrow> 'q" and get :: "'q \<Rightarrow> 'a list \<times> 'q"
    and load :: "'q \<Rightarrow> nat" and cap :: nat and chunk :: nat
  assumes put_law: "good q \<Longrightarrow> load q + length xs \<le> cap \<Longrightarrow>
      good (put xs q) \<and> cont (put xs q) = cont q @ xs \<and> load (put xs q) \<le> load q + length xs"
    and get_law: "good q \<Longrightarrow> load q \<le> cap \<Longrightarrow> get q = (out, q') \<Longrightarrow>
      good q' \<and> out = take chunk (cont q) \<and> cont q' = drop chunk (cont q) \<and> load q' \<le> load q"
begin

text \<open>Nothing is lost, duplicated or reordered.\<close>

lemma session:
  "good q \<Longrightarrow> load q + length (put_data ops) \<le> cap \<Longrightarrow> q_run put get ops q = (outs, q') \<Longrightarrow>
    good q' \<and> concat outs @ cont q' = cont q @ put_data ops"
proof (induction ops arbitrary: q outs rule: put_data.induct)
  case 1
  then show ?case by simp
next
  case (2 xs ops)
  then have p: "good (put xs q)" "cont (put xs q) = cont q @ xs"
    "load (put xs q) \<le> load q + length xs" using put_law by simp_all
  with "2.IH" [of "put xs q" outs] "2.prems" show ?case by simp
next
  case (3 ops)
  obtain out q1 where g: "get q = (out, q1)" by fastforce
  obtain os where os: "q_run put get ops q1 = (os, q')" "outs = out # os"
    using "3.prems"(3) g by (auto simp: Let_def split: prod.splits)
  have l: "good q1" "out = take chunk (cont q)" "cont q1 = drop chunk (cont q)" "load q1 \<le> load q"
    using get_law [OF "3.prems"(1) _ g] "3.prems"(2) by auto
  with "3.IH" [of q1 os] "3.prems" os have "good q' \<and> concat os @ cont q' = cont q1 @ put_data ops" by simp
  moreover from this have "concat outs @ cont q' = (take chunk (cont q) @ cont q1) @ put_data ops"
    using l(2) os(2) by simp
  moreover have "take chunk (cont q) @ cont q1 = cont q" using l(3) by simp
  ultimately show ?case by simp
qed

text \<open>Enough gets after the last put empty the queue, in order.\<close>

lemma drain:
  "good q \<Longrightarrow> load q \<le> cap \<Longrightarrow> length (cont q) \<le> k * chunk \<Longrightarrow>
    q_run put get (replicate k Get) q = (outs, q') \<Longrightarrow> concat outs = cont q \<and> cont q' = [] \<and> good q'"
proof (induction k arbitrary: q outs)
  case 0
  then show ?case by simp
next
  case (Suc k)
  obtain out q1 where g: "get q = (out, q1)" by fastforce
  obtain os where os: "q_run put get (replicate k Get) q1 = (os, q')" "outs = out # os"
    using Suc.prems(4) g by (auto simp: Let_def split: prod.splits)
  have l: "good q1" "out = take chunk (cont q)" "cont q1 = drop chunk (cont q)" "load q1 \<le> load q"
    using get_law [OF Suc.prems(1) _ g] Suc.prems(2) by auto
  with Suc.IH [of q1 os] Suc.prems os have "concat os = cont q1 \<and> cont q' = [] \<and> good q'" by simp
  then show ?case using l os append_take_drop_id [of chunk "cont q"] by simp
qed

end

section \<open>The evbuffer\<close>

definition EVQ_CAP :: nat where "EVQ_CAP = 2 ^ 31 - 1"

lemma EVQ_CAP_le:
  "n \<le> EVQ_CAP \<Longrightarrow> n \<le> EVBUFFER_CHAIN_MAX - EVBUFFER_CHAIN_SIZE \<and> n \<le> EV_SIZE_MAX \<and> n < 2 ^ 31"
  by (simp add: EVQ_CAP_def EVBUFFER_CHAIN_MAX_def EV_SSIZE_MAX_def EVBUFFER_CHAIN_SIZE_def EV_SIZE_MAX_def)

text \<open>What the clients of one buffer use: adding to it and removing from it never fail.\<close>

lemma evbuffer_add_live:
  assumes "mm_total m" and "evb_ok b" and "\<not> freeze_end b"
    and "length (content b) + length xs \<le> EVQ_CAP"
  shows "\<exists>b'. evbuffer_add m b xs = (0, b') \<and> evb_ok b' \<and> content b' = content b @ xs \<and>
    freeze_start b' = freeze_start b \<and> \<not> freeze_end b'"
proof -
  obtain r b' where r: "evbuffer_add m b xs = (r, b')" by fastforce
  have "fst (evbuffer_add m b xs) = 0"
    using assms EVQ_CAP_le [of "length xs"] EVQ_CAP_le [of "length (content b) + length xs"]
    by (intro evbuffer_add_total) auto
  with r have "r = 0" by simp
  have "mm_ok m" using assms(1) by (simp add: mm_total_def)
  from evbuffer_add_ok [OF this assms(2) r] \<open>r = 0\<close> r assms(3) show ?thesis by simp
qed

lemma evbuffer_remove_live:
  assumes "evb_live b" and "length (content b) \<le> EVQ_CAP"
  shows "\<exists>b'. evbuffer_remove b n = (int (length (take n (content b))), take n (content b), b') \<and>
    evb_live b' \<and> content b' = drop n (content b)"
proof -
  obtain r out b' where r: "evbuffer_remove b n = (r, out, b')" using prod_cases3 by blast
  have ok: "evb_ok b" using assms(1) by (simp add: evb_live_def)
  have "cast_int (int (min n (length (content b)))) = int (length (take n (content b)))"
    using assms(2) EVQ_CAP_le [of "length (content b)"] by (subst cast_int_id) auto
  with evbuffer_remove_ok [OF ok r] r assms(1) show ?thesis by (simp add: evb_live_def)
qed

lemma add_buffer_freeze:
  assumes "evbuffer_add_buffer m outb inb = (r, outb', inb')" and "evb_ok inb"
  shows "freeze_start outb' = freeze_start outb" "freeze_end outb' = freeze_end outb"
    "freeze_start inb' = freeze_start inb" "freeze_end inb' = freeze_end inb"
  using assms
  by (auto simp: evbuffer_add_buffer_def Let_def preserve_none COPY_CHAIN_def APPEND_CHAIN_def
      RESTORE_PINNED_def ZERO_CHAIN_def evbuffer_free_trailing_empty_chains_def split: if_splits)

lemma append_freeze [field_frames]:
  "freeze_start (append_to_chain i data b) = freeze_start b" "freeze_end (append_to_chain i data b) = freeze_end b"
  by (simp_all add: append_to_chain_def Let_def)

lemma add_new_chain_freeze [field_frames]:
  "freeze_start (snd (add_new_chain m i n data b)) = freeze_start b"
  "freeze_end (snd (add_new_chain m i n data b)) = freeze_end b"
  unfolding add_new_chain_def Let_def
  by (auto simp: field_frames split: option.split)

lemma add_to_last_freeze [field_frames]:
  "freeze_start (snd (add_to_last m data b)) = freeze_start b" "freeze_end (snd (add_to_last m data b)) = freeze_end b"
  unfolding add_to_last_def Let_def by (simp_all add: field_frames)

lemma add_freeze [field_frames]:
  "freeze_start (snd (evbuffer_add m b xs)) = freeze_start b" "freeze_end (snd (evbuffer_add m b xs)) = freeze_end b"
  by (simp_all add: evbuffer_add_def field_frames split: option.split)

lemma add_freeze':
  "evbuffer_add m b xs = (r, b') \<Longrightarrow> freeze_start b' = freeze_start b \<and> freeze_end b' = freeze_end b"
  using add_freeze [of m b xs] by simp

lemma move_chains_freeze [field_frames]:
  "freeze_start (move_chains b cs n) = freeze_start b" "freeze_end (move_chains b cs n) = freeze_end b"
  by (simp_all add: move_chains_def advance_last_with_data_def evbuffer_free_trailing_empty_chains_def Let_def)

lemma remove_buffer_freeze:
  assumes "evbuffer_remove_buffer m src dst n = (r, s, d)" and "evb_ok src"
  shows "freeze_start s = freeze_start src \<and> freeze_end s = freeze_end src \<and>
    freeze_start d = freeze_start dst \<and> freeze_end d = freeze_end dst"
proof (cases "n = 0 \<or> freeze_end dst \<or> freeze_start src \<or> total_len src \<le> n")
  case True
  obtain q d1 s1 where a: "evbuffer_add_buffer m dst src = (q, d1, s1)" using prod_cases3 by blast
  show ?thesis
    using assms(1) True add_buffer_freeze [OF a assms(2)]
    unfolding evbuffer_remove_buffer_def Let_def a prod.case by (auto split: if_split_asm)
next
  case False
  obtain k nread l where w: "whole_chains (chains src) n (lwd src) = (k, nread, l)" using prod_cases3 by blast
  define left where "left = n - nread"
  obtain r' d2 where a: "evbuffer_add m (if k = 0 then dst else move_chains dst (take k (chains src)) nread)
      (take left (chain_data (chains src ! k))) = (r', d2)" by fastforce
  have "freeze_start d2 = freeze_start dst" "freeze_end d2 = freeze_end dst"
    using add_freeze' [OF a] by (simp_all add: field_frames split: if_splits)
  then show ?thesis
    using assms(1) False a unfolding evbuffer_remove_buffer_def Let_def w prod.case left_def [symmetric]
    by (auto split: if_split_asm)
qed

text \<open>So does moving the first bytes of one to another.\<close>

lemma evbuffer_remove_buffer_live:
  assumes mm: "mm_total m" and live: "evb_live src" "evb_live dst"
    and big: "length (content dst) + length (content src) \<le> EVQ_CAP"
  shows "\<exists>src' dst'. evbuffer_remove_buffer m src dst n = (int (min n (length (content src))), src', dst') \<and>
    evb_live src' \<and> evb_live dst' \<and> content src' = drop n (content src) \<and>
    content dst' = content dst @ take n (content src)"
proof -
  obtain r s d where r: "evbuffer_remove_buffer m src dst n = (r, s, d)" using prod_cases3 by blast
  have ok: "evb_ok src" "evb_ok dst" "\<not> freeze_start src" "\<not> freeze_end dst" using live by (simp_all add: evb_live_def)
  note b = EVQ_CAP_le [OF big]
  have "cast_int (int (min n (length (content src)))) = int (min n (length (content src)))"
    using b by (intro cast_int_id) auto
  moreover note remove_buffer_freeze [OF r ok(1)]
  ultimately show ?thesis
    using r live evbuffer_remove_buffer_ok [OF mm ok _ r] b by (auto simp: evb_live_def)
qed

interpretation evq: byte_queue content "\<lambda>b. mm_total m \<and> evb_live b" "\<lambda>xs b. snd (evbuffer_add m b xs)"
  "\<lambda>b. snd (evbuffer_remove b n)" "\<lambda>b. length (content b)" EVQ_CAP n
proof unfold_locales
  fix q :: evbuffer and xs :: "byte list"
  assume "mm_total m \<and> evb_live q" "length (content q) + length xs \<le> EVQ_CAP"
  then show "(mm_total m \<and> evb_live (snd (evbuffer_add m q xs))) \<and>
      content (snd (evbuffer_add m q xs)) = content q @ xs \<and>
      length (content (snd (evbuffer_add m q xs))) \<le> length (content q) + length xs"
    using evbuffer_add_live [of m q xs] by (auto simp: evb_live_def)
next
  fix q q' :: evbuffer and out :: "byte list"
  assume "mm_total m \<and> evb_live q" "length (content q) \<le> EVQ_CAP" "snd (evbuffer_remove q n) = (out, q')"
  then show "(mm_total m \<and> evb_live q') \<and> out = take n (content q) \<and> content q' = drop n (content q) \<and>
      length (content q') \<le> length (content q)"
    using evbuffer_remove_live [of q n] by auto
qed

end
