(* ===== verification/ChannelSpec.thy ===== *)
theory ChannelSpec
  imports Channel ByteQueue
begin

text \<open>
  What a channel does for its client: with the built-in parse function it sends back what it
  receives, in order, 4096 bytes a frame. A channel is a byte queue, so the session laws of the
  interface are laws of the server. And what goes wrong at the end of a connection.
\<close>

section \<open>A connected channel\<close>

definition chan_in :: "IChannel \<times> net \<Rightarrow> byte list" where
  "chan_in q = (case m_Inputevbuffer (fst q) of None \<Rightarrow> [] | Some b \<Rightarrow> content b)"

definition bev_of :: "IChannel \<times> net \<Rightarrow> bufferevent option" where
  "bev_of q = (case m_buffer (fst q) of None \<Rightarrow> None | Some b \<Rightarrow> bevs (snd q) b)"

definition chan_out :: "IChannel \<times> net \<Rightarrow> byte list" where
  "chan_out q = (case bev_of q of None \<Rightarrow> [] | Some be \<Rightarrow> content (bev_output be))"

definition bev_ok :: "bufferevent \<Rightarrow> bool" where
  "bev_ok be \<longleftrightarrow> evb_ok (bev_input be) \<and> freeze_end (bev_input be) \<and> \<not> freeze_start (bev_input be) \<and>
     evb_ok (bev_output be) \<and> freeze_start (bev_output be) \<and> \<not> freeze_end (bev_output be)"

definition chan_ready :: "IChannel \<Rightarrow> bool" where
  "chan_ready ch \<longleftrightarrow> ParseFunc ch = Some RecvValuesFromString \<and> m_pPlayer ch \<and>
     (case m_Inputevbuffer ch of None \<Rightarrow> False | Some buf \<Rightarrow> evb_live buf)"

definition chan_live :: "IChannel \<times> net \<Rightarrow> bool" where
  "chan_live q \<longleftrightarrow> chan_ready (fst q) \<and> IChStatus (fst q) = CLIENT_LOGIN \<and>
     (\<exists>be. bev_of q = Some be \<and> bev_ok be \<and> content (bev_input be) = [])"

lemma Channel_Initialize_ready:
  "Channel_Initialize threads new_IChannel = (True, ch) \<Longrightarrow> chan_ready ch"
  by (auto simp: Channel_Initialize_def SetupFrameInputFunc_def BindParse_def Let_def
      GetWhetherBindParseFunc_def new_IChannel_def chan_ready_def evbuffer_enable_locking_def
      evb_live_def evb_ok_def evbuffer_new_def content_def lwd_ok_def)

lemma bufferevent_socket_new_ok:
  "bev_ok (the (bevs (snd (bufferevent_socket_new fd w)) (next_bev w)))"
  by (simp add: bufferevent_socket_new_def bev_ok_def evbuffer_freeze_def evb_ok_def evbuffer_new_def
      content_def lwd_ok_def)

section \<open>One packet\<close>

lemma bufferevent_write_ok:
  assumes "mm_total m" and "bevs w b = Some be" and "bev_ok be"
    and "length (content (bev_output be)) + length data \<le> EVQ_CAP"
  shows "\<exists>out. bufferevent_write m b data w =
      Some (0, w\<lparr>bevs := (bevs w)(b \<mapsto> be\<lparr>bev_output := out\<rparr>)\<rparr>) \<and>
    bev_ok (be\<lparr>bev_output := out\<rparr>) \<and> content out = content (bev_output be) @ data"
  using evbuffer_add_live [OF assms(1) _ _ assms(4)] assms(2,3)
  by (auto simp: bufferevent_write_def bev_ok_def)

lemma length_str_data: "length bytes \<le> BUFFSIZE \<Longrightarrow> length (str_data bytes) = BUFFSIZE"
  by (simp add: str_data_def)

lemma parse_packet:
  assumes "ParseFunc ch = Some RecvValuesFromString" and "length bytes \<le> BUFFSIZE"
    and "IChStatus ch = CLIENT_LOGIN" and "m_buffer ch = Some b"
  shows "parse_loop m ch (str_data bytes) (int (length bytes)) 0 w =
    (case bufferevent_write m b bytes w of None \<Rightarrow> None | Some (r, w') \<Rightarrow> Some w')"
  using assms length_str_data [OF assms(2)]
  by (simp add: parse_loop.simps RecvValuesFromString_def RecvClientPack_def SendDataToClient_def
      str_data_def split: option.split prod.split)

section \<open>The channel as a byte queue\<close>

definition chan_put :: "malloc \<Rightarrow> byte list \<Rightarrow> IChannel \<times> net \<Rightarrow> IChannel \<times> net" where
  "chan_put m bs q =
     (case m_buffer (fst q) of
        None \<Rightarrow> q
      | Some b \<Rightarrow>
          (case SyinxKernel_Recv_Cb m b (fst q, bev_arrive m b bs (snd q)) of
             None \<Rightarrow> q | Some q' \<Rightarrow> q'))"

text \<open>A frame, and the bytes it adds to the client's output.\<close>

definition chan_tick :: "malloc \<Rightarrow> IChannel \<times> net \<Rightarrow> byte list \<times> IChannel \<times> net" where
  "chan_tick m q =
     (case OnStatusDoAction m q of
        None \<Rightarrow> ([], q)
      | Some q' \<Rightarrow> (drop (length (chan_out q)) (chan_out q'), q'))"

definition chan_load :: "IChannel \<times> net \<Rightarrow> nat" where
  "chan_load q = length (chan_out q) + length (chan_in q)"

text \<open>What an operation on a channel with bufferevent \<open>b\<close> leaves alone.\<close>

definition chan_frame :: "nat \<Rightarrow> IChannel \<times> net \<Rightarrow> IChannel \<times> net \<Rightarrow> bool" where
  "chan_frame b q q' \<longleftrightarrow> m_IChannelID (fst q') = m_IChannelID (fst q) \<and>
     next_bev (snd q') = next_bev (snd q) \<and> (\<forall>b'. b' \<noteq> b \<longrightarrow> bevs (snd q') b' = bevs (snd q) b') \<and>
     (case bevs (snd q') b of None \<Rightarrow> True
      | Some be \<Rightarrow> Some (bev_ctx be) = map_option bev_ctx (bevs (snd q) b))"

lemma chan_liveE:
  assumes "chan_live q"
  obtains ch w buf b be where "q = (ch, w)" "m_Inputevbuffer ch = Some buf" "evb_live buf"
    "m_buffer ch = Some b" "bevs w b = Some be" "bev_ok be" "content (bev_input be) = []"
    "ParseFunc ch = Some RecvValuesFromString" "m_pPlayer ch" "IChStatus ch = CLIENT_LOGIN"
    "chan_in q = content buf" "chan_out q = content (bev_output be)"
  using assms
  by (cases q) (auto simp: chan_live_def chan_ready_def bev_of_def chan_in_def chan_out_def
      split: option.splits)

lemma Recv_Cb_ok:
  assumes live: "chan_live q" and mm: "mm_total m" and b: "m_buffer (fst q) = Some b"
    and cap: "chan_load q + length xs \<le> EVQ_CAP"
  shows "\<exists>q'. SyinxKernel_Recv_Cb m b (fst q, bev_arrive m b xs (snd q)) = Some q' \<and> chan_live q' \<and>
    chan_in q' = chan_in q @ xs \<and> chan_out q' = chan_out q \<and> m_buffer (fst q') = Some b \<and>
    chan_frame b q q'"
  using live
proof (rule chan_liveE)
  fix ch w buf b' be
  assume q: "q = (ch, w)" and buf: "m_Inputevbuffer ch = Some buf" "evb_live buf"
    and "m_buffer ch = Some b'" "bevs w b' = Some be" and be: "bev_ok be" "content (bev_input be) = []"
    and ch: "ParseFunc ch = Some RecvValuesFromString" "m_pPlayer ch" "IChStatus ch = CLIENT_LOGIN"
    and c: "chan_in q = content buf" "chan_out q = content (bev_output be)"
  with b have mb: "m_buffer ch = Some b" "bevs w b = Some be" by simp_all
  let ?in0 = "evbuffer_unfreeze (bev_input be) False"
  have in0: "evb_ok ?in0" "content ?in0 = []" "\<not> freeze_end ?in0" "\<not> freeze_start ?in0"
    using be by (simp_all add: bev_ok_def evbuffer_unfreeze_def evb_ok_def content_def)
  obtain i where i: "evbuffer_add m ?in0 xs = (0, i)" "evb_ok i" "content i = xs"
      "\<not> freeze_start i"
    using evbuffer_add_live [OF mm in0(1,3), of xs] in0(2,4) cap by (auto simp: chan_load_def)
  let ?i = "evbuffer_freeze i False"
  have i': "evb_ok ?i" "content ?i = xs" "freeze_end ?i" "\<not> freeze_start ?i"
    using i by (simp_all add: evbuffer_freeze_def evb_ok_def content_def)
  obtain r o1 i1 where mv: "evbuffer_add_buffer m buf ?i = (r, o1, i1)" using prod_cases3 by blast
  have ob: "evb_ok buf" "\<not> freeze_start buf" "\<not> freeze_end buf" using buf(2) by (simp_all add: evb_live_def)
  note ab = evbuffer_add_buffer_ok [OF ob(1) i'(1) mv]
  note fr = add_buffer_freeze [OF mv i'(1)]
  have res: "content o1 = content buf @ xs" "content i1 = []" using ab(3) ob i' by simp_all
  let ?w = "w\<lparr>bevs := (bevs w)(b \<mapsto> be\<lparr>bev_input := i1\<rparr>)\<rparr>"
  have "SyinxKernel_Recv_Cb m b (fst q, bev_arrive m b xs (snd q)) =
      Some (ch\<lparr>m_Inputevbuffer := Some o1\<rparr>, ?w)"
    by (simp add: SyinxKernel_Recv_Cb_def bev_arrive_def bufferevent_read_buffer_def q buf(1) mb i(1) mv)
  moreover have "chan_live (ch\<lparr>m_Inputevbuffer := Some o1\<rparr>, ?w)"
    using ch mb be ab(1,2) fr ob i' res
    by (simp add: chan_live_def chan_ready_def bev_of_def evb_live_def bev_ok_def)
  ultimately show ?thesis
    using res c mb q by (simp add: chan_in_def chan_out_def bev_of_def chan_frame_def)
qed

lemma OnStatusDoAction_ok:
  assumes live: "chan_live q" and mm: "mm_total m" and cap: "chan_load q \<le> EVQ_CAP"
  shows "\<exists>q'. OnStatusDoAction m q = Some q' \<and> chan_live q' \<and>
    chan_in q' = drop BUFFSIZE (chan_in q) \<and> chan_out q' = chan_out q @ take BUFFSIZE (chan_in q) \<and>
    m_buffer (fst q') = m_buffer (fst q) \<and> chan_frame (the (m_buffer (fst q))) q q'"
  using live
proof (rule chan_liveE)
  fix ch w buf b be
  assume q: "q = (ch, w)" and buf: "m_Inputevbuffer ch = Some buf" "evb_live buf"
    and mb: "m_buffer ch = Some b" "bevs w b = Some be" and be: "bev_ok be" "content (bev_input be) = []"
    and ch: "ParseFunc ch = Some RecvValuesFromString" "m_pPlayer ch" "IChStatus ch = CLIENT_LOGIN"
    and c: "chan_in q = content buf" "chan_out q = content (bev_output be)"
  have len: "evbuffer_get_length buf = length (content buf)"
    using buf(2) by (simp add: evbuffer_get_length_def evb_live_def evb_ok_def)
  show ?thesis
  proof (cases "content buf = []")
    case True
    with q buf len c live mb show ?thesis by (simp add: OnStatusDoAction_def chan_frame_def)
  next
    case False
    let ?bytes = "take BUFFSIZE (content buf)"
    obtain buf' where r: "evbuffer_remove buf BUFFSIZE = (int (length ?bytes), ?bytes, buf')"
      "evb_live buf'" "content buf' = drop BUFFSIZE (content buf)"
      using evbuffer_remove_live [OF buf(2), of BUFFSIZE] cap c by (auto simp: chan_load_def)
    let ?ch = "ch\<lparr>m_Inputevbuffer := Some buf'\<rparr>"
    obtain out where o: "bufferevent_write m b ?bytes w =
        Some (0, w\<lparr>bevs := (bevs w)(b \<mapsto> be\<lparr>bev_output := out\<rparr>)\<rparr>)"
      "bev_ok (be\<lparr>bev_output := out\<rparr>)" "content out = content (bev_output be) @ ?bytes"
    proof -
      have "length (content (bev_output be)) + length ?bytes \<le> EVQ_CAP"
        using cap c by (simp add: chan_load_def)
      from bufferevent_write_ok [OF mm mb(2) be(1) this] show thesis using that by blast
    qed
    have "parse_loop m ?ch (str_data ?bytes) (int (length ?bytes)) 0 w =
        Some (w\<lparr>bevs := (bevs w)(b \<mapsto> be\<lparr>bev_output := out\<rparr>)\<rparr>)"
      using parse_packet [of ?ch ?bytes b m w] ch mb o(1) by simp
    then have "OnStatusDoAction m q = Some (?ch, w\<lparr>bevs := (bevs w)(b \<mapsto> be\<lparr>bev_output := out\<rparr>)\<rparr>)"
      using False len r(1) buf(1) by (simp add: OnStatusDoAction_def q)
    moreover have "chan_live (?ch, w\<lparr>bevs := (bevs w)(b \<mapsto> be\<lparr>bev_output := out\<rparr>)\<rparr>)"
      using r(2) o(2) ch mb be(2) by (simp add: chan_live_def chan_ready_def bev_of_def)
    ultimately show ?thesis
      using c r(3) o(3) mb q by (simp add: chan_in_def chan_out_def bev_of_def chan_frame_def)
  qed
qed

interpretation chanq: byte_queue chan_in "\<lambda>q. mm_total m \<and> chan_live q" "chan_put m" "chan_tick m"
  chan_load EVQ_CAP BUFFSIZE
proof unfold_locales
  fix q :: "IChannel \<times> net" and xs :: "byte list"
  assume good: "mm_total m \<and> chan_live q" and cap: "chan_load q + length xs \<le> EVQ_CAP"
  obtain b where b: "m_buffer (fst q) = Some b"
    using good by (auto simp: chan_live_def bev_of_def split: option.splits)
  obtain q' where q': "SyinxKernel_Recv_Cb m b (fst q, bev_arrive m b xs (snd q)) = Some q'"
    "chan_live q'" "chan_in q' = chan_in q @ xs" "chan_out q' = chan_out q"
    using Recv_Cb_ok [OF _ _ b cap] good by blast
  then have "chan_put m xs q = q'" by (simp add: chan_put_def b)
  with good q' show "(mm_total m \<and> chan_live (chan_put m xs q)) \<and> chan_in (chan_put m xs q) = chan_in q @ xs \<and>
      chan_load (chan_put m xs q) \<le> chan_load q + length xs"
    by (simp add: chan_load_def)
next
  fix q q' :: "IChannel \<times> net" and out :: "byte list"
  assume "mm_total m \<and> chan_live q" "chan_load q \<le> EVQ_CAP" "chan_tick m q = (out, q')"
  with OnStatusDoAction_ok [of q m]
  show "(mm_total m \<and> chan_live q') \<and> out = take BUFFSIZE (chan_in q) \<and>
      chan_in q' = drop BUFFSIZE (chan_in q) \<and> chan_load q' \<le> chan_load q"
    by (auto simp: chan_tick_def chan_load_def)
qed

section \<open>Echo\<close>

lemma chan_put_out:
  assumes "mm_total m" and "chan_live q" and "chan_load q + length xs \<le> EVQ_CAP"
  shows "chan_out (chan_put m xs q) = chan_out q"
proof -
  obtain b where b: "m_buffer (fst q) = Some b"
    using assms(2) by (auto simp: chan_live_def bev_of_def split: option.splits)
  with Recv_Cb_ok [OF assms(2,1) b assms(3)] show ?thesis by (auto simp: chan_put_def)
qed

lemma chan_tick_out:
  assumes "mm_total m" and "chan_live q" and "chan_load q \<le> EVQ_CAP" and "chan_tick m q = (out, q')"
  shows "chan_out q' = chan_out q @ out" "chan_load q' = chan_load q"
  using OnStatusDoAction_ok [OF assms(2,1,3)] assms(4) by (auto simp: chan_tick_def chan_load_def)

lemma session_out:
  assumes "mm_total m"
  shows "chan_live q \<Longrightarrow> chan_load q + length (put_data ops) \<le> EVQ_CAP \<Longrightarrow>
    q_run (chan_put m) (chan_tick m) ops q = (outs, q') \<Longrightarrow> chan_out q' = chan_out q @ concat outs"
proof (induction ops arbitrary: q outs rule: put_data.induct)
  case 1
  then show ?case by simp
next
  case (2 xs ops)
  from "2.prems" have l: "chan_load q + length xs \<le> EVQ_CAP" by simp
  with "2.IH" [of "chan_put m xs q" outs] "2.prems" assms chanq.put_law [of m q xs]
    chan_put_out [of m q xs]
  show ?case by simp
next
  case (3 ops)
  obtain out q1 where g: "chan_tick m q = (out, q1)" by (cases "chan_tick m q") blast
  obtain os where os: "q_run (chan_put m) (chan_tick m) ops q1 = (os, q')" "outs = out # os"
    using "3.prems"(3) g by (auto simp: Let_def split: prod.splits)
  have cap: "chan_load q \<le> EVQ_CAP" using "3.prems"(2) by simp
  with "3.IH" [of q1 os] "3.prems" os chanq.get_law [OF _ cap g] assms
    chan_tick_out [OF assms "3.prems"(1) cap g]
  show ?case by simp
qed

text \<open>
  C4: Echo. On a connected channel with the built-in parse function, in any interleaving of
  blocks arriving from the client and frames of the server, the output for the client followed by
  the input not yet handled is at every moment what it was before followed by everything that
  arrived: nothing is lost, repeated or reordered. After the last block, one frame for every 4096
  bytes waiting empties the input.
\<close>

theorem channel_echo:
  assumes "mm_total m" and "chan_live q" and "chan_load q + length (put_data ops) \<le> EVQ_CAP"
    and "length (chan_in q) + length (put_data ops) \<le> k * BUFFSIZE"
    and "q_run (chan_put m) (chan_tick m) ops q = (outs, q1)"
    and "q_run (chan_put m) (chan_tick m) (replicate k Get) q1 = (outs2, q2)"
  shows "chan_out q1 @ chan_in q1 = chan_out q @ chan_in q @ put_data ops \<and>
    chan_out q2 = chan_out q @ chan_in q @ put_data ops \<and> chan_in q2 = [] \<and> chan_live q2"
proof -
  have s: "chan_live q1" "concat outs @ chan_in q1 = chan_in q @ put_data ops"
    using chanq.session [of m q ops outs q1] assms by simp_all
  have o: "chan_out q1 = chan_out q @ concat outs"
    by (rule session_out [OF assms(1,2,3,5)])
  with s have eq: "chan_out q1 @ chan_in q1 = chan_out q @ chan_in q @ put_data ops" by simp
  have load: "chan_load q1 \<le> EVQ_CAP"
    using arg_cong [OF eq, of length] assms(3) by (simp add: chan_load_def)
  have "length (chan_in q1) \<le> k * BUFFSIZE"
    using arg_cong [OF s(2), of length] assms(4) by simp
  with chanq.drain [of m q1 k outs2 q2] s(1) assms(1,6) load
  have d: "concat outs2 = chan_in q1" "chan_in q2 = []" "chan_live q2" by simp_all
  have "put_data (replicate k Get :: byte qop list) = []" for k by (induction k) simp_all
  with session_out [OF assms(1) s(1), of "replicate k Get" outs2 q2] assms(6) load d(1)
  have "chan_out q2 = chan_out q1 @ chan_in q1" by simp
  with eq d show ?thesis by simp
qed

text \<open>A channel of one client, with \<open>bs\<close> waiting in its input buffer.\<close>

definition demo_net :: net where
  "demo_net = snd (bufferevent_socket_new 7 \<lparr>bevs = \<lambda>_. None, next_bev = 1, player_log = []\<rparr>)"

definition demo_chan :: "byte list \<Rightarrow> IChannel \<times> net" where
  "demo_chan bs =
     (\<lparr>m_Socket = 7, m_IChannelID = 1, m_buffer = Some 1, m_Inputevbuffer = Some (one_chain 0 bs),
       m_pPlayer = True, ParseFunc = Some RecvValuesFromString, DoNotBindParse = True,
       IChStatus = CLIENT_LOGIN\<rparr>, demo_net)"

lemma demo_chan_ok:
  assumes "length bs \<le> 10000"
  shows "chan_live (demo_chan bs)" "chan_in (demo_chan bs) = bs" "chan_out (demo_chan bs) = []"
proof -
  have "bevs demo_net 1 = Some \<lparr>bev_input = evbuffer_freeze evbuffer_new False,
      bev_output = evbuffer_freeze evbuffer_new True, bev_fd = 7, bev_ctx = None,
      wm_read_low = 0, wm_read_high = 0, bev_enabled = False\<rparr>"
    by (simp add: demo_net_def bufferevent_socket_new_def)
  with assms show "chan_live (demo_chan bs)" "chan_in (demo_chan bs) = bs" "chan_out (demo_chan bs) = []"
    using bufferevent_socket_new_ok [of 7 "\<lparr>bevs = \<lambda>_. None, next_bev = 1, player_log = []\<rparr>"]
    by (simp_all add: chan_live_def chan_ready_def demo_chan_def bev_of_def chan_in_def chan_out_def
        evb_live_def one_chain_ok demo_net_def bufferevent_socket_new_def)
       (simp_all add: evbuffer_freeze_def content_def evbuffer_new_def)
qed

definition zero_memory :: malloc where
  "zero_memory n = Some (replicate n 0)"

lemma zero_memory_total: "mm_total zero_memory"
  by (simp add: mm_total_def mm_ok_def zero_memory_def)

theorem channel_echo_witness:
  "\<exists>outs q1 outs2 q2.
    q_run (chan_put zero_memory) (chan_tick zero_memory) [Put [1, 2], Get, Put [3]] (demo_chan [9]) =
      (outs, q1) \<and>
    q_run (chan_put zero_memory) (chan_tick zero_memory) [Get] q1 = (outs2, q2) \<and>
    chan_out q1 @ chan_in q1 = [9, 1, 2, 3] \<and> chan_out q2 = [9, 1, 2, 3] \<and> chan_in q2 = []"
proof -
  let ?run = "q_run (chan_put zero_memory) (chan_tick zero_memory)"
  obtain outs q1 where q1: "?run [Put [1, 2], Get, Put [3]] (demo_chan [9]) = (outs, q1)"
    by (cases "?run [Put [1, 2], Get, Put [3]] (demo_chan [9])") blast
  obtain outs2 q2 where q2: "?run (replicate 1 Get) q1 = (outs2, q2)"
    by (cases "?run (replicate 1 Get) q1") blast
  have "chan_load (demo_chan [9]) = 1" by (simp add: chan_load_def demo_chan_ok)
  with channel_echo [OF zero_memory_total demo_chan_ok(1) _ _ q1 q2]
  have "chan_out q1 @ chan_in q1 = [9, 1, 2, 3] \<and> chan_out q2 = [9, 1, 2, 3] \<and> chan_in q2 = []"
    by (simp add: demo_chan_ok EVQ_CAP_def BUFFSIZE_def)
  moreover have "?run [Get] q1 = (outs2, q2)" using q2 by (simp del: q_run.simps)
  ultimately show ?thesis using q1 by blast
qed

section \<open>The end of a connection\<close>

lemma Clear_ok:
  assumes live: "chan_live q" and mm: "mm_total m" and cap: "chan_load q \<le> EVQ_CAP"
    and b: "m_buffer (fst q) = Some b"
  shows "\<exists>ch w. Clear m q = Some (ch, w) \<and> chan_ready ch \<and> IChStatus ch = CLIENT_LOGOUT \<and>
    m_buffer ch = None \<and> m_Socket ch = 0 \<and> bevs w b = None \<and>
    chan_in (ch, w) = drop BUFFSIZE (chan_in q) \<and> chan_frame b q (ch, w)"
proof -
  obtain ch w where q: "q = (ch, w)" by (cases q)
  let ?q = "(ch\<lparr>m_Socket := 0\<rparr>, w)"
  have l: "chan_live ?q" "chan_in ?q = chan_in q" "chan_out ?q = chan_out q"
    using live b by (simp_all add: q chan_live_def chan_ready_def bev_of_def chan_in_def chan_out_def)
  then have "chan_load ?q \<le> EVQ_CAP" using cap by (simp add: chan_load_def)
  from OnStatusDoAction_ok [OF l(1) mm this] obtain ch1 w1 where
    1: "OnStatusDoAction m ?q = Some (ch1, w1)" "chan_live (ch1, w1)"
      "chan_in (ch1, w1) = drop BUFFSIZE (chan_in q)" "m_buffer ch1 = Some b"
      "chan_frame b ?q (ch1, w1)"
    using l b by (auto simp: q)
  have "m_Socket ch1 = 0"
    using 1(1) by (auto simp: OnStatusDoAction_def Let_def split: option.splits if_splits prod.splits)
  moreover obtain be where "bevs w1 b = Some be" "chan_ready ch1"
    using 1(2,4) by (auto simp: chan_live_def bev_of_def)
  ultimately show ?thesis
    using 1 by (simp add: q Clear_def bufferevent_free_def chan_ready_def chan_in_def chan_frame_def)
qed

text \<open>
  C16: A client's bytes reach the next client. \<^verbatim>\<open>Clear\<close> handles at most 4096 of the bytes that wait
  when a client leaves; the rest stays in the channel's input buffer. Whoever is given the channel
  next gets it back in the first frame, before having sent anything.
\<close>

theorem channel_leak:
  assumes "mm_total m" and "chan_live q" and "chan_load q \<le> EVQ_CAP"
  shows "\<exists>ch1 w1 q2 q3. Clear m q = Some (ch1, w1) \<and>
    (case bufferevent_socket_new fd w1 of (b2, w2) \<Rightarrow> OnClientConnect fd (Some b2) (ch1, w2)) = Some q2 \<and>
    OnStatusDoAction m q2 = Some q3 \<and>
    chan_out q2 = [] \<and> chan_out q3 = take BUFFSIZE (drop BUFFSIZE (chan_in q))"
proof -
  obtain b where b: "m_buffer (fst q) = Some b"
    using assms(2) by (auto simp: chan_live_def bev_of_def split: option.splits)
  obtain ch w where c: "Clear m q = Some (ch, w)" "chan_ready ch" "m_buffer ch = None"
    "chan_in (ch, w) = drop BUFFSIZE (chan_in q)"
    using Clear_ok [OF assms(2,1,3) b] by blast
  define w2 where "w2 = snd (bufferevent_socket_new fd w)"
  define ch2 where "ch2 = ch\<lparr>m_Socket := fd, m_buffer := Some (next_bev w), IChStatus := CLIENT_LOGIN\<rparr>"
  define w3 where "w3 = w2\<lparr>player_log := player_log w2 @ [Player_login (m_IChannelID ch)]\<rparr>"
  have conn: "(case bufferevent_socket_new fd w of (b2, w2) \<Rightarrow> OnClientConnect fd (Some b2) (ch, w2)) =
      Some (ch2, w3)"
    using c(2) by (simp add: OnClientConnect_def Let_def ch2_def w3_def w2_def chan_ready_def
        bufferevent_socket_new_def)
  have bev: "bevs w3 (next_bev w) = Some \<lparr>bev_input = evbuffer_freeze evbuffer_new False,
      bev_output = evbuffer_freeze evbuffer_new True, bev_fd = fd, bev_ctx = None,
      wm_read_low = 0, wm_read_high = 0, bev_enabled = False\<rparr>"
    by (simp add: w3_def w2_def bufferevent_socket_new_def)
  have ec: "content (evbuffer_freeze evbuffer_new s) = []" for s
    by (simp add: evbuffer_freeze_def content_def evbuffer_new_def)
  have "chan_live (ch2, w3)"
    using c(2) bev bufferevent_socket_new_ok [of fd w] ec
    by (simp add: chan_live_def chan_ready_def bev_of_def ch2_def w2_def bufferevent_socket_new_def)
  moreover have in2: "chan_in (ch2, w3) = drop BUFFSIZE (chan_in q)"
    using c(4) by (simp add: chan_in_def ch2_def)
  moreover have out2: "chan_out (ch2, w3) = []"
    using bev ec by (simp add: chan_out_def bev_of_def ch2_def)
  moreover have "chan_load (ch2, w3) \<le> EVQ_CAP"
    using in2 out2 assms(3) by (simp add: chan_load_def)
  ultimately obtain q3 where "OnStatusDoAction m (ch2, w3) = Some q3"
    "chan_out q3 = take BUFFSIZE (drop BUFFSIZE (chan_in q))"
    using OnStatusDoAction_ok [of "(ch2, w3)" m] assms(1) by auto
  with c(1) conn out2 show ?thesis by blast
qed

theorem channel_leak_witness:
  "\<exists>ch1 w1 q2 q3. Clear zero_memory (demo_chan (replicate 4097 65)) = Some (ch1, w1) \<and>
    (case bufferevent_socket_new 8 w1 of (b2, w2) \<Rightarrow> OnClientConnect 8 (Some b2) (ch1, w2)) = Some q2 \<and>
    OnStatusDoAction zero_memory q2 = Some q3 \<and> chan_out q2 = [] \<and> chan_out q3 = [65]"
proof -
  let ?bs = "replicate 4097 (65 :: byte)"
  have "take BUFFSIZE (drop BUFFSIZE ?bs) = [65]" by (simp add: BUFFSIZE_def)
  moreover have "chan_load (demo_chan ?bs) \<le> EVQ_CAP"
    by (simp add: chan_load_def demo_chan_ok EVQ_CAP_def)
  ultimately show ?thesis
    using channel_leak [OF zero_memory_total demo_chan_ok(1), of ?bs 8] by (simp add: demo_chan_ok)
qed

section \<open>The threaded variant\<close>

lemma drain_lock [field_frames]:
  "has_lock (snd (evbuffer_drain b n)) = has_lock b"
  "lock_count (snd (evbuffer_drain b n)) = lock_count b"
  by (simp_all add: evbuffer_drain_def Let_def ZERO_CHAIN_def split: prod.split)

lemma remove_lock:
  assumes "evbuffer_remove b n = (r, out, b')"
  shows "has_lock b' = has_lock b" "lock_count b' = lock_count b"
proof -
  have "b' = b \<or> (\<exists>k. b' = snd (evbuffer_drain b k))"
    using assms
    by (auto simp: evbuffer_remove_def split: prod.splits if_splits) (metis snd_conv)+
  then show "has_lock b' = has_lock b" "lock_count b' = lock_count b" by (auto simp: field_frames)
qed

lemma lock_ok:
  "evb_live b \<Longrightarrow> evb_live (evbuffer_lock b)" "content (evbuffer_lock b) = content b"
  "evb_live b \<Longrightarrow> evb_live (evbuffer_unlock b)" "content (evbuffer_unlock b) = content b"
  by (simp_all add: evbuffer_lock_def evbuffer_unlock_def evb_live_def evb_ok_def content_def)

text \<open>
  The lock of the input buffer in a pool thread. \<^verbatim>\<open>OnStatusDoAcionInPthread\<close> echoes a frame and
  leaves the lock as it found it when there is input; when the buffer is empty it returns without
  unlocking, so that the buffer stays locked by that thread.
\<close>

theorem pthread_action_lock:
  assumes "mm_total m" and "chan_live q" and "chan_load q \<le> EVQ_CAP"
    and "m_Inputevbuffer (fst q) = Some buf" and "has_lock buf"
  shows "\<exists>q' buf'. OnStatusDoAcionInPthread m q = Some q' \<and> m_Inputevbuffer (fst q') = Some buf' \<and>
    chan_out q' = chan_out q @ take BUFFSIZE (chan_in q) \<and>
    lock_count buf' = (if chan_in q = [] then lock_count buf + 1 else lock_count buf)"
  using assms(2)
proof (rule chan_liveE)
  fix ch w buf' b be
  assume q: "q = (ch, w)" and "m_Inputevbuffer ch = Some buf'" and live: "evb_live buf'"
    and mb: "m_buffer ch = Some b" "bevs w b = Some be" and be: "bev_ok be"
    and ch: "ParseFunc ch = Some RecvValuesFromString" "IChStatus ch = CLIENT_LOGIN"
    and c: "chan_in q = content buf'" "chan_out q = content (bev_output be)"
  with assms(4) have buf: "m_Inputevbuffer ch = Some buf" "buf' = buf" by simp_all
  let ?bytes = "take BUFFSIZE (content buf)"
  have lk: "evb_live (evbuffer_lock buf)" "content (evbuffer_lock buf) = content buf"
    "has_lock (evbuffer_lock buf)" "lock_count (evbuffer_lock buf) = lock_count buf + 1"
    using live buf assms(5) lock_ok by (simp_all add: evbuffer_lock_def evb_live_def evb_ok_def content_def)
  have cap: "length (content buf) \<le> EVQ_CAP"
    "length (content (bev_output be)) + length ?bytes \<le> EVQ_CAP"
    using assms(3) c buf by (simp_all add: chan_load_def)
  obtain b2 where r: "evbuffer_remove (evbuffer_lock buf) BUFFSIZE = (int (length ?bytes), ?bytes, b2)"
    using evbuffer_remove_live [OF lk(1), of BUFFSIZE] cap(1) lk(2) by auto
  note r2 = remove_lock [OF r]
  let ?ch = "ch\<lparr>m_Inputevbuffer := Some b2\<rparr>"
  show ?thesis
  proof (cases "content buf = []")
    case True
    then have "OnStatusDoAcionInPthread m q = Some (?ch, w)"
      using r by (simp add: OnStatusDoAcionInPthread_def q buf(1))
    with True r2 lk mb c buf show ?thesis by (simp add: chan_out_def bev_of_def q)
  next
    case False
    obtain out where o: "bufferevent_write m b ?bytes w =
        Some (0, w\<lparr>bevs := (bevs w)(b \<mapsto> be\<lparr>bev_output := out\<rparr>)\<rparr>)"
      "content out = content (bev_output be) @ ?bytes"
      using bufferevent_write_ok [OF assms(1) mb(2) be cap(2)] by blast
    have "parse_loop m ?ch (str_data ?bytes) (int (length ?bytes)) 0 w =
        Some (w\<lparr>bevs := (bevs w)(b \<mapsto> be\<lparr>bev_output := out\<rparr>)\<rparr>)"
      using parse_packet [of ?ch ?bytes b m w] ch mb o(1) by simp
    moreover have "\<not> int (length ?bytes) \<le> 0" using False by (simp add: BUFFSIZE_def)
    ultimately have "OnStatusDoAcionInPthread m q =
        Some (?ch\<lparr>m_Inputevbuffer := Some (evbuffer_unlock b2)\<rparr>,
              w\<lparr>bevs := (bevs w)(b \<mapsto> be\<lparr>bev_output := out\<rparr>)\<rparr>)"
      using r by (simp add: OnStatusDoAcionInPthread_def q buf(1) del: length_take)
    with False r2 lk mb c buf o(2) show ?thesis
      by (simp add: chan_out_def bev_of_def q evbuffer_unlock_def)
  qed
qed

definition locked_demo :: "byte list \<Rightarrow> IChannel \<times> net" where
  "locked_demo bs = (let (ch, w) = demo_chan bs
     in (ch\<lparr>m_Inputevbuffer := Some ((one_chain 0 bs)\<lparr>has_lock := True\<rparr>)\<rparr>, w))"

theorem pthread_action_lock_witness:
  "\<exists>q' buf'. OnStatusDoAcionInPthread zero_memory (locked_demo []) = Some q' \<and>
    m_Inputevbuffer (fst q') = Some buf' \<and> lock_count buf' = 1"
proof -
  let ?b = "(one_chain 0 [])\<lparr>has_lock := True\<rparr>"
  have b: "m_Inputevbuffer (fst (locked_demo [])) = Some ?b"
    by (simp add: locked_demo_def demo_chan_def)
  have "evb_live ?b" "content ?b = []"
    using one_chain_ok [of 0 "[]"] by (simp_all add: evb_live_def evb_ok_def content_def)
  then have l: "chan_live (locked_demo [])" "chan_in (locked_demo []) = []"
    "chan_out (locked_demo []) = []"
    using demo_chan_ok [of "[]"]
    by (simp_all add: locked_demo_def demo_chan_def chan_live_def chan_ready_def bev_of_def
        chan_in_def chan_out_def)
  have "lock_count ?b = 0" by (simp add: one_chain_def evbuffer_new_def)
  with pthread_action_lock [OF zero_memory_total l(1) _ b] l show ?thesis
    by (auto simp: chan_load_def)
qed

end
