(* ===== verification/ResourceSpec.thy ===== *)
theory ResourceSpec
  imports Resource ChannelSpec
begin

text \<open>
  The events the server's loop delivers to the pool of channels, and the invariant they keep:
  every channel is idle or serves one client, every live bufferevent belongs to the channel its
  callbacks name, and nothing is used after it was freed.
\<close>

section \<open>Events\<close>

datatype res_event =
    Ev_listen int
  | Ev_recv nat "byte list"
  | Ev_event nat int
  | Ev_frame

text \<open>
  libevent calls back on a live bufferevent, with the argument its callbacks were set with.
\<close>

definition on_bev :: "nat \<Rightarrow> (nat \<Rightarrow> resource option) \<Rightarrow> resource \<Rightarrow> resource option" where
  "on_bev b f r =
     (case bevs (nw r) b of
        None \<Rightarrow> Some r
      | Some be \<Rightarrow> (case bev_ctx be of None \<Rightarrow> Some r | Some a \<Rightarrow> f a))"

definition res_step :: "malloc \<Rightarrow> res_event \<Rightarrow> resource \<Rightarrow> resource option" where
  "res_step m ev r =
     (case ev of
        Ev_listen fd \<Rightarrow> SyinxKernel_Listen_CB fd r
      | Ev_recv b bs \<Rightarrow>
          on_bev b (\<lambda>a. with_channel (\<lambda>(ch, w). SyinxKernel_Recv_Cb m b (ch, bev_arrive m b bs w)) a r) r
      | Ev_event b what \<Rightarrow> on_bev b (\<lambda>a. SyinxKernel_Event_Cb m what a r) r
      | Ev_frame \<Rightarrow> GameServerDoAction m r)"

fun res_run :: "malloc \<Rightarrow> res_event list \<Rightarrow> resource \<Rightarrow> resource option" where
  "res_run m [] r = Some r"
| "res_run m (ev # evs) r =
     (case res_step m ev r of None \<Rightarrow> None | Some r' \<Rightarrow> res_run m evs r')"

fun bytes_of :: "res_event \<Rightarrow> nat" where
  "bytes_of (Ev_recv b bs) = length bs"
| "bytes_of _ = 0"

section \<open>The invariant\<close>

definition view :: "resource \<Rightarrow> nat \<Rightarrow> IChannel \<times> net" where
  "view r a = (the (chans r a), nw r)"

definition conn_ok :: "nat \<Rightarrow> resource \<Rightarrow> nat \<Rightarrow> bool" where
  "conn_ok t r a \<longleftrightarrow> chan_live (view r a) \<and> chan_load (view r a) \<le> t \<and>
     map_option bev_ctx (bev_of (view r a)) = Some (Some a)"

definition idle_ok :: "nat \<Rightarrow> resource \<Rightarrow> nat \<Rightarrow> bool" where
  "idle_ok t r a \<longleftrightarrow> chan_ready (fst (view r a)) \<and> length (chan_in (view r a)) \<le> t \<and>
     m_buffer (fst (view r a)) = None \<and> IChStatus (fst (view r a)) = CLIENT_LOGOUT"

definition bev_owned :: "resource \<Rightarrow> nat \<Rightarrow> bool" where
  "bev_owned r b \<longleftrightarrow> b < next_bev (nw r) \<and>
     (\<exists>a \<in> set (m_listConnectClient r). m_buffer (fst (view r a)) = Some b)"

definition res_ok :: "nat \<Rightarrow> resource \<Rightarrow> bool" where
  "res_ok t r \<longleftrightarrow>
     mset (m_queueILoop r) + mset (m_listConnectClient r) = mset [1..<m_IChannelNum r + 1] \<and>
     dom (chans r) = {1..m_IChannelNum r} \<and>
     (\<forall>a \<in> {1..m_IChannelNum r}. m_IChannelID (fst (view r a)) = a) \<and>
     (\<forall>a \<in> set (m_listConnectClient r). conn_ok t r a) \<and>
     (\<forall>a \<in> set (m_queueILoop r). idle_ok t r a) \<and>
     (\<forall>b \<in> dom (bevs (nw r)). bev_owned r b)"

lemma conn_mono: "t \<le> t' \<Longrightarrow> conn_ok t r a \<Longrightarrow> conn_ok t' r a"
  by (simp add: conn_ok_def)

lemma res_ok_mono: "res_ok t r \<Longrightarrow> t \<le> t' \<Longrightarrow> res_ok t' r"
  by (fastforce simp: res_ok_def conn_ok_def idle_ok_def)

lemma res_okD:
  assumes "res_ok t r"
  shows "a \<in> set (m_listConnectClient r) \<Longrightarrow> conn_ok t r a"
    "a \<in> set (m_queueILoop r) \<Longrightarrow> idle_ok t r a"
    "b \<in> dom (bevs (nw r)) \<Longrightarrow> bev_owned r b"
    "a \<in> {1..m_IChannelNum r} \<Longrightarrow> m_IChannelID (fst (view r a)) = a"
  using assms unfolding res_ok_def by blast+

lemma res_sets:
  assumes "res_ok t r"
  shows "set (m_queueILoop r) \<union> set (m_listConnectClient r) = {1..m_IChannelNum r}"
    "set (m_queueILoop r) \<inter> set (m_listConnectClient r) = {}"
    "distinct (m_queueILoop r)" "distinct (m_listConnectClient r)"
proof -
  have "mset (m_queueILoop r @ m_listConnectClient r) = mset [1..<m_IChannelNum r + 1]"
    using assms by (simp add: res_ok_def)
  from mset_eq_imp_distinct_iff [OF this] mset_eq_setD [OF this]
  have s: "distinct (m_queueILoop r @ m_listConnectClient r)"
    "set (m_queueILoop r @ m_listConnectClient r) = {1..<m_IChannelNum r + 1}"
    by (simp_all only: distinct_upt set_upt)
  have "{1..<m_IChannelNum r + 1} = {1..m_IChannelNum r}" by (simp add: atLeastLessThanSuc_atLeastAtMost)
  with s show "set (m_queueILoop r) \<union> set (m_listConnectClient r) = {1..m_IChannelNum r}"
    "set (m_queueILoop r) \<inter> set (m_listConnectClient r) = {}"
    "distinct (m_queueILoop r)" "distinct (m_listConnectClient r)"
    by (simp_all only: distinct_append set_append)
qed

text \<open>What a channel sees of the net is its own bufferevent.\<close>

lemma chan_cong:
  assumes "bev_of (ch, w') = bev_of (ch, w)"
  shows "chan_live (ch, w') = chan_live (ch, w)" "chan_out (ch, w') = chan_out (ch, w)"
    "chan_in (ch, w') = chan_in (ch, w)" "chan_load (ch, w') = chan_load (ch, w)"
  using assms by (simp_all add: chan_live_def chan_out_def chan_in_def chan_load_def)

lemma conn_cong:
  assumes "chans r' a = chans r a" and "bev_of (view r' a) = bev_of (view r a)"
  shows "conn_ok t r' a = conn_ok t r a"
  using assms chan_cong [of "the (chans r a)" "nw r'" "nw r"]
  by (simp add: conn_ok_def view_def)

lemma idle_cong:
  assumes "chans r' a = chans r a"
  shows "idle_ok t r' a = idle_ok t r a"
  using assms by (simp add: idle_ok_def view_def chan_in_def)

lemma conn_bev:
  assumes "conn_ok t r a"
  obtains b be where "m_buffer (fst (view r a)) = Some b" "bevs (nw r) b = Some be" "bev_ctx be = Some a"
  using assms by (auto simp: conn_ok_def bev_of_def view_def split: option.splits)

lemma own_bev_unique:
  assumes "conn_ok t r a" and "conn_ok t r a'" and "m_buffer (fst (view r a)) = m_buffer (fst (view r a'))"
  shows "a = a'"
  using assms by (elim conn_bev) simp

section \<open>One channel at work\<close>

lemma res_chan: "res_ok t r \<Longrightarrow> a \<in> {1..m_IChannelNum r} \<Longrightarrow> a \<in> dom (chans r)"
  by (simp add: res_ok_def)

lemma with_channel_view:
  assumes "a \<in> dom (chans r)" and "f (view r a) = Some q'"
  shows "with_channel f a r = Some (r\<lparr>chans := (chans r)(a \<mapsto> fst q'), nw := snd q'\<rparr>)"
proof -
  obtain ch where "chans r a = Some ch" using assms(1) by blast
  with assms(2) show ?thesis by (simp add: with_channel_def view_def split: prod.split)
qed

lemma conn_range: "res_ok t r \<Longrightarrow> a \<in> set (m_listConnectClient r) \<Longrightarrow> a \<in> {1..m_IChannelNum r}"
  using res_sets(1) [of t r] by blast

lemma other_bev:
  assumes ok: "res_ok t r" and a: "a \<in> set (m_listConnectClient r)" "m_buffer (fst (view r a)) = Some b"
    and a': "a' \<in> set (m_listConnectClient r)" "a' \<noteq> a"
    and fr: "\<forall>b'. b' \<noteq> b \<longrightarrow> bevs w' b' = bevs (nw r) b'"
  shows "bev_of (fst (view r a'), w') = bev_of (view r a')"
proof -
  have c: "conn_ok t r a" "conn_ok t r a'" using ok a(1) a'(1) by (simp_all add: res_ok_def)
  then obtain b' where b': "m_buffer (fst (view r a')) = Some b'" using conn_bev by metis
  with own_bev_unique [OF c] a(2) a'(2) have "b' \<noteq> b" by auto
  with fr b' show ?thesis by (simp add: bev_of_def view_def)
qed

lemma with_conn_ok:
  assumes ok: "res_ok t r" and a: "a \<in> set (m_listConnectClient r)"
    and b: "m_buffer (fst (view r a)) = Some b"
    and f: "f (view r a) = Some q'" and live: "chan_live q'" and load: "chan_load q' \<le> t'" "t \<le> t'"
    and mb: "m_buffer (fst q') = Some b" and fr: "chan_frame b (view r a) q'"
  shows "\<exists>r'. with_channel f a r = Some r' \<and> res_ok t' r' \<and> view r' a = q' \<and>
    m_listConnectClient r' = m_listConnectClient r \<and> m_queueILoop r' = m_queueILoop r"
proof -
  note rng = conn_range [OF ok a]
  let ?r = "r\<lparr>chans := (chans r)(a \<mapsto> fst q'), nw := snd q'\<rparr>"
  have w: "with_channel f a r = Some ?r" using res_chan [OF ok rng] f by (rule with_channel_view)
  have va: "view ?r a = q'" by (simp add: view_def)
  have ctx: "conn_ok t r a" using ok a by (simp add: res_ok_def)
  have others: "\<forall>b'. b' \<noteq> b \<longrightarrow> bevs (snd q') b' = bevs (nw r) b'"
    using fr by (simp add: chan_frame_def view_def)
  have "conn_ok t' ?r a'" if a': "a' \<in> set (m_listConnectClient r)" for a'
  proof (cases "a' = a")
    case True
    obtain be where "bevs (snd q') b = Some be"
      using live mb by (auto simp: chan_live_def bev_of_def)
    moreover obtain be0 where "bevs (nw r) b = Some be0" "bev_ctx be0 = Some a"
      using ctx b by (auto elim!: conn_bev)
    ultimately have "map_option bev_ctx (bev_of q') = Some (Some a)"
      using fr mb by (simp add: chan_frame_def bev_of_def view_def)
    with True live load va show ?thesis by (simp add: conn_ok_def)
  next
    case False
    have "bev_of (view ?r a') = bev_of (view r a')"
      using other_bev [OF ok a b a' False others] False by (simp add: view_def)
    with False have "conn_ok t ?r a' = conn_ok t r a'" by (intro conn_cong) simp_all
    with a' ok load(2) show ?thesis by (auto simp: res_ok_def intro: conn_mono)
  qed
  moreover have "idle_ok t' ?r a'" if "a' \<in> set (m_queueILoop r)" for a'
  proof -
    have "a' \<noteq> a" using res_sets(2) [OF ok] that a by blast
    then have "idle_ok t ?r a' = idle_ok t r a'" by (intro idle_cong) simp
    with that ok load(2) show ?thesis by (auto simp: res_ok_def idle_ok_def)
  qed
  moreover have "bev_owned ?r b'" if "b' \<in> dom (bevs (snd q'))" for b'
  proof (cases "b' = b")
    case True
    have "bev_owned r b" using ok ctx b by (auto simp: res_ok_def elim!: conn_bev)
    with True a mb va fr show ?thesis by (auto simp: bev_owned_def chan_frame_def view_def)
  next
    case False
    with that others have "b' \<in> dom (bevs (nw r))" by auto
    with res_okD(3) [OF ok] have "bev_owned r b'" by blast
    then obtain a' where o: "b' < next_bev (nw r)" "a' \<in> set (m_listConnectClient r)"
      "m_buffer (fst (view r a')) = Some b'" by (auto simp: bev_owned_def)
    with b False have "a' \<noteq> a" by auto
    with o fr show ?thesis by (auto simp: bev_owned_def chan_frame_def view_def)
  qed
  moreover have "m_IChannelID (fst (view ?r a')) = a'" if "a' \<in> {1..m_IChannelNum r}" for a'
    using ok that fr rng by (cases "a' = a") (auto simp: res_ok_def chan_frame_def view_def)
  ultimately have "res_ok t' ?r"
    using ok rng by (auto simp: res_ok_def insert_absorb)
  with w va show ?thesis by auto
qed

lemma action_loop_ok:
  assumes mm: "mm_total m" and t: "t \<le> EVQ_CAP"
  shows "res_ok t r \<Longrightarrow> set as \<subseteq> set (m_listConnectClient r) \<Longrightarrow>
    \<exists>r'. action_loop m as r = Some r' \<and> res_ok t r' \<and>
      m_listConnectClient r' = m_listConnectClient r \<and> m_queueILoop r' = m_queueILoop r"
proof (induction as arbitrary: r)
  case Nil
  then show ?case by simp
next
  case (Cons a as)
  then have a: "a \<in> set (m_listConnectClient r)" by simp
  then have c: "conn_ok t r a" using Cons.prems(1) by (simp add: res_ok_def)
  obtain b where b: "m_buffer (fst (view r a)) = Some b" using c by (rule conn_bev)
  have l: "chan_live (view r a)" "chan_load (view r a) \<le> t" using c by (simp_all add: conn_ok_def)
  obtain q' where q: "OnStatusDoAction m (view r a) = Some q'" "chan_live q'"
    "chan_in q' = drop BUFFSIZE (chan_in (view r a))"
    "chan_out q' = chan_out (view r a) @ take BUFFSIZE (chan_in (view r a))"
    "m_buffer (fst q') = Some b" "chan_frame b (view r a) q'"
    using OnStatusDoAction_ok [OF l(1) mm] l(2) t b by auto
  then have "chan_load q' \<le> t" using l(2) by (simp add: chan_load_def)
  with with_conn_ok [of t r a b "OnStatusDoAction m" q' t] Cons.prems(1) a b q obtain r1 where
    r1: "with_channel (OnStatusDoAction m) a r = Some r1" "res_ok t r1"
      "m_listConnectClient r1 = m_listConnectClient r" "m_queueILoop r1 = m_queueILoop r" by auto
  with Cons.IH [of r1] Cons.prems(2) show ?case by auto
qed

section \<open>A client leaves\<close>

lemma SocketFdDel_ok:
  assumes mm: "mm_total m" and t: "t \<le> EVQ_CAP" and ok: "res_ok t r"
    and a: "a \<in> set (m_listConnectClient r)"
  shows "\<exists>r'. SocketFdDel m a r = Some (True, r') \<and> res_ok t r' \<and>
    m_listConnectClient r' = removeAll a (m_listConnectClient r) \<and>
    m_queueILoop r' = m_queueILoop r @ [a]"
proof -
  note rng = conn_range [OF ok a]
  have c: "conn_ok t r a" by (rule res_okD(1) [OF ok a])
  then obtain b where b: "m_buffer (fst (view r a)) = Some b" by (rule conn_bev)
  have l: "chan_live (view r a)" "chan_load (view r a) \<le> t" using c by (simp_all add: conn_ok_def)
  obtain ch w where q: "Clear m (view r a) = Some (ch, w)" "chan_ready ch" "IChStatus ch = CLIENT_LOGOUT"
    "m_buffer ch = None" "bevs w b = None" "chan_in (ch, w) = drop BUFFSIZE (chan_in (view r a))"
    "chan_frame b (view r a) (ch, w)"
    using Clear_ok [OF l(1) mm _ b] l(2) t by auto
  let ?rem = "r\<lparr>m_listConnectClient := removeAll a (m_listConnectClient r)\<rparr>"
  let ?r = "?rem\<lparr>chans := (chans r)(a \<mapsto> ch), nw := w, m_queueILoop := m_queueILoop r @ [a]\<rparr>"
  have v0: "view ?rem a = view r a" by (simp add: view_def)
  have "with_channel (Clear m) a ?rem = Some (?rem\<lparr>chans := (chans r)(a \<mapsto> ch), nw := w\<rparr>)"
    using with_channel_view [of a ?rem "Clear m" "(ch, w)"] res_chan [OF ok rng] q(1) v0 by simp
  then have del: "SocketFdDel m a r = Some (True, ?r)" by (simp add: SocketFdDel_def)
  have va: "view ?r a = (ch, w)" by (simp add: view_def)
  have fr: "\<forall>b'. b' \<noteq> b \<longrightarrow> bevs w b' = bevs (nw r) b'" "next_bev w = next_bev (nw r)"
    "m_IChannelID ch = m_IChannelID (fst (view r a))"
    using q(7) by (simp_all add: chan_frame_def view_def)
  have conn: "conn_ok t ?r a'" if a': "a' \<in> set (m_listConnectClient r)" "a' \<noteq> a" for a'
  proof -
    have "bev_of (view ?r a') = bev_of (view r a')"
      using other_bev [OF ok a b a' fr(1)] a'(2) by (simp add: view_def)
    with a' have "conn_ok t ?r a' = conn_ok t r a'" by (intro conn_cong) simp_all
    with res_okD(1) [OF ok a'(1)] show ?thesis by simp
  qed
  have idle: "idle_ok t ?r a'" if "a' \<in> set (m_queueILoop r)" for a'
  proof -
    have "a' \<noteq> a" using res_sets(2) [OF ok] that a by blast
    then have "idle_ok t ?r a' = idle_ok t r a'" by (intro idle_cong) simp
    with res_okD(2) [OF ok that] show ?thesis by simp
  qed
  have "idle_ok t ?r a"
    using q l(2) by (simp add: idle_ok_def va chan_load_def)
  moreover have "bev_owned ?r b'" if "b' \<in> dom (bevs w)" for b'
  proof -
    have "b' \<noteq> b" using that q(5) by auto
    with that fr(1) have "b' \<in> dom (bevs (nw r))" by auto
    with res_okD(3) [OF ok] obtain a' where o: "b' < next_bev (nw r)"
      "a' \<in> set (m_listConnectClient r)" "m_buffer (fst (view r a')) = Some b'"
      by (auto simp: bev_owned_def)
    with b \<open>b' \<noteq> b\<close> have "a' \<noteq> a" by auto
    with o fr(2) show ?thesis by (auto simp: bev_owned_def view_def)
  qed
  moreover have "m_IChannelID (fst (view ?r a')) = a'" if "a' \<in> {1..m_IChannelNum r}" for a'
    using ok that fr(3) rng by (cases "a' = a") (auto simp: res_ok_def view_def)
  moreover have "mset (m_queueILoop ?r) + mset (m_listConnectClient ?r) =
      mset (m_queueILoop r) + mset (m_listConnectClient r)"
  proof -
    have "removeAll a (m_listConnectClient r) = remove1 a (m_listConnectClient r)"
      using res_sets(4) [OF ok] by (simp add: distinct_remove1_removeAll)
    with a show ?thesis by simp
  qed
  moreover have "dom (chans ?r) = dom (chans r)" using res_chan [OF ok rng] by auto
  ultimately have "res_ok t ?r"
    using ok conn idle unfolding res_ok_def by (simp only: Ball_def) simp
  with del show ?thesis by simp
qed

section \<open>A client arrives\<close>

lemma fresh_bev: "res_ok t r \<Longrightarrow> bevs (nw r) (next_bev (nw r)) = None"
  using res_okD(3) [of t r "next_bev (nw r)"] by (auto simp: bev_owned_def)

lemma Listen_full:
  assumes ok: "res_ok t r" and q: "m_queueILoop r = []"
  shows "\<exists>r'. SyinxKernel_Listen_CB fd r = Some r' \<and> res_ok t r' \<and>
    m_listConnectClient r' = m_listConnectClient r \<and> m_queueILoop r' = [] \<and>
    bevs (nw r') = bevs (nw r)"
proof -
  let ?w = "(nw r)\<lparr>bevs := bevs (nw r), next_bev := next_bev (nw r) + 1\<rparr>"
  let ?r = "r\<lparr>nw := ?w\<rparr>"
  have "(bevs (nw r))(next_bev (nw r) := None) = bevs (nw r)" using fresh_bev [OF ok] by auto
  then have "SyinxKernel_Listen_CB fd r = Some ?r"
    using q by (simp add: SyinxKernel_Listen_CB_def bufferevent_socket_new_def AllocationIChannel_def
        bufferevent_free_def)
  moreover have "conn_ok t ?r a" if "a \<in> set (m_listConnectClient r)" for a
  proof -
    have "bev_of (view ?r a) = bev_of (view r a)"
      by (simp add: bev_of_def view_def split: option.split)
    then have "conn_ok t ?r a = conn_ok t r a" by (intro conn_cong) simp_all
    with res_okD(1) [OF ok that] show ?thesis by simp
  qed
  moreover have "idle_ok t ?r a = idle_ok t r a" for a by (intro idle_cong) simp
  moreover have "bev_owned ?r b" if "b \<in> dom (bevs (nw r))" for b
    using res_okD(3) [OF ok that] by (auto simp: bev_owned_def view_def)
  ultimately show ?thesis
    using ok q unfolding res_ok_def by (simp add: view_def)
qed

lemma Listen_ok:
  assumes ok: "res_ok t r" and q: "m_queueILoop r = a # as"
  shows "\<exists>r'. SyinxKernel_Listen_CB fd r = Some r' \<and> res_ok t r' \<and>
    m_listConnectClient r' = m_listConnectClient r @ [a] \<and> m_queueILoop r' = as"
proof -
  have aq: "a \<in> set (m_queueILoop r)" using q by simp
  have rng: "a \<in> {1..m_IChannelNum r}" using res_sets(1) [OF ok] aq by blast
  have id: "idle_ok t r a" by (rule res_okD(2) [OF ok aq])
  obtain ch where ch: "chans r a = Some ch" using res_chan [OF ok rng] by blast
  then have v: "view r a = (ch, nw r)" by (simp add: view_def)
  let ?b = "next_bev (nw r)"
  define be where "be = \<lparr>bev_input = evbuffer_freeze evbuffer_new False,
      bev_output = evbuffer_freeze evbuffer_new True, bev_fd = fd, bev_ctx = Some a,
      wm_read_low = 0, wm_read_high = 0, bev_enabled = True\<rparr>"
  define w where "w = (nw r)\<lparr>bevs := (bevs (nw r))(?b \<mapsto> be), next_bev := ?b + 1,
      player_log := player_log (nw r) @ [Player_login (m_IChannelID ch)]\<rparr>"
  define ch' where "ch' = ch\<lparr>m_Socket := fd, m_buffer := Some ?b, IChStatus := CLIENT_LOGIN\<rparr>"
  let ?r = "r\<lparr>m_queueILoop := as, chans := (chans r)(a \<mapsto> ch'), nw := w,
      m_listConnectClient := m_listConnectClient r @ [a]\<rparr>"
  have a0: "a \<noteq> 0" using rng by simp
  have listen: "SyinxKernel_Listen_CB fd r = Some ?r"
    using q id ch v a0
    by (simp add: SyinxKernel_Listen_CB_def bufferevent_socket_new_def AllocationIChannel_def
        bev_setup_def with_channel_def OnClientConnect_def Let_def SocketFdAdd_def idle_ok_def
        chan_ready_def w_def ch'_def be_def)
  have va: "view ?r a = (ch', w)" by (simp add: view_def)
  have "bev_ok be \<and> content (bev_input be) = [] \<and> content (bev_output be) = []"
    using bufferevent_socket_new_ok [of fd "nw r"]
    by (simp add: be_def bufferevent_socket_new_def bev_ok_def)
       (simp add: evbuffer_freeze_def content_def evbuffer_new_def)
  then have new: "conn_ok t ?r a"
    unfolding conn_ok_def va
    using id by (simp add: chan_live_def bev_of_def chan_load_def chan_out_def
        idle_ok_def v chan_ready_def ch'_def w_def be_def chan_in_def)
  have other: "conn_ok t ?r a'" if a': "a' \<in> set (m_listConnectClient r)" for a'
  proof -
    have c: "conn_ok t r a'" by (rule res_okD(1) [OF ok a'])
    obtain b' be' where b': "m_buffer (fst (view r a')) = Some b'" "bevs (nw r) b' = Some be'"
      using c by (rule conn_bev)
    then have "b' \<noteq> ?b" using fresh_bev [OF ok] by auto
    moreover have "a' \<noteq> a" using res_sets(2) [OF ok] aq a' by blast
    ultimately have "conn_ok t ?r a' = conn_ok t r a'"
      using b'(1) by (intro conn_cong) (simp_all add: bev_of_def view_def w_def)
    with c show ?thesis by simp
  qed
  have idle: "idle_ok t ?r a'" if "a' \<in> set as" for a'
  proof -
    have "a' \<noteq> a" using res_sets(3) [OF ok] q that by auto
    then have "idle_ok t ?r a' = idle_ok t r a'" by (intro idle_cong) simp
    with res_okD(2) [OF ok] q that show ?thesis by simp
  qed
  have "bev_owned ?r b'" if "b' \<in> dom (bevs w)" for b'
  proof (cases "b' = ?b")
    case True
    then show ?thesis by (simp add: bev_owned_def view_def w_def ch'_def)
  next
    case False
    then have "b' \<in> dom (bevs (nw r))" using that by (auto simp: w_def)
    with res_okD(3) [OF ok] obtain a' where o: "b' < ?b" "a' \<in> set (m_listConnectClient r)"
      "m_buffer (fst (view r a')) = Some b'" by (auto simp: bev_owned_def)
    then have "a' \<noteq> a" using res_sets(2) [OF ok] aq by blast
    with o show ?thesis by (auto simp: bev_owned_def view_def w_def)
  qed
  moreover have "m_IChannelID (fst (view ?r a')) = a'" if "a' \<in> {1..m_IChannelNum r}" for a'
    using res_okD(4) [OF ok that] v by (cases "a' = a") (simp_all add: view_def ch'_def)
  moreover have "dom (chans ?r) = dom (chans r)" using res_chan [OF ok rng] by auto
  moreover have "mset (m_queueILoop ?r) + mset (m_listConnectClient ?r) =
      mset (m_queueILoop r) + mset (m_listConnectClient r)" using q by simp
  ultimately have "res_ok t ?r"
    using ok new other idle unfolding res_ok_def by simp
  with listen show ?thesis by simp
qed

section \<open>Any sequence of events\<close>

lemma on_bev_conn:
  assumes "res_ok t r" and "\<And>a. a \<in> set (m_listConnectClient r) \<Longrightarrow>
      m_buffer (fst (view r a)) = Some b \<Longrightarrow> P (f a)" and "P (Some r)"
  shows "P (on_bev b f r)"
proof (cases "bevs (nw r) b")
  case None
  with assms(3) show ?thesis by (simp add: on_bev_def)
next
  case (Some be)
  then have "bev_owned r b" using res_okD(3) [OF assms(1)] by blast
  then obtain a where a: "a \<in> set (m_listConnectClient r)" "m_buffer (fst (view r a)) = Some b"
    by (auto simp: bev_owned_def)
  have "conn_ok t r a" by (rule res_okD(1) [OF assms(1) a(1)])
  with a(2) Some have "bev_ctx be = Some a" by (auto elim!: conn_bev)
  with Some assms(2) [OF a] show ?thesis by (simp add: on_bev_def)
qed

lemma Recv_ok:
  assumes mm: "mm_total m" and t: "t + length bs \<le> EVQ_CAP" and ok: "res_ok t r"
    and a: "a \<in> set (m_listConnectClient r)" and b: "m_buffer (fst (view r a)) = Some b"
  shows "\<exists>r'. with_channel (\<lambda>(ch, w). SyinxKernel_Recv_Cb m b (ch, bev_arrive m b bs w)) a r = Some r' \<and>
    res_ok (t + length bs) r' \<and> m_listConnectClient r' = m_listConnectClient r \<and>
    m_queueILoop r' = m_queueILoop r"
proof -
  have c: "chan_live (view r a)" "chan_load (view r a) \<le> t"
    using res_okD(1) [OF ok a] by (simp_all add: conn_ok_def)
  then have "chan_load (view r a) + length bs \<le> EVQ_CAP" using t by simp
  from Recv_Cb_ok [OF c(1) mm b this] obtain q' where
    q: "SyinxKernel_Recv_Cb m b (fst (view r a), bev_arrive m b bs (snd (view r a))) = Some q'"
      "chan_live q'" "chan_in q' = chan_in (view r a) @ bs" "chan_out q' = chan_out (view r a)"
      "m_buffer (fst q') = Some b" "chan_frame b (view r a) q'" by blast
  have "chan_load q' \<le> t + length bs" using q c(2) by (simp add: chan_load_def)
  define f where "f = (\<lambda>(ch, w). SyinxKernel_Recv_Cb m b (ch, bev_arrive m b bs w))"
  have "f (view r a) = Some q'" using q(1) by (simp add: f_def split_beta)
  with with_conn_ok [of t r a b f q' "t + length bs"] ok a b q \<open>chan_load q' \<le> t + length bs\<close>
  show ?thesis unfolding f_def [symmetric] by auto
qed

lemma Event_Cb_ok:
  assumes "mm_total m" and "t \<le> EVQ_CAP" and "res_ok t r" and "a \<in> set (m_listConnectClient r)"
  shows "\<exists>r'. SyinxKernel_Event_Cb m what a r = Some r' \<and> res_ok t r'"
  using SocketFdDel_ok [OF assms] assms(3) by (auto simp: SyinxKernel_Event_Cb_def)

lemma res_step_ok:
  assumes mm: "mm_total m" and t: "t + bytes_of ev \<le> EVQ_CAP" and ok: "res_ok t r"
  shows "\<exists>r'. res_step m ev r = Some r' \<and> res_ok (t + bytes_of ev) r'"
proof (cases ev)
  case (Ev_listen fd)
  with Listen_full [OF ok, of fd] Listen_ok [OF ok, of _ _ fd] show ?thesis
    by (cases "m_queueILoop r") (auto simp: res_step_def)
next
  case (Ev_recv b bs)
  show ?thesis
    unfolding res_step_def Ev_recv res_event.case
  proof (rule on_bev_conn [OF ok])
    fix a
    assume "a \<in> set (m_listConnectClient r)" "m_buffer (fst (view r a)) = Some b"
    from Recv_ok [OF mm _ ok this, of bs] t Ev_recv
    show "\<exists>r'. with_channel (\<lambda>(ch, w). SyinxKernel_Recv_Cb m b (ch, bev_arrive m b bs w)) a r = Some r' \<and>
        res_ok (t + bytes_of (Ev_recv b bs)) r'" by auto
  next
    show "\<exists>r'. Some r = Some r' \<and> res_ok (t + bytes_of (Ev_recv b bs)) r'"
      using res_ok_mono [OF ok] by simp
  qed
next
  case (Ev_event b what)
  show ?thesis
    unfolding res_step_def Ev_event res_event.case
    by (rule on_bev_conn [OF ok]) (use Event_Cb_ok [OF mm _ ok] ok t in simp_all)
next
  case Ev_frame
  with action_loop_ok [OF mm _ ok, of "m_listConnectClient r"] t show ?thesis
    by (auto simp: res_step_def GameServerDoAction_def)
qed

lemma res_run_ok:
  assumes mm: "mm_total m"
  shows "res_ok t r \<Longrightarrow> t + sum_list (map bytes_of evs) \<le> EVQ_CAP \<Longrightarrow>
    \<exists>r'. res_run m evs r = Some r' \<and> res_ok (t + sum_list (map bytes_of evs)) r'"
proof (induction evs arbitrary: t r)
  case Nil
  then show ?case by simp
next
  case (Cons ev evs)
  then have "t + bytes_of ev \<le> EVQ_CAP" by simp
  from res_step_ok [OF mm this Cons.prems(1)] obtain r1 where
    "res_step m ev r = Some r1" "res_ok (t + bytes_of ev) r1" by blast
  with Cons.IH [of "t + bytes_of ev" r1] Cons.prems(2) show ?case by (simp add: add.assoc)
qed

section \<open>Start\<close>

text \<open>The state of the loop of \<^verbatim>\<open>Initialize\<close> before channel \<open>i\<close> is made.\<close>

definition init_inv :: "nat \<Rightarrow> resource \<Rightarrow> bool" where
  "init_inv i r \<longleftrightarrow> 1 \<le> i \<and> i \<le> m_IChannelNum r + 1 \<and> next_chan r = i \<and>
     m_queueILoop r = [1..<i] \<and> m_listConnectClient r = [] \<and> dom (chans r) = {1..<i} \<and>
     (\<forall>a \<in> {1..<i}. m_IChannelID (fst (view r a)) = a \<and> idle_ok 0 r a) \<and>
     bevs (nw r) = (\<lambda>_. None)"

lemma new_channel_ok:
  "\<exists>ch. Channel_Initialize threads new_IChannel = (True, ch) \<and> chan_ready ch \<and>
    m_IChannelID ch = 0 \<and> m_buffer ch = None \<and> IChStatus ch = CLIENT_LOGOUT \<and>
    (case m_Inputevbuffer ch of None \<Rightarrow> [] | Some b \<Rightarrow> content b) = []"
proof -
  obtain ok ch where c: "Channel_Initialize threads new_IChannel = (ok, ch)" by fastforce
  moreover have "ok \<and> m_IChannelID ch = 0 \<and> m_buffer ch = None \<and> IChStatus ch = CLIENT_LOGOUT \<and>
      (case m_Inputevbuffer ch of None \<Rightarrow> [] | Some b \<Rightarrow> content b) = []"
    using c by (auto simp: Channel_Initialize_def SetupFrameInputFunc_def BindParse_def Let_def
        GetWhetherBindParseFunc_def new_IChannel_def evbuffer_enable_locking_def evbuffer_new_def
        content_def)
  ultimately show ?thesis using Channel_Initialize_ready [of threads ch] by auto
qed

lemma init_loop_ok:
  "init_inv i r \<Longrightarrow> \<exists>r'. init_loop threads i r = (True, r') \<and> init_inv (m_IChannelNum r' + 1) r' \<and>
    m_IChannelNum r' = m_IChannelNum r"
proof (induction threads i r rule: init_loop.induct)
  case (1 threads i r)
  show ?case
  proof (cases "m_IChannelNum r < i")
    case True
    with 1(2) have "i = m_IChannelNum r + 1" by (simp add: init_inv_def)
    moreover have "init_loop threads i r = (True, r)"
      using True by (simp add: init_loop.simps [of threads i r])
    ultimately show ?thesis using 1(2) by simp
  next
    case False
    obtain ch where ch: "Channel_Initialize threads new_IChannel = (True, ch)" "chan_ready ch"
      "m_IChannelID ch = 0" "m_buffer ch = None" "IChStatus ch = CLIENT_LOGOUT"
      "(case m_Inputevbuffer ch of None \<Rightarrow> [] | Some b \<Rightarrow> content b) = []"
      using new_channel_ok by blast
    have n: "next_chan r = i" using 1(2) by (simp add: init_inv_def)
    let ?s = "r\<lparr>chans := (chans r)(i \<mapsto> SetIChannelID i ch), next_chan := i + 1,
        m_queueILoop := m_queueILoop r @ [i]\<rparr>"
    have i: "1 \<le> i" "{1..<i + 1} = insert i {1..<i}" using 1(2) by (auto simp: init_inv_def)
    have old: "idle_ok 0 ?s a \<and> m_IChannelID (fst (view ?s a)) = a" if "a \<in> {1..<i}" for a
    proof -
      have "idle_ok 0 ?s a = idle_ok 0 r a" using that by (intro idle_cong) simp
      with that 1(2) show ?thesis by (simp add: init_inv_def view_def)
    qed
    have new: "idle_ok 0 ?s i \<and> m_IChannelID (fst (view ?s i)) = i"
      using ch(2-6) by (simp add: idle_ok_def view_def SetIChannelID_def chan_ready_def chan_in_def)
    have "init_inv (i + 1) ?s"
      unfolding init_inv_def i(2)
      using 1(2) False old new i(1) by (simp add: init_inv_def)
    with 1(1) [OF False refl ch(1) [symmetric] _ refl refl] n
    have "\<exists>r'. init_loop threads (i + 1) ?s = (True, r') \<and> init_inv (m_IChannelNum r' + 1) r' \<and>
        m_IChannelNum r' = m_IChannelNum ?s" by simp
    with False ch(1) n show ?thesis by (simp add: init_loop.simps [of threads i r] Let_def)
  qed
qed

lemma Resource_Initialize_ok:
  assumes "bevs w = (\<lambda>_. None)"
  shows "\<exists>r. Resource_Initialize threads (new_SyinxAdapterResource n w) = (True, r) \<and> res_ok 0 r \<and>
    m_IChannelNum r = n \<and> m_listConnectClient r = []"
proof -
  have "init_inv 1 (new_SyinxAdapterResource n w)"
    using assms by (simp add: init_inv_def new_SyinxAdapterResource_def)
  from init_loop_ok [OF this, of threads] obtain r where r:
    "init_loop threads 1 (new_SyinxAdapterResource n w) = (True, r)"
    "init_inv (m_IChannelNum r + 1) r" "m_IChannelNum r = n"
    by (auto simp: new_SyinxAdapterResource_def)
  have "{1..<m_IChannelNum r + 1} = {1..m_IChannelNum r}" by auto
  with r(2) have "res_ok 0 r"
    unfolding init_inv_def res_ok_def by (simp del: upt_Suc)
  moreover have "length (m_queueILoop r) = m_IChannelNum r" "m_listConnectClient r = []"
    using r(2) by (simp_all add: init_inv_def)
  ultimately show ?thesis using r by (simp add: Resource_Initialize_def)
qed

text \<open>
  C2: Channels are never lost or shared. From the start of the server, under any sequence of
  connecting clients, bytes received, error, timeout and end-of-file events and frames (less than
  2 GB in all, memory enough), no handler uses a null or freed object, the idle queue and the
  list of connected channels together hold every channel exactly once, every connected channel is
  logged in and owns a live bufferevent whose callbacks name it, every idle one is logged out with
  none, and no other bufferevent is alive.
\<close>

theorem resource_invariant:
  assumes "mm_total m" and "bevs w = (\<lambda>_. None)" and "sum_list (map bytes_of evs) \<le> EVQ_CAP"
  shows "\<exists>r0 r. Resource_Initialize threads (new_SyinxAdapterResource n w) = (True, r0) \<and>
    res_run m evs r0 = Some r \<and> res_ok (sum_list (map bytes_of evs)) r"
  using Resource_Initialize_ok [OF assms(2), of threads n] res_run_ok [OF assms(1), of 0 _ evs] assms(3)
  by fastforce

definition empty_net :: net where
  "empty_net = \<lparr>bevs = \<lambda>_. None, next_bev = 1, player_log = []\<rparr>"

theorem resource_invariant_witness:
  "\<exists>r0 r. Resource_Initialize False (new_SyinxAdapterResource 2 empty_net) = (True, r0) \<and>
    res_run zero_memory [Ev_listen 7, Ev_recv 1 [1, 2], Ev_listen 8, Ev_listen 9, Ev_frame,
      Ev_event 1 0x11, Ev_listen 10] r0 = Some r \<and> res_ok 2 r"
proof -
  let ?evs = "[Ev_listen 7, Ev_recv 1 [1, 2], Ev_listen 8, Ev_listen 9, Ev_frame, Ev_event 1 0x11,
      Ev_listen 10]"
  have "sum_list (map bytes_of ?evs) = 2" by simp
  moreover have "2 \<le> EVQ_CAP" by (simp add: EVQ_CAP_def)
  moreover have "bevs empty_net = (\<lambda>_. None)" by (simp add: empty_net_def)
  ultimately show ?thesis
    using resource_invariant [OF zero_memory_total, of empty_net ?evs False 2] by (simp only:)
qed



section \<open>Shutdown\<close>

lemma Clear_idle:
  assumes ready: "chan_ready ch" and st: "IChStatus ch = CLIENT_LOGOUT" and nb: "m_buffer ch = None"
    and cap: "length (chan_in (ch, w)) \<le> EVQ_CAP"
  shows "\<exists>ch' w'. Clear m (ch, w) = Some (ch', w') \<and> bevs w' = bevs w"
proof -
  obtain buf where buf: "m_Inputevbuffer ch = Some buf" "evb_live buf"
    and pf: "ParseFunc ch = Some RecvValuesFromString" "m_pPlayer ch"
    using ready by (auto simp: chan_ready_def split: option.splits)
  let ?ch = "ch\<lparr>m_Socket := 0\<rparr>"
  have "\<exists>ch1. OnStatusDoAction m (?ch, w) = Some (ch1, w) \<and> m_buffer ch1 = None \<and> m_pPlayer ch1"
  proof (cases "evbuffer_get_length buf = 0")
    case True
    with buf nb pf show ?thesis by (simp add: OnStatusDoAction_def)
  next
    case False
    let ?bytes = "take BUFFSIZE (content buf)"
    have "length (content buf) \<le> EVQ_CAP" using cap buf by (simp add: chan_in_def)
    from evbuffer_remove_live [OF buf(2) this, of BUFFSIZE] obtain b2 where
      r: "evbuffer_remove buf BUFFSIZE = (int (length ?bytes), ?bytes, b2)" by blast
    let ?ch1 = "?ch\<lparr>m_Inputevbuffer := Some b2\<rparr>"
    have "length (str_data ?bytes) = BUFFSIZE" by (rule length_str_data) simp
    then have "parse_loop m ?ch1 (str_data ?bytes) (int (length ?bytes)) 0 w = Some w"
      using pf st by (simp add: parse_loop.simps RecvValuesFromString_def RecvClientPack_def
          SendDataToClient_def)
    with False buf r have "OnStatusDoAction m (?ch, w) = Some (?ch1, w)"
      by (simp add: OnStatusDoAction_def del: length_take)
    with nb pf show ?thesis by simp
  qed
  then show ?thesis by (auto simp: Clear_def)
qed

definition close_inv :: "nat \<Rightarrow> resource \<Rightarrow> bool" where
  "close_inv t r \<longleftrightarrow> distinct (m_queueILoop r) \<and> 0 \<notin> set (m_queueILoop r) \<and>
     dom (chans r) = set (m_queueILoop r) \<and>
     (\<forall>a \<in> set (m_queueILoop r). conn_ok t r a \<or> idle_ok t r a) \<and>
     (\<forall>b \<in> dom (bevs (nw r)). \<exists>a \<in> set (m_queueILoop r). m_buffer (fst (view r a)) = Some b)"

lemma close_clear:
  assumes mm: "mm_total m" and t: "t \<le> EVQ_CAP" and a: "conn_ok t r a \<or> idle_ok t r a"
  shows "\<exists>ch w. Clear m (view r a) = Some (ch, w) \<and>
    (\<forall>b. bevs w b = (if m_buffer (fst (view r a)) = Some b then None else bevs (nw r) b))"
proof (cases "conn_ok t r a")
  case True
  then obtain b where b: "m_buffer (fst (view r a)) = Some b" by (rule conn_bev)
  from True t have "chan_live (view r a)" "chan_load (view r a) \<le> EVQ_CAP"
    by (simp_all add: conn_ok_def)
  from Clear_ok [OF this(1) mm this(2) b] b show ?thesis
    by (fastforce simp: chan_frame_def view_def)
next
  case False
  with a have i: "idle_ok t r a" by simp
  then have "length (chan_in (fst (view r a), nw r)) \<le> EVQ_CAP"
    using t by (simp add: idle_ok_def view_def)
  with Clear_idle [of "fst (view r a)" "nw r" m] i show ?thesis
    by (auto simp: idle_ok_def view_def)
qed

lemma close_loop_ok:
  assumes mm: "mm_total m" and t: "t \<le> EVQ_CAP"
  shows "close_inv t r \<Longrightarrow> k = length (m_queueILoop r) \<Longrightarrow>
    \<exists>r'. close_loop m k r = Some r' \<and> m_queueILoop r' = [] \<and> close_inv t r'"
proof (induction k arbitrary: r)
  case 0
  then show ?case by simp
next
  case (Suc k)
  then obtain a q where q: "m_queueILoop r = a # q" by (cases "m_queueILoop r") auto
  have inv: "a \<noteq> 0" "a \<notin> set q" "distinct q" "0 \<notin> set q" "dom (chans r) = insert a (set q)"
    "conn_ok t r a \<or> idle_ok t r a"
    using Suc.prems(1) q by (auto simp: close_inv_def)
  obtain ch w where c: "Clear m (view r a) = Some (ch, w)"
    "\<forall>b. bevs w b = (if m_buffer (fst (view r a)) = Some b then None else bevs (nw r) b)"
    using close_clear [OF mm t inv(6)] by blast
  let ?r1 = "r\<lparr>m_queueILoop := q\<rparr>"
  obtain ch2 w2 where cc: "Channel_Close (ch, w) = (ch2, w2)" by fastforce
  then have w2: "bevs w2 = bevs w" by (auto simp: Channel_Close_def split: if_splits)
  let ?r = "r\<lparr>m_queueILoop := q, nw := w2, chans := (chans r)(a := None)\<rparr>"
  have "with_channel (Clear m) a ?r1 = Some (?r1\<lparr>chans := (chans r)(a \<mapsto> ch), nw := w\<rparr>)"
    using with_channel_view [of a ?r1 "Clear m" "(ch, w)"] c(1) inv(5) by (simp add: view_def)
  then have step: "close_loop m (Suc k) r = close_loop m k ?r"
    using q inv(1) cc by (simp add: with_channel_def)
  have "conn_ok t ?r a' \<or> idle_ok t ?r a'" if a': "a' \<in> set q" for a'
  proof -
    have ne: "a' \<noteq> a" using a' inv(2) by auto
    have "conn_ok t r a' \<or> idle_ok t r a'" using Suc.prems(1) q a' by (simp add: close_inv_def)
    moreover have "conn_ok t ?r a'" if c': "conn_ok t r a'"
    proof -
      obtain b' where b': "m_buffer (fst (view r a')) = Some b'" using c' by (rule conn_bev)
      have "m_buffer (fst (view r a)) \<noteq> Some b'"
      proof
        assume *: "m_buffer (fst (view r a)) = Some b'"
        then have "\<not> idle_ok t r a" by (simp add: idle_ok_def)
        with inv(6) have "conn_ok t r a" by simp
        from own_bev_unique [OF this c'] * b' ne show False by simp
      qed
      with b' c(2) w2 have "bev_of (view ?r a') = bev_of (view r a')"
        using ne by (simp add: bev_of_def view_def)
      with ne have "conn_ok t ?r a' = conn_ok t r a'" by (intro conn_cong) simp_all
      with c' show ?thesis by simp
    qed
    moreover have "idle_ok t ?r a' = idle_ok t r a'" using ne by (intro idle_cong) simp
    ultimately show ?thesis by blast
  qed
  moreover have "\<exists>a' \<in> set q. m_buffer (fst (view ?r a')) = Some b" if "b \<in> dom (bevs w2)" for b
  proof -
    have "bevs w b \<noteq> None" using that w2 by auto
    with c(2) have b: "m_buffer (fst (view r a)) \<noteq> Some b" by metis
    with \<open>bevs w b \<noteq> None\<close> c(2) have "b \<in> dom (bevs (nw r))" by (auto simp: domIff)
    note b = this b
    then obtain a' where a': "a' \<in> set (a # q)" "m_buffer (fst (view r a')) = Some b"
      using Suc.prems(1) q unfolding close_inv_def by metis
    with b(2) have "a' \<noteq> a" by auto
    with a' show ?thesis by (auto simp: view_def)
  qed
  ultimately have "close_inv t ?r"
    using inv by (auto simp: close_inv_def)
  moreover have "k = length (m_queueILoop ?r)" using Suc.prems(2) q by simp
  ultimately show ?case unfolding step by (rule Suc.IH)
qed

lemma Resource_Close_ok:
  assumes "mm_total m" and "t \<le> EVQ_CAP" and "res_ok t r"
  shows "\<exists>r'. Resource_Close m r = Some r' \<and> m_queueILoop r' = [] \<and>
    chans r' = (\<lambda>_. None) \<and> bevs (nw r') = (\<lambda>_. None)"
proof -
  let ?r = "r\<lparr>m_queueILoop := m_queueILoop r @ m_listConnectClient r\<rparr>"
  note s = res_sets [OF assms(3)]
  have "conn_ok t ?r a = conn_ok t r a" "idle_ok t ?r a = idle_ok t r a" for a
    by (intro conn_cong idle_cong; simp add: view_def bev_of_def)+
  moreover have "dom (chans r) = {1..m_IChannelNum r}" using assms(3) by (simp add: res_ok_def)
  moreover have "0 \<notin> set (m_queueILoop r) \<union> set (m_listConnectClient r)" unfolding s(1) by simp
  moreover have "\<forall>b \<in> dom (bevs (nw r)). \<exists>a \<in> set (m_queueILoop ?r). m_buffer (fst (view ?r a)) = Some b"
    using res_okD(3) [OF assms(3)] by (fastforce simp: bev_owned_def view_def)
  moreover have "\<forall>a \<in> set (m_queueILoop ?r). conn_ok t r a \<or> idle_ok t r a"
    using res_okD(1,2) [OF assms(3)] by auto
  moreover have "distinct (m_queueILoop ?r)" using s(2-4) by simp
  ultimately have "close_inv t ?r" using s(1) by (simp add: close_inv_def)
  from close_loop_ok [OF assms(1,2) this refl] show ?thesis
    by (auto simp: Resource_Close_def close_inv_def)
qed

text \<open>
  C14: Closing frees everything. \<^verbatim>\<open>Close\<close> clears, closes and deletes every channel once, connected
  or idle, without touching a freed one, and afterwards no channel and no client's bufferevent is
  left.
\<close>

theorem resource_close:
  assumes "mm_total m" and "t \<le> EVQ_CAP" and "res_ok t r"
  shows "\<exists>r'. Resource_Close m r = Some r' \<and> m_queueILoop r' = [] \<and>
    chans r' = (\<lambda>_. None) \<and> bevs (nw r') = (\<lambda>_. None)"
  using assms by (rule Resource_Close_ok)

theorem resource_close_witness:
  "\<exists>r r'. Resource_Initialize False (new_SyinxAdapterResource 3 empty_net) = (True, r) \<and>
    Resource_Close zero_memory r = Some r' \<and> chans r' = (\<lambda>_. None)"
proof -
  obtain r where r: "Resource_Initialize False (new_SyinxAdapterResource 3 empty_net) = (True, r)"
    "res_ok 0 r"
    using Resource_Initialize_ok [of empty_net False 3] by (auto simp: empty_net_def)
  have "0 \<le> EVQ_CAP" by simp
  from resource_close [OF zero_memory_total this r(2)] r show ?thesis by blast
qed

end
