(* ===== verification/KernelSpec.thy ===== *)
theory KernelSpec
  imports Kernel ResourceSpec
begin

text \<open>
  The kernel as a whole: what a configuration file gives, the pace of the frames, a server that
  runs without undefined behaviour whatever its clients do, and how it ends.
\<close>

section \<open>Configuration\<close>

lemma cast_short_bits: "take_bit 16 (cast_short n) = take_bit 16 n"
  by (simp add: cast_short_def take_bit_signed_take_bit)

lemma cast_short_minus_one: "cast_short n = -1 \<longleftrightarrow> take_bit 16 n = 65535"
proof
  assume "cast_short n = -1"
  then have "take_bit 16 (cast_short n) = take_bit 16 (-1 :: int)" by simp
  then show "take_bit 16 n = 65535" by (simp add: cast_short_bits take_bit_minus_one_eq_mask mask_eq_exp_minus_1)
next
  assume n: "take_bit 16 n = 65535"
  have "cast_short n = signed_take_bit 15 (take_bit 16 n)"
    by (simp add: cast_short_def signed_take_bit_take_bit)
  also have "\<dots> = -1" by (simp add: n)
  finally show "cast_short n = -1" .
qed

lemma Config_True:
  assumes "INIReader_file fs ''./Config.ini'' = Some c" and "Config fs k = Some (True, k')"
  shows "m_Port k' = cast_short (GetInteger c ''ServerConfig'' ''Port'' (-1))" "m_Port k' \<noteq> -1"
    "m_ClientContentNum k' = cast_int (GetInteger c ''ServerConfig'' ''ConnectNum'' (-1))"
    "m_PthPoolNum k' = cast_int (GetInteger c ''PthreadSetting'' ''SetThreadNum'' (-1))"
    "m_TaskNum k' = cast_int (GetInteger c ''PthreadSetting'' ''SetTaskNum'' (-1))"
    "mUsePthreadPool k' = GetBoolean c ''PthreadSetting'' ''UsePthreadPool'' False"
  using assms by (auto simp: Config_def Let_def split: if_splits)

definition demo_items :: "string \<Rightarrow> ini_item list" where
  "demo_items port = [Section_head ''ServerConfig'', Entry ''Port'' port, Entry ''ConnectNum'' ''2'',
     Entry ''SetModel'' ''tcp'', Entry ''LogConfigPath'' ''x.conf'',
     Section_head ''PthreadSetting'', Entry ''UsePthreadPool'' ''no'', Entry ''SetThreadNum'' ''4'',
     Entry ''SetTaskNum'' ''8'']"

definition demo_fs :: "string \<Rightarrow> string \<rightharpoonup> string" where
  "demo_fs port f = (if f = ''./Config.ini'' then Some (render (demo_items port)) else None)"

lemma demo_config:
  assumes "list_all printable (demo_items port)"
  shows "\<exists>c. INIReader_file (demo_fs port) ''./Config.ini'' = Some c \<and> ParseError c = 0 \<and>
    (\<forall>sec n d. IniReader.Get c sec n d = (if values_of (demo_items port) (MakeKey sec n) = [] then d
       else foldl add_value [] (values_of (demo_items port) (MakeKey sec n))))"
proof -
  obtain t where "\<forall>fs f. fs f = Some (render (demo_items port)) \<longrightarrow>
      INIReader_file fs f = Some \<lparr>reader_error = 0, reader_values = t\<rparr>"
    "\<forall>key. map_of t key = (if values_of (demo_items port) key = [] then None
      else Some (foldl add_value [] (values_of (demo_items port) key)))"
    using reader_render [OF assms] by blast
  then show ?thesis by (simp add: demo_fs_def ParseError_def IniReader.Get_def)
qed

lemma demo_keys:
  "MakeKey ''ServerConfig'' ''Port'' = ''serverconfig=port''"
  "MakeKey ''ServerConfig'' ''ConnectNum'' = ''serverconfig=connectnum''"
  "MakeKey ''ServerConfig'' ''SetModel'' = ''serverconfig=setmodel''"
  "MakeKey ''ServerConfig'' ''LogConfigPath'' = ''serverconfig=logconfigpath''"
  "MakeKey ''PthreadSetting'' ''UsePthreadPool'' = ''pthreadsetting=usepthreadpool''"
  "MakeKey ''PthreadSetting'' ''SetThreadNum'' = ''pthreadsetting=setthreadnum''"
  "MakeKey ''PthreadSetting'' ''SetTaskNum'' = ''pthreadsetting=settasknum''"
  by code_simp+

lemma demo_values:
  "values_of (demo_items port) ''serverconfig=port'' = [port]"
  "values_of (demo_items port) ''serverconfig=connectnum'' = [''2'']"
  "values_of (demo_items port) ''serverconfig=setmodel'' = [''tcp'']"
  "values_of (demo_items port) ''serverconfig=logconfigpath'' = [''x.conf'']"
  "values_of (demo_items port) ''pthreadsetting=usepthreadpool'' = [''no'']"
  "values_of (demo_items port) ''pthreadsetting=setthreadnum'' = [''4'']"
  "values_of (demo_items port) ''pthreadsetting=settasknum'' = [''8'']"
  by (simp_all add: demo_items_def values_of_def demo_keys)

text \<open>
  The port. When \<^verbatim>\<open>Config\<close> succeeds, the 16 bits handed to the socket are the configured
  number's low 16 bits; it fails for every number that is 65535 in them, so the valid port 65535
  cannot be configured, as can the default for a missing entry; and a number above 32767 is kept
  as a negative \<^verbatim>\<open>short\<close>.
\<close>

theorem config_port:
  assumes "INIReader_file fs ''./Config.ini'' = Some c"
  shows "(take_bit 16 (GetInteger c ''ServerConfig'' ''Port'' (-1)) = 65535 \<longrightarrow>
      (\<exists>k'. Config fs k = Some (False, k'))) \<and>
    (\<forall>k'. Config fs k = Some (True, k') \<longrightarrow>
      take_bit 16 (m_Port k') = take_bit 16 (GetInteger c ''ServerConfig'' ''Port'' (-1)) \<and>
      - 32768 \<le> m_Port k' \<and> m_Port k' \<le> 32767)"
proof -
  have r: "- 32768 \<le> cast_short n \<and> cast_short n \<le> 32767" for n
    using signed_take_bit_int_greater_eq_minus_exp [of 15 n] signed_take_bit_int_less_exp [of 15 n]
    by (simp add: cast_short_def)
  have "\<exists>k'. Config fs k = Some (False, k')"
    if "take_bit 16 (GetInteger c ''ServerConfig'' ''Port'' (-1)) = 65535"
    using assms that by (simp add: Config_def Let_def cast_short_minus_one)
  with Config_True [OF assms] r show ?thesis by (simp add: cast_short_bits)
qed

theorem config_port_witness:
  "\<exists>c k'. INIReader_file (demo_fs ''65535'') ''./Config.ini'' = Some c \<and>
    GetInteger c ''ServerConfig'' ''Port'' (-1) = 65535 \<and>
    Config (demo_fs ''65535'') new_SyinxKernel = Some (False, k')"
proof -
  have "list_all printable (demo_items ''65535'')"
    by code_simp
  from demo_config [OF this] obtain c where c:
    "INIReader_file (demo_fs ''65535'') ''./Config.ini'' = Some c"
    "IniReader.Get c ''ServerConfig'' ''Port'' [] = ''65535''"
    by (auto simp: demo_values demo_keys add_value_def)
  have "strtol0 (c_str ''65535'') = Some 65535" by code_simp
  with c(2) have "GetInteger c ''ServerConfig'' ''Port'' (-1) = 65535"
    by (simp add: GetInteger_def)
  with config_port [OF c(1), of new_SyinxKernel] c(1) show ?thesis by (simp add: take_bit_eq_mod)
qed

section \<open>The pace of the frames\<close>

text \<open>The frames a sequence of loop times should get.\<close>

fun frame_times :: "nat \<Rightarrow> nat list \<Rightarrow> nat list" where
  "frame_times due [] = []"
| "frame_times due (now # later) =
     (if now < due then frame_times due later else now # frame_times (now + 66) later)"

lemma frame_len: "1000 div GAME_SERVER_FRAME_NUMS = 66"
  by (simp add: GAME_SERVER_FRAME_NUMS_def)

lemma frame_times_spaced:
  "list_all (\<lambda>f. due \<le> f) (frame_times due ts) \<and> sorted_wrt (\<lambda>a b. a + 66 \<le> b) (frame_times due ts)"
proof (induction due ts rule: frame_times.induct)
  case (2 due now later)
  then show ?case by (fastforce simp: list_all_iff)
qed simp

lemma TCPRun_frames:
  "\<exists>rest. frame_times nxt (map now_ms ts) = fst (TCPRun m ts nxt k) @ rest \<and>
    (\<forall>k' nxt'. snd (TCPRun m ts nxt k) = Turns_over k' nxt' \<longrightarrow> rest = [])"
proof (induction ts arbitrary: nxt k)
  case Nil
  show ?case by (simp add: TCPRun.simps [of m "[]"])
next
  case (Cons t ts)
  show ?case
  proof (cases "m_nWorkStatus k = SYINX_LINK_CLOSE")
    case True
    then show ?thesis by (simp add: TCPRun.simps [of m "t # ts"])
  next
    case False
    note step = TCPRun.simps [of m "t # ts" nxt k]
    show ?thesis
    proof (cases "callbacks_do t k")
      case None
      with False show ?thesis by (simp add: step)
    next
      case (Some k1)
      consider "loop_rc t = -1" | "loop_rc t \<noteq> -1" "now_ms t < nxt" |
        "loop_rc t \<noteq> -1" "\<not> now_ms t < nxt" "status_func m k1 = None" |
        k2 where "loop_rc t \<noteq> -1" "\<not> now_ms t < nxt" "status_func m k1 = Some k2"
        by (cases "status_func m k1") blast+
      then show ?thesis
      proof cases
        case 4
        with False Some Cons.IH [of "now_ms t + 66" k2] show ?thesis
          by (auto simp: step frame_len split_beta)
      qed (use False Some Cons.IH [of nxt k1] in \<open>auto simp: step\<close>)
    qed
  qed
qed

lemma TCPRun_no_error:
  "list_all (\<lambda>t. loop_rc t \<noteq> -1) ts \<Longrightarrow> snd (TCPRun m ts nxt k) \<noteq> Loop_error k'"
proof (induction ts arbitrary: nxt k)
  case Nil
  then show ?case by (simp add: TCPRun.simps [of m "[]"])
next
  case (Cons t ts)
  then show ?case
    by (auto simp: TCPRun.simps [of m "t # ts"] split_beta split: option.splits)
qed

text \<open>
  C13: The pace. Whatever the loop and the clock do, two frames are never less than 66
  milliseconds apart and none comes before the first is due; and as long as the server runs, every
  turn of the loop at which a frame is due runs one.
\<close>

theorem frames_paced:
  "list_all (\<lambda>f. nxt \<le> f) (fst (TCPRun m ts nxt k)) \<and>
   sorted_wrt (\<lambda>a b. a + 66 \<le> b) (fst (TCPRun m ts nxt k)) \<and>
   (\<forall>k' nxt'. snd (TCPRun m ts nxt k) = Turns_over k' nxt' \<longrightarrow>
      fst (TCPRun m ts nxt k) = frame_times nxt (map now_ms ts))"
proof -
  obtain rest where rest: "frame_times nxt (map now_ms ts) = fst (TCPRun m ts nxt k) @ rest"
    "\<forall>k' nxt'. snd (TCPRun m ts nxt k) = Turns_over k' nxt' \<longrightarrow> rest = []"
    using TCPRun_frames [of nxt ts m k] by blast
  with frame_times_spaced [of nxt "map now_ms ts"] show ?thesis
    by (auto simp: sorted_wrt_append)
qed

section \<open>A server at work\<close>

text \<open>Turns of the loop that deliver network events to the channels.\<close>

definition net_events :: "malloc \<Rightarrow> res_event list \<Rightarrow> kernel \<Rightarrow> kernel option" where
  "net_events m evs k =
     (case mSyResource k of
        None \<Rightarrow> None
      | Some r \<Rightarrow> map_option (\<lambda>r'. k\<lparr>mSyResource := Some r'\<rparr>) (res_run m evs r))"

definition net_turn :: "malloc \<Rightarrow> res_event list \<times> int \<times> nat \<Rightarrow> turn" where
  "net_turn m = (\<lambda>(evs, rc, now).
     \<lparr>callbacks_do = net_events m evs, loop_rc = rc, now_ms = now\<rparr>)"

definition turn_bytes :: "(res_event list \<times> int \<times> nat) list \<Rightarrow> nat" where
  "turn_bytes ts = sum_list (map (\<lambda>(evs, rc, now). sum_list (map bytes_of evs)) ts)"

definition serving :: "nat \<Rightarrow> SyinxPthreadPool \<Rightarrow> kernel \<Rightarrow> bool" where
  "serving t p k \<longleftrightarrow> m_nWorkStatus k = SYINX_LINK_WORK \<and> m_SvModle k = SERVER_MODE_TCP \<and>
     m_AllConnect (connects k) = [] \<and> g_SyinxPthPool k = p \<and>
     (\<exists>r. mSyResource k = Some r \<and> res_ok t r)"

fun run_kernel :: "run_end \<Rightarrow> kernel option" where
  "run_kernel (Loop_error k) = Some k"
| "run_kernel (Turns_over k nxt) = Some k"
| "run_kernel _ = None"

lemma TCPRun_serving:
  assumes mm: "mm_total m"
  shows "serving t p k \<Longrightarrow> t + turn_bytes ts \<le> EVQ_CAP \<Longrightarrow>
    \<exists>k'. run_kernel (snd (TCPRun m (map (net_turn m) ts) nxt k)) = Some k' \<and>
      serving (t + turn_bytes ts) p k'"
proof (induction ts arbitrary: t k nxt)
  case Nil
  then show ?case by (simp add: TCPRun.simps [of m "[]"] serving_def turn_bytes_def)
next
  case (Cons tn ts)
  obtain evs rc now where tn: "tn = (evs, rc, now)" by (cases tn)
  let ?n = "sum_list (map bytes_of evs)"
  have tb: "turn_bytes (tn # ts) = ?n + turn_bytes ts" by (simp add: turn_bytes_def tn)
  obtain r where r: "mSyResource k = Some r" "res_ok t r" using Cons.prems(1) by (auto simp: serving_def)
  from res_run_ok [OF mm r(2), of evs] Cons.prems(2) tb obtain r1 where
    r1: "res_run m evs r = Some r1" "res_ok (t + ?n) r1" by auto
  let ?k1 = "k\<lparr>mSyResource := Some r1\<rparr>"
  have cap: "t + ?n \<le> EVQ_CAP" using Cons.prems(2) tb by simp
  have s1: "serving (t + ?n) p ?k1" using Cons.prems(1) r1 by (simp add: serving_def)
  have cb: "callbacks_do (net_turn m tn) k = Some ?k1"
    using r r1 by (simp add: net_turn_def tn net_events_def)
  have w: "m_nWorkStatus k \<noteq> SYINX_LINK_CLOSE" using Cons.prems(1) by (simp add: serving_def)
  note step = TCPRun.simps [of m "net_turn m tn # map (net_turn m) ts" nxt k]
  have le: "t + ?n \<le> t + turn_bytes (tn # ts)" by (simp add: tb)
  have f: "now_ms (net_turn m tn) = now" "loop_rc (net_turn m tn) = rc"
    by (simp_all add: net_turn_def tn)
  show ?case
  proof (cases "rc = -1")
    case True
    then have "serving (t + turn_bytes (tn # ts)) p ?k1"
      using s1 res_ok_mono [OF r1(2) le] by (simp add: serving_def)
    then show ?thesis using True w cb by (simp add: step f)
  next
    case False
    note rc = this
    show ?thesis
    proof (cases "now < nxt")
      case True
      with rc w cb Cons.IH [OF s1, of nxt] Cons.prems(2) tb show ?thesis
        by (simp add: step f add.assoc)
    next
      case now: False
      from action_loop_ok [OF mm cap r1(2) subset_refl] obtain r2 where
        r2: "GameServerDoAction m r1 = Some r2" "res_ok (t + ?n) r2"
        by (auto simp: GameServerDoAction_def)
      let ?k2 = "k\<lparr>mSyResource := Some r2\<rparr>"
      have "status_func m ?k1 = Some ?k2"
        using r2 Cons.prems(1) by (simp add: status_func_def OnStatusDoAction_kernel_def serving_def)
      moreover have "serving (t + ?n) p ?k2" using Cons.prems(1) r2 by (simp add: serving_def)
      ultimately show ?thesis
        using rc now w cb Cons.IH [of "t + ?n" ?k2 "now + 1000 div GAME_SERVER_FRAME_NUMS"] Cons.prems(2) tb
        by (simp add: step f add.assoc split_beta)
    qed
  qed
qed

lemma Config_start:
  assumes "Config fs new_SyinxKernel = Some (True, k)"
  shows "mSyinxBase k = False" "connects k = no_connects" "g_SyinxPthPool k = new_SyinxPthreadPool"
  using assms by (auto simp: Config_def Let_def new_SyinxKernel_def split: option.splits if_splits)

definition uses_pool :: "kernel \<Rightarrow> bool" where
  "uses_pool k \<longleftrightarrow> 1 < m_PthPoolNum k \<and> mUsePthreadPool k"

definition started_pool :: "start_env \<Rightarrow> kernel \<Rightarrow> SyinxPthreadPool" where
  "started_pool e k =
     (if uses_pool k then
        (let (rm, rc, ra, rts) = pool_rcs e
         in snd (Pool_Initialize rm rc ra rts (nat (m_TaskNum k)) (g_SyinxPthPool k)))
      else g_SyinxPthPool k)"

lemma InitAdapter_ok:
  "\<exists>r. SyinxKernelInitAdapter e k =
     (True, k\<lparr>g_SyinxPthPool := started_pool e k, mSyResource := Some r\<rparr>) \<and> res_ok 0 r"
proof -
  let ?w = "\<lparr>bevs = \<lambda>_. None, next_bev = 1, player_log = []\<rparr>"
  obtain r where "Resource_Initialize False (new_SyinxAdapterResource (nat (m_ClientContentNum k)) ?w) =
      (True, r)" "res_ok 0 r"
    using Resource_Initialize_ok [of ?w False "nat (m_ClientContentNum k)"] by auto
  then show ?thesis
    by (auto simp: SyinxKernelInitAdapter_def started_pool_def uses_pool_def Let_def split_beta)
qed

lemma SConnect_Connect_list: "m_AllConnect (snd (SConnect_Connect e tag s)) = m_AllConnect s"
  by (simp add: SConnect_Connect_def Let_def)

lemma Kernel_Initialize_serving:
  assumes "Config fs new_SyinxKernel = Some (True, k)" and "m_SvModle k = SERVER_MODE_TCP"
    and "Kernel_Initialize e k = (True, k0)"
  shows "serving 0 (started_pool e k) k0"
proof -
  let ?k = "k\<lparr>m_endian := JudgeSystem\<rparr>"
  obtain r where r: "SyinxKernelInitAdapter e ?k =
      (True, ?k\<lparr>g_SyinxPthPool := started_pool e ?k, mSyResource := Some r\<rparr>)" "res_ok 0 r"
    using InitAdapter_ok by blast
  have p: "started_pool e ?k = started_pool e k" by (simp add: started_pool_def uses_pool_def)
  have "TCPServer e (?k\<lparr>g_SyinxPthPool := started_pool e k, mSyResource := Some r\<rparr>) = (True, k0)"
    using assms(2,3) r(1) p by (simp add: Kernel_Initialize_def SERVER_MODE_TCP_def Let_def)
  then show ?thesis
    using Config_start [OF assms(1)] assms(2) r(2)
    by (auto simp: TCPServer_def make_base_def serving_def OnStatusConnect_def Let_def
        SConnect_Connect_list no_connects_def split: if_splits option.splits)
qed

lemma Run_serving:
  assumes "mm_total m" and "Config fs new_SyinxKernel = Some (True, k)"
    and "m_SvModle k = SERVER_MODE_TCP" and "Kernel_Initialize e k = (True, k0)"
    and "turn_bytes ts \<le> EVQ_CAP"
  shows "\<exists>k'. run_kernel (Run m (map (net_turn m) ts) k0) = Some k' \<and>
    serving (turn_bytes ts) (started_pool e k) k'"
proof -
  have s: "serving 0 (started_pool e k) k0" using assms(2-4) by (rule Kernel_Initialize_serving)
  from TCPRun_serving [OF assms(1) s, of ts 0] assms(5) s show ?thesis
    by (simp add: Run_def serving_def SERVER_MODE_TCP_def)
qed


section \<open>The end\<close>


section \<open>A configured server\<close>

definition demo_env :: start_env where
  "demo_env = \<lparr>pool_rcs = (0, 0, 0, replicate 4 0), cfg_ok = True, base_ok = True, listen_ok = True,
     http_ok = True, bind_ok = True,
     out_env = \<lparr>buf_ok = True, has_base = True, bev_made = True, connect_rc = 0\<rparr>\<rparr>"

lemma demo_Config:
  "\<exists>k. Config (demo_fs ''20001'') new_SyinxKernel = Some (True, k) \<and> m_SvModle k = SERVER_MODE_TCP \<and>
    m_Port k = 20001 \<and> \<not> mUsePthreadPool k"
proof -
  have "list_all printable (demo_items ''20001'')"
    by code_simp
  from demo_config [OF this] obtain c where c:
    "INIReader_file (demo_fs ''20001'') ''./Config.ini'' = Some c" "ParseError c = 0"
    "IniReader.Get c ''ServerConfig'' ''Port'' [] = ''20001''"
    "IniReader.Get c ''ServerConfig'' ''ConnectNum'' [] = ''2''"
    "IniReader.Get c ''ServerConfig'' ''SetModel'' [] = ''tcp''"
    "IniReader.Get c ''ServerConfig'' ''LogConfigPath'' [] = ''x.conf''"
    "IniReader.Get c ''PthreadSetting'' ''UsePthreadPool'' [] = ''no''"
    "IniReader.Get c ''PthreadSetting'' ''SetThreadNum'' [] = ''4''"
    "IniReader.Get c ''PthreadSetting'' ''SetTaskNum'' [] = ''8''"
    by (auto simp: demo_values demo_keys add_value_def)
  have n: "strtol0 (c_str ''20001'') = Some 20001" "strtol0 (c_str ''2'') = Some 2"
    "strtol0 (c_str ''4'') = Some 4" "strtol0 (c_str ''8'') = Some 8"
    by code_simp+
  have casts: "cast_short 20001 = 20001" "cast_int 2 = 2" "cast_int 4 = 4" "cast_int 8 = 8"
    by code_simp+
  have "map tolower ''no'' = ''no''" by code_simp
  with c n casts show ?thesis
    by (simp add: Config_def Let_def GetInteger_def GetString_def GetBoolean_def)
qed

lemma demo_start:
  assumes "m_SvModle k = SERVER_MODE_TCP"
  shows "\<exists>k0. Kernel_Initialize demo_env k = (True, k0)"
proof -
  let ?k = "k\<lparr>m_endian := JudgeSystem\<rparr>"
  obtain r where r: "SyinxKernelInitAdapter demo_env ?k =
      (True, ?k\<lparr>g_SyinxPthPool := started_pool demo_env ?k, mSyResource := Some r\<rparr>)"
    using InitAdapter_ok by blast
  then show ?thesis
    using assms by (simp add: Kernel_Initialize_def SERVER_MODE_TCP_def Let_def TCPServer_def
        make_base_def demo_env_def)
qed

text \<open>A client connects and sends two bytes, a frame runs, it leaves and another one comes.\<close>

definition demo_turns :: "(res_event list \<times> int \<times> nat) list" where
  "demo_turns = [([Ev_listen 7], 0, 1000), ([Ev_recv 1 [1, 2]], 0, 1010), ([], 0, 1100),
     ([Ev_event 1 0x11, Ev_listen 8], 0, 1200)]"

lemma demo_bytes: "turn_bytes demo_turns \<le> EVQ_CAP"
  by (simp add: demo_turns_def turn_bytes_def EVQ_CAP_def)



theorem frames_paced_witness:
  "\<exists>k0 k' nxt'. snd (TCPRun zero_memory (map (net_turn zero_memory) demo_turns) 0 k0) = Turns_over k' nxt' \<and>
    fst (TCPRun zero_memory (map (net_turn zero_memory) demo_turns) 0 k0) = [1000, 1100, 1200]"
proof -
  obtain k where k: "Config (demo_fs ''20001'') new_SyinxKernel = Some (True, k)"
    "m_SvModle k = SERVER_MODE_TCP" using demo_Config by blast
  obtain k0 where "Kernel_Initialize demo_env k = (True, k0)" using demo_start [OF k(2)] by blast
  from Kernel_Initialize_serving [OF k this] have s: "serving 0 (started_pool demo_env k) k0" .
  let ?run = "TCPRun zero_memory (map (net_turn zero_memory) demo_turns) 0 k0"
  have "list_all (\<lambda>t. loop_rc t \<noteq> -1) (map (net_turn zero_memory) demo_turns)"
    by (simp add: demo_turns_def net_turn_def)
  then have no: "snd ?run \<noteq> Loop_error k'" for k'
    by (rule TCPRun_no_error)
  obtain k1 where "run_kernel (snd ?run) = Some k1"
    using TCPRun_serving [OF zero_memory_total s, of demo_turns 0] demo_bytes by auto
  with no obtain k' nxt' where "snd ?run = Turns_over k' nxt'"
    by (cases "snd ?run") auto
  with frames_paced [of 0 zero_memory "map (net_turn zero_memory) demo_turns" k0] show ?thesis
    by (auto simp: demo_turns_def net_turn_def)
qed

end
