(* ===== verification/Timers.thy ===== *)
theory Timers
  imports Prelude
begin

text \<open>
  Times and the min-heap of libevent that holds the events with a timeout
  (\<^verbatim>\<open>minheap-internal.h\<close>). Events are numbers. The heap works on an array of them, on the
  deadline \<open>K\<close> of each, which it only reads, and on the field \<^verbatim>\<open>min_heap_idx\<close> of each.
\<close>

section \<open>Times\<close>

datatype timeval = Timeval (tv_sec: int) (tv_usec: int)

instantiation timeval :: linorder
begin

definition less_eq_timeval :: "timeval \<Rightarrow> timeval \<Rightarrow> bool" where
  "less_eq_timeval a b \<longleftrightarrow> (if tv_sec a = tv_sec b then tv_usec a \<le> tv_usec b else tv_sec a \<le> tv_sec b)"

definition less_timeval :: "timeval \<Rightarrow> timeval \<Rightarrow> bool" where
  "less_timeval a b \<longleftrightarrow> (if tv_sec a = tv_sec b then tv_usec a < tv_usec b else tv_sec a < tv_sec b)"

instance
  by standard (auto simp: less_eq_timeval_def less_timeval_def timeval.expand split: if_splits)

end

definition evutil_timeradd :: "timeval \<Rightarrow> timeval \<Rightarrow> timeval" where
  "evutil_timeradd t u =
     (let s = tv_sec t + tv_sec u; us = tv_usec t + tv_usec u
      in if us \<ge> 1000000 then Timeval (s + 1) (us - 1000000) else Timeval s us)"

definition evutil_timersub :: "timeval \<Rightarrow> timeval \<Rightarrow> timeval" where
  "evutil_timersub t u =
     (let s = tv_sec t - tv_sec u; us = tv_usec t - tv_usec u
      in if us < 0 then Timeval (s - 1) (us + 1000000) else Timeval s us)"

definition evutil_timerclear :: timeval where
  "evutil_timerclear = Timeval 0 0"

section \<open>The heap\<close>

record min_heap =
  hp :: "nat list"
  hn :: nat
  ha :: nat
  hidx :: "nat \<Rightarrow> nat"

definition min_heap_ctor :: "min_heap" where
  "min_heap_ctor = \<lparr>hp = [], hn = 0, ha = 0, hidx = \<lambda>_. EV_SIZE_MAX\<rparr>"

definition min_heap_elem_init :: "nat \<Rightarrow> min_heap \<Rightarrow> min_heap" where
  "min_heap_elem_init e h = h\<lparr>hidx := (hidx h)(e := EV_SIZE_MAX)\<rparr>"

definition min_heap_empty :: "min_heap \<Rightarrow> bool" where
  "min_heap_empty h \<longleftrightarrow> hn h = 0"

definition min_heap_top :: "min_heap \<Rightarrow> nat option" where
  "min_heap_top h = (if hn h \<noteq> 0 then Some (hp h ! 0) else None)"

definition min_heap_elt_is_top :: "nat \<Rightarrow> min_heap \<Rightarrow> bool" where
  "min_heap_elt_is_top e h \<longleftrightarrow> hidx h e = 0"

text \<open>\<^verbatim>\<open>(s->p[i] = e)->ev_timeout_pos.min_heap_idx = i\<close>\<close>

definition put_slot :: "nat \<Rightarrow> nat \<Rightarrow> min_heap \<Rightarrow> min_heap" where
  "put_slot i e h = h\<lparr>hp := (hp h)[i := e], hidx := (hidx h)(e := i)\<rparr>"

function min_heap_shift_up :: "(nat \<Rightarrow> timeval) \<Rightarrow> nat \<Rightarrow> nat \<Rightarrow> min_heap \<Rightarrow> min_heap" where
  "min_heap_shift_up K i e h =
     (let parent = (i - 1) div 2
      in if i \<noteq> 0 \<and> K (hp h ! parent) > K e
         then min_heap_shift_up K parent e (put_slot i (hp h ! parent) h)
         else put_slot i e h)"
  by pat_completeness auto
termination
  by (relation "measure (\<lambda>(K, i, e, h). i)") auto

definition min_heap_shift_up_unconditional :: "(nat \<Rightarrow> timeval) \<Rightarrow> nat \<Rightarrow> nat \<Rightarrow> min_heap \<Rightarrow> min_heap" where
  "min_heap_shift_up_unconditional K i e h =
     (let parent = (i - 1) div 2
      in min_heap_shift_up K parent e (put_slot i (hp h ! parent) h))"

function min_heap_shift_down :: "(nat \<Rightarrow> timeval) \<Rightarrow> nat \<Rightarrow> nat \<Rightarrow> min_heap \<Rightarrow> min_heap" where
  "min_heap_shift_down K i e h =
     (let min_child = 2 * (i + 1)
      in if min_child \<le> hn h then
           (let min_child = min_child -
                  (if min_child = hn h \<or> K (hp h ! min_child) > K (hp h ! (min_child - 1)) then 1 else 0)
            in if \<not> K e > K (hp h ! min_child) then put_slot i e h
               else min_heap_shift_down K min_child e (put_slot i (hp h ! min_child) h))
         else put_slot i e h)"
  by pat_completeness auto
termination
  by (relation "measure (\<lambda>(K, i, e, h). hn h - i)") (auto simp: put_slot_def split: if_splits)

declare min_heap_shift_up.simps [simp del] min_heap_shift_down.simps [simp del]

text \<open>\<open>mem\<close> tells for which sizes \<^verbatim>\<open>realloc\<close> succeeds.\<close>

definition min_heap_reserve :: "(nat \<Rightarrow> bool) \<Rightarrow> nat \<Rightarrow> min_heap \<Rightarrow> int \<times> min_heap" where
  "min_heap_reserve mem n h =
     (if ha h < n then
        (let a = (if ha h \<noteq> 0 then ha h * 2 else 8);
             a = (if a < n then n else a)
         in if \<not> mem (a * 8) then (-1, h)
            else (0, h\<lparr>hp := hp h @ replicate (a - length (hp h)) 0, ha := a\<rparr>))
      else (0, h))"

definition min_heap_push :: "(nat \<Rightarrow> bool) \<Rightarrow> (nat \<Rightarrow> timeval) \<Rightarrow> nat \<Rightarrow> min_heap \<Rightarrow> int \<times> min_heap" where
  "min_heap_push mem K e h =
     (let (r, h) = min_heap_reserve mem (hn h + 1) h
      in if r \<noteq> 0 then (-1, h)
         else (0, min_heap_shift_up K (hn h) e (h\<lparr>hn := hn h + 1\<rparr>)))"

definition min_heap_pop :: "(nat \<Rightarrow> timeval) \<Rightarrow> min_heap \<Rightarrow> nat option \<times> min_heap" where
  "min_heap_pop K h =
     (if hn h \<noteq> 0 then
        (let e = hp h ! 0;
             h = h\<lparr>hn := hn h - 1\<rparr>;
             h = min_heap_shift_down K 0 (hp h ! hn h) h
         in (Some e, h\<lparr>hidx := (hidx h)(e := EV_SIZE_MAX)\<rparr>))
      else (None, h))"

definition min_heap_erase :: "(nat \<Rightarrow> timeval) \<Rightarrow> nat \<Rightarrow> min_heap \<Rightarrow> int \<times> min_heap" where
  "min_heap_erase K e h =
     (if EV_SIZE_MAX \<noteq> hidx h e then
        (let h = h\<lparr>hn := hn h - 1\<rparr>;
             last = hp h ! hn h;
             i = hidx h e;
             parent = (i - 1) div 2;
             h = (if 0 < i \<and> K (hp h ! parent) > K last
                  then min_heap_shift_up_unconditional K i last h
                  else min_heap_shift_down K i last h)
         in (0, h\<lparr>hidx := (hidx h)(e := EV_SIZE_MAX)\<rparr>))
      else (-1, h))"

text \<open>\<open>K\<close> has the new deadline of \<open>e\<close>.\<close>

definition min_heap_adjust :: "(nat \<Rightarrow> bool) \<Rightarrow> (nat \<Rightarrow> timeval) \<Rightarrow> nat \<Rightarrow> min_heap \<Rightarrow> int \<times> min_heap" where
  "min_heap_adjust mem K e h =
     (if EV_SIZE_MAX = hidx h e then min_heap_push mem K e h
      else
        (let i = hidx h e; parent = (i - 1) div 2
         in (0, if 0 < i \<and> K (hp h ! parent) > K e
                then min_heap_shift_up_unconditional K i e h
                else min_heap_shift_down K i e h)))"

section \<open>Order\<close>

definition elems :: "min_heap \<Rightarrow> nat list" where
  "elems h = take (hn h) (hp h)"

definition ordered :: "(nat \<Rightarrow> timeval) \<Rightarrow> nat list \<Rightarrow> bool" where
  "ordered K q \<longleftrightarrow> (\<forall>j. 0 < j \<and> j < length q \<longrightarrow> K (q ! ((j - 1) div 2)) \<le> K (q ! j))"

text \<open>Order but at the parent of \<open>i\<close>, but at the children of \<open>i\<close>, and across \<open>i\<close>.\<close>

definition up_hole :: "(nat \<Rightarrow> timeval) \<Rightarrow> nat \<Rightarrow> nat list \<Rightarrow> bool" where
  "up_hole K i q \<longleftrightarrow> (\<forall>j. 0 < j \<and> j < length q \<and> j \<noteq> i \<longrightarrow> K (q ! ((j - 1) div 2)) \<le> K (q ! j))"

definition down_hole :: "(nat \<Rightarrow> timeval) \<Rightarrow> nat \<Rightarrow> nat list \<Rightarrow> bool" where
  "down_hole K i q \<longleftrightarrow>
     (\<forall>j. 0 < j \<and> j < length q \<and> (j - 1) div 2 \<noteq> i \<longrightarrow> K (q ! ((j - 1) div 2)) \<le> K (q ! j))"

definition across :: "(nat \<Rightarrow> timeval) \<Rightarrow> nat \<Rightarrow> nat list \<Rightarrow> bool" where
  "across K i q \<longleftrightarrow>
     (\<forall>c. 0 < i \<and> 0 < c \<and> c < length q \<and> (c - 1) div 2 = i \<longrightarrow> K (q ! ((i - 1) div 2)) \<le> K (q ! c))"

definition swap :: "nat \<Rightarrow> nat \<Rightarrow> 'a list \<Rightarrow> 'a list" where
  "swap i j q = q[i := q ! j, j := q ! i]"

lemma swap_length [simp]: "length (swap i j q) = length q"
  by (simp add: swap_def)

lemma swap_nth:
  "i < length q \<Longrightarrow> j < length q \<Longrightarrow> k < length q \<Longrightarrow>
    swap i j q ! k = (if k = i then q ! j else if k = j then q ! i else q ! k)"
  by (auto simp: swap_def nth_list_update)

lemma swap_mset: "i < length q \<Longrightarrow> j < length q \<Longrightarrow> mset (swap i j q) = mset q"
  by (simp add: swap_def mset_swap)

abbreviation parent_of :: "nat \<Rightarrow> nat" where
  "parent_of i \<equiv> (i - 1) div 2"

lemma parent_less: "0 < i \<Longrightarrow> parent_of i < i"
  by auto

lemma up_step:
  assumes "up_hole K i q" and "across K i q" and i: "0 < i" "i < length q"
    and p: "p = parent_of i" and lt: "K (q ! i) < K (q ! p)"
  shows "up_hole K p (swap i p q)" and "across K p (swap i p q)"
proof -
  have p': "p < i" "p < length q" using i parent_less [of i] by (simp_all add: p)
  have o: "K (q ! parent_of j) \<le> K (q ! j)" if "0 < j" "j < length q" "j \<noteq> i" for j
    using assms(1) that by (simp add: up_hole_def)
  have b: "K (q ! p) \<le> K (q ! c)" if "0 < c" "c < length q" "parent_of c = i" for c
    using assms(2) i that by (simp add: across_def p)
  note n = swap_nth [OF i(2) p'(2)]
  have "K (swap i p q ! parent_of j) \<le> K (swap i p q ! j)" if j: "0 < j" "j < length q" "j \<noteq> p" for j
  proof -
    have pj: "parent_of j < length q" using j by simp
    consider "j = i" | "j \<noteq> i" "parent_of j = i" | "j \<noteq> i" "parent_of j = p"
      | "j \<noteq> i" "parent_of j \<noteq> i" "parent_of j \<noteq> p" by blast
    then show ?thesis
    proof cases
      case 1
      then show ?thesis using i p' lt unfolding p [symmetric] 1 by (simp only: n if_True) simp
    next
      case 2
      then show ?thesis using b [of j] j n [OF pj] n [OF j(2)] by simp
    next
      case 3
      with o [of j] j lt have "K (q ! i) \<le> K (q ! j)" by simp
      then show ?thesis using 3 j n [OF pj] n [OF j(2)] p' by simp
    next
      case 4
      then show ?thesis using o [of j] j n [OF pj] n [OF j(2)] by simp
    qed
  qed
  then show "up_hole K p (swap i p q)" by (simp add: up_hole_def)
  have "K (swap i p q ! parent_of p) \<le> K (swap i p q ! c)"
    if c: "0 < p" "0 < c" "c < length q" "parent_of c = p" for c
  proof -
    have pp: "parent_of p < p" "parent_of p < length q" using parent_less [OF c(1)] p' by simp_all
    have a: "K (q ! parent_of p) \<le> K (q ! p)" using o [of p] c(1) p' by simp
    have cp: "c \<noteq> p" using c(2,4) parent_less [of c] by auto
    have "K (q ! parent_of p) \<le> K (q ! c)" if "c \<noteq> i" using o [of c] c a that by simp
    with a cp pp p' n [OF pp(2)] n [OF c(3)] show ?thesis by auto
  qed
  then show "across K p (swap i p q)" by (simp add: across_def)
qed

lemma down_step:
  assumes "down_hole K i q" and "across K i q" and i: "i < length q"
    and c: "parent_of c = i" "0 < c" "c < length q" and lt: "K (q ! c) < K (q ! i)"
    and least: "\<forall>c'. 0 < c' \<and> c' < length q \<and> parent_of c' = i \<longrightarrow> K (q ! c) \<le> K (q ! c')"
  shows "down_hole K c (swap i c q)" and "across K c (swap i c q)"
proof -
  have ic: "i < c" using c(1) parent_less [OF c(2)] by simp
  have o: "K (q ! parent_of j) \<le> K (q ! j)" if "0 < j" "j < length q" "parent_of j \<noteq> i" for j
    using assms(1) that by (simp add: down_hole_def)
  note n = swap_nth [OF i c(3)]
  have "K (swap i c q ! parent_of j) \<le> K (swap i c q ! j)"
    if j: "0 < j" "j < length q" "parent_of j \<noteq> c" for j
  proof -
    have pj: "parent_of j < length q" using j by simp
    note nn = n [OF pj] n [OF j(2)]
    consider "j = c" | "j = i" | "j \<noteq> c" "j \<noteq> i" "parent_of j = i"
      | "j \<noteq> c" "j \<noteq> i" "parent_of j \<noteq> i" by blast
    then show ?thesis
    proof cases
      case 1
      then show ?thesis using lt nn c(1) ic by simp
    next
      case 2
      then have "K (q ! parent_of i) \<le> K (q ! c)"
        using assms(2) c j(1) by (simp add: across_def)
      moreover have "parent_of i < i" using 2 j(1) by (simp only: parent_less)
      ultimately show ?thesis using 2 nn ic by simp
    next
      case 3
      then show ?thesis using least j nn by simp
    next
      case 4
      then show ?thesis using o [of j] j nn by simp
    qed
  qed
  then show "down_hole K c (swap i c q)" by (simp add: down_hole_def)
  have "K (swap i c q ! parent_of c) \<le> K (swap i c q ! d)"
    if d: "0 < d" "d < length q" "parent_of d = c" for d
  proof -
    have "d \<noteq> c" "d \<noteq> i" using d(1,3) parent_less [of d] ic by auto
    moreover have "K (q ! c) \<le> K (q ! d)" using o [of d] d ic by simp
    ultimately show ?thesis using n [OF d(2)] n [OF i] c(1) by simp
  qed
  then show "across K c (swap i c q)" by (simp add: across_def)
qed

section \<open>Moving the hole\<close>

text \<open>The heap with a hole at \<open>i\<close>, for the element that \<open>q\<close> has there.\<close>

definition holed :: "min_heap \<Rightarrow> nat list \<Rightarrow> nat \<Rightarrow> bool" where
  "holed h q i \<longleftrightarrow> length q = hn h \<and> hn h \<le> length (hp h) \<and> distinct q \<and> i < hn h \<and>
     (\<forall>j < hn h. j \<noteq> i \<longrightarrow> hp h ! j = q ! j \<and> hidx h (q ! j) = j)"

definition settled :: "(nat \<Rightarrow> timeval) \<Rightarrow> min_heap \<Rightarrow> nat list \<Rightarrow> min_heap \<Rightarrow> bool" where
  "settled K h q h' \<longleftrightarrow> mset (elems h') = mset q \<and> ordered K (elems h') \<and>
     (\<forall>j < hn h. hidx h' (elems h' ! j) = j) \<and> hn h' = hn h \<and> ha h' = ha h \<and>
     length (hp h') = length (hp h) \<and> (\<forall>x. x \<notin> set q \<longrightarrow> hidx h' x = hidx h x)"

lemma put_slot_simps [simp]:
  "hn (put_slot i e h) = hn h" "ha (put_slot i e h) = ha h"
  "hp (put_slot i e h) = (hp h)[i := e]" "hidx (put_slot i e h) = (hidx h)(e := i)"
  by (simp_all add: put_slot_def)

lemma holed_move:
  assumes "holed h q i" and p: "p < hn h" "p \<noteq> i"
  shows "holed (put_slot i (hp h ! p) h) (swap i p q) p" and "swap i p q ! p = q ! i"
    and "settled K (put_slot i (hp h ! p) h) (swap i p q) h' \<Longrightarrow> settled K h q h'"
proof -
  have h: "length q = hn h" "hn h \<le> length (hp h)" "distinct q" "i < hn h" "hp h ! p = q ! p"
    and at: "\<And>j. j < hn h \<Longrightarrow> j \<noteq> i \<Longrightarrow> hp h ! j = q ! j \<and> hidx h (q ! j) = j"
    using assms by (auto simp: holed_def)
  have d: "distinct (swap i p q)" using h p by (simp add: swap_def)
  have qp: "q ! j = q ! p \<longleftrightarrow> j = p" if "j < hn h" for j
    using h(1,3) p(1) that by (simp add: nth_eq_iff_index_eq)
  show "holed (put_slot i (hp h ! p) h) (swap i p q) p"
    using h p d at qp by (auto simp: holed_def swap_nth nth_list_update)
  show "swap i p q ! p = q ! i" using h p by (simp add: swap_nth)
  have m: "mset (swap i p q) = mset q" using h p by (simp add: swap_mset)
  then have s: "set (swap i p q) = set q" by (rule mset_eq_setD)
  have "q ! p \<in> set q" using h p by simp
  then have "x \<noteq> q ! p" if "x \<notin> set q" for x using that by auto
  then show "settled K (put_slot i (hp h ! p) h) (swap i p q) h' \<Longrightarrow> settled K h q h'"
    by (auto simp: settled_def m s h(5))
qed

lemma holed_fill:
  assumes "holed h q i" and "ordered K q"
  shows "settled K h q (put_slot i (q ! i) h)"
proof -
  have e: "elems (put_slot i (q ! i) h) = q"
    using assms(1) by (intro nth_equalityI) (auto simp: holed_def elems_def nth_list_update)
  have "hidx (put_slot i (q ! i) h) (q ! j) = j" if "j < hn h" for j
    using assms(1) that by (cases "j = i") (auto simp: holed_def nth_eq_iff_index_eq)
  moreover have "q ! i \<in> set q" using assms(1) by (simp add: holed_def)
  ultimately show ?thesis using assms(2) unfolding settled_def e by auto
qed

lemma shift_up_settles:
  "holed h q i \<Longrightarrow> up_hole K i q \<Longrightarrow> across K i q \<Longrightarrow> settled K h q (min_heap_shift_up K i (q ! i) h)"
proof (induction i arbitrary: h q rule: less_induct)
  case (less i)
  define p where "p = parent_of i"
  note step = min_heap_shift_up.simps [of K i "q ! i" h, unfolded Let_def, folded p_def]
  have i: "i < length q" using less.prems(1) by (simp add: holed_def)
  show ?case
  proof (cases "i \<noteq> 0 \<and> K (hp h ! p) > K (q ! i)")
    case True
    then have p: "p < i" using parent_less [of i] by (simp add: p_def)
    then have p': "p < hn h" "p \<noteq> i" "hp h ! p = q ! p" using less.prems(1) by (auto simp: holed_def)
    note mv = holed_move [OF less.prems(1) p'(1,2)]
    have "K (q ! i) < K (q ! p)" "0 < i" using True p'(3) by simp_all
    note up = up_step [OF less.prems(2,3) this(2) i p_def this(1)]
    from less.IH [OF p mv(1) up] have
      "settled K h q (min_heap_shift_up K p (swap i p q ! p) (put_slot i (hp h ! p) h))"
      by (rule mv(3))
    then show ?thesis using True mv(2) by (simp add: step)
  next
    case False
    have "ordered K q" unfolding ordered_def
    proof (intro allI impI)
      fix j assume j: "0 < j \<and> j < length q"
      show "K (q ! parent_of j) \<le> K (q ! j)"
      proof (cases "j = i")
        case True
        then have "hp h ! p = q ! p"
          using j less.prems(1) parent_less [of i] by (simp add: holed_def p_def)
        then show ?thesis using False True j by (simp add: p_def)
      next
        case False
        then show ?thesis using less.prems(2) j by (simp add: up_hole_def)
      qed
    qed
    then have "settled K h q (put_slot i (q ! i) h)" by (rule holed_fill [OF less.prems(1)])
    then show ?thesis using False by (auto simp: step)
  qed
qed

lemma parent_iff: "0 < j \<Longrightarrow> parent_of j = i \<longleftrightarrow> j = 2 * i + 1 \<or> j = 2 * (i + 1)"
  by auto

lemma shift_down_settles:
  "holed h q i \<Longrightarrow> down_hole K i q \<Longrightarrow> across K i q \<Longrightarrow>
    settled K h q (min_heap_shift_down K i (q ! i) h)"
proof (induction "hn h - i" arbitrary: h q i rule: less_induct)
  case less
  note step = min_heap_shift_down.simps [of K i "q ! i" h, unfolded Let_def]
  have len: "length q = hn h" and at: "\<And>j. j < hn h \<Longrightarrow> j \<noteq> i \<Longrightarrow> hp h ! j = q ! j"
    using less.prems(1) by (auto simp: holed_def)
  have i: "i < length q" using less.prems(1) by (simp add: holed_def)
  define c where "c = 2 * (i + 1) -
    (if 2 * (i + 1) = hn h \<or> K (hp h ! (2 * (i + 1))) > K (hp h ! (2 * (i + 1) - 1)) then 1 else 0 :: nat)"
  note step = step [folded c_def]
  have full: "ordered K q"
    if "\<And>j. 0 < j \<Longrightarrow> j < length q \<Longrightarrow> parent_of j = i \<Longrightarrow> K (q ! i) \<le> K (q ! j)"
    using less.prems(2) that unfolding ordered_def down_hole_def by metis
  show ?case
  proof (cases "2 * (i + 1) \<le> hn h")
    case False
    have "ordered K q" using False len by (intro full) (auto simp: parent_iff)
    with holed_fill [OF less.prems(1)] False show ?thesis by (simp add: step)
  next
    case True
    have c: "parent_of c = i" "0 < c" "c < hn h" "c \<noteq> i" "i < c"
      using True by (auto simp: c_def)
    have cs: "K (q ! c) \<le> K (q ! j)" if j: "0 < j" "j < length q" "parent_of j = i" for j
    proof -
      have "j = 2 * i + 1 \<or> j = 2 * (i + 1)" using j by (simp only: parent_iff)
      then show ?thesis
        using j(2) len True at [of "2 * i + 1"] at [of "2 * (i + 1)"]
        by (auto simp: c_def split: if_splits)
    qed
    show ?thesis
    proof (cases "K (q ! i) > K (hp h ! c)")
      case True
      note mv = holed_move [OF less.prems(1) c(3,4)]
      have lt: "K (q ! c) < K (q ! i)" using True at [OF c(3,4)] by simp
      have cl: "c < length q" using c(3) len by simp
      note dn = down_step [OF less.prems(2,3) i c(1,2) cl lt]
      have "hn (put_slot i (hp h ! c) h) - c < hn h - i" using c i len by simp
      from less.hyps [OF this mv(1) dn] cs have
        "settled K h q (min_heap_shift_down K c (swap i c q ! c) (put_slot i (hp h ! c) h))"
        by (intro mv(3)) blast
      then show ?thesis using True mv(2) \<open>2 * (i + 1) \<le> hn h\<close> by (simp add: step)
    next
      case False
      have "ordered K q"
      proof (rule full)
        fix j assume j: "0 < j" "j < length q" "parent_of j = i"
        have "K (q ! i) \<le> K (q ! c)" using False at [OF c(3,4)] by simp
        with cs [OF j] show "K (q ! i) \<le> K (q ! j)" by simp
      qed
      with holed_fill [OF less.prems(1)] False \<open>2 * (i + 1) \<le> hn h\<close> show ?thesis by (simp add: step)
    qed
  qed
qed

section \<open>The operations\<close>

definition heap_ok :: "(nat \<Rightarrow> timeval) \<Rightarrow> min_heap \<Rightarrow> bool" where
  "heap_ok K h \<longleftrightarrow> hn h \<le> ha h \<and> length (hp h) = ha h \<and> hn h < EV_SIZE_MAX \<and>
     distinct (elems h) \<and> ordered K (elems h) \<and> (\<forall>j < hn h. hidx h (elems h ! j) = j) \<and>
     (\<forall>e. e \<notin> set (elems h) \<longrightarrow> hidx h e = EV_SIZE_MAX)"

lemma length_elems: "heap_ok K h \<Longrightarrow> length (elems h) = hn h"
  by (simp add: heap_ok_def elems_def)

lemma elems_nth: "j < hn h \<Longrightarrow> elems h ! j = hp h ! j"
  by (simp add: elems_def)

lemma heap_ok_cong:
  assumes "\<And>e. e \<in> set (elems h) \<Longrightarrow> K' e = K e"
  shows "heap_ok K' h = heap_ok K h"
proof -
  have "K' (elems h ! j) = K (elems h ! j)" if "j < length (elems h)" for j
    using assms nth_mem [OF that] by simp
  then have "ordered K' (elems h) = ordered K (elems h)" by (auto simp: ordered_def)
  then show ?thesis by (simp add: heap_ok_def)
qed

lemma heap_idx:
  assumes "heap_ok K h"
  shows "e \<in> set (elems h) \<longleftrightarrow> hidx h e \<noteq> EV_SIZE_MAX"
    and "e \<in> set (elems h) \<Longrightarrow> hidx h e < hn h \<and> hp h ! hidx h e = e"
proof -
  have i: "hidx h e < hn h \<and> hp h ! hidx h e = e" if m: "e \<in> set (elems h)"
  proof -
    from m obtain j where "j < hn h" "elems h ! j = e"
      using length_elems [OF assms] by (auto simp: in_set_conv_nth)
    then show ?thesis using assms by (auto simp: heap_ok_def elems_nth)
  qed
  then show "e \<in> set (elems h) \<Longrightarrow> hidx h e < hn h \<and> hp h ! hidx h e = e" .
  show "e \<in> set (elems h) \<longleftrightarrow> hidx h e \<noteq> EV_SIZE_MAX"
    using assms i by (auto simp: heap_ok_def)
qed

lemma settled_ok:
  assumes "settled K h q h'" and "distinct q" and "length q = hn h" and "hn h \<le> ha h"
    and "length (hp h) = ha h" and "hn h < EV_SIZE_MAX"
    and "\<And>x. x \<notin> set q \<Longrightarrow> hidx h x = EV_SIZE_MAX"
  shows "heap_ok K h'"
proof -
  have m: "mset (elems h') = mset q" using assms(1) by (simp add: settled_def)
  have "distinct (elems h')" using assms(2) mset_eq_imp_distinct_iff [OF m] by simp
  moreover have "set (elems h') = set q" using m by (rule mset_eq_setD)
  ultimately show ?thesis using assms unfolding heap_ok_def settled_def by auto
qed

text \<open>After the last element of \<open>q\<close> was taken out, with the index of \<open>e\<close> to be reset.\<close>

lemma settled_erased:
  assumes "settled K h q h'" and "distinct q" and "length q = hn h" and "hn h \<le> ha h"
    and "length (hp h) = ha h" and "hn h < EV_SIZE_MAX" and "e \<notin> set q"
    and "\<And>x. x \<notin> set q \<Longrightarrow> x \<noteq> e \<Longrightarrow> hidx h x = EV_SIZE_MAX"
  shows "heap_ok K (h'\<lparr>hidx := (hidx h')(e := EV_SIZE_MAX)\<rparr>)"
proof -
  have m: "mset (elems h') = mset q" using assms(1) by (simp add: settled_def)
  have d: "distinct (elems h')" using assms(2) mset_eq_imp_distinct_iff [OF m] by simp
  have s: "set (elems h') = set q" using m by (rule mset_eq_setD)
  have "elems h' ! j \<noteq> e" if "j < hn h" for j
  proof -
    have "length (elems h') = hn h" using assms(3) mset_eq_length [OF m] by simp
    then have "elems h' ! j \<in> set q" using that s nth_mem [of j "elems h'"] by simp
    with assms(7) show ?thesis by auto
  qed
  moreover have "elems (h'\<lparr>hidx := (hidx h')(e := EV_SIZE_MAX)\<rparr>) = elems h'" by (simp add: elems_def)
  ultimately show ?thesis using assms d s unfolding heap_ok_def settled_def by auto
qed

lemma min_heap_reserve_ok:
  assumes "heap_ok K h" and "min_heap_reserve mem n h = (r, h')"
  shows "heap_ok K h'" "elems h' = elems h" "hn h' = hn h" "hidx h' = hidx h"
    "r = 0 \<and> n \<le> ha h' \<or> r = -1 \<and> h' = h"
  using assms
  by (auto simp: min_heap_reserve_def heap_ok_def elems_def Let_def nth_append split: if_splits)

lemma min_heap_push_ok:
  assumes ok: "heap_ok K h" and e: "e \<notin> set (elems h)" and n: "hn h + 1 < EV_SIZE_MAX"
    and res: "min_heap_reserve mem (hn h + 1) h = (0, h1)"
  shows "\<exists>h'. min_heap_push mem K e h = (0, h') \<and> heap_ok K h' \<and> ha h' = ha h1 \<and>
    mset (elems h') = mset (elems h) + {#e#}"
proof -
  note r = min_heap_reserve_ok [OF ok res]
  let ?h = "h1\<lparr>hn := hn h1 + 1\<rparr>"
  let ?q = "elems h @ [e]"
  have len: "length (elems h) = hn h" by (rule length_elems [OF ok])
  have cap: "length (hp h1) = ha h1" "hn h + 1 \<le> ha h1" using r by (auto simp: heap_ok_def)
  have at: "hp h1 ! j = elems h ! j \<and> hidx h1 (elems h ! j) = j" if "j < hn h" for j
  proof -
    have "elems h1 ! j = hp h1 ! j" using that r(3) by (simp add: elems_nth)
    moreover have "hidx h1 (elems h1 ! j) = j" using r(1,3) that by (simp add: heap_ok_def)
    ultimately show ?thesis by (simp add: r(2))
  qed
  have holed: "holed ?h ?q (hn h)"
    using e ok at len cap r(3) by (auto simp: holed_def heap_ok_def nth_append)
  have ord: "ordered K (elems h)" using ok by (simp add: heap_ok_def)
  have up: "up_hole K (hn h) ?q" using ord len by (auto simp: up_hole_def ordered_def nth_append)
  have ac: "across K (hn h) ?q" using len by (auto simp: across_def)
  have "?q ! hn h = e" using len by (simp add: nth_append)
  with shift_up_settles [OF holed up ac]
  have st: "settled K ?h ?q (min_heap_shift_up K (hn h) e ?h)" by simp
  have "heap_ok K (min_heap_shift_up K (hn h) e ?h)"
    using e ok r n cap len
    by (intro settled_ok [OF st]) (auto simp: heap_ok_def)
  moreover have "min_heap_push mem K e h = (0, min_heap_shift_up K (hn h) e ?h)"
    using res r(3) by (simp add: min_heap_push_def)
  ultimately show ?thesis using st by (auto simp: settled_def)
qed

lemma min_heap_push_fail:
  assumes "heap_ok K h" and "min_heap_reserve mem (hn h + 1) h = (r, h1)" and "r \<noteq> 0"
  shows "min_heap_push mem K e h = (-1, h)"
  using assms min_heap_reserve_ok(5) [OF assms(1,2)] by (auto simp: min_heap_push_def)

lemma unconditional:
  "0 < i \<Longrightarrow> K (hp h ! parent_of i) > K e \<Longrightarrow>
    min_heap_shift_up_unconditional K i e h = min_heap_shift_up K i e h"
  by (simp add: min_heap_shift_up_unconditional_def min_heap_shift_up.simps [of K i] Let_def)

lemma mset_replace: "i < length xs \<Longrightarrow> mset (xs[i := x]) + {#xs ! i#} = mset xs + {#x#}"
  by (simp add: mset_update)

text \<open>The element at \<open>i\<close> of an ordered list replaced: it has to move one way or the other.\<close>

lemma replaced_holes:
  assumes ord: "ordered K q" and i: "i < length q"
  shows "0 < i \<Longrightarrow> K x < K (q ! parent_of i) \<Longrightarrow> up_hole K i (q[i := x])"
    and "\<not> (0 < i \<and> K x < K (q ! parent_of i)) \<Longrightarrow> down_hole K i (q[i := x])"
    and "across K i (q[i := x])"
proof -
  have o: "K (q ! parent_of j) \<le> K (q ! j)" if "0 < j" "j < length q" for j
    using ord that by (simp add: ordered_def)
  show "up_hole K i (q[i := x])" if "0 < i" "K x < K (q ! parent_of i)"
  proof -
    have "K x \<le> K (q ! j)" if "0 < j" "j < length q" "parent_of j = i" for j
      using o [of j] o [of i] that \<open>0 < i\<close> i \<open>K x < _\<close> by simp
    then show ?thesis using o i by (auto simp: up_hole_def nth_list_update)
  qed
  show "down_hole K i (q[i := x])" if "\<not> (0 < i \<and> K x < K (q ! parent_of i))"
    using that o i by (auto simp: down_hole_def nth_list_update not_less)
  have "K (q ! parent_of i) \<le> K (q ! c)" if "0 < i" "0 < c" "c < length q" "parent_of c = i" for c
    using o [of i] o [of c] that i by simp
  moreover have "parent_of i \<noteq> i" "c \<noteq> i" if "0 < i" "0 < c" "parent_of c = i" for c
    using that parent_less [of i] parent_less [of c] by auto
  ultimately show "across K i (q[i := x])" by (auto simp: across_def nth_list_update)
qed

lemma ordered_prefix:
  assumes "ordered K (q @ r)"
  shows "ordered K q"
  unfolding ordered_def
proof (intro allI impI)
  fix j assume j: "0 < j \<and> j < length q"
  then have "K ((q @ r) ! parent_of j) \<le> K ((q @ r) ! j)"
    using assms by (simp add: ordered_def)
  moreover have "parent_of j < length q" using j parent_less [of j] by simp
  ultimately show "K (q ! parent_of j) \<le> K (q ! j)" using j by (simp add: nth_append)
qed

lemma min_heap_erase_ok:
  assumes ok: "heap_ok K h" and e: "e \<in> set (elems h)"
  shows "\<exists>h'. min_heap_erase K e h = (0, h') \<and> heap_ok K h' \<and> ha h' = ha h \<and>
    mset (elems h') = mset (elems h) - {#e#}"
proof -
  define i where "i = hidx h e"
  define n where "n = hn h - 1"
  define h0 where "h0 = h\<lparr>hn := n\<rparr>"
  define x where "x = hp h ! n"
  let ?up = "0 < i \<and> K (hp h0 ! parent_of i) > K x"
  have i: "i < hn h" "hp h ! i = e" "hidx h e \<noteq> EV_SIZE_MAX"
    using heap_idx [OF ok] e by (simp_all add: i_def)
  have len: "length (elems h) = hn h" by (rule length_elems [OF ok])
  define q0 where "q0 = take n (hp h)"
  have q0: "elems h = q0 @ [x]"
  proof -
    have "hn h = Suc n" "n < length (hp h)" using i(1) ok by (auto simp: n_def heap_ok_def)
    then show ?thesis by (simp add: elems_def q0_def x_def take_Suc_conv_app_nth)
  qed
  have lq: "length q0 = n" using len q0 by (simp add: n_def)
  have d: "distinct q0" "x \<notin> set q0" and ord: "ordered K q0"
    using ok q0 ordered_prefix [of K q0 "[x]"] by (simp_all add: heap_ok_def)
  have at: "hp h ! j = q0 ! j \<and> hidx h (q0 ! j) = j" if "j < n" for j
  proof -
    have "elems h ! j = q0 ! j" using that lq q0 by (simp add: nth_append)
    moreover have "j < hn h" using that by (simp add: n_def)
    moreover from this ok have "hidx h (elems h ! j) = j" by (simp add: heap_ok_def)
    ultimately show ?thesis by (simp add: elems_nth)
  qed
  have fields: "hn h0 = n" "hp h0 = hp h" "ha h0 = ha h" "hidx h0 = hidx h" by (simp_all add: h0_def)
  have cap: "n \<le> ha h0" "length (hp h0) = ha h0" "n < EV_SIZE_MAX"
    using ok by (auto simp: heap_ok_def fields n_def)
  have out: "hidx h y = EV_SIZE_MAX" if "y \<notin> set q0" "y \<noteq> x" for y
    using ok that q0 by (auto simp: heap_ok_def)
  define h1 where "h1 = (if ?up then min_heap_shift_up_unconditional K i x h0
      else min_heap_shift_down K i x h0)"
  have er: "min_heap_erase K e h = (0, h1\<lparr>hidx := (hidx h1)(e := EV_SIZE_MAX)\<rparr>)"
    using i(3) by (simp add: min_heap_erase_def Let_def h1_def h0_def x_def n_def i_def)
  have up: "h1 = min_heap_shift_up K i x h0" if ?up
    unfolding h1_def if_P [OF that] using that by (intro unconditional) simp_all
  show ?thesis
  proof (cases "i = n")
    case True
    have "e = x" using i(2) True by (simp add: x_def)
    have no: "\<not> ?up"
    proof
      assume u: ?up
      then have "0 < i" "parent_of i < n" using True parent_less [of i] by simp_all
      have "ordered K (q0 @ [x])" using ok q0 by (simp add: heap_ok_def)
      then have "K ((q0 @ [x]) ! parent_of i) \<le> K ((q0 @ [x]) ! i)"
        using \<open>0 < i\<close> True lq by (simp add: ordered_def)
      then have "K (q0 ! parent_of i) \<le> K x"
        using \<open>parent_of i < n\<close> True lq by (simp add: nth_append)
      moreover have "hp h0 ! parent_of i = q0 ! parent_of i"
        using at [of "parent_of i"] \<open>parent_of i < n\<close> by (simp add: fields)
      ultimately show False using u leD [of "K (q0 ! parent_of i)" "K x"] by simp
    qed
    then have h1: "h1 = put_slot n x h0"
      unfolding h1_def if_not_P [OF no] by (simp add: True min_heap_shift_down.simps [of K n x h0] fields)
    let ?h = "h1\<lparr>hidx := (hidx h1)(e := EV_SIZE_MAX)\<rparr>"
    have el: "elems ?h = q0" by (simp add: elems_def h1 fields q0_def)
    have "hidx ?h (q0 ! j) = j" if "j < n" for j
    proof -
      have "q0 ! j \<in> set q0" using that lq by simp
      then have "q0 ! j \<noteq> x" using d(2) by auto
      then show ?thesis using at [OF that] \<open>e = x\<close> by (simp add: h1 fields)
    qed
    then have "heap_ok K ?h"
      using cap d ord out unfolding heap_ok_def el by (simp add: h1 fields \<open>e = x\<close>)
    moreover have "mset q0 = mset (elems h) - {#e#}" using q0 \<open>e = x\<close> by simp
    ultimately show ?thesis using er el by (simp add: h1 fields)
  next
    case False
    then have "i < n" using i(1) by (simp add: n_def)
    define q where "q = q0[i := x]"
    have ei: "q0 ! i = e" using at [OF \<open>i < n\<close>] i(2) by simp
    have il: "i < length q0" using \<open>i < n\<close> lq by simp
    have "mset q + {#e#} = mset q0 + {#x#}" using mset_replace [OF il, of x] ei by (simp add: q_def)
    then have "mset (elems h) = mset q + {#e#}" using q0 by simp
    then have mq: "mset q = mset (elems h) - {#e#}" by simp
    have sq: "distinct q" using d by (auto simp: q_def distinct_list_update set_update_distinct)
    have "set q = insert x (set q0 - {e})" using d ei il by (simp add: q_def set_update_distinct)
    moreover have "x \<noteq> e" using d(2) ei il nth_mem by metis
    ultimately have mem: "e \<notin> set q" "\<And>y. y \<notin> set q \<Longrightarrow> y \<noteq> e \<Longrightarrow> y \<notin> set q0 \<and> y \<noteq> x" by auto
    have holed: "holed h0 q i"
      using sq lq \<open>i < n\<close> cap at by (auto simp: holed_def q_def fields)
    have qi: "q ! i = x" using il by (simp add: q_def)
    have par: "hp h0 ! parent_of i = q0 ! parent_of i"
      using at [of "parent_of i"] \<open>i < n\<close> by (simp add: fields)
    note holes = replaced_holes [OF ord il, of x, folded q_def]
    have "settled K h0 q h1"
    proof (cases ?up)
      case True
      then have "up_hole K i q" using holes(1) par by simp
      from shift_up_settles [OF holed this holes(3)] show ?thesis using up [OF True] qi by simp
    next
      case False
      then have "down_hole K i q" using holes(2) par by simp
      from shift_down_settles [OF holed this holes(3)] show ?thesis using False qi by (auto simp: h1_def)
    qed
    then have "heap_ok K (h1\<lparr>hidx := (hidx h1)(e := EV_SIZE_MAX)\<rparr>)"
      and "mset (elems h1) = mset q" "ha h1 = ha h"
      using settled_erased [of K h0 q h1 e] sq lq cap mem out
      by (auto simp: settled_def fields q_def)
    with er mq show ?thesis by (simp add: elems_def)
  qed
qed

lemma root_least:
  assumes "ordered K q" and "j < length q"
  shows "K (q ! 0) \<le> K (q ! j)"
  using assms(2)
proof (induction j rule: less_induct)
  case (less j)
  show ?case
  proof (cases "j = 0")
    case False
    then have "K (q ! parent_of j) \<le> K (q ! j)" using assms(1) less.prems by (simp add: ordered_def)
    moreover have "K (q ! 0) \<le> K (q ! parent_of j)"
      using less.IH [of "parent_of j"] less.prems parent_less [of j] False by simp
    ultimately show ?thesis by simp
  qed simp
qed

lemma min_heap_top_ok:
  assumes ok: "heap_ok K h"
  shows "min_heap_top h = None \<longleftrightarrow> elems h = []"
    and "min_heap_top h = Some e \<Longrightarrow> e \<in> set (elems h) \<and> (\<forall>y \<in> set (elems h). K e \<le> K y)"
proof -
  note len = length_elems [OF ok]
  then show "min_heap_top h = None \<longleftrightarrow> elems h = []"
    by (auto simp: min_heap_top_def)
  assume "min_heap_top h = Some e"
  then have n: "0 < hn h" "e = elems h ! 0" by (auto simp: min_heap_top_def elems_nth split: if_splits)
  have "ordered K (elems h)" using ok by (simp add: heap_ok_def)
  then have "K e \<le> K y" if "y \<in> set (elems h)" for y
    using that root_least n(2) by (auto simp: in_set_conv_nth)
  moreover have "e \<in> set (elems h)" using n len by simp
  ultimately show "e \<in> set (elems h) \<and> (\<forall>y \<in> set (elems h). K e \<le> K y)" by blast
qed

lemma min_heap_pop_erase:
  assumes ok: "heap_ok K h" and top: "min_heap_top h = Some e"
  shows "min_heap_pop K h = (Some e, snd (min_heap_erase K e h))"
proof -
  have e: "e = hp h ! 0" "hn h \<noteq> 0" using top by (auto simp: min_heap_top_def split: if_splits)
  have "e \<in> set (elems h)" using min_heap_top_ok(2) [OF ok top] by simp
  then have "hidx h e \<noteq> EV_SIZE_MAX" using heap_idx(1) [OF ok] by simp
  moreover have "hidx h e = 0" using ok e by (auto simp: heap_ok_def elems_nth)
  ultimately show ?thesis using e by (simp add: min_heap_pop_def min_heap_erase_def Let_def)
qed

section \<open>A queue of deadlines\<close>

text \<open>What a priority queue promises: its top is a member none is due before, popping removes it.\<close>

locale deadline_queue =
  fixes members :: "'q \<Rightarrow> 'e multiset"
    and good :: "'q \<Rightarrow> bool"
    and deadline :: "'e \<Rightarrow> 't :: linorder"
    and top :: "'q \<Rightarrow> 'e option"
    and pop :: "'q \<Rightarrow> 'e option \<times> 'q"
  assumes top_None: "good q \<Longrightarrow> top q = None \<longleftrightarrow> members q = {#}"
    and top_least: "good q \<Longrightarrow> top q = Some e \<Longrightarrow>
      e \<in># members q \<and> (\<forall>y \<in> set_mset (members q). deadline e \<le> deadline y)"
    and pop_top: "good q \<Longrightarrow> top q = Some e \<Longrightarrow>
      \<exists>q'. pop q = (Some e, q') \<and> good q' \<and> members q' = members q - {#e#}"
begin

fun drain :: "nat \<Rightarrow> 'q \<Rightarrow> 'e list" where
  "drain 0 q = []"
| "drain (Suc n) q = (case pop q of (Some e, q') \<Rightarrow> e # drain n q' | (None, q') \<Rightarrow> [])"

lemma drain_sorts:
  "good q \<Longrightarrow> size (members q) = n \<Longrightarrow>
    sorted (map deadline (drain n q)) \<and> mset (drain n q) = members q"
proof (induction n arbitrary: q)
  case 0
  then show ?case by simp
next
  case (Suc n)
  then obtain e where e: "top q = Some e" using top_None by (cases "top q") auto
  note least = top_least [OF Suc.prems(1) e]
  obtain q' where q': "pop q = (Some e, q')" "good q'" "members q' = members q - {#e#}"
    using pop_top [OF Suc.prems(1) e] by blast
  have "size (members q') = n" using q'(3) least Suc.prems(2) by (simp add: size_Diff_singleton)
  from Suc.IH [OF q'(2) this] have ih: "sorted (map deadline (drain n q'))"
    "mset (drain n q') = members q'" by auto
  have "\<forall>y \<in> set (drain n q'). deadline e \<le> deadline y"
  proof
    fix y assume "y \<in> set (drain n q')"
    then have "y \<in># members q'" using ih(2) by (metis set_mset_mset)
    then have "y \<in># members q" using q'(3) by (auto dest: in_diffD)
    with least show "deadline e \<le> deadline y" by blast
  qed
  with ih q' least show ?case by simp
qed

end

interpretation timeheap: deadline_queue "\<lambda>h. mset (elems h)" "heap_ok K" K min_heap_top "min_heap_pop K"
  for K
proof
  fix h e
  assume ok: "heap_ok K h"
  show "min_heap_top h = None \<longleftrightarrow> mset (elems h) = {#}"
    using min_heap_top_ok(1) [OF ok] by simp
  assume top: "min_heap_top h = Some e"
  show "e \<in># mset (elems h) \<and> (\<forall>y \<in> set_mset (mset (elems h)). K e \<le> K y)"
    using min_heap_top_ok(2) [OF ok top] by simp
  then have "e \<in> set (elems h)" by simp
  from min_heap_erase_ok [OF ok this] min_heap_pop_erase [OF ok top]
  show "\<exists>h'. min_heap_pop K h = (Some e, h') \<and> heap_ok K h' \<and> mset (elems h') = mset (elems h) - {#e#}"
    by fastforce
qed

lemma min_heap_ctor_ok: "heap_ok K min_heap_ctor" "elems min_heap_ctor = []"
  by (simp_all add: heap_ok_def min_heap_ctor_def elems_def ordered_def EV_SIZE_MAX_def)

text \<open>A deadline changed while its event is in the heap.\<close>

lemma min_heap_adjust_ok:
  assumes ok: "heap_ok K0 h" and e: "e \<in> set (elems h)" and K: "\<And>y. y \<noteq> e \<Longrightarrow> K y = K0 y"
  shows "\<exists>h'. min_heap_adjust mem K e h = (0, h') \<and> heap_ok K h' \<and> mset (elems h') = mset (elems h)"
proof -
  define i where "i = hidx h e"
  let ?q = "elems h"
  let ?up = "0 < i \<and> K (hp h ! parent_of i) > K e"
  have i: "i < hn h" "hp h ! i = e" "hidx h e \<noteq> EV_SIZE_MAX"
    using heap_idx [OF ok] e by (simp_all add: i_def)
  note len = length_elems [OF ok]
  have qi: "?q ! i = e" using i by (simp add: elems_nth)
  have d: "distinct ?q" using ok by (simp add: heap_ok_def)
  have il: "i < length ?q" using i(1) len by simp
  obtain f where f: "f \<notin> set ?q" using ex_new_if_finite [OF infinite_UNIV_nat, of "set ?q"] by auto
  define K1 where "K1 = K0(f := K e)"
  have o1: "ordered K1 ?q"
  proof -
    have "heap_ok K1 h = heap_ok K0 h" using f by (intro heap_ok_cong) (auto simp: K1_def)
    with ok have "heap_ok K1 h" by simp
    then show ?thesis by (simp add: heap_ok_def)
  qed
  define q' where "q' = ?q[i := f]"
  have lq': "length q' = length ?q" by (simp add: q'_def)
  have key: "K1 (q' ! j) = K (?q ! j)" if "j < length ?q" for j
  proof (cases "j = i")
    case True
    then show ?thesis using il qi by (simp add: K1_def q'_def)
  next
    case False
    then have "?q ! j \<noteq> e" using d il that qi by (metis nth_eq_iff_index_eq)
    moreover have "?q ! j \<noteq> f" using f that nth_mem by metis
    ultimately show ?thesis using False K by (simp add: K1_def q'_def)
  qed
  have keyp: "K1 (q' ! parent_of j) = K (?q ! parent_of j)" if "j < length ?q" for j
    using that by (intro key) simp
  have holes: "up_hole K1 i q' = up_hole K i ?q" "down_hole K1 i q' = down_hole K i ?q"
    "across K1 i q' = across K i ?q"
    using key keyp [OF il] keyp unfolding up_hole_def down_hole_def across_def lq' by metis+
  have par: "K (hp h ! parent_of i) = K1 (?q ! parent_of i)" if "0 < i"
  proof -
    have p: "parent_of i < i" using that by (rule parent_less)
    then have "q' ! parent_of i = ?q ! parent_of i" by (simp add: q'_def)
    with key [of "parent_of i"] p il have "K1 (?q ! parent_of i) = K (?q ! parent_of i)" by simp
    with p i(1) show ?thesis by (simp add: elems_nth)
  qed
  have ke: "K1 f = K e" by (simp add: K1_def)
  note rep = replaced_holes [OF o1 il, of f, folded q'_def, unfolded holes]
  have holed: "holed h ?q i" using ok len i(1) by (auto simp: holed_def heap_ok_def elems_nth)
  define h1 where "h1 = (if ?up then min_heap_shift_up_unconditional K i e h
      else min_heap_shift_down K i e h)"
  have "settled K h ?q h1"
  proof (cases ?up)
    case True
    then have "up_hole K i ?q" using rep(1) par ke by simp
    from shift_up_settles [OF holed this rep(3)] True qi unconditional [of i K e h]
    show ?thesis by (simp add: h1_def)
  next
    case False
    then have "\<not> (0 < i \<and> K1 f < K1 (?q ! parent_of i))" using par ke by (cases "i = 0") simp_all
    then have "down_hole K i ?q" by (rule rep(2))
    from shift_down_settles [OF holed this rep(3)] False qi show ?thesis by (auto simp: h1_def)
  qed
  moreover from this have "heap_ok K h1"
    using ok len by (intro settled_ok) (auto simp: heap_ok_def)
  ultimately show ?thesis
    using i(3) by (auto simp: min_heap_adjust_def h1_def i_def settled_def Let_def)
qed

section \<open>Any use of the heap\<close>

datatype heap_op = Heap_push nat | Heap_erase nat

fun heap_run :: "(nat \<Rightarrow> bool) \<Rightarrow> (nat \<Rightarrow> timeval) \<Rightarrow> heap_op list \<Rightarrow> min_heap \<Rightarrow> min_heap" where
  "heap_run mem K [] h = h"
| "heap_run mem K (Heap_push e # ops) h = heap_run mem K ops (snd (min_heap_push mem K e h))"
| "heap_run mem K (Heap_erase e # ops) h = heap_run mem K ops (snd (min_heap_erase K e h))"

text \<open>The members they should leave; \<^term>\<open>None\<close> if a member is pushed again.\<close>

fun heap_members :: "heap_op list \<Rightarrow> nat list \<Rightarrow> nat list option" where
  "heap_members [] s = Some s"
| "heap_members (Heap_push e # ops) s = (if e \<in> set s then None else heap_members ops (e # s))"
| "heap_members (Heap_erase e # ops) s = heap_members ops (remove1 e s)"

lemma erase_absent: "heap_ok K h \<Longrightarrow> e \<notin> set (elems h) \<Longrightarrow> min_heap_erase K e h = (-1, h)"
  by (simp add: min_heap_erase_def heap_ok_def)

lemma heap_run_ok:
  assumes mem: "\<forall>n. mem n"
  shows "heap_ok K h \<Longrightarrow> mset (elems h) = mset s \<Longrightarrow> heap_members ops s = Some s' \<Longrightarrow>
    hn h + length ops < EV_SIZE_MAX \<Longrightarrow>
    heap_ok K (heap_run mem K ops h) \<and> mset (elems (heap_run mem K ops h)) = mset s'"
proof (induction ops arbitrary: h s)
  case Nil
  then show ?case by simp
next
  case (Cons op ops)
  note set_eq = mset_eq_setD [OF Cons.prems(2)]
  have hn: "hn h' = size (mset (elems h'))" if "heap_ok K h'" for h'
    using length_elems [OF that] by simp
  show ?case
  proof (cases op)
    case (Heap_push e)
    have e: "e \<notin> set (elems h)" "heap_members ops (e # s) = Some s'"
      using Cons.prems(3) Heap_push set_eq by (auto split: if_splits)
    obtain r h1 where r: "min_heap_reserve mem (hn h + 1) h = (r, h1)" by fastforce
    then have "r = 0" using mem by (auto simp: min_heap_reserve_def Let_def split: if_splits)
    with r have r: "min_heap_reserve mem (hn h + 1) h = (0, h1)" by simp
    have lt: "hn h + 1 < EV_SIZE_MAX" using Cons.prems(4) by simp
    from min_heap_push_ok [OF Cons.prems(1) e(1) lt r] obtain h' where h': "min_heap_push mem K e h = (0, h')"
      "heap_ok K h'" "mset (elems h') = mset (elems h) + {#e#}" by blast
    then have m: "mset (elems h') = mset (e # s)" using Cons.prems(2) by simp
    have "hn h' = hn h + 1" using hn [OF h'(2)] hn [OF Cons.prems(1)] h'(3) by simp
    then have "hn h' + length ops < EV_SIZE_MAX" using Cons.prems(4) by simp
    from Cons.IH [OF h'(2) m e(2) this] h'(1) Heap_push show ?thesis by simp
  next
    case (Heap_erase e)
    show ?thesis
    proof (cases "e \<in> set (elems h)")
      case True
      from min_heap_erase_ok [OF Cons.prems(1) this] obtain h' where h':
        "min_heap_erase K e h = (0, h')" "heap_ok K h'" "mset (elems h') = mset (elems h) - {#e#}" by blast
      then have m: "mset (elems h') = mset (remove1 e s)" using Cons.prems(2) by simp
      have "hn h' \<le> hn h"
        using hn [OF h'(2)] hn [OF Cons.prems(1)] h'(3)
          size_mset_mono [OF diff_subset_eq_self, of "mset (elems h)" "{#e#}"] by simp
      then have "hn h' + length ops < EV_SIZE_MAX" using Cons.prems(4) by simp
      from Cons.IH [OF h'(2) m _ this] h'(1) Heap_erase Cons.prems(3) show ?thesis by simp
    next
      case False
      then have "remove1 e s = s" using set_eq by (simp add: remove1_idem)
      with erase_absent [OF Cons.prems(1) False] Heap_erase Cons show ?thesis by simp
    qed
  qed
qed

text \<open>
  C24: Timeouts come in order. After any sequence of insertions and removals of events, in any
  order and with any deadlines, popping the heap until it is empty yields exactly the events that
  were inserted and not removed, each once, by increasing deadline.
\<close>

theorem timeouts_in_order:
  assumes "\<forall>n. mem n" and "heap_members ops [] = Some s" and "length ops < EV_SIZE_MAX"
  shows "let h = heap_run mem K ops min_heap_ctor; out = timeheap.drain K (hn h) h
    in sorted (map K out) \<and> mset out = mset s"
proof -
  have z: "hn min_heap_ctor = 0" by (simp add: min_heap_ctor_def)
  have "heap_ok K (heap_run mem K ops min_heap_ctor) \<and>
      mset (elems (heap_run mem K ops min_heap_ctor)) = mset s"
    using assms(2,3) z by (intro heap_run_ok [OF assms(1)]) (simp_all add: min_heap_ctor_ok)
  moreover from this have "size (mset (elems (heap_run mem K ops min_heap_ctor))) =
      hn (heap_run mem K ops min_heap_ctor)"
    by (metis length_elems size_mset)
  ultimately show ?thesis using timeheap.drain_sorts unfolding Let_def by metis
qed

theorem timeouts_in_order_witness:
  "let ops = map Heap_push [5, 3, 9, 1, 7] @ [Heap_erase 3, Heap_push 4];
       K = (\<lambda>e. Timeval (int (e mod 4)) 0);
       h = heap_run (\<lambda>_. True) K ops min_heap_ctor; out = timeheap.drain K (hn h) h
   in sorted (map K out) \<and> mset out = {#1, 4, 5, 7, 9#}"
  using timeouts_in_order [of "\<lambda>_. True" "map Heap_push [5, 3, 9, 1, 7] @ [Heap_erase 3, Heap_push 4]"
      "[4, 7, 1, 9, 5]" "\<lambda>e. Timeval (int (e mod 4)) 0"]
  by (simp add: EV_SIZE_MAX_def Let_def add_mset_commute)

end
