(* ===== verification/Events.thy ===== *)
theory Events
  imports Timers
begin

text \<open>
  Events and the event base of libevent (\<^verbatim>\<open>event.c\<close>, \<^verbatim>\<open>evmap.c\<close>), used by one thread, as the
  server's base is (\<^verbatim>\<open>EVENT_BASE_FLAG_NOLOCK\<close>). Events and callbacks are numbers with their
  structures in a store; bit masks are sets. A failed assertion or a call of \<^verbatim>\<open>event_errx\<close>
  raises the flag \<open>aborted\<close>.
\<close>

section \<open>Structures\<close>

datatype evlist_flag = EVLIST_TIMEOUT | EVLIST_INSERTED | EVLIST_SIGNAL | EVLIST_ACTIVE
  | EVLIST_INTERNAL | EVLIST_ACTIVE_LATER | EVLIST_FINALIZING | EVLIST_INIT

datatype ev_what = EV_TIMEOUT | EV_READ | EV_WRITE | EV_SIGNAL | EV_PERSIST | EV_ET | EV_FINALIZE
  | EV_CLOSED

datatype ev_closure = EV_CLOSURE_EVENT | EV_CLOSURE_EVENT_SIGNAL | EV_CLOSURE_EVENT_PERSIST
  | EV_CLOSURE_CB_SELF | EV_CLOSURE_CB_FINALIZE | EV_CLOSURE_EVENT_FINALIZE
  | EV_CLOSURE_EVENT_FINALIZE_FREE

text \<open>
  \<open>ev_pncalls\<close> is whether it is not null: it then points at the counter of the signal closure that
  is running, \<open>sig_ncalls\<close> of the base.
\<close>

record event =
  evcb_flags :: "evlist_flag set"
  evcb_pri :: nat
  evcb_closure :: ev_closure
  ev_fd :: int
  ev_events :: "ev_what set"
  ev_res :: "ev_what set"
  ev_io_timeout :: timeval
  ev_ncalls :: nat
  ev_pncalls :: bool
  ev_timeout :: timeval

record common_timeout_list =
  ctl_events :: "nat list"
  ctl_duration :: timeval
  ctl_timeout_event :: nat

record evmap_io =
  io_events :: "nat list"
  nread :: nat
  nwrite :: nat
  nclose :: nat

record 'a event_map =
  nentries :: nat
  entries :: "nat \<rightharpoonup> 'a"

datatype be_call = Be_add int "ev_what set" "ev_what set" | Be_del int "ev_what set" "ev_what set"
  | Sig_add int | Sig_del int

record event_base =
  evs :: "nat \<Rightarrow> event"
  timeheap :: min_heap
  activequeues :: "nat list list"
  active_later_queue :: "nat list"
  common_timeout_queues :: "common_timeout_list list"
  io :: "evmap_io event_map"
  sigmap :: "nat list event_map"
  be_log :: "be_call list"  \<comment> \<open>the calls of the backend, latest first\<close>
  virtual_event_count :: int
  event_count :: int
  event_count_max :: int
  event_count_active :: int
  event_count_active_max :: int
  event_gotterm :: bool
  event_break :: bool
  event_continue :: bool
  event_running_priority :: int
  running_loop :: bool
  current_event :: "nat option"
  n_deferreds_queued :: nat
  tv_cache :: timeval
  monotonic :: timeval  \<comment> \<open>what the monotonic clock shows\<close>
  wall :: timeval
  tv_clock_diff :: timeval
  last_updated_clock_diff :: int
  no_cache_time :: bool
  max_dispatch_time :: timeval
  max_dispatch_callbacks :: nat
  limit_callbacks_after_prio :: nat
  sig_ncalls :: nat
  aborted :: bool

text \<open>What the rest of the system answers: the allocator and the backend.\<close>

record event_env =
  mem :: "nat \<Rightarrow> bool"
  be :: "be_call list \<Rightarrow> be_call \<Rightarrow> bool"
  fdinfo_len :: nat
  debug_mode :: bool

definition ev_assert :: "bool \<Rightarrow> event_base \<Rightarrow> event_base" where
  "ev_assert c b = (if c then b else b\<lparr>aborted := True\<rparr>)"

definition upd_ev :: "nat \<Rightarrow> (event \<Rightarrow> event) \<Rightarrow> event_base \<Rightarrow> event_base" where
  "upd_ev e f b = b\<lparr>evs := (evs b)(e := f (evs b e))\<rparr>"

abbreviation flags_of :: "event_base \<Rightarrow> nat \<Rightarrow> evlist_flag set" where
  "flags_of b e \<equiv> evcb_flags (evs b e)"

definition set_flag :: "nat \<Rightarrow> evlist_flag \<Rightarrow> event_base \<Rightarrow> event_base" where
  "set_flag e f = upd_ev e (\<lambda>ev. ev\<lparr>evcb_flags := insert f (evcb_flags ev)\<rparr>)"

definition clear_flag :: "nat \<Rightarrow> evlist_flag \<Rightarrow> event_base \<Rightarrow> event_base" where
  "clear_flag e f = upd_ev e (\<lambda>ev. ev\<lparr>evcb_flags := evcb_flags ev - {f}\<rparr>)"

abbreviation deadline :: "event_base \<Rightarrow> nat \<Rightarrow> timeval" where
  "deadline b e \<equiv> ev_timeout (evs b e)"

section \<open>Time\<close>

definition CLOCK_SYNC_INTERVAL :: int where "CLOCK_SYNC_INTERVAL = 5"

definition gettime :: "event_base \<Rightarrow> timeval \<times> event_base" where
  "gettime b =
     (if tv_sec (tv_cache b) \<noteq> 0 then (tv_cache b, b)
      else
        (let tp = monotonic b
         in if last_updated_clock_diff b + CLOCK_SYNC_INTERVAL < tv_sec tp
            then (tp, b\<lparr>tv_clock_diff := evutil_timersub (wall b) tp, last_updated_clock_diff := tv_sec tp\<rparr>)
            else (tp, b)))"

definition clear_time_cache :: "event_base \<Rightarrow> event_base" where
  "clear_time_cache b = b\<lparr>tv_cache := Timeval 0 (tv_usec (tv_cache b))\<rparr>"

definition update_time_cache :: "event_base \<Rightarrow> event_base" where
  "update_time_cache b =
     (let b = clear_time_cache b
      in if \<not> no_cache_time b then (let (tp, b) = gettime b in b\<lparr>tv_cache := tp\<rparr>) else b)"

section \<open>Common timeouts\<close>

definition MICROSECONDS_MASK :: int where "MICROSECONDS_MASK = 0x000fffff"
definition COMMON_TIMEOUT_IDX_MASK :: int where "COMMON_TIMEOUT_IDX_MASK = 0x0ff00000"
definition COMMON_TIMEOUT_IDX_SHIFT :: nat where "COMMON_TIMEOUT_IDX_SHIFT = 20"
definition COMMON_TIMEOUT_MASK :: int where "COMMON_TIMEOUT_MASK = 0xf0000000"
definition COMMON_TIMEOUT_MAGIC :: int where "COMMON_TIMEOUT_MAGIC = 0x50000000"
definition MAX_COMMON_TIMEOUTS :: nat where "MAX_COMMON_TIMEOUTS = 256"

definition COMMON_TIMEOUT_IDX :: "timeval \<Rightarrow> nat" where
  "COMMON_TIMEOUT_IDX tv = nat (drop_bit COMMON_TIMEOUT_IDX_SHIFT (and (tv_usec tv) COMMON_TIMEOUT_IDX_MASK))"

definition is_common_timeout :: "timeval \<Rightarrow> event_base \<Rightarrow> bool" where
  "is_common_timeout tv b =
     (if and (tv_usec tv) COMMON_TIMEOUT_MASK \<noteq> COMMON_TIMEOUT_MAGIC then False
      else COMMON_TIMEOUT_IDX tv < length (common_timeout_queues b))"

definition is_same_common_timeout :: "timeval \<Rightarrow> timeval \<Rightarrow> bool" where
  "is_same_common_timeout tv1 tv2 \<longleftrightarrow>
     and (tv_usec tv1) (not MICROSECONDS_MASK) = and (tv_usec tv2) (not MICROSECONDS_MASK)"

text \<open>The time without the magic bits.\<close>

definition masked :: "timeval \<Rightarrow> timeval" where
  "masked tv = Timeval (tv_sec tv) (and (tv_usec tv) MICROSECONDS_MASK)"

definition upd_ctl :: "nat \<Rightarrow> (nat list \<Rightarrow> nat list) \<Rightarrow> event_base \<Rightarrow> event_base" where
  "upd_ctl i f b = b\<lparr>common_timeout_queues := (common_timeout_queues b)
     [i := (common_timeout_queues b ! i)\<lparr>ctl_events := f (ctl_events (common_timeout_queues b ! i))\<rparr>]\<rparr>"

text \<open>The search from the end of the list for the place of \<open>e\<close>; \<open>es\<close> is the list reversed.\<close>

fun insert_from_end :: "event_base \<Rightarrow> nat \<Rightarrow> nat list \<Rightarrow> nat list \<Rightarrow> nat list \<times> bool" where
  "insert_from_end b e [] later = (e # later, True)"
| "insert_from_end b e (x # es) later =
     (if \<not> is_same_common_timeout (deadline b x) (deadline b e) then (rev es @ x # later, False)
      else if deadline b x \<le> deadline b e then (rev es @ x # e # later, True)
      else insert_from_end b e es (x # later))"

definition insert_common_timeout_inorder :: "nat \<Rightarrow> nat \<Rightarrow> event_base \<Rightarrow> event_base" where
  "insert_common_timeout_inorder i e b =
     (let (l, ok) = insert_from_end b e (rev (ctl_events (common_timeout_queues b ! i))) []
      in ev_assert ok (upd_ctl i (\<lambda>_. l) b))"

section \<open>Queues\<close>

definition INCR_EVENT_COUNT :: "nat \<Rightarrow> event_base \<Rightarrow> event_base" where
  "INCR_EVENT_COUNT e b =
     (let n = event_count b + (if EVLIST_INTERNAL \<in> flags_of b e then 0 else 1)
      in b\<lparr>event_count := n, event_count_max := max (event_count_max b) n\<rparr>)"

definition DECR_EVENT_COUNT :: "nat \<Rightarrow> event_base \<Rightarrow> event_base" where
  "DECR_EVENT_COUNT e b =
     b\<lparr>event_count := event_count b - (if EVLIST_INTERNAL \<in> flags_of b e then 0 else 1)\<rparr>"

definition event_queue_remove_inserted :: "nat \<Rightarrow> event_base \<Rightarrow> event_base" where
  "event_queue_remove_inserted e b =
     (if EVLIST_INSERTED \<notin> flags_of b e then b\<lparr>aborted := True\<rparr>
      else clear_flag e EVLIST_INSERTED (DECR_EVENT_COUNT e b))"

definition upd_queue :: "nat \<Rightarrow> (nat list \<Rightarrow> nat list) \<Rightarrow> event_base \<Rightarrow> event_base" where
  "upd_queue i f b = b\<lparr>activequeues := (activequeues b)[i := f (activequeues b ! i)]\<rparr>"

definition event_queue_remove_active :: "nat \<Rightarrow> event_base \<Rightarrow> event_base" where
  "event_queue_remove_active e b =
     (if EVLIST_ACTIVE \<notin> flags_of b e then b\<lparr>aborted := True\<rparr>
      else
        (let b = clear_flag e EVLIST_ACTIVE (DECR_EVENT_COUNT e b);
             b = b\<lparr>event_count_active := event_count_active b - 1\<rparr>
         in upd_queue (evcb_pri (evs b e)) (remove1 e) b))"

definition event_queue_remove_active_later :: "nat \<Rightarrow> event_base \<Rightarrow> event_base" where
  "event_queue_remove_active_later e b =
     (if EVLIST_ACTIVE_LATER \<notin> flags_of b e then b\<lparr>aborted := True\<rparr>
      else
        (let b = clear_flag e EVLIST_ACTIVE_LATER (DECR_EVENT_COUNT e b);
             b = b\<lparr>event_count_active := event_count_active b - 1\<rparr>
         in b\<lparr>active_later_queue := remove1 e (active_later_queue b)\<rparr>))"

definition event_queue_remove_timeout :: "nat \<Rightarrow> event_base \<Rightarrow> event_base" where
  "event_queue_remove_timeout e b =
     (if EVLIST_TIMEOUT \<notin> flags_of b e then b\<lparr>aborted := True\<rparr>
      else
        (let b = clear_flag e EVLIST_TIMEOUT (DECR_EVENT_COUNT e b)
         in if is_common_timeout (deadline b e) b
            then upd_ctl (COMMON_TIMEOUT_IDX (deadline b e)) (remove1 e) b
            else b\<lparr>timeheap := snd (min_heap_erase (deadline b) e (timeheap b))\<rparr>))"

definition event_queue_insert_inserted :: "nat \<Rightarrow> event_base \<Rightarrow> event_base" where
  "event_queue_insert_inserted e b =
     (if EVLIST_INSERTED \<in> flags_of b e then b\<lparr>aborted := True\<rparr>
      else set_flag e EVLIST_INSERTED (INCR_EVENT_COUNT e b))"

definition incr_active :: "event_base \<Rightarrow> event_base" where
  "incr_active b =
     (let n = event_count_active b + 1
      in b\<lparr>event_count_active := n, event_count_active_max := max (event_count_active_max b) n\<rparr>)"

definition event_queue_insert_active :: "nat \<Rightarrow> event_base \<Rightarrow> event_base" where
  "event_queue_insert_active e b =
     (if EVLIST_ACTIVE \<in> flags_of b e then b
      else
        (let b = incr_active (set_flag e EVLIST_ACTIVE (INCR_EVENT_COUNT e b));
             b = ev_assert (evcb_pri (evs b e) < length (activequeues b)) b
         in upd_queue (evcb_pri (evs b e)) (\<lambda>q. q @ [e]) b))"

definition event_queue_insert_active_later :: "nat \<Rightarrow> event_base \<Rightarrow> event_base" where
  "event_queue_insert_active_later e b =
     (if flags_of b e \<inter> {EVLIST_ACTIVE_LATER, EVLIST_ACTIVE} \<noteq> {} then b
      else
        (let b = incr_active (set_flag e EVLIST_ACTIVE_LATER (INCR_EVENT_COUNT e b));
             b = ev_assert (evcb_pri (evs b e) < length (activequeues b)) b
         in b\<lparr>active_later_queue := active_later_queue b @ [e]\<rparr>))"

text \<open>The result of \<^verbatim>\<open>min_heap_push_\<close> is not looked at.\<close>

definition event_queue_insert_timeout :: "event_env \<Rightarrow> nat \<Rightarrow> event_base \<Rightarrow> event_base" where
  "event_queue_insert_timeout env e b =
     (if EVLIST_TIMEOUT \<in> flags_of b e then b\<lparr>aborted := True\<rparr>
      else
        (let b = set_flag e EVLIST_TIMEOUT (INCR_EVENT_COUNT e b)
         in if is_common_timeout (deadline b e) b
            then insert_common_timeout_inorder (COMMON_TIMEOUT_IDX (deadline b e)) e b
            else b\<lparr>timeheap := snd (min_heap_push (mem env) (deadline b) e (timeheap b))\<rparr>))"

text \<open>The loop of \<^verbatim>\<open>event_queue_make_later_events_active\<close> over the queue.\<close>

fun make_active :: "nat list \<Rightarrow> event_base \<Rightarrow> event_base" where
  "make_active [] b = b"
| "make_active (e # es) b =
     (let b = b\<lparr>active_later_queue := es\<rparr>;
          b = set_flag e EVLIST_ACTIVE (clear_flag e EVLIST_ACTIVE_LATER b);
          b = ev_assert (evcb_pri (evs b e) < length (activequeues b)) b;
          b = upd_queue (evcb_pri (evs b e)) (\<lambda>q. q @ [e]) b;
          b = b\<lparr>n_deferreds_queued := n_deferreds_queued b +
                 (if evcb_closure (evs b e) = EV_CLOSURE_CB_SELF then 1 else 0)\<rparr>
      in make_active es b)"

definition event_queue_make_later_events_active :: "event_base \<Rightarrow> event_base" where
  "event_queue_make_later_events_active b = make_active (active_later_queue b) b"

end
