(* ===== verification/EventOps.thy ===== *)
theory EventOps
  imports Events
begin

text \<open>
  What is done with events: the maps from descriptors and signals to the events on them
  (\<^verbatim>\<open>evmap.c\<close>), adding, deleting and activating an event, and timeouts (\<^verbatim>\<open>event.c\<close>).
\<close>

section \<open>Maps of events\<close>

definition INT_MAX :: nat where "INT_MAX = 2 ^ 31 - 1"
definition NSIG :: int where "NSIG = 65"

function grow_entries :: "nat \<Rightarrow> nat \<Rightarrow> nat" where
  "grow_entries n slot = (if slot < n \<or> n = 0 then n else grow_entries (2 * n) slot)"
  by pat_completeness auto
termination by (relation "measure (\<lambda>(n, slot). slot + 1 - n)") auto

declare grow_entries.simps [simp del]

definition evmap_make_space ::
    "(nat \<Rightarrow> bool) \<Rightarrow> 'a event_map \<Rightarrow> nat \<Rightarrow> nat \<Rightarrow> int \<times> 'a event_map" where
  "evmap_make_space alloc m slot msize =
     (if nentries m \<le> slot then
        if slot > INT_MAX div 2 then (-1, m)
        else
          (let n = grow_entries (if nentries m \<noteq> 0 then nentries m else 32) slot
           in if n > INT_MAX div msize then (-1, m)
              else if \<not> alloc (n * msize) then (-1, m)
              else (0, m\<lparr>nentries := n, entries := (\<lambda>i. if i < nentries m then entries m i else None)\<rparr>))
      else (0, m))"

definition evmap_io_init :: evmap_io where
  "evmap_io_init = \<lparr>io_events = [], nread = 0, nwrite = 0, nclose = 0\<rparr>"

text \<open>\<^verbatim>\<open>GET_IO_SLOT_AND_CTOR\<close>, for both maps: the entry at the slot, made if there was none.\<close>

definition get_slot_and_ctor ::
    "(nat \<Rightarrow> bool) \<Rightarrow> 'a event_map \<Rightarrow> nat \<Rightarrow> 'a \<Rightarrow> nat \<Rightarrow> ('a \<times> 'a event_map) option" where
  "get_slot_and_ctor alloc m slot ini sz =
     (case entries m slot of
        Some x \<Rightarrow> Some (x, m)
      | None \<Rightarrow> if alloc sz then Some (ini, m\<lparr>entries := (entries m)(slot \<mapsto> ini)\<rparr>) else None)"

definition wanted :: "evmap_io \<Rightarrow> ev_what set" where
  "wanted c = (if nread c \<noteq> 0 then {EV_READ} else {}) \<union> (if nwrite c \<noteq> 0 then {EV_WRITE} else {}) \<union>
     (if nclose c \<noteq> 0 then {EV_CLOSED} else {})"

definition call_be :: "event_env \<Rightarrow> be_call \<Rightarrow> event_base \<Rightarrow> bool \<times> event_base" where
  "call_be env c b = (be env (be_log b) c, b\<lparr>be_log := c # be_log b\<rparr>)"

text \<open>The part of \<^verbatim>\<open>evmap_io_add_\<close> with the entry at hand, and the whole.\<close>

definition io_register :: "event_env \<Rightarrow> int \<Rightarrow> nat \<Rightarrow> evmap_io \<Rightarrow> event_base \<Rightarrow> int \<times> event_base" where
  "io_register env fd e ctx b =
     (let evts = ev_events (evs b e);
          old = wanted ctx;
          nr = nread ctx + (if EV_READ \<in> evts then 1 else 0);
          nw = nwrite ctx + (if EV_WRITE \<in> evts then 1 else 0);
          nc = nclose ctx + (if EV_CLOSED \<in> evts then 1 else 0);
          res = (if EV_READ \<in> evts \<and> nr = 1 then {EV_READ} else {}) \<union>
                (if EV_WRITE \<in> evts \<and> nw = 1 then {EV_WRITE} else {}) \<union>
                (if EV_CLOSED \<in> evts \<and> nc = 1 then {EV_CLOSED} else {})
      in if nr > 0xffff \<or> nw > 0xffff \<or> nc > 0xffff then (-1, b)
         else if debug_mode env \<and> io_events ctx \<noteq> [] \<and>
            (EV_ET \<in> ev_events (evs b (hd (io_events ctx)))) \<noteq> (EV_ET \<in> evts) then (-1, b)
         else
           (let (ok, b) = (if res \<noteq> {} then call_be env (Be_add fd old ((evts \<inter> {EV_ET}) \<union> res)) b
                           else (True, b))
            in if \<not> ok then (-1, b)
               else (if res \<noteq> {} then 1 else 0,
                     b\<lparr>io := (io b)\<lparr>entries := (entries (io b))(nat fd \<mapsto>
                       \<lparr>io_events = e # io_events ctx, nread = nr, nwrite = nw, nclose = nc\<rparr>)\<rparr>\<rparr>)))"

definition evmap_io_add :: "event_env \<Rightarrow> int \<Rightarrow> nat \<Rightarrow> event_base \<Rightarrow> int \<times> event_base" where
  "evmap_io_add env fd e b =
     (let b = ev_assert (fd = ev_fd (evs b e)) b
      in if fd < 0 then (0, b)
         else
           (let (r, m) = (if nentries (io b) \<le> nat fd then evmap_make_space (mem env) (io b) (nat fd) 8
                          else (0, io b));
                b = b\<lparr>io := m\<rparr>
            in if r = -1 then (-1, b)
               else case get_slot_and_ctor (mem env) (io b) (nat fd) evmap_io_init (16 + fdinfo_len env) of
                 None \<Rightarrow> (-1, b)
               | Some (ctx, m) \<Rightarrow> io_register env fd e ctx (b\<lparr>io := m\<rparr>)))"

text \<open>A missing entry is a null pointer dereferenced.\<close>

definition evmap_io_del :: "event_env \<Rightarrow> int \<Rightarrow> nat \<Rightarrow> event_base \<Rightarrow> int \<times> event_base" where
  "evmap_io_del env fd e b =
     (if fd < 0 then (0, b)
      else
        (let b = ev_assert (fd = ev_fd (evs b e)) b; evts = ev_events (evs b e)
         in if nentries (io b) \<le> nat fd then (-1, b)
            else case entries (io b) (nat fd) of
              None \<Rightarrow> (-1, b\<lparr>aborted := True\<rparr>)
            | Some ctx \<Rightarrow>
                (let old = wanted ctx;
                     b = ev_assert ((EV_READ \<in> evts \<longrightarrow> nread ctx > 0) \<and> (EV_WRITE \<in> evts \<longrightarrow> nwrite ctx > 0) \<and>
                           (EV_CLOSED \<in> evts \<longrightarrow> nclose ctx > 0)) b;
                     nr = nread ctx - (if EV_READ \<in> evts then 1 else 0);
                     nw = nwrite ctx - (if EV_WRITE \<in> evts then 1 else 0);
                     nc = nclose ctx - (if EV_CLOSED \<in> evts then 1 else 0);
                     res = (if EV_READ \<in> evts \<and> nr = 0 then {EV_READ} else {}) \<union>
                           (if EV_WRITE \<in> evts \<and> nw = 0 then {EV_WRITE} else {}) \<union>
                           (if EV_CLOSED \<in> evts \<and> nc = 0 then {EV_CLOSED} else {});
                     (ok, b) = (if res \<noteq> {} then call_be env (Be_del fd old ((evts \<inter> {EV_ET}) \<union> res)) b
                                else (True, b))
                 in (if res = {} then 0 else if ok then 1 else -1,
                     b\<lparr>io := (io b)\<lparr>entries := (entries (io b))(nat fd \<mapsto>
                       \<lparr>io_events = remove1 e (io_events ctx), nread = nr, nwrite = nw, nclose = nc\<rparr>)\<rparr>\<rparr>))))"

definition evmap_signal_add :: "event_env \<Rightarrow> int \<Rightarrow> nat \<Rightarrow> event_base \<Rightarrow> int \<times> event_base" where
  "evmap_signal_add env sig e b =
     (if sig < 0 \<or> NSIG \<le> sig then (-1, b)
      else
        (let (r, m) = (if nentries (sigmap b) \<le> nat sig then evmap_make_space (mem env) (sigmap b) (nat sig) 8
                       else (0, sigmap b));
             b = b\<lparr>sigmap := m\<rparr>
         in if r = -1 then (-1, b)
            else case get_slot_and_ctor (mem env) (sigmap b) (nat sig) [] 8 of
              None \<Rightarrow> (-1, b)
            | Some (l, m) \<Rightarrow>
                (let b = b\<lparr>sigmap := m\<rparr>;
                     (ok, b) = (if l = [] then call_be env (Sig_add (ev_fd (evs b e))) b else (True, b))
                 in if \<not> ok then (-1, b)
                    else (1, b\<lparr>sigmap := (sigmap b)\<lparr>entries := (entries (sigmap b))(nat sig \<mapsto> e # l)\<rparr>\<rparr>))))"

definition evmap_signal_del :: "event_env \<Rightarrow> int \<Rightarrow> nat \<Rightarrow> event_base \<Rightarrow> int \<times> event_base" where
  "evmap_signal_del env sig e b =
     (if sig < 0 \<or> int (nentries (sigmap b)) \<le> sig then (-1, b)
      else case entries (sigmap b) (nat sig) of
        None \<Rightarrow> (-1, b\<lparr>aborted := True\<rparr>)
      | Some l \<Rightarrow>
          (let b = b\<lparr>sigmap := (sigmap b)\<lparr>entries := (entries (sigmap b))(nat sig \<mapsto> remove1 e l)\<rparr>\<rparr>;
               (ok, b) = (if remove1 e l = [] then call_be env (Sig_del (ev_fd (evs b e))) b else (True, b))
           in if \<not> ok then (-1, b) else (1, b)))"

section \<open>Adding and deleting\<close>

definition gettime_now :: "event_base \<Rightarrow> timeval" where
  "gettime_now b = fst (gettime b)"

text \<open>The part of \<^verbatim>\<open>event_add_nolock_\<close> that registers with the backend.\<close>

definition event_add_io :: "event_env \<Rightarrow> nat \<Rightarrow> event_base \<Rightarrow> int \<times> event_base" where
  "event_add_io env e b =
     (let ev = evs b e
      in if ev_events ev \<inter> {EV_READ, EV_WRITE, EV_CLOSED, EV_SIGNAL} \<noteq> {} \<and>
            evcb_flags ev \<inter> {EVLIST_INSERTED, EVLIST_ACTIVE, EVLIST_ACTIVE_LATER} = {}
         then
           (let (res, b) =
                  (if ev_events ev \<inter> {EV_READ, EV_WRITE, EV_CLOSED} \<noteq> {} then evmap_io_add env (ev_fd ev) e b
                   else if EV_SIGNAL \<in> ev_events ev then evmap_signal_add env (ev_fd ev) e b
                   else (0, b));
                b = (if res \<noteq> -1 then event_queue_insert_inserted e b else b)
            in (if res = 1 then 0 else res, b))
         else (0, b))"

text \<open>
  The part that sets the timeout; its result is the event and the time
  \<^verbatim>\<open>common_timeout_schedule\<close> adds, if it is called.
\<close>

definition abort_signal :: "nat \<Rightarrow> event_base \<Rightarrow> event_base" where
  "abort_signal e b =
     (let ev = evs b e
      in if EV_SIGNAL \<in> ev_events ev \<and> ev_ncalls ev \<noteq> 0 \<and> ev_pncalls ev then b\<lparr>sig_ncalls := 0\<rparr> else b)"

definition new_deadline :: "timeval \<Rightarrow> bool \<Rightarrow> timeval \<Rightarrow> event_base \<Rightarrow> timeval" where
  "new_deadline tv absolute now b =
     (if absolute then tv
      else if is_common_timeout tv b then
        (let t = evutil_timeradd now (masked tv)
         in Timeval (tv_sec t) (or (tv_usec t) (and (tv_usec tv) (not MICROSECONDS_MASK))))
      else evutil_timeradd now tv)"

definition del_timeout :: "nat \<Rightarrow> event_base \<Rightarrow> event_base" where
  "del_timeout e b = (if EVLIST_TIMEOUT \<in> flags_of b e then event_queue_remove_timeout e b else b)"

definition event_set_timeout :: "event_env \<Rightarrow> nat \<Rightarrow> timeval \<Rightarrow> bool \<Rightarrow> event_base \<Rightarrow> event_base" where
  "event_set_timeout env e tv absolute b =
     (let b = (if evcb_closure (evs b e) = EV_CLOSURE_EVENT_PERSIST \<and> \<not> absolute
               then upd_ev e (\<lambda>ev. ev\<lparr>ev_io_timeout := tv\<rparr>) b else b);
          b = del_timeout e b;
          b = (if EVLIST_ACTIVE \<in> flags_of b e \<and> EV_TIMEOUT \<in> ev_res (evs b e)
               then event_queue_remove_active e (abort_signal e b) else b);
          (now, b) = gettime b;
          b = upd_ev e (\<lambda>ev. ev\<lparr>ev_timeout := new_deadline tv absolute now b\<rparr>) b
      in event_queue_insert_timeout env e b)"

definition event_add_timeout ::
    "event_env \<Rightarrow> nat \<Rightarrow> timeval \<Rightarrow> bool \<Rightarrow> event_base \<Rightarrow> (nat \<times> timeval) option \<times> event_base" where
  "event_add_timeout env e tv absolute b =
     (let b = event_set_timeout env e tv absolute b
      in if is_common_timeout tv b then
           (let ctl = common_timeout_queues b ! COMMON_TIMEOUT_IDX (deadline b e)
            in (if ctl_events ctl \<noteq> [] \<and> hd (ctl_events ctl) = e
                then Some (ctl_timeout_event ctl, masked (deadline b e)) else None, b))
         else (None, b))"

definition event_add_step ::
    "event_env \<Rightarrow> nat \<Rightarrow> timeval option \<Rightarrow> bool \<Rightarrow> event_base \<Rightarrow> int \<times> (nat \<times> timeval) option \<times> event_base" where
  "event_add_step env e tvo absolute b =
     (if EVLIST_FINALIZING \<in> flags_of b e then (-1, None, b)
      else
        (let (r, h) = (if tvo \<noteq> None \<and> EVLIST_TIMEOUT \<notin> flags_of b e
                       then min_heap_reserve (mem env) (1 + hn (timeheap b)) (timeheap b)
                       else (0, timeheap b))
         in if r = -1 then (-1, None, b)
            else
              (let (res, b) = event_add_io env e (b\<lparr>timeheap := h\<rparr>)
               in case tvo of
                    None \<Rightarrow> (res, None, b)
                  | Some tv \<Rightarrow>
                      if res = -1 then (-1, None, b)
                      else (let (sched, b) = event_add_timeout env e tv absolute b in (res, sched, b)))))"

text \<open>Whether a time has the magic bits of a common timeout.\<close>

definition magic :: "timeval \<Rightarrow> bool" where
  "magic tv \<longleftrightarrow> and (tv_usec tv) COMMON_TIMEOUT_MASK = COMMON_TIMEOUT_MAGIC"

lemma common_magic: "is_common_timeout tv b \<Longrightarrow> magic tv"
  by (simp add: is_common_timeout_def magic_def split: if_splits)

lemma masked_not_magic: "\<not> magic (masked tv)"
proof -
  have "and MICROSECONDS_MASK COMMON_TIMEOUT_MASK = 0"
    by (simp add: MICROSECONDS_MASK_def COMMON_TIMEOUT_MASK_def)
  then have "and (tv_usec (masked tv)) COMMON_TIMEOUT_MASK = 0"
    by (simp only: masked_def timeval.sel and.assoc and_zero_eq)
  then show ?thesis by (simp add: magic_def COMMON_TIMEOUT_MAGIC_def)
qed

lemma masked_not_common: "\<not> is_common_timeout (masked tv) b"
  using common_magic masked_not_magic by blast

lemma add_timeout_sched:
  "event_add_timeout env e tv absolute b = (Some (h, t), b') \<Longrightarrow> magic tv \<and> \<not> magic t"
  using masked_not_magic common_magic by (auto simp: event_add_timeout_def Let_def split: if_splits)

lemma add_step_sched:
  assumes "event_add_step env e tvo absolute b = (res, Some (h, t), b')"
  shows "(\<exists>tv. tvo = Some tv \<and> magic tv) \<and> \<not> magic t"
proof (cases tvo)
  case None
  with assms show ?thesis
    by (simp add: event_add_step_def Let_def split: if_splits prod.splits)
next
  case (Some tv)
  with assms obtain b1 b2 where "event_add_timeout env e tv absolute b1 = (Some (h, t), b2)"
    by (auto simp: event_add_step_def Let_def simp del: not_None_eq split: if_splits prod.splits)
  from add_timeout_sched [OF this] Some show ?thesis by simp
qed

text \<open>\<^verbatim>\<open>common_timeout_schedule\<close> calls the function again, never with a common timeout.\<close>

function event_add_nolock ::
    "event_env \<Rightarrow> nat \<Rightarrow> timeval option \<Rightarrow> bool \<Rightarrow> event_base \<Rightarrow> int \<times> event_base" where
  "event_add_nolock env e tvo absolute b =
     (case event_add_step env e tvo absolute b of
        (res, None, b) \<Rightarrow> (res, b)
      | (res, Some (h, t), b) \<Rightarrow> (res, snd (event_add_nolock env h (Some t) True b)))"
  by pat_completeness auto
termination
  by (relation "measure (\<lambda>(env, e, tvo, absolute, b). case tvo of None \<Rightarrow> 0 | Some tv \<Rightarrow> if magic tv then 1 else 0)")
     (auto dest!: sym [of _ "event_add_step _ _ _ _ _"] add_step_sched)

declare event_add_nolock.simps [simp del]

definition event_add :: "event_env \<Rightarrow> nat \<Rightarrow> timeval option \<Rightarrow> event_base \<Rightarrow> int \<times> event_base" where
  "event_add env e tv b = event_add_nolock env e tv False b"

datatype del_blocking = EVENT_DEL_NOBLOCK | EVENT_DEL_BLOCK | EVENT_DEL_AUTOBLOCK | EVENT_DEL_EVEN_IF_FINALIZING

definition del_active :: "nat \<Rightarrow> event_base \<Rightarrow> event_base" where
  "del_active e b =
     (if EVLIST_ACTIVE \<in> flags_of b e then event_queue_remove_active e b
      else if EVLIST_ACTIVE_LATER \<in> flags_of b e then event_queue_remove_active_later e b
      else b)"

definition del_inserted :: "event_env \<Rightarrow> nat \<Rightarrow> event_base \<Rightarrow> int \<times> event_base" where
  "del_inserted env e b =
     (if EVLIST_INSERTED \<in> flags_of b e then
        (let b = event_queue_remove_inserted e b;
             (res, b) = (if ev_events (evs b e) \<inter> {EV_READ, EV_WRITE, EV_CLOSED} \<noteq> {}
                         then evmap_io_del env (ev_fd (evs b e)) e b
                         else evmap_signal_del env (ev_fd (evs b e)) e b)
         in (if res = 1 then 0 else res, b))
      else (0, b))"

definition event_del_nolock :: "event_env \<Rightarrow> nat \<Rightarrow> del_blocking \<Rightarrow> event_base \<Rightarrow> int \<times> event_base" where
  "event_del_nolock env e blocking b =
     (if blocking \<noteq> EVENT_DEL_EVEN_IF_FINALIZING \<and> EVLIST_FINALIZING \<in> flags_of b e then (0, b)
      else del_inserted env e (del_active e (del_timeout e (abort_signal e b))))"

definition event_del :: "event_env \<Rightarrow> nat \<Rightarrow> event_base \<Rightarrow> int \<times> event_base" where
  "event_del env e b = event_del_nolock env e EVENT_DEL_AUTOBLOCK b"

definition event_remove_timer :: "nat \<Rightarrow> event_base \<Rightarrow> int \<times> event_base" where
  "event_remove_timer e b =
     (0, if EVLIST_TIMEOUT \<in> flags_of b e
         then upd_ev e (\<lambda>ev. ev\<lparr>ev_io_timeout := evutil_timerclear\<rparr>) (event_queue_remove_timeout e b)
         else b)"

section \<open>Activating\<close>

definition event_callback_activate_nolock :: "nat \<Rightarrow> event_base \<Rightarrow> int \<times> event_base" where
  "event_callback_activate_nolock e b =
     (if EVLIST_FINALIZING \<in> flags_of b e then (0, b)
      else if EVLIST_ACTIVE \<in> flags_of b e \<and> EVLIST_ACTIVE_LATER \<in> flags_of b e
      then (0, event_queue_insert_active e (event_queue_remove_active_later e (b\<lparr>aborted := True\<rparr>)))
      else if EVLIST_ACTIVE_LATER \<in> flags_of b e
      then (0, event_queue_insert_active e (event_queue_remove_active_later e b))
      else if EVLIST_ACTIVE \<in> flags_of b e then (0, b)
      else (1, event_queue_insert_active e b))"

definition event_callback_activate_later_nolock :: "nat \<Rightarrow> event_base \<Rightarrow> int \<times> event_base" where
  "event_callback_activate_later_nolock e b =
     (if flags_of b e \<inter> {EVLIST_ACTIVE, EVLIST_ACTIVE_LATER} \<noteq> {} then (0, b)
      else (1, event_queue_insert_active_later e b))"

definition event_active_nolock :: "nat \<Rightarrow> ev_what set \<Rightarrow> nat \<Rightarrow> event_base \<Rightarrow> event_base" where
  "event_active_nolock e res ncalls b =
     (if EVLIST_FINALIZING \<in> flags_of b e then b
      else if EVLIST_ACTIVE \<in> flags_of b e \<and> EVLIST_ACTIVE_LATER \<notin> flags_of b e
      then upd_ev e (\<lambda>ev. ev\<lparr>ev_res := ev_res ev \<union> res\<rparr>) b
      else
        (let b = (if EVLIST_ACTIVE \<in> flags_of b e then b\<lparr>aborted := True\<rparr>
                  else if EVLIST_ACTIVE_LATER \<in> flags_of b e
                  then upd_ev e (\<lambda>ev. ev\<lparr>ev_res := ev_res ev \<union> res\<rparr>) b
                  else upd_ev e (\<lambda>ev. ev\<lparr>ev_res := res\<rparr>) b);
             b = (if int (evcb_pri (evs b e)) < event_running_priority b then b\<lparr>event_continue := True\<rparr> else b);
             b = (if EV_SIGNAL \<in> ev_events (evs b e)
                  then upd_ev e (\<lambda>ev. ev\<lparr>ev_ncalls := ncalls, ev_pncalls := False\<rparr>) b else b)
         in snd (event_callback_activate_nolock e b)))"

definition event_active_later_nolock :: "nat \<Rightarrow> ev_what set \<Rightarrow> event_base \<Rightarrow> event_base" where
  "event_active_later_nolock e res b =
     (if flags_of b e \<inter> {EVLIST_ACTIVE, EVLIST_ACTIVE_LATER} \<noteq> {}
      then upd_ev e (\<lambda>ev. ev\<lparr>ev_res := ev_res ev \<union> res\<rparr>) b
      else snd (event_callback_activate_later_nolock e (upd_ev e (\<lambda>ev. ev\<lparr>ev_res := res\<rparr>) b)))"

definition event_callback_cancel_nolock :: "event_env \<Rightarrow> nat \<Rightarrow> bool \<Rightarrow> event_base \<Rightarrow> int \<times> event_base" where
  "event_callback_cancel_nolock env e even_if_finalizing b =
     (if EVLIST_FINALIZING \<in> flags_of b e \<and> \<not> even_if_finalizing then (0, b)
      else if EVLIST_INIT \<in> flags_of b e
      then event_del_nolock env e
             (if even_if_finalizing then EVENT_DEL_EVEN_IF_FINALIZING else EVENT_DEL_AUTOBLOCK) b
      else if EVLIST_ACTIVE \<in> flags_of b e \<and> EVLIST_ACTIVE_LATER \<in> flags_of b e then (0, b\<lparr>aborted := True\<rparr>)
      else if EVLIST_ACTIVE \<in> flags_of b e then (0, event_queue_remove_active e b)
      else if EVLIST_ACTIVE_LATER \<in> flags_of b e then (0, event_queue_remove_active_later e b)
      else (0, b))"

text \<open>The events on a descriptor or a signal for which the backend reports something.\<close>

fun activate_list :: "ev_what set \<Rightarrow> nat \<Rightarrow> nat list \<Rightarrow> event_base \<Rightarrow> event_base" where
  "activate_list what n [] b = b"
| "activate_list what n (e # es) b =
     activate_list what n es
       (if ev_events (evs b e) \<inter> what \<noteq> {} then event_active_nolock e (ev_events (evs b e) \<inter> what) n b else b)"

definition evmap_io_active :: "int \<Rightarrow> ev_what set \<Rightarrow> event_base \<Rightarrow> event_base" where
  "evmap_io_active fd what b =
     (if fd < 0 \<or> int (nentries (io b)) \<le> fd then b
      else case entries (io b) (nat fd) of
        None \<Rightarrow> b
      | Some ctx \<Rightarrow> activate_list what 1 (io_events ctx) b)"

fun activate_signals :: "nat \<Rightarrow> nat list \<Rightarrow> event_base \<Rightarrow> event_base" where
  "activate_signals n [] b = b"
| "activate_signals n (e # es) b = activate_signals n es (event_active_nolock e {EV_SIGNAL} n b)"

definition evmap_signal_active :: "int \<Rightarrow> nat \<Rightarrow> event_base \<Rightarrow> event_base" where
  "evmap_signal_active sig n b =
     (if sig < 0 \<or> int (nentries (sigmap b)) \<le> sig then b
      else case entries (sigmap b) (nat sig) of None \<Rightarrow> b | Some l \<Rightarrow> activate_signals n l b)"

end
