(* ===== verification/EventLoop.thy ===== *)
theory EventLoop
  imports EventOps
begin

text \<open>
  Running events (\<^verbatim>\<open>event.c\<close>): making them, timeouts that are due, callbacks by priority, the loop,
  and the check of a base's integrity that libevent has for its tests.
\<close>

section \<open>Making a base\<close>

record event_config =
  max_dispatch_interval :: timeval
  cfg_max_dispatch_callbacks :: int
  cfg_limit_callbacks_after_prio :: int
  cfg_no_cache_time :: bool

definition event_config_new :: "event_env \<Rightarrow> event_config option" where
  "event_config_new env =
     (if \<not> mem env 64 then None
      else Some \<lparr>max_dispatch_interval = Timeval (-1) 0, cfg_max_dispatch_callbacks = int INT_MAX,
             cfg_limit_callbacks_after_prio = 1, cfg_no_cache_time = False\<rparr>)"

definition event_config_set_max_dispatch_interval ::
    "timeval option \<Rightarrow> int \<Rightarrow> int \<Rightarrow> event_config \<Rightarrow> event_config" where
  "event_config_set_max_dispatch_interval interval max_callbacks min_priority cfg =
     cfg\<lparr>max_dispatch_interval := (case interval of Some tv \<Rightarrow> tv
            | None \<Rightarrow> Timeval (-1) (tv_usec (max_dispatch_interval cfg))),
         cfg_max_dispatch_callbacks := (if max_callbacks \<ge> 0 then max_callbacks else int INT_MAX),
         cfg_limit_callbacks_after_prio := (if min_priority < 0 then 0 else min_priority)\<rparr>"

text \<open>
  \<^verbatim>\<open>event_base_new_with_config\<close>: \<open>store\<close> is the memory the events will be in, \<open>now\<close> and \<open>clock\<close> are
  what the clocks show, \<open>backend\<close> tells that a backend was found.
\<close>

definition event_base_new_with_config ::
    "event_env \<Rightarrow> event_config option \<Rightarrow> bool \<Rightarrow> (nat \<Rightarrow> event) \<Rightarrow> timeval \<Rightarrow> timeval \<Rightarrow> event_base option" where
  "event_base_new_with_config env cfg backend store now clock =
     (let b = \<lparr>evs = store, timeheap = min_heap_ctor, activequeues = [], active_later_queue = [],
            common_timeout_queues = [], io = \<lparr>nentries = 0, entries = Map.empty\<rparr>,
            sigmap = \<lparr>nentries = 0, entries = Map.empty\<rparr>, be_log = [],
            virtual_event_count = 0, event_count = 0, event_count_max = 0, event_count_active = 0,
            event_count_active_max = 0, event_gotterm = False, event_break = False, event_continue = False,
            event_running_priority = 0, running_loop = False, current_event = None, n_deferreds_queued = 0,
            tv_cache = Timeval 0 0, monotonic = now, wall = clock, tv_clock_diff = Timeval 0 0,
            last_updated_clock_diff = 0,
            no_cache_time = (case cfg of None \<Rightarrow> False | Some c \<Rightarrow> cfg_no_cache_time c),
            max_dispatch_time = (case cfg of None \<Rightarrow> Timeval (-1) 0 | Some c \<Rightarrow> max_dispatch_interval c),
            max_dispatch_callbacks =
              (case cfg of None \<Rightarrow> INT_MAX
               | Some c \<Rightarrow> if cfg_max_dispatch_callbacks c \<ge> 0 then nat (cfg_max_dispatch_callbacks c) else INT_MAX),
            limit_callbacks_after_prio =
              (case cfg of None \<Rightarrow> 1 | Some c \<Rightarrow> nat (cfg_limit_callbacks_after_prio c)),
            sig_ncalls = 0, aborted = False\<rparr>;
          b = snd (gettime b);
          b = (if max_dispatch_callbacks b = INT_MAX \<and> tv_sec (max_dispatch_time b) = -1
               then b\<lparr>limit_callbacks_after_prio := INT_MAX\<rparr> else b)
      in if \<not> mem env 720 then None
         else if \<not> backend then None
         else if \<not> mem env 16 then None
         else Some (b\<lparr>activequeues := [[]]\<rparr>))"

section \<open>Making events\<close>

definition event_assign :: "nat \<Rightarrow> int \<Rightarrow> ev_what set \<Rightarrow> event_base \<Rightarrow> int \<times> event_base" where
  "event_assign e fd evts b =
     (let b = upd_ev e (\<lambda>ev. ev\<lparr>ev_fd := fd, ev_events := evts, ev_res := {}, evcb_flags := {EVLIST_INIT},
            ev_ncalls := 0, ev_pncalls := False\<rparr>) b
      in if EV_SIGNAL \<in> evts \<and> evts \<inter> {EV_READ, EV_WRITE, EV_CLOSED} \<noteq> {} then (-1, b)
         else
           (let b = (if EV_SIGNAL \<in> evts then upd_ev e (\<lambda>ev. ev\<lparr>evcb_closure := EV_CLOSURE_EVENT_SIGNAL\<rparr>) b
                     else if EV_PERSIST \<in> evts
                     then upd_ev e (\<lambda>ev. ev\<lparr>ev_io_timeout := evutil_timerclear, evcb_closure := EV_CLOSURE_EVENT_PERSIST\<rparr>) b
                     else upd_ev e (\<lambda>ev. ev\<lparr>evcb_closure := EV_CLOSURE_EVENT\<rparr>) b);
                b = b\<lparr>timeheap := min_heap_elem_init e (timeheap b)\<rparr>
            in (0, upd_ev e (\<lambda>ev. ev\<lparr>evcb_pri := length (activequeues b) div 2\<rparr>) b)))"

definition event_priority_set :: "nat \<Rightarrow> int \<Rightarrow> event_base \<Rightarrow> int \<times> event_base" where
  "event_priority_set e pri b =
     (if EVLIST_ACTIVE \<in> flags_of b e then (-1, b)
      else if pri < 0 \<or> int (length (activequeues b)) \<le> pri then (-1, b)
      else (0, upd_ev e (\<lambda>ev. ev\<lparr>evcb_pri := nat pri\<rparr>) b))"

definition event_pending :: "nat \<Rightarrow> ev_what set \<Rightarrow> event_base \<Rightarrow> ev_what set \<times> timeval option" where
  "event_pending e what b =
     (let ev = evs b e;
          flags = (if EVLIST_INSERTED \<in> evcb_flags ev
                   then ev_events ev \<inter> {EV_READ, EV_WRITE, EV_CLOSED, EV_SIGNAL} else {}) \<union>
                  (if evcb_flags ev \<inter> {EVLIST_ACTIVE, EVLIST_ACTIVE_LATER} \<noteq> {} then ev_res ev else {}) \<union>
                  (if EVLIST_TIMEOUT \<in> evcb_flags ev then {EV_TIMEOUT} else {});
          what = what \<inter> {EV_TIMEOUT, EV_READ, EV_WRITE, EV_CLOSED, EV_SIGNAL}
      in (flags \<inter> what,
          if EV_TIMEOUT \<in> flags \<inter> what then Some (evutil_timeradd (tv_clock_diff b) (masked (ev_timeout ev)))
          else None))"

text \<open>\<^verbatim>\<open>event_base_set\<close>, for an event of this base.\<close>

definition event_base_set :: "nat \<Rightarrow> event_base \<Rightarrow> int \<times> event_base" where
  "event_base_set e b =
     (if flags_of b e \<noteq> {EVLIST_INIT} then (-1, b)
      else (0, upd_ev e (\<lambda>ev. ev\<lparr>evcb_pri := length (activequeues b) div 2\<rparr>) b))"

text \<open>No event is running where \<^verbatim>\<open>current_event\<close> is null; then it is dereferenced all the same.\<close>

definition event_base_get_running_event :: "event_base \<Rightarrow> nat option \<times> event_base" where
  "event_base_get_running_event b =
     (case current_event b of
        None \<Rightarrow> (None, b\<lparr>aborted := True\<rparr>)
      | Some e \<Rightarrow> (if EVLIST_INIT \<in> flags_of b e then Some e else None, b))"

definition event_base_gettimeofday_cached :: "event_base \<Rightarrow> timeval" where
  "event_base_gettimeofday_cached b =
     (if tv_sec (tv_cache b) = 0 then wall b else evutil_timeradd (tv_cache b) (tv_clock_diff b))"

definition event_base_update_cache_time :: "event_base \<Rightarrow> int \<times> event_base" where
  "event_base_update_cache_time b = (0, if running_loop b then update_time_cache b else b)"

datatype count_type = EVENT_BASE_COUNT_ACTIVE | EVENT_BASE_COUNT_VIRTUAL | EVENT_BASE_COUNT_ADDED

definition event_base_get_num_events :: "count_type set \<Rightarrow> event_base \<Rightarrow> int" where
  "event_base_get_num_events ty b =
     (if EVENT_BASE_COUNT_ACTIVE \<in> ty then event_count_active b else 0) +
     (if EVENT_BASE_COUNT_VIRTUAL \<in> ty then virtual_event_count b else 0) +
     (if EVENT_BASE_COUNT_ADDED \<in> ty then event_count b else 0)"

text \<open>
  \<^verbatim>\<open>event_base_once\<close>, the event at \<open>fresh\<close>. The second result tells whether the lock of the base is
  held on return, the third whether the event is in the list of such events.
\<close>

definition event_base_once ::
    "event_env \<Rightarrow> nat \<Rightarrow> int \<Rightarrow> ev_what set \<Rightarrow> timeval option \<Rightarrow> event_base \<Rightarrow> int \<times> bool \<times> bool \<times> event_base" where
  "event_base_once env fresh fd events tv b =
     (if events \<inter> {EV_SIGNAL, EV_PERSIST} \<noteq> {} then (-1, False, False, b)
      else if \<not> mem env 152 then (-1, False, False, b)
      else if events \<inter> {EV_TIMEOUT, EV_SIGNAL, EV_READ, EV_WRITE, EV_CLOSED} = {EV_TIMEOUT} then
        (let b = snd (event_assign fresh (-1) {} b)
         in if tv = None \<or> tv = Some (Timeval 0 0)
            then (0, False, True, event_active_nolock fresh {EV_TIMEOUT} 1 b)
            else (let (res, b) = event_add_nolock env fresh tv False b
                  in if res \<noteq> 0 then (res, True, False, b) else (0, False, True, b)))
      else if events \<inter> {EV_READ, EV_WRITE, EV_CLOSED} \<noteq> {} then
        (let b = snd (event_assign fresh fd (events \<inter> {EV_READ, EV_WRITE, EV_CLOSED}) b);
             (res, b) = event_add_nolock env fresh tv False b
         in if res \<noteq> 0 then (res, True, False, b) else (0, False, True, b))
      else (-1, False, False, b))"

definition EVENT_MAX_PRIORITIES :: int where "EVENT_MAX_PRIORITIES = 256"

definition event_base_priority_init :: "event_env \<Rightarrow> int \<Rightarrow> event_base \<Rightarrow> int \<times> event_base" where
  "event_base_priority_init env n b =
     (if event_count_active b \<noteq> 0 \<or> n < 1 \<or> EVENT_MAX_PRIORITIES \<le> n then (-1, b)
      else if n = int (length (activequeues b)) then (0, b)
      else if \<not> mem env (nat n * 16) then (-1, b\<lparr>activequeues := []\<rparr>)
      else (0, b\<lparr>activequeues := replicate (nat n) []\<rparr>))"

text \<open>
  The search for a list with the duration, from index \<open>i\<close> on. \<open>fresh\<close> is the address of the new
  list's event.
\<close>

fun find_common :: "timeval \<Rightarrow> common_timeout_list list \<Rightarrow> timeval option" where
  "find_common d [] = None"
| "find_common d (c # cs) =
     (if tv_sec d = tv_sec (ctl_duration c) \<and> tv_usec d = and (tv_usec (ctl_duration c)) MICROSECONDS_MASK
      then Some (ctl_duration c) else find_common d cs)"

definition event_base_init_common_timeout ::
    "event_env \<Rightarrow> nat \<Rightarrow> timeval \<Rightarrow> event_base \<Rightarrow> timeval option \<times> event_base" where
  "event_base_init_common_timeout env fresh duration b =
     (let d = (if tv_usec duration > 1000000 then
                 (let us = (if is_common_timeout duration b then and (tv_usec duration) MICROSECONDS_MASK
                            else tv_usec duration)
                  in Timeval (tv_sec duration + us div 1000000) (us mod 1000000))
               else duration)
      in case find_common d (common_timeout_queues b) of
           Some r \<Rightarrow> (Some r, ev_assert (is_common_timeout r b) b)
         | None \<Rightarrow>
             (let n = length (common_timeout_queues b)
              in if n = MAX_COMMON_TIMEOUTS then (None, b)
                 else if \<not> mem env (8 * (if n < 16 then 16 else 2 * n)) then (None, b)
                 else if \<not> mem env 160 then (None, b)
                 else
                   (let r = Timeval (tv_sec d)
                          (or (or (tv_usec d) COMMON_TIMEOUT_MAGIC) (push_bit COMMON_TIMEOUT_IDX_SHIFT (int n)));
                        (_, b) = event_assign fresh (-1) {} b;
                        b = set_flag fresh EVLIST_INTERNAL b;
                        (_, b) = event_priority_set fresh 0 b;
                        b = b\<lparr>common_timeout_queues := common_timeout_queues b @
                              [\<lparr>ctl_events = [], ctl_duration = r, ctl_timeout_event = fresh\<rparr>]\<rparr>
                    in (Some r, ev_assert (is_common_timeout r b) b))))"

definition event_base_loopbreak :: "event_base \<Rightarrow> event_base" where
  "event_base_loopbreak b = b\<lparr>event_break := True\<rparr>"

definition event_base_loopcontinue :: "event_base \<Rightarrow> event_base" where
  "event_base_loopcontinue b = b\<lparr>event_continue := True\<rparr>"

definition event_loopexit_cb :: "event_base \<Rightarrow> event_base" where
  "event_loopexit_cb b = b\<lparr>event_gotterm := True\<rparr>"

definition event_base_add_virtual :: "event_base \<Rightarrow> event_base" where
  "event_base_add_virtual b = b\<lparr>virtual_event_count := virtual_event_count b + 1\<rparr>"

definition event_base_del_virtual :: "event_base \<Rightarrow> event_base" where
  "event_base_del_virtual b =
     ev_assert (0 < virtual_event_count b) (b\<lparr>virtual_event_count := virtual_event_count b - 1\<rparr>)"

definition event_haveevents :: "event_base \<Rightarrow> bool" where
  "event_haveevents b \<longleftrightarrow> virtual_event_count b > 0 \<or> event_count b > 0"

section \<open>Timeouts that are due\<close>

definition timeout_next :: "event_base \<Rightarrow> timeval option \<times> event_base" where
  "timeout_next b =
     (case min_heap_top (timeheap b) of
        None \<Rightarrow> (None, b)
      | Some e \<Rightarrow>
          (let (now, b) = gettime b
           in if deadline b e \<le> now then (Some evutil_timerclear, b)
              else
                (let tv = evutil_timersub (deadline b e) now
                 in (Some tv, ev_assert (tv_sec tv \<ge> 0 \<and> tv_usec tv \<ge> 0) b))))"

definition fire_timeout :: "event_env \<Rightarrow> nat \<Rightarrow> event_base \<Rightarrow> event_base" where
  "fire_timeout env e b =
     event_active_nolock e {EV_TIMEOUT} 1 (snd (event_del_nolock env e EVENT_DEL_NOBLOCK b))"

partial_function (option) timeout_loop :: "event_env \<Rightarrow> timeval \<Rightarrow> event_base \<Rightarrow> event_base option" where
  "timeout_loop env now b =
     (case min_heap_top (timeheap b) of
        None \<Rightarrow> Some b
      | Some e \<Rightarrow> if deadline b e > now then Some b else timeout_loop env now (fire_timeout env e b))"

definition timeout_process :: "event_env \<Rightarrow> event_base \<Rightarrow> event_base option" where
  "timeout_process env b =
     (if min_heap_empty (timeheap b) then Some b
      else (let (now, b) = gettime b in timeout_loop env now b))"

definition common_timeout_schedule :: "event_env \<Rightarrow> nat \<Rightarrow> nat \<Rightarrow> event_base \<Rightarrow> event_base" where
  "common_timeout_schedule env i head b =
     snd (event_add_nolock env (ctl_timeout_event (common_timeout_queues b ! i)) (Some (masked (deadline b head))) True b)"

partial_function (option) common_timeout_loop ::
    "event_env \<Rightarrow> nat \<Rightarrow> timeval \<Rightarrow> event_base \<Rightarrow> (nat option \<times> event_base) option" where
  "common_timeout_loop env i now b =
     (case ctl_events (common_timeout_queues b ! i) of
        [] \<Rightarrow> Some (None, b)
      | e # _ \<Rightarrow> if masked (deadline b e) > now then Some (Some e, b)
                 else common_timeout_loop env i now (fire_timeout env e b))"

definition common_timeout_callback :: "event_env \<Rightarrow> nat \<Rightarrow> event_base \<Rightarrow> event_base option" where
  "common_timeout_callback env i b =
     (let (now, b) = gettime b
      in case common_timeout_loop env i now b of
           None \<Rightarrow> None
         | Some (None, b) \<Rightarrow> Some b
         | Some (Some e, b) \<Rightarrow> Some (common_timeout_schedule env i e b))"

section \<open>Callbacks\<close>

text \<open>
  What is outside the library: the callbacks of events and callbacks, the backend's
  \<^verbatim>\<open>dispatch\<close>, and the watchers.
\<close>

record event_app =
  callback :: "nat \<Rightarrow> ev_what set \<Rightarrow> event_base \<Rightarrow> event_base"
  dispatch :: "timeval option \<Rightarrow> event_base \<Rightarrow> int \<times> event_base"
  prepare_watchers :: "timeval option \<Rightarrow> event_base \<Rightarrow> event_base"
  check_watchers :: "event_base \<Rightarrow> event_base"

definition run_callback :: "event_env \<Rightarrow> event_app \<Rightarrow> nat \<Rightarrow> ev_what set \<Rightarrow> event_base \<Rightarrow> event_base option" where
  "run_callback env app e res b =
     (case filter (\<lambda>i. ctl_timeout_event (common_timeout_queues b ! i) = e) [0..<length (common_timeout_queues b)] of
        [] \<Rightarrow> Some (callback app e res b)
      | i # _ \<Rightarrow> common_timeout_callback env i b)"

text \<open>\<open>n\<close> is the closure's counter, which \<^verbatim>\<open>event_del\<close> may set to 0.\<close>

fun event_signal_closure :: "event_env \<Rightarrow> event_app \<Rightarrow> nat \<Rightarrow> nat \<Rightarrow> event_base \<Rightarrow> event_base option" where
  "event_signal_closure env app e 0 b = Some b"
| "event_signal_closure env app e (Suc n) b =
     (let b = upd_ev e (\<lambda>ev. ev\<lparr>ev_ncalls := n, ev_pncalls := ev_pncalls ev \<and> n \<noteq> 0\<rparr>) (b\<lparr>sig_ncalls := n\<rparr>)
      in case run_callback env app e (ev_res (evs b e)) b of
           None \<Rightarrow> None
         | Some b \<Rightarrow>
             if event_break b
             then Some (if sig_ncalls b \<noteq> 0 then upd_ev e (\<lambda>ev. ev\<lparr>ev_pncalls := False\<rparr>) b else b)
             else event_signal_closure env app e (if sig_ncalls b = 0 then 0 else n) b)"

definition persist_run_at :: "event \<Rightarrow> bool \<Rightarrow> timeval \<Rightarrow> timeval" where
  "persist_run_at ev common now =
     (let usec_mask = (if common then and (tv_usec (ev_io_timeout ev)) (not MICROSECONDS_MASK) else 0);
          delay = (if common then masked (ev_io_timeout ev) else ev_io_timeout ev);
          relative_to = (if EV_TIMEOUT \<in> ev_res ev
                         then (if common then masked (ev_timeout ev) else ev_timeout ev) else now);
          run_at = evutil_timeradd relative_to delay;
          run_at = (if run_at < now then evutil_timeradd now delay else run_at)
      in Timeval (tv_sec run_at) (or (tv_usec run_at) usec_mask))"

definition persist_reschedule :: "event_env \<Rightarrow> nat \<Rightarrow> event_base \<Rightarrow> event_base" where
  "persist_reschedule env e b =
     (let ev = evs b e
      in if tv_sec (ev_io_timeout ev) \<noteq> 0 \<or> tv_usec (ev_io_timeout ev) \<noteq> 0 then
           (let b = ev_assert (is_same_common_timeout (ev_timeout ev) (ev_io_timeout ev)) b;
                (now, b) = gettime b;
                run_at = persist_run_at ev (is_common_timeout (ev_timeout ev) b) now
            in snd (event_add_nolock env e (Some run_at) True b))
         else b)"

definition event_persist_closure :: "event_env \<Rightarrow> event_app \<Rightarrow> nat \<Rightarrow> event_base \<Rightarrow> event_base option" where
  "event_persist_closure env app e b =
     (let b = persist_reschedule env e b in run_callback env app e (ev_res (evs b e)) b)"

definition run_closure :: "event_env \<Rightarrow> event_app \<Rightarrow> nat \<Rightarrow> event_base \<Rightarrow> event_base option" where
  "run_closure env app e b =
     (case evcb_closure (evs b e) of
        EV_CLOSURE_EVENT_SIGNAL \<Rightarrow>
          (let n = ev_ncalls (evs b e);
               b = (if n \<noteq> 0 then upd_ev e (\<lambda>ev. ev\<lparr>ev_pncalls := True\<rparr>) b else b)
           in event_signal_closure env app e n b)
      | EV_CLOSURE_EVENT_PERSIST \<Rightarrow> event_persist_closure env app e b
      | EV_CLOSURE_EVENT \<Rightarrow> run_callback env app e (ev_res (evs b e)) b
      | EV_CLOSURE_CB_SELF \<Rightarrow> Some (callback app e {} b)
      | EV_CLOSURE_EVENT_FINALIZE \<Rightarrow>
          Some (callback app e {} (ev_assert (EVLIST_FINALIZING \<in> flags_of b e) (b\<lparr>current_event := None\<rparr>)))
      | EV_CLOSURE_EVENT_FINALIZE_FREE \<Rightarrow>
          Some (callback app e {} (ev_assert (EVLIST_FINALIZING \<in> flags_of b e) (b\<lparr>current_event := None\<rparr>)))
      | EV_CLOSURE_CB_FINALIZE \<Rightarrow>
          Some (callback app e {} (ev_assert (EVLIST_FINALIZING \<in> flags_of b e) (b\<lparr>current_event := None\<rparr>))))"

text \<open>Taking the event at the head of a queue off it.\<close>

definition take_active :: "event_env \<Rightarrow> nat \<Rightarrow> event_base \<Rightarrow> event_base" where
  "take_active env e b =
     (if EVLIST_INIT \<in> flags_of b e then
        (if EV_PERSIST \<in> ev_events (evs b e) \<or> EVLIST_FINALIZING \<in> flags_of b e
         then event_queue_remove_active e b
         else snd (event_del_nolock env e EVENT_DEL_NOBLOCK b))
      else event_queue_remove_active e b)"

partial_function (option) process_single_queue ::
    "event_env \<Rightarrow> event_app \<Rightarrow> nat \<Rightarrow> nat \<Rightarrow> timeval option \<Rightarrow> nat \<Rightarrow> event_base \<Rightarrow> (int \<times> event_base) option" where
  "process_single_queue env app i max_to_process endtime cnt b =
     (case activequeues b ! i of
        [] \<Rightarrow> Some (int cnt, b)
      | e # _ \<Rightarrow>
          (let b = take_active env e b;
               cnt = (if EVLIST_INTERNAL \<notin> flags_of b e then cnt + 1 else cnt)
           in case run_closure env app e (b\<lparr>current_event := Some e\<rparr>) of
                None \<Rightarrow> None
              | Some b \<Rightarrow>
                  (let b = b\<lparr>current_event := None\<rparr>
                   in if event_break b then Some (-1, b)
                      else if cnt \<ge> max_to_process then Some (int cnt, b)
                      else
                        (let (late, b) =
                               (if cnt \<noteq> 0 \<and> endtime \<noteq> None then
                                  (let (now, b) = gettime (update_time_cache b) in (now \<ge> the endtime, b))
                                else (False, b))
                         in if late then Some (int cnt, b)
                            else if event_continue b then Some (int cnt, b)
                            else process_single_queue env app i max_to_process endtime cnt b))))"

fun process_queues ::
    "event_env \<Rightarrow> event_app \<Rightarrow> timeval option \<Rightarrow> nat list \<Rightarrow> int \<Rightarrow> event_base \<Rightarrow> (int \<times> event_base) option" where
  "process_queues env app endtime [] c b = Some (c, b)"
| "process_queues env app endtime (i # is) c b =
     (if activequeues b ! i \<noteq> [] then
        (let b = b\<lparr>event_running_priority := int i\<rparr>
         in case (if i < limit_callbacks_after_prio b
                  then process_single_queue env app i INT_MAX None 0 b
                  else process_single_queue env app i (max_dispatch_callbacks b) endtime 0 b) of
              None \<Rightarrow> None
            | Some (c, b) \<Rightarrow>
                if c < 0 then Some (c, b)
                else if c > 0 then Some (c, b)
                else process_queues env app endtime is c b)
      else process_queues env app endtime is c b)"

definition event_process_active :: "event_env \<Rightarrow> event_app \<Rightarrow> event_base \<Rightarrow> (int \<times> event_base) option" where
  "event_process_active env app b =
     (let (endtime, b) =
            (if tv_sec (max_dispatch_time b) \<ge> 0 then
               (let (tv, b) = gettime (update_time_cache b)
                in (Some (evutil_timeradd (max_dispatch_time b) tv), b))
             else (None, b))
      in case process_queues env app endtime [0..<length (activequeues b)] 0 b of
           None \<Rightarrow> None
         | Some (c, b) \<Rightarrow> Some (c, b\<lparr>event_running_priority := -1\<rparr>))"

section \<open>The loop\<close>

datatype evloop_flag = EVLOOP_ONCE | EVLOOP_NONBLOCK | EVLOOP_NO_EXIT_ON_EMPTY

partial_function (option) loop_turns ::
    "event_env \<Rightarrow> event_app \<Rightarrow> evloop_flag set \<Rightarrow> event_base \<Rightarrow> (int \<times> event_base) option" where
  "loop_turns env app flags b =
     (let b = b\<lparr>event_continue := False, n_deferreds_queued := 0\<rparr>
      in if event_gotterm b \<or> event_break b then Some (0, b)
         else
           (let (tv, b) = (if event_count_active b = 0 \<and> EVLOOP_NONBLOCK \<notin> flags then timeout_next b
                           else (Some evutil_timerclear, b))
            in if EVLOOP_NO_EXIT_ON_EMPTY \<notin> flags \<and> \<not> event_haveevents b \<and> event_count_active b = 0
               then Some (1, b)
               else
                 (let b = event_queue_make_later_events_active b;
                      b = prepare_watchers app tv b;
                      (res, b) = dispatch app tv (clear_time_cache b)
                  in if res = -1 then Some (-1, b)
                     else
                       (case timeout_process env (check_watchers app (update_time_cache b)) of
                          None \<Rightarrow> None
                        | Some b \<Rightarrow>
                            if event_count_active b \<noteq> 0 then
                              (case event_process_active env app b of
                                 None \<Rightarrow> None
                               | Some (n, b) \<Rightarrow>
                                   if EVLOOP_ONCE \<in> flags \<and> event_count_active b = 0 \<and> n \<noteq> 0 then Some (0, b)
                                   else loop_turns env app flags b)
                            else if EVLOOP_NONBLOCK \<in> flags then Some (0, b)
                            else loop_turns env app flags b))))"

definition event_base_loop ::
    "event_env \<Rightarrow> event_app \<Rightarrow> evloop_flag set \<Rightarrow> event_base \<Rightarrow> (int \<times> event_base) option" where
  "event_base_loop env app flags b =
     (if running_loop b then Some (-1, b)
      else
        (let b = clear_time_cache (b\<lparr>running_loop := True\<rparr>);
             b = b\<lparr>event_gotterm := False, event_break := False\<rparr>
         in case loop_turns env app flags b of
              None \<Rightarrow> None
            | Some (r, b) \<Rightarrow> Some (r, (clear_time_cache b)\<lparr>running_loop := False\<rparr>)))"

section \<open>Integrity\<close>

definition evmap_io_check_integrity :: "event_base \<Rightarrow> nat \<Rightarrow> evmap_io \<Rightarrow> bool" where
  "evmap_io_check_integrity b fd ctx \<longleftrightarrow>
     list_all (\<lambda>e. EVLIST_INSERTED \<in> flags_of b e \<and> ev_fd (evs b e) = int fd \<and>
        EV_SIGNAL \<notin> ev_events (evs b e) \<and> ev_events (evs b e) \<inter> {EV_READ, EV_WRITE, EV_CLOSED} \<noteq> {}) (io_events ctx) \<and>
     length (filter (\<lambda>e. EV_READ \<in> ev_events (evs b e)) (io_events ctx)) = nread ctx \<and>
     length (filter (\<lambda>e. EV_WRITE \<in> ev_events (evs b e)) (io_events ctx)) = nwrite ctx \<and>
     length (filter (\<lambda>e. EV_CLOSED \<in> ev_events (evs b e)) (io_events ctx)) = nclose ctx"

definition evmap_signal_check_integrity :: "event_base \<Rightarrow> nat \<Rightarrow> nat list \<Rightarrow> bool" where
  "evmap_signal_check_integrity b sig l \<longleftrightarrow>
     list_all (\<lambda>e. EVLIST_INSERTED \<in> flags_of b e \<and> ev_fd (evs b e) = int sig \<and>
        EV_SIGNAL \<in> ev_events (evs b e) \<and> ev_events (evs b e) \<inter> {EV_READ, EV_WRITE, EV_CLOSED} = {}) l"

definition evmap_check_integrity :: "event_base \<Rightarrow> bool" where
  "evmap_check_integrity b \<longleftrightarrow>
     list_all (\<lambda>fd. case entries (io b) fd of None \<Rightarrow> True | Some ctx \<Rightarrow> evmap_io_check_integrity b fd ctx)
       [0..<nentries (io b)] \<and>
     list_all (\<lambda>s. case entries (sigmap b) s of None \<Rightarrow> True | Some l \<Rightarrow> evmap_signal_check_integrity b s l)
       [0..<nentries (sigmap b)]"

definition event_base_assert_ok :: "event_base \<Rightarrow> bool" where
  "event_base_assert_ok b \<longleftrightarrow>
     evmap_check_integrity b \<and>
     list_all (\<lambda>u. let ev = hp (timeheap b) ! u; p_ev = hp (timeheap b) ! parent_of u
        in EVLIST_TIMEOUT \<in> flags_of b ev \<and> deadline b p_ev \<le> deadline b ev \<and> hidx (timeheap b) ev = u)
       [1..<hn (timeheap b)] \<and>
     list_all (\<lambda>i. let es = ctl_events (common_timeout_queues b ! i)
        in sorted (map (deadline b) es) \<and>
           list_all (\<lambda>e. EVLIST_TIMEOUT \<in> flags_of b e \<and> is_common_timeout (deadline b e) b \<and>
              COMMON_TIMEOUT_IDX (deadline b e) = i) es)
       [0..<length (common_timeout_queues b)] \<and>
     list_all (\<lambda>i. list_all (\<lambda>e. flags_of b e \<inter> {EVLIST_ACTIVE, EVLIST_ACTIVE_LATER} = {EVLIST_ACTIVE} \<and>
          evcb_pri (evs b e) = i) (activequeues b ! i)) [0..<length (activequeues b)] \<and>
     list_all (\<lambda>e. flags_of b e \<inter> {EVLIST_ACTIVE, EVLIST_ACTIVE_LATER} = {EVLIST_ACTIVE_LATER})
       (active_later_queue b) \<and>
     int (sum_list (map length (activequeues b)) + length (active_later_queue b)) = event_count_active b"

end
