(* ===== verification/EventInv.thy ===== *)
theory EventInv
  imports EventLoop
begin

text \<open>
  The invariant of an event base: which structure an event is in is what its flags say, the
  counters count, the heap is a heap. It implies the integrity check of the library. It is split
  by what its parts look at, so that an operation on one structure leaves the others alone.
\<close>

section \<open>Parts\<close>

definition EVENT_LIMIT :: nat where "EVENT_LIMIT = 2 ^ 57"

abbreviation has :: "evlist_flag \<Rightarrow> event_base \<Rightarrow> nat \<Rightarrow> bool" where
  "has f b e \<equiv> f \<in> evcb_flags (evs b e)"

abbreviation io_whats :: "ev_what set" where
  "io_whats \<equiv> {EV_READ, EV_WRITE, EV_CLOSED}"

lemma or_disj: "or x (push_bit n y) = x + 2 ^ n * y" if "0 \<le> x" "x < 2 ^ n" for x y :: int
proof -
  have x: "take_bit n x = x" using that by (simp add: take_bit_int_eq_self)
  have "and x (push_bit n y) = 0"
  proof (rule bit_eqI)
    fix k
    have "bit x k \<Longrightarrow> k < n" using x bit_take_bit_iff by metis
    then show "bit (and x (push_bit n y)) k = bit (0::int) k" by (auto simp: bit_simps)
  qed
  then show ?thesis
    using disjunctive_add_eq_or [of x "push_bit n y"] by (simp add: push_bit_eq_mult mult.commute)
qed

lemma and_mask_shift: "and x (push_bit n (mask m)) = push_bit n (take_bit m (drop_bit n x))" for x :: int
  by (rule bit_eqI) (auto simp: bit_simps)

lemma and_not_mask: "and x (not (mask n)) = push_bit n (drop_bit n x)" for x :: int
  by (rule bit_eqI) (auto simp: bit_simps)

text \<open>
  Times as they may be given: normal ones, and those of the common timeout lists, whose
  microseconds carry the number \<open>i\<close> of the list in their upper bits.
\<close>

definition norm :: "timeval \<Rightarrow> bool" where
  "norm tv \<longleftrightarrow> 0 \<le> tv_usec tv \<and> tv_usec tv < 1000000"

definition stamp :: "nat \<Rightarrow> int \<Rightarrow> int" where
  "stamp i u = or (or u COMMON_TIMEOUT_MAGIC) (push_bit COMMON_TIMEOUT_IDX_SHIFT (int i))"

definition valid_tv :: "nat \<Rightarrow> timeval \<Rightarrow> bool" where
  "valid_tv n tv \<longleftrightarrow> norm tv \<or> (\<exists>i u. i < n \<and> 0 \<le> u \<and> u < 1000000 \<and> tv_usec tv = stamp i u)"

definition upper :: "timeval \<Rightarrow> int" where
  "upper tv = and (tv_usec tv) (not MICROSECONDS_MASK)"

lemma masks: "MICROSECONDS_MASK = mask 20" "COMMON_TIMEOUT_IDX_MASK = push_bit 20 (mask 8)"
  "COMMON_TIMEOUT_MASK = push_bit 28 (mask 4)" "COMMON_TIMEOUT_MAGIC = push_bit 20 1280"
  by (simp_all add: MICROSECONDS_MASK_def COMMON_TIMEOUT_IDX_MASK_def COMMON_TIMEOUT_MASK_def
      COMMON_TIMEOUT_MAGIC_def mask_eq_exp_minus_1 push_bit_eq_mult)

lemma stamp_arith:
  assumes "0 \<le> u" and "u < 1000000" and "i < 256"
  shows "stamp i u = u + 2 ^ 20 * (1280 + int i)"
proof -
  have "stamp i u = or u (push_bit 20 (or (int i) (push_bit 8 5)))"
  proof -
    have m: "COMMON_TIMEOUT_MAGIC = push_bit 20 (push_bit 8 5)"
      by (simp add: COMMON_TIMEOUT_MAGIC_def push_bit_eq_mult)
    show ?thesis
      unfolding stamp_def m COMMON_TIMEOUT_IDX_SHIFT_def push_bit_or
      by (simp only: or.assoc or.commute or.left_commute)
  qed
  also have "or (int i) (push_bit 8 5) = 1280 + int i"
    using or_disj [of "int i" 8 5] assms(3) by simp
  finally show ?thesis using or_disj [of u 20] assms(1,2) by simp
qed

lemma stamp_facts:
  assumes "0 \<le> u" and "u < 1000000" and "i < 256"
  shows "and (stamp i u) MICROSECONDS_MASK = u"
    "and (stamp i u) (not MICROSECONDS_MASK) = 2 ^ 20 * (1280 + int i)"
    "and (stamp i u) COMMON_TIMEOUT_MASK = COMMON_TIMEOUT_MAGIC"
    "nat (drop_bit COMMON_TIMEOUT_IDX_SHIFT (and (stamp i u) COMMON_TIMEOUT_IDX_MASK)) = i"
proof -
  note s = stamp_arith [OF assms]
  have d: "drop_bit 20 (stamp i u) = 1280 + int i"
    using assms(1,2) unfolding s by (simp add: drop_bit_eq_div)
  show "and (stamp i u) MICROSECONDS_MASK = u"
  proof -
    have "take_bit 20 (u + 2 ^ 20 * (1280 + int i)) = u mod 2 ^ 20"
      unfolding take_bit_eq_mod by (rule mod_mult_self2)
    then show ?thesis using assms(1,2) unfolding s masks take_bit_eq_mask [symmetric] by simp
  qed
  show "and (stamp i u) (not MICROSECONDS_MASK) = 2 ^ 20 * (1280 + int i)"
    unfolding masks and_not_mask d by (simp add: push_bit_eq_mult)
  have "drop_bit 28 (stamp i u) = drop_bit 8 (drop_bit 20 (stamp i u))" by simp
  also have "\<dots> = 5" using assms(3) unfolding d by (simp add: drop_bit_eq_div)
  finally have e: "drop_bit 28 (stamp i u) = 5" .
  show "and (stamp i u) COMMON_TIMEOUT_MASK = COMMON_TIMEOUT_MAGIC"
    unfolding masks and_mask_shift e by (simp add: push_bit_eq_mult take_bit_eq_mod)
  show "nat (drop_bit COMMON_TIMEOUT_IDX_SHIFT (and (stamp i u) COMMON_TIMEOUT_IDX_MASK)) = i"
    unfolding masks and_mask_shift d COMMON_TIMEOUT_IDX_SHIFT_def
  proof -
    have "(int i + 5 * 256) mod 256 = int i mod 256" by (rule mod_mult_self1)
    then have "(1280 + int i) mod 256 = int i" using assms(3) by (simp add: add.commute)
    then show "nat (drop_bit 20 (push_bit 20 (take_bit 8 (1280 + int i)))) = i"
      by (simp add: take_bit_eq_mod push_bit_eq_mult drop_bit_eq_div)
  qed
qed

lemma plain_facts:
  fixes u :: int
  assumes "0 \<le> u" and "u < 1000000"
  shows "and u MICROSECONDS_MASK = u" "and u (not MICROSECONDS_MASK) = 0" "and u COMMON_TIMEOUT_MASK = 0"
proof -
  show "and u MICROSECONDS_MASK = u"
    using assms unfolding masks take_bit_eq_mask [symmetric] by (simp add: take_bit_eq_mod)
  show "and u (not MICROSECONDS_MASK) = 0"
    using assms unfolding masks and_not_mask by (simp add: drop_bit_eq_div)
  show "and u COMMON_TIMEOUT_MASK = 0"
    using assms unfolding masks and_mask_shift by (simp add: drop_bit_eq_div)
qed

lemma valid_tv_cases [consumes 2, case_names plain stamped]:
  assumes "valid_tv n tv" and "n \<le> 256"
  obtains "norm tv" "\<not> magic tv" "masked tv = tv" "upper tv = 0"
  | i u where "i < n" "magic tv" "COMMON_TIMEOUT_IDX tv = i" "norm (masked tv)"
      "upper tv = 2 ^ 20 * (1280 + int i)" "tv_usec tv = stamp i u" "0 \<le> u" "u < 1000000"
      "masked tv = Timeval (tv_sec tv) u"
proof (cases "norm tv")
  case True
  then have "0 \<le> tv_usec tv" "tv_usec tv < 1000000" by (simp_all add: norm_def)
  note f = plain_facts [OF this]
  have "\<not> magic tv" using f(3) by (simp add: magic_def COMMON_TIMEOUT_MAGIC_def)
  with True f show ?thesis by (intro that(1)) (simp_all add: masked_def upper_def)
next
  case False
  with assms(1) obtain i u where i: "i < n" "0 \<le> u" "u < 1000000" "tv_usec tv = stamp i u"
    by (auto simp: valid_tv_def)
  have "i < 256" using i(1) assms(2) by simp
  note f = stamp_facts [OF i(2,3) this]
  show ?thesis
    by (rule that(2) [of i u]) (use i f in \<open>simp_all add: magic_def COMMON_TIMEOUT_IDX_def norm_def masked_def upper_def\<close>)
qed

lemma is_same_upper: "is_same_common_timeout a b \<longleftrightarrow> upper a = upper b"
  by (simp add: is_same_common_timeout_def upper_def)

text \<open>Timeouts: \<open>F\<close> tells the events with one, \<open>D\<close> their deadlines.\<close>

definition common_in :: "common_timeout_list list \<Rightarrow> timeval \<Rightarrow> bool" where
  "common_in cs tv \<longleftrightarrow> magic tv \<and> COMMON_TIMEOUT_IDX tv < length cs"

lemma is_common_in: "is_common_timeout tv b = common_in (common_timeout_queues b) tv"
  by (simp add: is_common_timeout_def common_in_def magic_def)

definition ctl_ok :: "(nat \<Rightarrow> bool) \<Rightarrow> (nat \<Rightarrow> timeval) \<Rightarrow> common_timeout_list list \<Rightarrow> nat \<Rightarrow> bool" where
  "ctl_ok F D cs i \<longleftrightarrow>
     (let es = ctl_events (cs ! i)
      in distinct es \<and> sorted (map D es) \<and>
         (\<forall>e. e \<in> set es \<longleftrightarrow> F e \<and> common_in cs (D e) \<and> COMMON_TIMEOUT_IDX (D e) = i))"

definition tmo_ok :: "(nat \<Rightarrow> bool) \<Rightarrow> (nat \<Rightarrow> timeval) \<Rightarrow> min_heap \<Rightarrow> common_timeout_list list \<Rightarrow> bool" where
  "tmo_ok F D h cs \<longleftrightarrow>
     heap_ok D h \<and> (\<forall>e. e \<in> set (elems h) \<longleftrightarrow> F e \<and> \<not> common_in cs (D e)) \<and>
     (\<forall>i < length cs. ctl_ok F D cs i) \<and> length cs \<le> 256 \<and>
     (\<forall>e. F e \<longrightarrow> e < EVENT_LIMIT \<and> valid_tv (length cs) (D e))"

text \<open>Active queues.\<close>

definition act_ok :: "(nat \<Rightarrow> bool) \<Rightarrow> (nat \<Rightarrow> bool) \<Rightarrow> (nat \<Rightarrow> nat) \<Rightarrow> nat list list \<Rightarrow> nat list \<Rightarrow> int \<Rightarrow> bool" where
  "act_ok A L P qs later n \<longleftrightarrow>
     (\<forall>i < length qs. distinct (qs ! i) \<and> (\<forall>e. e \<in> set (qs ! i) \<longleftrightarrow> A e \<and> P e = i)) \<and>
     (\<forall>e. A e \<or> L e \<longrightarrow> P e < length qs) \<and>
     distinct later \<and> (\<forall>e. e \<in> set later \<longleftrightarrow> L e) \<and> (\<forall>e. \<not> (A e \<and> L e)) \<and>
     n = int (sum_list (map length qs) + length later)"

text \<open>Descriptors and signals.\<close>

definition count_in :: "(nat \<Rightarrow> ev_what set) \<Rightarrow> ev_what \<Rightarrow> nat list \<Rightarrow> nat" where
  "count_in W w es = length (filter (\<lambda>e. w \<in> W e) es)"

definition ctx_ok :: "(nat \<Rightarrow> ev_what set) \<Rightarrow> evmap_io \<Rightarrow> bool" where
  "ctx_ok W c \<longleftrightarrow> distinct (io_events c) \<and> nread c = count_in W EV_READ (io_events c) \<and>
     nwrite c = count_in W EV_WRITE (io_events c) \<and> nclose c = count_in W EV_CLOSED (io_events c)"

definition io_list :: "evmap_io event_map \<Rightarrow> nat \<Rightarrow> nat list" where
  "io_list m fd = (case entries m fd of None \<Rightarrow> [] | Some c \<Rightarrow> io_events c)"

definition sig_list :: "nat list event_map \<Rightarrow> nat \<Rightarrow> nat list" where
  "sig_list m s = (case entries m s of None \<Rightarrow> [] | Some l \<Rightarrow> l)"

definition io_ok :: "(nat \<Rightarrow> bool) \<Rightarrow> (nat \<Rightarrow> ev_what set) \<Rightarrow> (nat \<Rightarrow> int) \<Rightarrow> evmap_io event_map \<Rightarrow> bool" where
  "io_ok I W D m \<longleftrightarrow>
     (\<forall>fd c. entries m fd = Some c \<longrightarrow> fd < nentries m \<and> ctx_ok W c) \<and>
     (\<forall>fd e. e \<in> set (io_list m fd) \<longleftrightarrow> I e \<and> W e \<inter> io_whats \<noteq> {} \<and> D e = int fd)"

definition sig_ok :: "(nat \<Rightarrow> bool) \<Rightarrow> (nat \<Rightarrow> ev_what set) \<Rightarrow> (nat \<Rightarrow> int) \<Rightarrow> nat list event_map \<Rightarrow> bool" where
  "sig_ok I W D m \<longleftrightarrow>
     (\<forall>s l. entries m s = Some l \<longrightarrow> s < nentries m \<and> distinct l) \<and>
     (\<forall>s e. e \<in> set (sig_list m s) \<longleftrightarrow> I e \<and> W e \<inter> io_whats = {} \<and> D e = int s) \<and>
     (\<forall>e. I e \<and> W e \<inter> io_whats = {} \<longrightarrow> EV_SIGNAL \<in> W e \<and> 0 \<le> D e)"

text \<open>The number of non-internal memberships.\<close>

definition counted :: "evlist_flag set" where
  "counted = {EVLIST_TIMEOUT, EVLIST_INSERTED, EVLIST_ACTIVE, EVLIST_ACTIVE_LATER}"

definition weight :: "evlist_flag set \<Rightarrow> int" where
  "weight fl = (if EVLIST_INTERNAL \<in> fl then 0 else int (card (fl \<inter> counted)))"

definition cnt_ok :: "(nat \<Rightarrow> evlist_flag set) \<Rightarrow> int \<Rightarrow> bool" where
  "cnt_ok F n \<longleftrightarrow> (\<exists>S. finite S \<and> (\<forall>e. e \<notin> S \<longrightarrow> F e \<inter> counted = {}) \<and> n = (\<Sum>e \<in> S. weight (F e)))"

definition event_ok :: "nat \<Rightarrow> event \<Rightarrow> bool" where
  "event_ok n ev \<longleftrightarrow>
     (evcb_flags ev \<noteq> {} \<longrightarrow> evcb_pri ev < n) \<and>
     (EVLIST_FINALIZING \<in> evcb_flags ev \<longrightarrow> evcb_flags ev \<inter> {EVLIST_TIMEOUT, EVLIST_INSERTED} = {}) \<and>
     (evcb_flags ev \<inter> {EVLIST_TIMEOUT, EVLIST_INSERTED} \<noteq> {} \<longrightarrow> EVLIST_INIT \<in> evcb_flags ev) \<and>
     (EVLIST_INIT \<in> evcb_flags ev \<longrightarrow> EV_SIGNAL \<in> ev_events ev \<longrightarrow> ev_events ev \<inter> io_whats = {}) \<and>
     (evcb_closure ev \<in> {EV_CLOSURE_CB_FINALIZE, EV_CLOSURE_EVENT_FINALIZE, EV_CLOSURE_EVENT_FINALIZE_FREE} \<longrightarrow>
        EVLIST_FINALIZING \<in> evcb_flags ev)"

text \<open>An event that may be added; the ones of the common timeout lists are.\<close>

definition addable :: "nat \<Rightarrow> nat \<Rightarrow> event \<Rightarrow> bool" where
  "addable n e ev \<longleftrightarrow> EVLIST_INIT \<in> evcb_flags ev \<and> evcb_pri ev < n \<and> e < EVENT_LIMIT"

text \<open>The interval of a persistent event is in the list its deadline is in.\<close>

definition persist_ok :: "nat \<Rightarrow> nat \<Rightarrow> nat \<Rightarrow> event \<Rightarrow> bool" where
  "persist_ok n m e ev \<longleftrightarrow>
     (evcb_closure ev = EV_CLOSURE_EVENT_PERSIST \<longrightarrow> addable n e ev) \<and>
     (evcb_closure ev = EV_CLOSURE_EVENT_PERSIST \<longrightarrow> ev_io_timeout ev = Timeval 0 0 \<or>
        valid_tv m (ev_io_timeout ev) \<and> valid_tv m (ev_timeout ev) \<and> is_same_common_timeout (ev_timeout ev) (ev_io_timeout ev))"

definition ctl_event_ok :: "nat \<Rightarrow> (nat \<Rightarrow> event) \<Rightarrow> common_timeout_list \<Rightarrow> bool" where
  "ctl_event_ok n s c \<longleftrightarrow>
     (let e = ctl_timeout_event c
      in addable n e (s e) \<and> ev_events (s e) = {} \<and> evcb_closure (s e) = EV_CLOSURE_EVENT)"

text \<open>The fields of the events in the store.\<close>

definition flagp :: "evlist_flag \<Rightarrow> (nat \<Rightarrow> event) \<Rightarrow> nat \<Rightarrow> bool" where
  "flagp f s = (\<lambda>e. f \<in> evcb_flags (s e))"

definition dls :: "(nat \<Rightarrow> event) \<Rightarrow> nat \<Rightarrow> timeval" where "dls s = (\<lambda>e. ev_timeout (s e))"
definition pris :: "(nat \<Rightarrow> event) \<Rightarrow> nat \<Rightarrow> nat" where "pris s = (\<lambda>e. evcb_pri (s e))"
definition whats :: "(nat \<Rightarrow> event) \<Rightarrow> nat \<Rightarrow> ev_what set" where "whats s = (\<lambda>e. ev_events (s e))"
definition fds :: "(nat \<Rightarrow> event) \<Rightarrow> nat \<Rightarrow> int" where "fds s = (\<lambda>e. ev_fd (s e))"
definition flagf :: "(nat \<Rightarrow> event) \<Rightarrow> nat \<Rightarrow> evlist_flag set" where "flagf s = (\<lambda>e. evcb_flags (s e))"

lemmas field_defs = flagp_def dls_def pris_def whats_def fds_def flagf_def

definition dur_ok :: "timeval list \<Rightarrow> bool" where
  "dur_ok ds \<longleftrightarrow> (\<forall>i < length ds. \<exists>u. 0 \<le> u \<and> u < 1000000 \<and> tv_usec (ds ! i) = stamp i u)"

definition core_ok :: "event_base \<Rightarrow> bool" where
  "core_ok b \<longleftrightarrow>
     tmo_ok (flagp EVLIST_TIMEOUT (evs b)) (dls (evs b)) (timeheap b) (common_timeout_queues b) \<and>
     act_ok (flagp EVLIST_ACTIVE (evs b)) (flagp EVLIST_ACTIVE_LATER (evs b)) (pris (evs b))
       (activequeues b) (active_later_queue b) (event_count_active b) \<and>
     cnt_ok (flagf (evs b)) (event_count b) \<and>
     (\<forall>e. event_ok (length (activequeues b)) (evs b e)) \<and>
     (\<forall>c \<in> set (common_timeout_queues b). ctl_event_ok (length (activequeues b)) (evs b) c) \<and>
     dur_ok (map ctl_duration (common_timeout_queues b)) \<and>
     norm (tv_cache b) \<and> norm (monotonic b) \<and> \<not> aborted b"

text \<open>\<open>I\<close> tells the events that are registered.\<close>

definition maps_ok :: "(nat \<Rightarrow> bool) \<Rightarrow> event_base \<Rightarrow> bool" where
  "maps_ok I b \<longleftrightarrow> io_ok I (whats (evs b)) (fds (evs b)) (io b) \<and> sig_ok I (whats (evs b)) (fds (evs b)) (sigmap b)"

definition base_ok :: "event_base \<Rightarrow> bool" where
  "base_ok b \<longleftrightarrow> core_ok b \<and> maps_ok (flagp EVLIST_INSERTED (evs b)) b \<and>
     (\<forall>e. persist_ok (length (activequeues b)) (length (common_timeout_queues b)) e (evs b e))"

lemma io_okD:
  "io_ok I W D m \<Longrightarrow> e \<in> set (io_list m fd) \<longleftrightarrow> I e \<and> W e \<inter> io_whats \<noteq> {} \<and> D e = int fd"
  by (simp add: io_ok_def)

lemma sig_okD:
  "sig_ok I W D m \<Longrightarrow> e \<in> set (sig_list m s) \<longleftrightarrow> I e \<and> W e \<inter> io_whats = {} \<and> D e = int s"
  by (simp add: sig_ok_def)

section \<open>The integrity check\<close>

lemma io_list_Some: "entries m fd = Some c \<Longrightarrow> io_list m fd = io_events c"
  by (simp add: io_list_def)

lemma sig_list_Some: "entries m fd = Some l \<Longrightarrow> sig_list m fd = l"
  by (simp add: sig_list_def)

lemma base_ok_integrity_maps:
  assumes ok: "base_ok b"
  shows "evmap_check_integrity b"
proof -
  let ?W = "\<lambda>e. ev_events (evs b e)"
  have io: "io_ok (has EVLIST_INSERTED b) ?W (\<lambda>e. ev_fd (evs b e)) (io b)"
    and sg: "sig_ok (has EVLIST_INSERTED b) ?W (\<lambda>e. ev_fd (evs b e)) (sigmap b)"
    and ev: "\<And>e. event_ok (length (activequeues b)) (evs b e)"
    using ok by (simp_all add: base_ok_def core_ok_def maps_ok_def field_defs)
  have "evmap_io_check_integrity b fd c" if c: "entries (io b) fd = Some c" for fd c
  proof -
    have ctx: "ctx_ok ?W c" using io c by (simp add: io_ok_def)
    have mem: "has EVLIST_INSERTED b e \<and> ?W e \<inter> io_whats \<noteq> {} \<and> ev_fd (evs b e) = int fd"
      if "e \<in> set (io_events c)" for e
      using io_okD [OF io, of e fd] that io_list_Some [OF c] by simp
    have "EV_SIGNAL \<notin> ?W e" if "e \<in> set (io_events c)" for e
      using mem [OF that] ev [of e] by (auto simp: event_ok_def)
    with mem ctx show ?thesis
      by (auto simp: evmap_io_check_integrity_def ctx_ok_def count_in_def list_all_iff)
  qed
  moreover have "evmap_signal_check_integrity b s l" if l: "entries (sigmap b) s = Some l" for s l
  proof -
    have "has EVLIST_INSERTED b e \<and> ?W e \<inter> io_whats = {} \<and> ev_fd (evs b e) = int s \<and> EV_SIGNAL \<in> ?W e"
      if "e \<in> set l" for e
      using sig_okD [OF sg, of e s] sg that sig_list_Some [OF l] by (auto simp: sig_ok_def)
    then show ?thesis by (auto simp: evmap_signal_check_integrity_def list_all_iff)
  qed
  ultimately show ?thesis
    by (auto simp: evmap_check_integrity_def list_all_iff split: option.splits)
qed

lemma base_ok_integrity:
  assumes ok: "base_ok b"
  shows "event_base_assert_ok b"
proof -
  have tmo: "tmo_ok (has EVLIST_TIMEOUT b) (deadline b) (timeheap b) (common_timeout_queues b)"
    and act: "act_ok (has EVLIST_ACTIVE b) (has EVLIST_ACTIVE_LATER b) (\<lambda>e. evcb_pri (evs b e))
       (activequeues b) (active_later_queue b) (event_count_active b)"
    using ok by (simp_all add: base_ok_def core_ok_def field_defs)
  have h: "heap_ok (deadline b) (timeheap b)" using tmo by (simp add: tmo_ok_def)
  let ?h = "timeheap b"
  have "EVLIST_TIMEOUT \<in> flags_of b (hp ?h ! u) \<and> deadline b (hp ?h ! parent_of u) \<le> deadline b (hp ?h ! u) \<and>
      hidx ?h (hp ?h ! u) = u" if u: "0 < u" "u < hn ?h" for u
  proof -
    have p: "parent_of u < hn ?h" using u by simp
    have eq: "hp ?h ! u = elems ?h ! u" "hp ?h ! parent_of u = elems ?h ! parent_of u"
      using u p by (simp_all add: elems_nth)
    have len: "length (elems ?h) = hn ?h" by (rule length_elems [OF h])
    have "elems ?h ! u \<in> set (elems ?h)" using len u by simp
    then have "has EVLIST_TIMEOUT b (elems ?h ! u)" using tmo by (simp add: tmo_ok_def)
    moreover have "deadline b (elems ?h ! parent_of u) \<le> deadline b (elems ?h ! u)"
      using h u len by (simp add: heap_ok_def ordered_def)
    moreover have "hidx ?h (elems ?h ! u) = u" using h u by (simp add: heap_ok_def)
    ultimately show ?thesis unfolding eq by blast
  qed
  then have heap: "list_all (\<lambda>u. let ev = hp ?h ! u; p_ev = hp ?h ! parent_of u
        in EVLIST_TIMEOUT \<in> flags_of b ev \<and> deadline b p_ev \<le> deadline b ev \<and> hidx ?h ev = u) [1..<hn ?h]"
    by (simp add: list_all_iff Let_def)
  have "sorted (map (deadline b) (ctl_events (common_timeout_queues b ! i))) \<and>
      (\<forall>e \<in> set (ctl_events (common_timeout_queues b ! i)). has EVLIST_TIMEOUT b e \<and>
        is_common_timeout (deadline b e) b \<and> COMMON_TIMEOUT_IDX (deadline b e) = i)"
    if "i < length (common_timeout_queues b)" for i
    using tmo that by (auto simp: tmo_ok_def ctl_ok_def Let_def is_common_in)
  then have ctl: "list_all (\<lambda>i. let es = ctl_events (common_timeout_queues b ! i)
        in sorted (map (deadline b) es) \<and>
           list_all (\<lambda>e. EVLIST_TIMEOUT \<in> flags_of b e \<and> is_common_timeout (deadline b e) b \<and>
              COMMON_TIMEOUT_IDX (deadline b e) = i) es) [0..<length (common_timeout_queues b)]"
    by (simp add: list_all_iff Let_def)
  have "list_all (\<lambda>i. list_all (\<lambda>e. flags_of b e \<inter> {EVLIST_ACTIVE, EVLIST_ACTIVE_LATER} = {EVLIST_ACTIVE} \<and>
          evcb_pri (evs b e) = i) (activequeues b ! i)) [0..<length (activequeues b)]"
    using act by (auto simp: list_all_iff act_ok_def)
  moreover have "list_all (\<lambda>e. flags_of b e \<inter> {EVLIST_ACTIVE, EVLIST_ACTIVE_LATER} = {EVLIST_ACTIVE_LATER})
       (active_later_queue b)"
    using act by (auto simp: list_all_iff act_ok_def)
  moreover have "int (sum_list (map length (activequeues b)) + length (active_later_queue b)) = event_count_active b"
    using act by (simp add: act_ok_def)
  ultimately show ?thesis
    using base_ok_integrity_maps [OF ok] heap ctl unfolding event_base_assert_ok_def by blast
qed

section \<open>The parts under their operations\<close>

lemma field_upd [simp]:
  "dls (s(e := (s e)\<lparr>evcb_flags := X\<rparr>)) = dls s" "pris (s(e := (s e)\<lparr>evcb_flags := X\<rparr>)) = pris s"
  "whats (s(e := (s e)\<lparr>evcb_flags := X\<rparr>)) = whats s" "fds (s(e := (s e)\<lparr>evcb_flags := X\<rparr>)) = fds s"
  "flagp f (s(e := (s e)\<lparr>evcb_flags := X\<rparr>)) = (flagp f s)(e := f \<in> X)"
  "flagf (s(e := (s e)\<lparr>evcb_flags := X\<rparr>)) = (flagf s)(e := X)"
  by (simp_all add: field_defs fun_eq_iff)

lemma cnt_flip:
  assumes cnt: "cnt_ok F n"
  shows "cnt_ok (F(e := X)) (n + weight X - weight (F e))"
proof -
  from cnt obtain S where S: "finite S" "\<And>e. e \<notin> S \<Longrightarrow> F e \<inter> counted = {}" "n = (\<Sum>e \<in> S. weight (F e))"
    by (auto simp: cnt_ok_def)
  let ?F = "F(e := X)"
  have z: "weight (F e) = 0" if "e \<notin> S" using S(2) [OF that] by (simp add: weight_def)
  have "(\<Sum>e \<in> insert e S. weight (?F e)) = weight X + (\<Sum>e \<in> S - {e}. weight (F e))"
    using S(1) by (simp add: sum.insert_remove)
  moreover have "n = weight (F e) + (\<Sum>e \<in> S - {e}. weight (F e))"
    using S(1,3) z by (cases "e \<in> S") (simp_all add: sum.remove)
  ultimately show ?thesis
    using S(1,2) unfolding cnt_ok_def by (intro exI [of _ "insert e S"]) auto
qed

lemma counted_internal: "EVLIST_INTERNAL \<notin> counted"
  by (simp add: counted_def)

lemma weight_insert:
  assumes "f \<in> counted" and "f \<notin> X"
  shows "weight (insert f X) = weight X + (if EVLIST_INTERNAL \<in> X then 0 else 1)"
proof -
  have "insert f X \<inter> counted = insert f (X \<inter> counted)" using assms(1) by auto
  moreover have "finite (X \<inter> counted)" by (simp add: counted_def)
  ultimately show ?thesis using assms counted_internal by (auto simp: weight_def)
qed

lemma cnt_insert:
  assumes "cnt_ok F n" and "f \<in> counted" and "f \<notin> F e"
  shows "cnt_ok (F(e := insert f (F e))) (n + (if EVLIST_INTERNAL \<in> F e then 0 else 1))"
  using cnt_flip [OF assms(1), of e "insert f (F e)"] weight_insert [OF assms(2,3)] by auto

lemma cnt_remove:
  assumes "cnt_ok F n" and "f \<in> counted" and "f \<in> F e"
  shows "cnt_ok (F(e := F e - {f})) (n - (if EVLIST_INTERNAL \<in> F e then 0 else 1))"
proof -
  have "F e = insert f (F e - {f})" using assms(3) by auto
  then have "weight (F e) = weight (F e - {f}) + (if EVLIST_INTERNAL \<in> F e - {f} then 0 else 1)"
    using weight_insert [OF assms(2), of "F e - {f}"] by simp
  moreover have "(EVLIST_INTERNAL \<in> F e - {f}) = (EVLIST_INTERNAL \<in> F e)"
    using assms(2) counted_internal by auto
  ultimately show ?thesis
    using cnt_flip [OF assms(1), of e "F e - {f}"] by auto
qed

lemma act_remove:
  assumes ok: "act_ok A L P qs later n" and e: "A e"
  shows "act_ok (A(e := False)) L P (qs[P e := remove1 e (qs ! P e)]) later (n - 1)"
proof -
  have p: "P e < length qs" "e \<in> set (qs ! P e)" "distinct (qs ! P e)" using ok e by (auto simp: act_ok_def)
  have "sum_list (map length (qs[P e := remove1 e (qs ! P e)])) + 1 = sum_list (map length qs)"
  proof -
    have "length (remove1 e (qs ! P e)) + 1 = length (qs ! P e)"
      using p(2) by (simp add: length_remove1) (metis Suc_pred length_pos_if_in_set)
    moreover have "length (qs ! P e) \<le> sum_list (map length qs)"
      using p(1) elem_le_sum_list [of "P e" "map length qs"] by simp
    ultimately show ?thesis using p(1) by (simp add: map_update sum_list_update)
  qed
  moreover have "distinct ((qs[P e := remove1 e (qs ! P e)]) ! i) \<and>
      (\<forall>x. x \<in> set ((qs[P e := remove1 e (qs ! P e)]) ! i) \<longleftrightarrow> (A(e := False)) x \<and> P x = i)"
    if "i < length qs" for i
    using ok that p by (cases "i = P e") (auto simp: act_ok_def)
  ultimately show ?thesis using ok by (auto simp: act_ok_def)
qed

lemma act_insert:
  assumes ok: "act_ok A L P qs later n" and e: "\<not> A e" "\<not> L e" "P e < length qs"
  shows "act_ok (A(e := True)) L P (qs[P e := qs ! P e @ [e]]) later (n + 1)"
proof -
  have "sum_list (map length (qs[P e := qs ! P e @ [e]])) = sum_list (map length qs) + 1"
    using e(3) elem_le_sum_list [of "P e" "map length qs"] by (simp add: map_update sum_list_update)
  moreover have "distinct ((qs[P e := qs ! P e @ [e]]) ! i) \<and>
      (\<forall>x. x \<in> set ((qs[P e := qs ! P e @ [e]]) ! i) \<longleftrightarrow> (A(e := True)) x \<and> P x = i)"
    if "i < length qs" for i
    using ok that e by (cases "i = P e") (auto simp: act_ok_def)
  ultimately show ?thesis using ok e by (auto simp: act_ok_def)
qed

lemma later_remove:
  assumes ok: "act_ok A L P qs later n" and e: "L e"
  shows "act_ok A (L(e := False)) P qs (remove1 e later) (n - 1)"
proof -
  have "e \<in> set later" "distinct later" using ok e by (auto simp: act_ok_def)
  moreover from this have "length (remove1 e later) + 1 = length later"
    by (simp add: length_remove1) (metis Suc_pred length_pos_if_in_set)
  ultimately show ?thesis using ok by (auto simp: act_ok_def)
qed

lemma later_insert:
  assumes ok: "act_ok A L P qs later n" and e: "\<not> A e" "\<not> L e" "P e < length qs"
  shows "act_ok A (L(e := True)) P qs (later @ [e]) (n + 1)"
  using ok e by (auto simp: act_ok_def)

lemma heap_room:
  assumes ok: "tmo_ok F D h cs"
  shows "hn h + 1 < EV_SIZE_MAX"
proof -
  have h: "heap_ok D h" and s: "set (elems h) \<subseteq> {..<EVENT_LIMIT}" using ok by (auto simp: tmo_ok_def)
  have "hn h = card (set (elems h))"
    using h length_elems [OF h] by (simp add: heap_ok_def distinct_card)
  also have "\<dots> \<le> EVENT_LIMIT" using card_mono [OF _ s] by simp
  finally show ?thesis by (simp add: EVENT_LIMIT_def EV_SIZE_MAX_def)
qed

lemma ctl_cong:
  assumes ok: "ctl_ok F D cs i"
    and same: "\<And>x. (F x \<and> common_in cs (D x)) = (F' x \<and> common_in cs' (D' x))"
      "\<And>x. F x \<Longrightarrow> common_in cs (D x) \<Longrightarrow> D' x = D x"
    and l: "ctl_events (cs' ! i) = ctl_events (cs ! i)"
  shows "ctl_ok F' D' cs' i"
proof -
  let ?es = "ctl_events (cs ! i)"
  have ok': "distinct ?es" "sorted (map D ?es)"
    "\<And>x. x \<in> set ?es \<longleftrightarrow> F x \<and> common_in cs (D x) \<and> COMMON_TIMEOUT_IDX (D x) = i"
    using ok by (auto simp: ctl_ok_def Let_def)
  have m: "map D' ?es = map D ?es" using ok'(3) same(2) by simp
  have "x \<in> set ?es \<longleftrightarrow> F' x \<and> common_in cs' (D' x) \<and> COMMON_TIMEOUT_IDX (D' x) = i" for x
  proof (cases "F x \<and> common_in cs (D x)")
    case True
    then have "D' x = D x" "F' x" "common_in cs' (D' x)" using same(1) [of x] same(2) [of x] by blast+
    with True ok'(3) [of x] show ?thesis by simp
  next
    case False
    then show ?thesis using ok'(3) [of x] same(1) [of x] by blast
  qed
  with ok'(1,2) show ?thesis unfolding ctl_ok_def Let_def l m by blast
qed

lemma tmo_okD:
  assumes "tmo_ok F D h cs"
  shows "heap_ok D h" "e \<in> set (elems h) \<longleftrightarrow> F e \<and> \<not> common_in cs (D e)" "i < length cs \<Longrightarrow> ctl_ok F D cs i"
    "length cs \<le> 256" "F e \<Longrightarrow> e < EVENT_LIMIT" "F e \<Longrightarrow> valid_tv (length cs) (D e)"
  using assms by (simp_all add: tmo_ok_def)

lemma tmo_okI:
  assumes "heap_ok D h" "\<And>e. e \<in> set (elems h) \<longleftrightarrow> F e \<and> \<not> common_in cs (D e)"
    "\<And>i. i < length cs \<Longrightarrow> ctl_ok F D cs i" "length cs \<le> 256"
    "\<And>e. F e \<Longrightarrow> e < EVENT_LIMIT \<and> valid_tv (length cs) (D e)"
  shows "tmo_ok F D h cs"
  using assms by (simp add: tmo_ok_def)

lemma tmo_redate:
  assumes ok: "tmo_ok F D h cs" and e: "\<not> F e"
  shows "tmo_ok F (D(e := t)) h cs"
proof -
  have h: "heap_ok D h" and m: "\<And>x. x \<in> set (elems h) \<Longrightarrow> x \<noteq> e"
    using tmo_okD(1,2) [OF ok] e by blast+
  show ?thesis
  proof (rule tmo_okI)
    show "heap_ok (D(e := t)) h" using h m heap_ok_cong [of h "D(e := t)" D] by auto
    show "ctl_ok F (D(e := t)) cs i" if "i < length cs" for i
      by (rule ctl_cong [OF tmo_okD(3) [OF ok that] _ _ refl]) (use e in \<open>auto simp only: fun_upd_apply split: if_splits\<close>)
    show "x \<in> set (elems h) \<longleftrightarrow> F x \<and> \<not> common_in cs ((D(e := t)) x)" for x
      using tmo_okD(2) [OF ok] e by (cases "x = e") simp_all
    show "x < EVENT_LIMIT \<and> valid_tv (length cs) ((D(e := t)) x)" if "F x" for x
      using tmo_okD(5,6) [OF ok that] e that by (cases "x = e") simp_all
  qed (rule tmo_okD(4) [OF ok])
qed

lemma tmo_heap_remove:
  assumes ok: "tmo_ok F D h cs" and e: "F e" "\<not> common_in cs (D e)"
  shows "tmo_ok (F(e := False)) D (snd (min_heap_erase D e h)) cs"
    and "hn (snd (min_heap_erase D e h)) < ha (snd (min_heap_erase D e h))"
    and "hn (snd (min_heap_erase D e h)) < hn h"
proof -
  have h: "heap_ok D h" and m: "e \<in> set (elems h)" using ok e by (simp_all add: tmo_ok_def)
  from min_heap_erase_ok [OF h m] obtain h' where h': "min_heap_erase D e h = (0, h')" "heap_ok D h'"
    "ha h' = ha h" "mset (elems h') = mset (elems h) - {#e#}" by blast
  have d: "distinct (elems h)" using h by (simp add: heap_ok_def)
  have "mset (elems h') = mset (remove1 e (elems h))" unfolding h'(4) by simp
  then have s: "set (elems h') = set (elems h) - {e}" using set_remove1_eq [OF d] mset_eq_setD by metis
  show "tmo_ok (F(e := False)) D (snd (min_heap_erase D e h)) cs"
  proof (rule tmo_okI)
    show "heap_ok D (snd (min_heap_erase D e h))" using h'(1,2) by simp
    show "ctl_ok (F(e := False)) D cs i" if "i < length cs" for i
      by (rule ctl_cong [OF tmo_okD(3) [OF ok that] _ _ refl]) (use e(2) in \<open>auto simp only: fun_upd_apply split: if_splits\<close>)
    show "x \<in> set (elems (snd (min_heap_erase D e h))) \<longleftrightarrow> (F(e := False)) x \<and> \<not> common_in cs (D x)" for x
      using tmo_okD(2) [OF ok] s h'(1) by simp
    show "x < EVENT_LIMIT \<and> valid_tv (length cs) (D x)" if "(F(e := False)) x" for x
      using tmo_okD(5,6) [OF ok, of x] that by (simp split: if_splits)
  qed (rule tmo_okD(4) [OF ok])
  have len: "length (elems h') = hn h'" "length (elems h) = hn h" using length_elems h h'(2) by blast+
  moreover have "length (elems h) = length (elems h') + 1"
  proof -
    have "size (mset (elems h)) = size (mset (elems h')) + 1"
      unfolding h'(4) using m by (simp add: size_Diff_singleton) (metis Suc_pred length_pos_if_in_set)
    then show ?thesis by simp
  qed
  moreover have "hn h \<le> ha h" using h by (simp add: heap_ok_def)
  ultimately show "hn (snd (min_heap_erase D e h)) < ha (snd (min_heap_erase D e h))"
    "hn (snd (min_heap_erase D e h)) < hn h"
    using h'(1,3) by simp_all
qed

lemma tmo_heap_insert:
  assumes ok: "tmo_ok F D h cs" and e: "\<not> F e" "\<not> common_in cs (D e)" "e < EVENT_LIMIT" "valid_tv (length cs) (D e)"
    and res: "min_heap_reserve alloc (hn h + 1) h = (0, h1)"
  shows "tmo_ok (F(e := True)) D (snd (min_heap_push alloc D e h)) cs"
proof -
  have h: "heap_ok D h" and m: "e \<notin> set (elems h)" using ok e by (simp_all add: tmo_ok_def)
  from min_heap_push_ok [OF h m heap_room [OF ok] res] obtain h' where h':
    "min_heap_push alloc D e h = (0, h')" "heap_ok D h'" "mset (elems h') = mset (elems h) + {#e#}" by blast
  have "mset (elems h') = mset (e # elems h)" unfolding h'(3) by simp
  then have s: "set (elems h') = insert e (set (elems h))" using mset_eq_setD list.simps(15) by metis
  show ?thesis
  proof (rule tmo_okI)
    show "heap_ok D (snd (min_heap_push alloc D e h))" using h'(1,2) by simp
    show "ctl_ok (F(e := True)) D cs i" if "i < length cs" for i
      by (rule ctl_cong [OF tmo_okD(3) [OF ok that] _ _ refl]) (use e(2) in \<open>auto simp only: fun_upd_apply split: if_splits\<close>)
    show "x \<in> set (elems (snd (min_heap_push alloc D e h))) \<longleftrightarrow> (F(e := True)) x \<and> \<not> common_in cs (D x)" for x
      using tmo_okD(2) [OF ok] s h'(1) e(2) by simp
    show "x < EVENT_LIMIT \<and> valid_tv (length cs) (D x)" if "(F(e := True)) x" for x
      using tmo_okD(5,6) [OF ok, of x] e(3,4) that by (cases "x = e") simp_all
  qed (rule tmo_okD(4) [OF ok])
qed

lemma insert_from_end_ok:
  assumes "\<forall>x \<in> set es. is_same_common_timeout (deadline b x) (deadline b e)"
    and "sorted (map (deadline b) (rev es @ later))" and "\<forall>x \<in> set later. deadline b e < deadline b x"
    and "insert_from_end b e es later = (l, r)"
  shows "r \<and> sorted (map (deadline b) l) \<and> mset l = mset es + mset later + {#e#}"
  using assms
proof (induction es arbitrary: later)
  case Nil
  then show ?case by (auto simp: order_less_imp_le)
next
  case (Cons x es)
  show ?case
  proof (cases "deadline b x \<le> deadline b e")
    case True
    then have l: "l = rev es @ x # e # later" "r" using Cons.prems(1,4) by simp_all
    have "sorted (map (deadline b) l)"
      using Cons.prems(2,3) True unfolding l(1) by (auto simp: sorted_append order_less_imp_le intro: order_trans)
    with l show ?thesis by simp
  next
    case False
    then have e: "insert_from_end b e es (x # later) = (l, r)" using Cons.prems(1,4) by simp
    have "r \<and> sorted (map (deadline b) l) \<and> mset l = mset es + mset (x # later) + {#e#}"
      by (rule Cons.IH [OF _ _ _ e]) (use Cons.prems(1,2,3) False in auto)
    then show ?thesis by simp
  qed
qed

lemma tmo_ctl_update:
  assumes ok: "tmo_ok F D h cs" and i: "i < length cs" and e: "common_in cs (D e)" "COMMON_TIMEOUT_IDX (D e) = i"
    and v: "v \<Longrightarrow> e < EVENT_LIMIT \<and> valid_tv (length cs) (D e)"
    and l: "distinct l" "sorted (map D l)"
      "\<And>x. x \<in> set l \<longleftrightarrow> (F(e := v)) x \<and> common_in cs (D x) \<and> COMMON_TIMEOUT_IDX (D x) = i"
  shows "tmo_ok (F(e := v)) D h (cs[i := (cs ! i)\<lparr>ctl_events := l\<rparr>])"
proof -
  let ?cs = "cs[i := (cs ! i)\<lparr>ctl_events := l\<rparr>]"
  have c: "common_in ?cs t = common_in cs t" for t by (simp add: common_in_def)
  show ?thesis
  proof (rule tmo_okI)
    show "heap_ok D h" by (rule tmo_okD(1) [OF ok])
    show "x \<in> set (elems h) \<longleftrightarrow> (F(e := v)) x \<and> \<not> common_in ?cs (D x)" for x
      unfolding c using tmo_okD(2) [OF ok, of x] e(1) by (cases "x = e") simp_all
    show "ctl_ok (F(e := v)) D ?cs j" if "j < length ?cs" for j
    proof (cases "j = i")
      case True
      then show ?thesis using l i by (simp add: ctl_ok_def Let_def c)
    next
      case False
      have "ctl_ok F D cs j" using tmo_okD(3) [OF ok] that by simp
      then have o: "distinct (ctl_events (cs ! j))" "sorted (map D (ctl_events (cs ! j)))"
        "\<And>x. x \<in> set (ctl_events (cs ! j)) \<longleftrightarrow> F x \<and> common_in cs (D x) \<and> COMMON_TIMEOUT_IDX (D x) = j"
        by (simp_all add: ctl_ok_def Let_def)
      have "x \<in> set (ctl_events (cs ! j)) \<longleftrightarrow> (F(e := v)) x \<and> common_in cs (D x) \<and> COMMON_TIMEOUT_IDX (D x) = j" for x
        using o(3) [of x] e False by (cases "x = e") auto
      with o(1,2) False show ?thesis by (simp add: ctl_ok_def Let_def c)
    qed
    show "length ?cs \<le> 256" using tmo_okD(4) [OF ok] by simp
    show "x < EVENT_LIMIT \<and> valid_tv (length ?cs) (D x)" if "(F(e := v)) x" for x
      using tmo_okD(5,6) [OF ok, of x] v that by (cases "x = e") simp_all
  qed
qed

lemma tmo_ctl_remove:
  assumes ok: "tmo_ok F D h cs" and e: "F e" "common_in cs (D e)" "COMMON_TIMEOUT_IDX (D e) = i"
  shows "tmo_ok (F(e := False)) D h (cs[i := (cs ! i)\<lparr>ctl_events := remove1 e (ctl_events (cs ! i))\<rparr>])"
proof -
  have i: "i < length cs" using e by (auto simp: common_in_def)
  have o: "distinct (ctl_events (cs ! i))" "sorted (map D (ctl_events (cs ! i)))"
    "\<And>x. x \<in> set (ctl_events (cs ! i)) \<longleftrightarrow> F x \<and> common_in cs (D x) \<and> COMMON_TIMEOUT_IDX (D x) = i"
    using tmo_okD(3) [OF ok i] by (simp_all add: ctl_ok_def Let_def)
  show ?thesis
  proof (rule tmo_ctl_update [OF ok i e(2,3)])
    show "distinct (remove1 e (ctl_events (cs ! i)))" using o(1) by simp
    show "sorted (map D (remove1 e (ctl_events (cs ! i))))" by (rule sorted_map_remove1 [OF o(2)])
    show "x \<in> set (remove1 e (ctl_events (cs ! i))) \<longleftrightarrow>
       (F(e := False)) x \<and> common_in cs (D x) \<and> COMMON_TIMEOUT_IDX (D x) = i" for x
      using o(1,3) by simp
  qed simp
qed

text \<open>Times of the same list are the same to the assertion.\<close>

lemma same_list_upper:
  assumes "valid_tv n a" and "valid_tv n b" and "n \<le> 256" and "magic a" and "magic b"
    and "COMMON_TIMEOUT_IDX a = COMMON_TIMEOUT_IDX b"
  shows "upper a = upper b"
  by (rule valid_tv_cases [OF assms(1,3)]; rule valid_tv_cases [OF assms(2,3)]) (use assms(4-6) in simp_all)

lemma tmo_ctl_insert:
  assumes ok: "tmo_ok F D h cs" and e: "\<not> F e" "common_in cs (D e)" "COMMON_TIMEOUT_IDX (D e) = i"
      "e < EVENT_LIMIT" "valid_tv (length cs) (D e)"
    and D: "D = dls (evs b)"
    and ins: "insert_from_end b e (rev (ctl_events (cs ! i))) [] = (l, r)"
  shows "r" "tmo_ok (F(e := True)) D h (cs[i := (cs ! i)\<lparr>ctl_events := l\<rparr>])"
proof -
  have i: "i < length cs" using e by (auto simp: common_in_def)
  have o: "distinct (ctl_events (cs ! i))" "sorted (map D (ctl_events (cs ! i)))"
    "\<And>x. x \<in> set (ctl_events (cs ! i)) \<longleftrightarrow> F x \<and> common_in cs (D x) \<and> COMMON_TIMEOUT_IDX (D x) = i"
    using tmo_okD(3) [OF ok i] by (simp_all add: ctl_ok_def Let_def)
  have d: "deadline b x = D x" for x by (simp add: D dls_def)
  have "is_same_common_timeout (D x) (D e)" if "x \<in> set (ctl_events (cs ! i))" for x
    unfolding is_same_upper
    by (rule same_list_upper [of "length cs"])
       (use o(3) [of x] that e tmo_okD(4,6) [OF ok] in \<open>auto simp: common_in_def\<close>)
  then have r: "r \<and> sorted (map D l) \<and> mset l = mset (rev (ctl_events (cs ! i))) + mset [] + {#e#}"
    using insert_from_end_ok [OF _ _ _ ins] o(2) unfolding d by simp
  then show "r" by simp
  have m: "mset l = mset (e # ctl_events (cs ! i))" using r by simp
  have e': "e \<notin> set (ctl_events (cs ! i))" using o(3) e(1) by simp
  have s: "set l = insert e (set (ctl_events (cs ! i)))" using m mset_eq_setD list.simps(15) by metis
  show "tmo_ok (F(e := True)) D h (cs[i := (cs ! i)\<lparr>ctl_events := l\<rparr>])"
  proof (rule tmo_ctl_update [OF ok i e(2,3)])
    show "distinct l" using o(1) e' mset_eq_imp_distinct_iff [OF m] by simp
    show "sorted (map D l)" using r by simp
    show "x \<in> set l \<longleftrightarrow> (F(e := True)) x \<and> common_in cs (D x) \<and> COMMON_TIMEOUT_IDX (D x) = i" for x
      using s o(3) [of x] e by (cases "x = e") simp_all
  qed (use e in simp_all)
qed

end
