(* ===== verification/EventMaps.thy ===== *)
theory EventMaps
  imports EventInv
begin

text \<open>
  The maps of descriptors and signals (\<^verbatim>\<open>evmap.c\<close>) keep their part of the invariant, whether or not
  the memory is there and the backend agrees.
\<close>

section \<open>Space\<close>

lemma grow_entries_ok: "0 < n \<Longrightarrow> slot < grow_entries n slot \<and> n \<le> grow_entries n slot"
proof (induction n slot rule: grow_entries.induct)
  case (1 n slot)
  then show ?case by (subst (1 2) grow_entries.simps) force
qed

definition bounded :: "'a event_map \<Rightarrow> bool" where
  "bounded m \<longleftrightarrow> (\<forall>i x. entries m i = Some x \<longrightarrow> i < nentries m)"

lemma make_space_ok:
  assumes m: "bounded m" and eq: "evmap_make_space alloc m slot msize = (r, m')"
  shows "entries m' = entries m" "bounded m'" "r = -1 \<or> r = 0 \<and> slot < nentries m'"
proof -
  let ?n = "grow_entries (if nentries m \<noteq> 0 then nentries m else 32) slot"
  have g: "slot < ?n" "nentries m \<le> ?n"
    using grow_entries_ok [of "nentries m" slot] grow_entries_ok [of 32 slot] by auto
  have "(\<lambda>i. if i < nentries m then entries m i else None) = entries m"
  proof
    fix i
    show "(if i < nentries m then entries m i else None) = entries m i"
      using m by (cases "entries m i") (auto simp: bounded_def)
  qed
  then have "(m' = m \<and> (r = -1 \<or> r = 0 \<and> slot < nentries m)) \<or>
     (entries m' = entries m \<and> nentries m' = ?n \<and> r = 0)"
    using eq by (auto simp: evmap_make_space_def Let_def split: if_splits)
  then show "entries m' = entries m" "bounded m'" "r = -1 \<or> r = 0 \<and> slot < nentries m'"
    using m g unfolding bounded_def by (metis order_less_le_trans)+
qed

lemma get_slot_ok:
  assumes m: "bounded m" and s: "slot < nentries m" and eq: "get_slot_and_ctor alloc m slot ini sz = Some (x, m')"
  shows "bounded m'" "entries m' = (entries m)(slot \<mapsto> x)" "x = ini \<and> entries m slot = None \<or> entries m slot = Some x"
    "nentries m' = nentries m"
  using assms by (auto simp: get_slot_and_ctor_def bounded_def fun_upd_idem split: option.splits if_splits)

section \<open>Descriptors\<close>

lemma io_ok_split:
  "io_ok I W D m \<longleftrightarrow> bounded m \<and> (\<forall>fd c. entries m fd = Some c \<longrightarrow> ctx_ok W c) \<and>
     (\<forall>fd e. e \<in> set (io_list m fd) \<longleftrightarrow> I e \<and> W e \<inter> io_whats \<noteq> {} \<and> D e = int fd)"
  by (auto simp: io_ok_def bounded_def)

lemma sig_ok_split:
  "sig_ok I W D m \<longleftrightarrow> bounded m \<and> (\<forall>s l. entries m s = Some l \<longrightarrow> distinct l) \<and>
     (\<forall>s e. e \<in> set (sig_list m s) \<longleftrightarrow> I e \<and> W e \<inter> io_whats = {} \<and> D e = int s) \<and>
     (\<forall>e. I e \<and> W e \<inter> io_whats = {} \<longrightarrow> EV_SIGNAL \<in> W e \<and> 0 \<le> D e)"
  by (auto simp: sig_ok_def bounded_def)

lemma ctx_ok_init [simp]: "ctx_ok W evmap_io_init"
  by (simp add: ctx_ok_def evmap_io_init_def count_in_def)

lemma io_ok_space:
  "io_ok I W D m \<Longrightarrow> evmap_make_space alloc m slot msize = (r, m') \<Longrightarrow> io_ok I W D m'"
  using make_space_ok [of m alloc slot msize r m'] by (simp add: io_ok_split io_list_def)

lemma sig_ok_space:
  "sig_ok I W D m \<Longrightarrow> evmap_make_space alloc m slot msize = (r, m') \<Longrightarrow> sig_ok I W D m'"
  using make_space_ok [of m alloc slot msize r m'] by (simp add: sig_ok_split sig_list_def)

lemma io_ok_ctor:
  assumes ok: "io_ok I W D m" and s: "slot < nentries m"
    and eq: "get_slot_and_ctor alloc m slot evmap_io_init sz = Some (c, m')"
  shows "io_ok I W D m'" "entries m' slot = Some c"
proof -
  have b: "bounded m" using ok by (simp add: io_ok_split)
  note g = get_slot_ok [OF b s eq]
  have "io_list m' fd = io_list m fd" for fd
    using g(2,3) by (auto simp: io_list_def evmap_io_init_def)
  moreover have "ctx_ok W c" using g(3) ok by (auto simp: io_ok_split)
  ultimately show "io_ok I W D m'" using ok g(1,2) by (auto simp: io_ok_split split: if_splits)
  show "entries m' slot = Some c" using g(2) by simp
qed

lemma sig_ok_ctor:
  assumes ok: "sig_ok I W D m" and s: "slot < nentries m"
    and eq: "get_slot_and_ctor alloc m slot [] sz = Some (l, m')"
  shows "sig_ok I W D m'" "entries m' slot = Some l"
proof -
  have b: "bounded m" using ok by (simp add: sig_ok_split)
  note g = get_slot_ok [OF b s eq]
  have "sig_list m' s = sig_list m s" for s using g(2,3) by (auto simp: sig_list_def)
  moreover have "distinct l" using g(3) ok by (auto simp: sig_ok_split)
  ultimately show "sig_ok I W D m'" using ok g(1,2) by (auto simp: sig_ok_split split: if_splits)
  show "entries m' slot = Some l" using g(2) by simp
qed

lemma count_in_Cons: "count_in W w (e # es) = count_in W w es + (if w \<in> W e then 1 else 0)"
  by (simp add: count_in_def)

lemma count_in_remove:
  "e \<in> set es \<Longrightarrow> count_in W w (remove1 e es) + (if w \<in> W e then 1 else 0) = count_in W w es"
  by (induction es) (auto simp: count_in_def)

definition one_if :: "bool \<Rightarrow> nat" where "one_if c = (if c then 1 else 0)"

lemma io_ok_insert:
  assumes ok: "io_ok I W D m" and c: "entries m fd = Some c" and e: "\<not> I e" "W e \<inter> io_whats \<noteq> {}" "D e = int fd"
  shows "io_ok (I(e := True)) W D (m\<lparr>entries := (entries m)(fd \<mapsto> \<lparr>io_events = e # io_events c,
     nread = nread c + (if EV_READ \<in> W e then 1 else 0), nwrite = nwrite c + (if EV_WRITE \<in> W e then 1 else 0),
     nclose = nclose c + (if EV_CLOSED \<in> W e then 1 else 0)\<rparr>)\<rparr>)" (is "io_ok _ _ _ ?m")
proof -
  have n: "e \<notin> set (io_list m fd')" for fd' using io_okD [OF ok] e(1) by blast
  then have "ctx_ok W \<lparr>io_events = e # io_events c, nread = nread c + (if EV_READ \<in> W e then 1 else 0),
     nwrite = nwrite c + (if EV_WRITE \<in> W e then 1 else 0), nclose = nclose c + (if EV_CLOSED \<in> W e then 1 else 0)\<rparr>"
    using ok c n [of fd] by (auto simp: io_ok_split ctx_ok_def count_in_Cons io_list_def)
  moreover have "x \<in> set (io_list ?m fd') \<longleftrightarrow> (I(e := True)) x \<and> W x \<inter> io_whats \<noteq> {} \<and> D x = int fd'" for x fd'
  proof (cases "fd' = fd")
    case True
    then have "set (io_list ?m fd') = insert e (set (io_list m fd))" using c by (simp add: io_list_def)
    then show ?thesis using io_okD [OF ok, of x fd] e True by (cases "x = e") simp_all
  next
    case False
    then have "io_list ?m fd' = io_list m fd'" by (simp add: io_list_def)
    then show ?thesis using io_okD [OF ok, of x fd'] e False by (cases "x = e") auto
  qed
  ultimately show ?thesis using ok c by (auto simp: io_ok_split bounded_def)
qed

lemma io_ok_delete:
  assumes ok: "io_ok I W D m" and c: "entries m fd = Some c" and e: "I e" "W e \<inter> io_whats \<noteq> {}" "D e = int fd"
  shows "io_ok (I(e := False)) W D (m\<lparr>entries := (entries m)(fd \<mapsto> \<lparr>io_events = remove1 e (io_events c),
     nread = nread c - (if EV_READ \<in> W e then 1 else 0), nwrite = nwrite c - (if EV_WRITE \<in> W e then 1 else 0),
     nclose = nclose c - (if EV_CLOSED \<in> W e then 1 else 0)\<rparr>)\<rparr>)" (is "io_ok _ _ _ ?m")
    and "EV_READ \<in> W e \<Longrightarrow> 0 < nread c" "EV_WRITE \<in> W e \<Longrightarrow> 0 < nwrite c" "EV_CLOSED \<in> W e \<Longrightarrow> 0 < nclose c"
proof -
  have n: "e \<in> set (io_events c)" using io_okD [OF ok, of e fd] e io_list_Some [OF c] by simp
  have cok: "ctx_ok W c" using ok c by (simp add: io_ok_split)
  note cr = count_in_remove [OF n, of W]
  have cd: "count_in W w (remove1 e (io_events c)) = count_in W w (io_events c) - (if w \<in> W e then 1 else 0)" for w
    using cr [of w] by (metis diff_add_inverse2)
  show "EV_READ \<in> W e \<Longrightarrow> 0 < nread c" "EV_WRITE \<in> W e \<Longrightarrow> 0 < nwrite c" "EV_CLOSED \<in> W e \<Longrightarrow> 0 < nclose c"
    using cok cr [of EV_READ] cr [of EV_WRITE] cr [of EV_CLOSED] by (simp_all add: ctx_ok_def)
  have "ctx_ok W \<lparr>io_events = remove1 e (io_events c), nread = nread c - (if EV_READ \<in> W e then 1 else 0),
     nwrite = nwrite c - (if EV_WRITE \<in> W e then 1 else 0), nclose = nclose c - (if EV_CLOSED \<in> W e then 1 else 0)\<rparr>"
    using cok unfolding ctx_ok_def evmap_io.simps cd by simp
  moreover have "x \<in> set (io_list ?m fd') \<longleftrightarrow> (I(e := False)) x \<and> W x \<inter> io_whats \<noteq> {} \<and> D x = int fd'" for x fd'
  proof (cases "fd' = fd")
    case True
    then have "set (io_list ?m fd') = set (io_list m fd) - {e}"
      using cok c set_remove1_eq by (auto simp: io_list_def ctx_ok_def)
    then show ?thesis using io_okD [OF ok, of x fd] e True by (cases "x = e") simp_all
  next
    case False
    then have "io_list ?m fd' = io_list m fd'" by (simp add: io_list_def)
    then show ?thesis using io_okD [OF ok, of x fd'] e False by (cases "x = e") auto
  qed
  ultimately show "io_ok (I(e := False)) W D ?m" using ok c by (auto simp: io_ok_split bounded_def)
qed

lemma io_ok_other:
  "io_ok I W D m \<Longrightarrow> W e \<inter> io_whats = {} \<or> D e < 0 \<Longrightarrow> io_ok (I(e := v)) W D m"
  by (auto simp: io_ok_split)

lemma sig_ok_other:
  "sig_ok I W D m \<Longrightarrow> W e \<inter> io_whats \<noteq> {} \<Longrightarrow> sig_ok (I(e := v)) W D m"
  by (auto simp: sig_ok_split)

section \<open>Signals\<close>

lemma sig_ok_insert:
  assumes ok: "sig_ok I W D m" and c: "entries m s = Some l"
    and e: "\<not> I e" "W e \<inter> io_whats = {}" "D e = int s" "EV_SIGNAL \<in> W e"
  shows "sig_ok (I(e := True)) W D (m\<lparr>entries := (entries m)(s \<mapsto> e # l)\<rparr>)" (is "sig_ok _ _ _ ?m")
proof -
  have n: "e \<notin> set l" using sig_okD [OF ok, of e s] e(1) sig_list_Some [OF c] by simp
  have "x \<in> set (sig_list ?m s') \<longleftrightarrow> (I(e := True)) x \<and> W x \<inter> io_whats = {} \<and> D x = int s'" for x s'
  proof (cases "s' = s")
    case True
    then have "set (sig_list ?m s') = insert e (set (sig_list m s))" using c by (simp add: sig_list_def)
    then show ?thesis using sig_okD [OF ok, of x s] e True by (cases "x = e") simp_all
  next
    case False
    then have "sig_list ?m s' = sig_list m s'" by (simp add: sig_list_def)
    then show ?thesis using sig_okD [OF ok, of x s'] e False by (cases "x = e") auto
  qed
  then show ?thesis using ok c n e by (auto simp: sig_ok_split bounded_def)
qed

lemma sig_ok_delete:
  assumes ok: "sig_ok I W D m" and c: "entries m s = Some l" and e: "I e" "W e \<inter> io_whats = {}" "D e = int s"
  shows "sig_ok (I(e := False)) W D (m\<lparr>entries := (entries m)(s \<mapsto> remove1 e l)\<rparr>)" (is "sig_ok _ _ _ ?m")
proof -
  have d: "distinct l" using ok c by (simp add: sig_ok_split)
  have "x \<in> set (sig_list ?m s') \<longleftrightarrow> (I(e := False)) x \<and> W x \<inter> io_whats = {} \<and> D x = int s'" for x s'
  proof (cases "s' = s")
    case True
    then have "set (sig_list ?m s') = set (sig_list m s) - {e}" using c d by (simp add: sig_list_def)
    then show ?thesis using sig_okD [OF ok, of x s] e True by (cases "x = e") simp_all
  next
    case False
    then have "sig_list ?m s' = sig_list m s'" by (simp add: sig_list_def)
    then show ?thesis using sig_okD [OF ok, of x s'] e False by (cases "x = e") auto
  qed
  then show ?thesis using ok c d by (auto simp: sig_ok_split bounded_def)
qed

section \<open>The operations\<close>

text \<open>The base but for its maps and what the backend was told.\<close>

definition mapped :: "event_base \<Rightarrow> event_base \<Rightarrow> bool" where
  "mapped b b' \<longleftrightarrow> b' = b\<lparr>io := io b', sigmap := sigmap b', be_log := be_log b'\<rparr>"

lemma mapped_simps:
  assumes "mapped b b'"
  shows "evs b' = evs b" "timeheap b' = timeheap b" "activequeues b' = activequeues b"
    "active_later_queue b' = active_later_queue b" "common_timeout_queues b' = common_timeout_queues b"
    "event_count_active b' = event_count_active b" "event_count b' = event_count b" "tv_cache b' = tv_cache b"
    "monotonic b' = monotonic b" "aborted b' = aborted b" "core_ok b' = core_ok b"
proof -
  obtain m s l where "b' = b\<lparr>io := m, sigmap := s, be_log := l\<rparr>" using assms unfolding mapped_def by blast
  then show "evs b' = evs b" "timeheap b' = timeheap b" "activequeues b' = activequeues b"
    "active_later_queue b' = active_later_queue b" "common_timeout_queues b' = common_timeout_queues b"
    "event_count_active b' = event_count_active b" "event_count b' = event_count b" "tv_cache b' = tv_cache b"
    "monotonic b' = monotonic b" "aborted b' = aborted b" "core_ok b' = core_ok b"
    by (simp_all add: core_ok_def)
qed

lemma mappedI: "mapped b (b\<lparr>io := m, be_log := l\<rparr>)" "mapped b (b\<lparr>be_log := l, io := m\<rparr>)"
  "mapped b (b\<lparr>sigmap := s, be_log := l\<rparr>)" "mapped b (b\<lparr>be_log := l, sigmap := s\<rparr>)"
  "mapped b (b\<lparr>io := m\<rparr>)" "mapped b (b\<lparr>sigmap := s\<rparr>)" "mapped b (b\<lparr>be_log := l\<rparr>)" "mapped b b"
  by (simp_all add: mapped_def)

lemma mapped_trans:
  assumes "mapped a b" and "mapped b c"
  shows "mapped a c"
proof -
  obtain m s l where b: "b = a\<lparr>io := m, sigmap := s, be_log := l\<rparr>" using assms(1) unfolding mapped_def by blast
  obtain m' s' l' where "c = b\<lparr>io := m', sigmap := s', be_log := l'\<rparr>" using assms(2) unfolding mapped_def by blast
  with b show ?thesis by (simp add: mapped_def)
qed

lemma io_register_ok:
  assumes ok: "maps_ok I b" and e: "\<not> I e" "ev_events (evs b e) \<inter> io_whats \<noteq> {}" "ev_fd (evs b e) = int fd"
    and c: "entries (io b) fd = Some c" and eq: "io_register env (int fd) e c b = (r, b')"
  shows "mapped b b'" "r = -1 \<and> maps_ok I b' \<or> r \<in> {0, 1} \<and> maps_ok (I(e := True)) b'"
proof -
  let ?W = "whats (evs b)" let ?D = "fds (evs b)"
  let ?m = "(io b)\<lparr>entries := (entries (io b))(fd \<mapsto> \<lparr>io_events = e # io_events c,
     nread = nread c + (if EV_READ \<in> ?W e then 1 else 0), nwrite = nwrite c + (if EV_WRITE \<in> ?W e then 1 else 0),
     nclose = nclose c + (if EV_CLOSED \<in> ?W e then 1 else 0)\<rparr>)\<rparr>"
  have io: "io_ok I ?W ?D (io b)" and sg: "sig_ok I ?W ?D (sigmap b)" using ok by (simp_all add: maps_ok_def)
  have W: "?W e = ev_events (evs b e)" "?D e = int fd" using e(3) by (simp_all add: whats_def fds_def)
  have "\<exists>l. (r = -1 \<and> b' = b\<lparr>be_log := l\<rparr>) \<or> (r \<in> {0, 1} \<and> b' = b\<lparr>be_log := l, io := ?m\<rparr>)"
  proof -
    let ?nr = "nread c + (if EV_READ \<in> ?W e then 1 else 0)" and ?nw = "nwrite c + (if EV_WRITE \<in> ?W e then 1 else 0)"
      and ?nc = "nclose c + (if EV_CLOSED \<in> ?W e then 1 else 0)"
    define A where "A \<longleftrightarrow> ?nr > 0xffff \<or> ?nw > 0xffff \<or> ?nc > 0xffff"
    define B where "B \<longleftrightarrow> debug_mode env \<and> io_events c \<noteq> [] \<and>
       (EV_ET \<in> ev_events (evs b (hd (io_events c)))) \<noteq> (EV_ET \<in> ?W e)"
    define R where "R = (if EV_READ \<in> ?W e \<and> ?nr = 1 then {EV_READ} else {}) \<union>
       (if EV_WRITE \<in> ?W e \<and> ?nw = 1 then {EV_WRITE} else {}) \<union> (if EV_CLOSED \<in> ?W e \<and> ?nc = 1 then {EV_CLOSED} else {})"
    let ?c = "Be_add (int fd) (wanted c) ((?W e \<inter> {EV_ET}) \<union> R)"
    have e: "io_register env (int fd) e c b =
       (if A then (-1, b) else if B then (-1, b)
        else case (if R \<noteq> {} then (be env (be_log b) ?c, b\<lparr>be_log := ?c # be_log b\<rparr>) else (True, b)) of
          (ok, b) \<Rightarrow> if \<not> ok then (-1, b) else (if R \<noteq> {} then 1 else 0,
             b\<lparr>io := (io b)\<lparr>entries := (entries (io b))(fd \<mapsto> \<lparr>io_events = e # io_events c,
               nread = ?nr, nwrite = ?nw, nclose = ?nc\<rparr>)\<rparr>\<rparr>))"
      unfolding io_register_def Let_def call_be_def A_def B_def R_def W(1) nat_int
      by (rule refl)
    show ?thesis
    proof (cases "A \<or> B")
      case True
      then have "r = -1 \<and> b' = b" using eq unfolding e by (cases A) simp_all
      then show ?thesis by (intro exI [of _ "be_log b"]) simp
    next
      case False
      show ?thesis
      proof (cases "R = {}")
        case True
        then have "r = 0 \<and> b' = b\<lparr>io := ?m\<rparr>" using eq False unfolding e by (simp split del: if_split)
        then show ?thesis by (intro exI [of _ "be_log b"]) (simp split del: if_split)
      next
        case R: False
        then show ?thesis
          using eq False unfolding e by (intro exI [of _ "?c # be_log b"], cases "be env (be_log b) ?c")
            (simp_all split del: if_split)
      qed
    qed
  qed
  then obtain l where l: "(r = -1 \<and> b' = b\<lparr>be_log := l\<rparr>) \<or> (r \<in> {0, 1} \<and> b' = b\<lparr>be_log := l, io := ?m\<rparr>)" by blast
  then show "mapped b b'" by (elim disjE conjE) (simp_all only: mappedI)
  have "io_ok (I(e := True)) ?W ?D ?m" by (rule io_ok_insert [OF io c e(1)]) (use e(2) W in simp_all)
  moreover have "sig_ok (I(e := True)) ?W ?D (sigmap b)" by (rule sig_ok_other [OF sg]) (use e(2) W in simp)
  ultimately show "r = -1 \<and> maps_ok I b' \<or> r \<in> {0, 1} \<and> maps_ok (I(e := True)) b'"
    using l io sg by (auto simp: maps_ok_def)
qed

lemma io_add_ok:
  assumes ok: "maps_ok I b" and e: "\<not> I e" "ev_events (evs b e) \<inter> io_whats \<noteq> {}"
    and eq: "evmap_io_add env (ev_fd (evs b e)) e b = (r, b')"
  shows "mapped b b'" "r = -1 \<and> maps_ok I b' \<or> r \<in> {0, 1} \<and> maps_ok (I(e := True)) b'"
proof -
  let ?fd = "ev_fd (evs b e)"
  have io: "io_ok I (whats (evs b)) (fds (evs b)) (io b)" and sg: "sig_ok I (whats (evs b)) (fds (evs b)) (sigmap b)"
    using ok by (simp_all add: maps_ok_def)
  have main: "mapped b b' \<and> (r = -1 \<and> maps_ok I b' \<or> r \<in> {0, 1} \<and> maps_ok (I(e := True)) b')"
  proof (cases "?fd < 0")
    case True
    then have "r = 0 \<and> b' = b" using eq by (simp add: evmap_io_add_def ev_assert_def)
    moreover have "maps_ok (I(e := True)) b"
      unfolding maps_ok_def using io_ok_other [OF io] sig_ok_other [OF sg] True e(2) by (simp add: whats_def fds_def)
    ultimately show ?thesis using mappedI by simp
  next
    case False
    obtain q m where m: "(if nentries (io b) \<le> nat ?fd then evmap_make_space (mem env) (io b) (nat ?fd) 8
        else (0, io b)) = (q, m)" by fastforce
    have mok: "io_ok I (whats (evs b)) (fds (evs b)) m"
      using m io io_ok_space [OF io] by (auto split: if_splits)
    have q: "q = -1 \<or> q = 0 \<and> nat ?fd < nentries m"
      using m make_space_ok(3) [of "io b" "mem env" "nat ?fd" 8 q m] io by (auto simp: io_ok_split split: if_splits)
    let ?b = "b\<lparr>io := m\<rparr>"
    have bok: "maps_ok I ?b" using mok sg by (simp add: maps_ok_def)
    have u: "evmap_io_add env ?fd e b = (if q = -1 then (-1, ?b) else
        case get_slot_and_ctor (mem env) m (nat ?fd) evmap_io_init (16 + fdinfo_len env) of
          None \<Rightarrow> (-1, ?b) | Some (ctx, m') \<Rightarrow> io_register env ?fd e ctx (?b\<lparr>io := m'\<rparr>))"
      using False m by (simp add: evmap_io_add_def ev_assert_def Let_def)
    show ?thesis
    proof (cases "q = -1 \<or> get_slot_and_ctor (mem env) m (nat ?fd) evmap_io_init (16 + fdinfo_len env) = None")
      case True
      then have "r = -1 \<and> b' = ?b" using eq unfolding u by (cases "q = -1") simp_all
      then show ?thesis using bok mappedI by simp
    next
      case False
      then obtain c m' where g: "get_slot_and_ctor (mem env) m (nat ?fd) evmap_io_init (16 + fdinfo_len env) = Some (c, m')"
        by auto
      from False q have s: "nat ?fd < nentries m" by simp
      note ctor = io_ok_ctor [OF mok s g]
      have fd: "int (nat ?fd) = ?fd" using \<open>\<not> ?fd < 0\<close> by simp
      have b2: "maps_ok I (?b\<lparr>io := m'\<rparr>)" using ctor(1) sg by (simp add: maps_ok_def)
      have "io_register env (int (nat ?fd)) e c (?b\<lparr>io := m'\<rparr>) = (r, b')" using eq g False fd unfolding u by simp
      from io_register_ok [OF b2 e(1) _ _ _ this] e(2) fd ctor(2)
      have "mapped (?b\<lparr>io := m'\<rparr>) b'" "r = -1 \<and> maps_ok I b' \<or> r \<in> {0, 1} \<and> maps_ok (I(e := True)) b'" by simp_all
      moreover have "mapped b (?b\<lparr>io := m'\<rparr>)" by (simp add: mappedI)
      ultimately show ?thesis using mapped_trans by blast
    qed
  qed
  then show "mapped b b'" "r = -1 \<and> maps_ok I b' \<or> r \<in> {0, 1} \<and> maps_ok (I(e := True)) b'" by blast+
qed

lemma io_del_ok:
  assumes ok: "maps_ok I b" and e: "I e" "ev_events (evs b e) \<inter> io_whats \<noteq> {}"
    and eq: "evmap_io_del env (ev_fd (evs b e)) e b = (r, b')"
  shows "mapped b b'" "maps_ok (I(e := False)) b'" "r \<in> {-1, 0, 1}"
proof -
  let ?fd = "ev_fd (evs b e)" let ?W = "whats (evs b)" let ?D = "fds (evs b)"
  have W: "?W e = ev_events (evs b e)" "?D e = ?fd" by (simp_all add: whats_def fds_def)
  have io: "io_ok I ?W ?D (io b)" and sg: "sig_ok I ?W ?D (sigmap b)" using ok by (simp_all add: maps_ok_def)
  have "mapped b b' \<and> maps_ok (I(e := False)) b' \<and> r \<in> {-1, 0, 1}"
  proof (cases "?fd < 0")
    case True
    then have "r = 0 \<and> b' = b" using eq by (simp add: evmap_io_del_def)
    moreover have "maps_ok (I(e := False)) b"
      unfolding maps_ok_def using io_ok_other [OF io] sig_ok_other [OF sg] True e(2) by (simp add: whats_def fds_def)
    ultimately show ?thesis using mappedI by simp
  next
    case False
    then have fd: "?D e = int (nat ?fd)" by (simp add: fds_def)
    have "e \<in> set (io_list (io b) (nat ?fd))" using io_okD [OF io, of e "nat ?fd"] e fd W by simp
    then obtain c where c: "entries (io b) (nat ?fd) = Some c"
      by (cases "entries (io b) (nat ?fd)") (simp_all add: io_list_def)
    then have "nat ?fd < nentries (io b)" using io by (simp add: io_ok_split bounded_def)
    then have n: "\<not> nentries (io b) \<le> nat ?fd" by simp
    have e2: "?W e \<inter> io_whats \<noteq> {}" using e(2) W by simp
    note del = io_ok_delete [OF io c e(1) e2 fd]
    let ?nr = "nread c - (if EV_READ \<in> ?W e then 1 else 0)" and ?nw = "nwrite c - (if EV_WRITE \<in> ?W e then 1 else 0)"
      and ?nc = "nclose c - (if EV_CLOSED \<in> ?W e then 1 else 0)"
    let ?m = "(io b)\<lparr>entries := (entries (io b))(nat ?fd \<mapsto> \<lparr>io_events = remove1 e (io_events c),
       nread = ?nr, nwrite = ?nw, nclose = ?nc\<rparr>)\<rparr>"
    define R where "R = (if EV_READ \<in> ?W e \<and> ?nr = 0 then {EV_READ} else {}) \<union>
       (if EV_WRITE \<in> ?W e \<and> ?nw = 0 then {EV_WRITE} else {}) \<union> (if EV_CLOSED \<in> ?W e \<and> ?nc = 0 then {EV_CLOSED} else {})"
    let ?c = "Be_del ?fd (wanted c) ((?W e \<inter> {EV_ET}) \<union> R)"
    have a: "ev_assert ((EV_READ \<in> ?W e \<longrightarrow> nread c > 0) \<and> (EV_WRITE \<in> ?W e \<longrightarrow> nwrite c > 0) \<and>
         (EV_CLOSED \<in> ?W e \<longrightarrow> nclose c > 0)) b = b"
      using del(2-4) by (simp add: ev_assert_def)
    have a2: "ev_assert (?fd = ev_fd (evs b e)) b = b" by (simp add: ev_assert_def)
    have u: "evmap_io_del env ?fd e b =
       (case (if R \<noteq> {} then (be env (be_log b) ?c, b\<lparr>be_log := ?c # be_log b\<rparr>) else (True, b)) of
          (ok, b) \<Rightarrow> (if R = {} then 0 else if ok then 1 else -1,
             b\<lparr>io := (io b)\<lparr>entries := (entries (io b))(nat ?fd \<mapsto> \<lparr>io_events = remove1 e (io_events c),
               nread = ?nr, nwrite = ?nw, nclose = ?nc\<rparr>)\<rparr>\<rparr>))"
      unfolding evmap_io_del_def Let_def a2 if_not_P [OF False] if_not_P [OF n] c option.case W(1) [symmetric] a call_be_def
      by (simp only: R_def)
    have "\<exists>l. b' = b\<lparr>be_log := l, io := ?m\<rparr> \<and> r \<in> {-1, 0, 1}"
    proof (cases "R = {}")
      case True
      then show ?thesis using eq unfolding u by (intro exI [of _ "be_log b"]) (simp split del: if_split)
    next
      case R: False
      then have "b' = b\<lparr>be_log := ?c # be_log b, io := ?m\<rparr>" "r = (if be env (be_log b) ?c then 1 else -1)"
        using eq unfolding u by (simp_all split del: if_split)
      then show ?thesis by (intro exI [of _ "?c # be_log b"]) (simp only: refl, simp)
    qed
    then obtain l where l: "b' = b\<lparr>be_log := l, io := ?m\<rparr>" "r \<in> {-1, 0, 1}" by blast
    have "maps_ok (I(e := False)) b'"
      unfolding maps_ok_def l(1) using del(1) sig_ok_other [OF sg, of e False] e2 by simp
    with l show ?thesis by (simp only: mappedI simp_thms)
  qed
  then show "mapped b b'" "maps_ok (I(e := False)) b'" "r \<in> {-1, 0, 1}" by blast+
qed

lemma signal_add_ok:
  assumes ok: "maps_ok I b" and e: "\<not> I e" "ev_events (evs b e) \<inter> io_whats = {}" "EV_SIGNAL \<in> ev_events (evs b e)"
    and eq: "evmap_signal_add env (ev_fd (evs b e)) e b = (r, b')"
  shows "mapped b b'" "r = -1 \<and> maps_ok I b' \<or> r = 1 \<and> maps_ok (I(e := True)) b'"
proof -
  let ?s = "ev_fd (evs b e)"
  have io: "io_ok I (whats (evs b)) (fds (evs b)) (io b)" and sg: "sig_ok I (whats (evs b)) (fds (evs b)) (sigmap b)"
    using ok by (simp_all add: maps_ok_def)
  have "mapped b b' \<and> (r = -1 \<and> maps_ok I b' \<or> r = 1 \<and> maps_ok (I(e := True)) b')"
  proof (cases "?s < 0 \<or> NSIG \<le> ?s")
    case True
    then have "r = -1 \<and> b' = b" using eq by (auto simp: evmap_signal_add_def)
    then show ?thesis using ok mappedI by simp
  next
    case False
    obtain q m where m: "(if nentries (sigmap b) \<le> nat ?s then evmap_make_space (mem env) (sigmap b) (nat ?s) 8
        else (0, sigmap b)) = (q, m)" by fastforce
    have mok: "sig_ok I (whats (evs b)) (fds (evs b)) m"
      using m sg sig_ok_space [OF sg] by (auto split: if_splits)
    have q: "q = -1 \<or> q = 0 \<and> nat ?s < nentries m"
      using m make_space_ok(3) [of "sigmap b" "mem env" "nat ?s" 8 q m] sg by (auto simp: sig_ok_split split: if_splits)
    let ?b = "b\<lparr>sigmap := m\<rparr>"
    have bok: "maps_ok I ?b" using mok io by (simp add: maps_ok_def)
    have u: "evmap_signal_add env ?s e b = (if q = -1 then (-1, ?b) else
        case get_slot_and_ctor (mem env) m (nat ?s) [] 8 of None \<Rightarrow> (-1, ?b)
        | Some (l, m') \<Rightarrow>
            (case (if l = [] then call_be env (Sig_add ?s) (?b\<lparr>sigmap := m'\<rparr>) else (True, ?b\<lparr>sigmap := m'\<rparr>)) of
              (ok, b) \<Rightarrow> if \<not> ok then (-1, b) else
                (1, b\<lparr>sigmap := (sigmap b)\<lparr>entries := (entries (sigmap b))(nat ?s \<mapsto> e # l)\<rparr>\<rparr>)))"
      using False m by (simp add: evmap_signal_add_def Let_def cong: option.case_cong prod.case_cong if_cong)
    show ?thesis
    proof (cases "q = -1 \<or> get_slot_and_ctor (mem env) m (nat ?s) [] 8 = None")
      case True
      then have "r = -1 \<and> b' = ?b" using eq unfolding u by (cases "q = -1") simp_all
      then show ?thesis using bok mappedI by simp
    next
      case False
      then obtain l m' where g: "get_slot_and_ctor (mem env) m (nat ?s) [] 8 = Some (l, m')" by auto
      from False q have s: "nat ?s < nentries m" "q \<noteq> -1" by simp_all
      note ctor = sig_ok_ctor [OF mok s(1) g]
      have fd: "fds (evs b) e = int (nat ?s)" using \<open>\<not> (?s < 0 \<or> NSIG \<le> ?s)\<close> by (simp add: fds_def)
      let ?m = "m'\<lparr>entries := (entries m')(nat ?s \<mapsto> e # l)\<rparr>"
      have "\<exists>lg. r = -1 \<and> b' = b\<lparr>sigmap := m', be_log := lg\<rparr> \<or> r = 1 \<and> b' = b\<lparr>sigmap := ?m, be_log := lg\<rparr>"
      proof (cases "l = []")
        case True
        then show ?thesis using eq g s(2) unfolding u
          by (intro exI [of _ "Sig_add ?s # be_log b"]) (cases "be env (be_log b) (Sig_add ?s)"; auto simp: call_be_def)
      next
        case False
        then show ?thesis using eq g s(2) unfolding u by (intro exI [of _ "be_log b"]) auto
      qed
      then obtain lg where lg: "r = -1 \<and> b' = b\<lparr>sigmap := m', be_log := lg\<rparr> \<or> r = 1 \<and> b' = b\<lparr>sigmap := ?m, be_log := lg\<rparr>"
        by blast
      have "sig_ok (I(e := True)) (whats (evs b)) (fds (evs b)) ?m"
        by (rule sig_ok_insert [OF ctor e(1) _ fd]) (use e in \<open>simp_all add: whats_def\<close>)
      moreover have "io_ok (I(e := True)) (whats (evs b)) (fds (evs b)) (io b)"
        by (rule io_ok_other [OF io]) (use e in \<open>simp add: whats_def\<close>)
      moreover have "mapped b b'" using lg mappedI by auto
      ultimately show ?thesis using lg io ctor(1) by (auto simp: maps_ok_def)
    qed
  qed
  then show "mapped b b'" "r = -1 \<and> maps_ok I b' \<or> r = 1 \<and> maps_ok (I(e := True)) b'" by blast+
qed

lemma signal_del_ok:
  assumes ok: "maps_ok I b" and e: "I e" "ev_events (evs b e) \<inter> io_whats = {}"
    and eq: "evmap_signal_del env (ev_fd (evs b e)) e b = (r, b')"
  shows "mapped b b'" "maps_ok (I(e := False)) b'" "r \<in> {-1, 1}"
proof -
  let ?s = "ev_fd (evs b e)"
  have io: "io_ok I (whats (evs b)) (fds (evs b)) (io b)" and sg: "sig_ok I (whats (evs b)) (fds (evs b)) (sigmap b)"
    using ok by (simp_all add: maps_ok_def)
  have e2: "whats (evs b) e \<inter> io_whats = {}" using e(2) by (simp add: whats_def)
  have p: "0 \<le> ?s" using sg e(1) e2 by (auto simp: sig_ok_def fds_def)
  then have fd: "fds (evs b) e = int (nat ?s)" by (simp add: fds_def)
  have "e \<in> set (sig_list (sigmap b) (nat ?s))" using sig_okD [OF sg, of e "nat ?s"] e(1) e2 fd by simp
  then obtain l where l: "entries (sigmap b) (nat ?s) = Some l"
    by (cases "entries (sigmap b) (nat ?s)") (simp_all add: sig_list_def)
  then have "nat ?s < nentries (sigmap b)" using sg by (simp add: sig_ok_split bounded_def)
  then have n: "\<not> (?s < 0 \<or> int (nentries (sigmap b)) \<le> ?s)" using p by linarith
  let ?m = "(sigmap b)\<lparr>entries := (entries (sigmap b))(nat ?s \<mapsto> remove1 e l)\<rparr>"
  have "\<exists>lg. b' = b\<lparr>sigmap := ?m, be_log := lg\<rparr> \<and> r \<in> {-1, 1}"
  proof (cases "remove1 e l = []")
    case True
    then show ?thesis using eq l n unfolding evmap_signal_del_def Let_def if_not_P [OF n]
      by (intro exI [of _ "Sig_del ?s # be_log b"]) (cases "be env (be_log b) (Sig_del ?s)"; simp add: call_be_def)
  next
    case False
    then have "b' = b\<lparr>sigmap := ?m\<rparr> \<and> r = 1"
      using eq l unfolding evmap_signal_del_def Let_def if_not_P [OF n] by auto
    then show ?thesis by (intro exI [of _ "be_log b"]) simp
  qed
  then obtain lg where lg: "b' = b\<lparr>sigmap := ?m, be_log := lg\<rparr>" "r \<in> {-1, 1}" by blast
  then show "mapped b b'" "r \<in> {-1, 1}" by (simp_all only: mappedI)
  show "maps_ok (I(e := False)) b'"
    unfolding maps_ok_def lg(1) using sig_ok_delete [OF sg l e(1) e2 fd] io_ok_other [OF io, of e False] e2 by simp
qed

end
