(* ===== verification/EventSteps.thy ===== *)
theory EventSteps
  imports EventMaps
begin

text \<open>
  The operations of \<^verbatim>\<open>event.c\<close> keep the invariant of the base: first the queues, then adding,
  deleting and activating, and the timeouts.
\<close>

section \<open>Queues\<close>

lemma event_ok_drop:
  "event_ok n ev \<Longrightarrow> f \<in> counted \<Longrightarrow> event_ok n (ev\<lparr>evcb_flags := evcb_flags ev - {f}\<rparr>)"
  by (auto simp: event_ok_def counted_def)

lemma event_ok_raise:
  "event_ok n ev \<Longrightarrow> f \<in> counted \<Longrightarrow> evcb_pri ev < n \<Longrightarrow>
   (f \<in> {EVLIST_TIMEOUT, EVLIST_INSERTED} \<Longrightarrow> EVLIST_INIT \<in> evcb_flags ev \<and> EVLIST_FINALIZING \<notin> evcb_flags ev) \<Longrightarrow>
   event_ok n (ev\<lparr>evcb_flags := insert f (evcb_flags ev)\<rparr>)"
  by (auto simp: event_ok_def counted_def)

lemma event_ok_store:
  "(\<forall>x. event_ok n (s x)) \<Longrightarrow> event_ok n ev \<Longrightarrow> event_ok n ((s(e := ev)) x)"
  by simp

lemma ctl_event_ok_flags:
  "ctl_event_ok n s c \<Longrightarrow> (EVLIST_INIT \<in> X \<longleftrightarrow> EVLIST_INIT \<in> evcb_flags (s e)) \<Longrightarrow>
   ctl_event_ok n (s(e := (s e)\<lparr>evcb_flags := X\<rparr>)) c"
  by (auto simp: ctl_event_ok_def addable_def Let_def)

lemma upd_ev_simps [simp]:
  "evs (upd_ev e f b) = (evs b)(e := f (evs b e))" "timeheap (upd_ev e f b) = timeheap b"
  "activequeues (upd_ev e f b) = activequeues b" "active_later_queue (upd_ev e f b) = active_later_queue b"
  "common_timeout_queues (upd_ev e f b) = common_timeout_queues b" "io (upd_ev e f b) = io b"
  "sigmap (upd_ev e f b) = sigmap b" "event_count (upd_ev e f b) = event_count b"
  "event_count_active (upd_ev e f b) = event_count_active b" "tv_cache (upd_ev e f b) = tv_cache b"
  "monotonic (upd_ev e f b) = monotonic b" "aborted (upd_ev e f b) = aborted b"
  "be_log (upd_ev e f b) = be_log b" "event_continue (upd_ev e f b) = event_continue b"
  "event_running_priority (upd_ev e f b) = event_running_priority b"
  by (simp_all add: upd_ev_def)

lemmas queue_defs = upd_queue_def upd_ctl_def set_flag_def clear_flag_def INCR_EVENT_COUNT_def
  DECR_EVENT_COUNT_def incr_active_def Let_def

lemma flagp_removed: "(flagp f s)(e := False) = flagp f (s(e := (s e)\<lparr>evcb_flags := evcb_flags (s e) - {f}\<rparr>))"
  "(flagp f s)(e := True) = flagp f (s(e := (s e)\<lparr>evcb_flags := insert f (evcb_flags (s e))\<rparr>))"
  "f \<noteq> g \<Longrightarrow> flagp g s = flagp g (s(e := (s e)\<lparr>evcb_flags := evcb_flags (s e) - {f}\<rparr>))"
  "f \<noteq> g \<Longrightarrow> flagp g s = flagp g (s(e := (s e)\<lparr>evcb_flags := insert f (evcb_flags (s e))\<rparr>))"
  by (auto simp: field_defs fun_eq_iff)

abbreviation dropped :: "evlist_flag \<Rightarrow> nat \<Rightarrow> event_base \<Rightarrow> nat \<Rightarrow> event" where
  "dropped f e b \<equiv> (evs b)(e := (evs b e)\<lparr>evcb_flags := evcb_flags (evs b e) - {f}\<rparr>)"

abbreviation raised :: "evlist_flag \<Rightarrow> nat \<Rightarrow> event_base \<Rightarrow> nat \<Rightarrow> event" where
  "raised f e b \<equiv> (evs b)(e := (evs b e)\<lparr>evcb_flags := insert f (evcb_flags (evs b e))\<rparr>)"

lemma flagf_apply [simp]: "flagf s e = evcb_flags (s e)"
  by (simp add: flagf_def)

lemma flagp_triv [simp]: "(flagp f s)(e := f \<in> evcb_flags (s e)) = flagp f s"
  "f \<notin> evcb_flags (s e) \<Longrightarrow> (flagp f s)(e := False) = flagp f s"
  "f \<in> evcb_flags (s e) \<Longrightarrow> (flagp f s)(e := True) = flagp f s"
  by (auto simp: flagp_def fun_eq_iff)

lemma field_apply [simp]: "flagp f s e = (f \<in> evcb_flags (s e))" "pris s e = evcb_pri (s e)" "dls s e = ev_timeout (s e)"
  "whats s e = ev_events (s e)" "fds s e = ev_fd (s e)"
  by (simp_all add: field_defs)

lemma deadline_flags [simp]:
  "(\<lambda>x. ev_timeout (if x = e then (s e)\<lparr>evcb_flags := X\<rparr> else s x)) = (\<lambda>x. ev_timeout (s x))"
  by auto

text \<open>What the operations on one queue leave.\<close>

definition same_frame :: "event_base \<Rightarrow> event_base \<Rightarrow> bool" where
  "same_frame b b' \<longleftrightarrow> tv_cache b' = tv_cache b \<and> monotonic b' = monotonic b \<and> aborted b' = aborted b \<and>
     length (activequeues b') = length (activequeues b) \<and>
     map ctl_timeout_event (common_timeout_queues b') = map ctl_timeout_event (common_timeout_queues b) \<and>
     map ctl_duration (common_timeout_queues b') = map ctl_duration (common_timeout_queues b)"

lemma core_flip:
  assumes ok: "core_ok b" and b': "evs b' = (evs b)(e := (evs b e)\<lparr>evcb_flags := X\<rparr>)" "same_frame b b'"
    and X: "EVLIST_INIT \<in> X \<longleftrightarrow> EVLIST_INIT \<in> flags_of b e"
      "event_ok (length (activequeues b)) ((evs b e)\<lparr>evcb_flags := X\<rparr>)"
      "cnt_ok ((flagf (evs b))(e := X)) (event_count b')"
    and tmo: "tmo_ok (flagp EVLIST_TIMEOUT (evs b')) (dls (evs b)) (timeheap b') (common_timeout_queues b')"
    and act: "act_ok (flagp EVLIST_ACTIVE (evs b')) (flagp EVLIST_ACTIVE_LATER (evs b')) (pris (evs b))
       (activequeues b') (active_later_queue b') (event_count_active b')"
  shows "core_ok b'"
proof -
  note fr = b'(2) [unfolded same_frame_def]
  have l: "length (common_timeout_queues b') = length (common_timeout_queues b)"
    using fr map_eq_imp_length_eq by blast
  have "ctl_event_ok (length (activequeues b')) (evs b') c" if c: "c \<in> set (common_timeout_queues b')" for c
  proof -
    from c have "ctl_timeout_event c \<in> set (map ctl_timeout_event (common_timeout_queues b'))" by simp
    then have "ctl_timeout_event c \<in> set (map ctl_timeout_event (common_timeout_queues b))"
      using fr by argo
    then obtain c' where "c' \<in> set (common_timeout_queues b)" "ctl_timeout_event c = ctl_timeout_event c'" by auto
    then have "ctl_event_ok (length (activequeues b)) (evs b) c"
      using ok by (simp add: core_ok_def ctl_event_ok_def Let_def)
    then show ?thesis using fr X(1) unfolding b'(1) by (simp add: ctl_event_ok_flags)
  qed
  moreover have "event_ok (length (activequeues b')) (evs b' x)" for x
    using ok X(2) fr unfolding b'(1) l by (simp add: core_ok_def)
  moreover have "cnt_ok (flagf (evs b')) (event_count b')" using X(3) unfolding b'(1) by simp
  ultimately show ?thesis
    using ok tmo act fr by (simp add: core_ok_def b'(1))
qed

lemma core_dropped:
  assumes ok: "core_ok b" and f: "f \<in> counted" "f \<in> flags_of b e"
    and b': "evs b' = dropped f e b" "same_frame b b'"
      "event_count b' = event_count b - (if EVLIST_INTERNAL \<in> flags_of b e then 0 else 1)"
    and tmo: "tmo_ok (flagp EVLIST_TIMEOUT (evs b')) (dls (evs b)) (timeheap b') (common_timeout_queues b')"
    and act: "act_ok (flagp EVLIST_ACTIVE (evs b')) (flagp EVLIST_ACTIVE_LATER (evs b')) (pris (evs b))
       (activequeues b') (active_later_queue b') (event_count_active b')"
  shows "core_ok b'"
proof (rule core_flip [OF ok b'(1,2) _ _ _ tmo act])
  show "cnt_ok ((flagf (evs b))(e := flags_of b e - {f})) (event_count b')"
    using cnt_remove [of "flagf (evs b)" "event_count b" f e] ok f unfolding b'(3) by (simp add: core_ok_def)
qed (use f ok event_ok_drop in \<open>auto simp: counted_def core_ok_def\<close>)

lemma core_raised:
  assumes ok: "core_ok b" and f: "f \<in> counted" "f \<notin> flags_of b e"
    and e: "evcb_pri (evs b e) < length (activequeues b)"
      "f \<in> {EVLIST_TIMEOUT, EVLIST_INSERTED} \<Longrightarrow> EVLIST_INIT \<in> flags_of b e \<and> EVLIST_FINALIZING \<notin> flags_of b e"
    and b': "evs b' = raised f e b" "same_frame b b'"
      "event_count b' = event_count b + (if EVLIST_INTERNAL \<in> flags_of b e then 0 else 1)"
    and tmo: "tmo_ok (flagp EVLIST_TIMEOUT (evs b')) (dls (evs b)) (timeheap b') (common_timeout_queues b')"
    and act: "act_ok (flagp EVLIST_ACTIVE (evs b')) (flagp EVLIST_ACTIVE_LATER (evs b')) (pris (evs b))
       (activequeues b') (active_later_queue b') (event_count_active b')"
  shows "core_ok b'"
proof (rule core_flip [OF ok b'(1,2) _ _ _ tmo act])
  show "cnt_ok ((flagf (evs b))(e := insert f (flags_of b e))) (event_count b')"
    using cnt_insert [of "flagf (evs b)" "event_count b" f e] ok f unfolding b'(3) by (simp add: core_ok_def)
  show "event_ok (length (activequeues b)) ((evs b e)\<lparr>evcb_flags := insert f (flags_of b e)\<rparr>)"
    using ok f(1) e by (intro event_ok_raise) (simp_all add: core_ok_def)
qed (use f(1) in \<open>auto simp: counted_def\<close>)

lemma list_update_map_ctl [simp]:
  "map ctl_timeout_event (cs[i := (cs ! i)\<lparr>ctl_events := l\<rparr>]) = map ctl_timeout_event cs"
  "map ctl_duration (cs[i := (cs ! i)\<lparr>ctl_events := l\<rparr>]) = map ctl_duration cs"
  by (cases "i < length cs"; simp add: map_update list_update_beyond not_less; metis list_update_id nth_map)+

text \<open>Each operation on a queue. The maps of descriptors and signals are as before.\<close>

definition same_maps :: "event_base \<Rightarrow> event_base \<Rightarrow> bool" where
  "same_maps b b' \<longleftrightarrow> io b' = io b \<and> sigmap b' = sigmap b \<and> be_log b' = be_log b"

definition flipped :: "evlist_flag set \<Rightarrow> nat \<Rightarrow> event_base \<Rightarrow> event_base \<Rightarrow> bool" where
  "flipped X e b b' \<longleftrightarrow> core_ok b' \<and> evs b' = (evs b)(e := (evs b e)\<lparr>evcb_flags := X\<rparr>) \<and>
     same_frame b b' \<and> same_maps b b'"

lemmas frame_defs = same_frame_def same_maps_def

lemma remove_active_ok:
  assumes ok: "core_ok b" and e: "EVLIST_ACTIVE \<in> flags_of b e"
  shows "flipped (flags_of b e - {EVLIST_ACTIVE}) e b (event_queue_remove_active e b)"
proof -
  define b' where "b' = event_queue_remove_active e b"
  have b': "evs b' = dropped EVLIST_ACTIVE e b" "same_frame b b'"
    "event_count b' = event_count b - (if EVLIST_INTERNAL \<in> flags_of b e then 0 else 1)"
    "same_maps b b'" "timeheap b' = timeheap b" "common_timeout_queues b' = common_timeout_queues b"
    "activequeues b' = (activequeues b)[evcb_pri (evs b e) := remove1 e (activequeues b ! evcb_pri (evs b e))]"
    "active_later_queue b' = active_later_queue b" "event_count_active b' = event_count_active b - 1"
    using e by (simp_all add: b'_def event_queue_remove_active_def queue_defs frame_defs)
  have "core_ok b'"
  proof (rule core_dropped [OF ok _ e b'(1-3)])
    show "act_ok (flagp EVLIST_ACTIVE (evs b')) (flagp EVLIST_ACTIVE_LATER (evs b')) (pris (evs b))
       (activequeues b') (active_later_queue b') (event_count_active b')"
      unfolding b' using act_remove [of "flagp EVLIST_ACTIVE (evs b)" _ "pris (evs b)" _ _ _ e] ok e
      by (simp add: core_ok_def)
  qed (use ok in \<open>simp_all add: b' counted_def core_ok_def\<close>)
  with b' show ?thesis unfolding flipped_def b'_def by blast
qed

lemma remove_active_later_ok:
  assumes ok: "core_ok b" and e: "EVLIST_ACTIVE_LATER \<in> flags_of b e"
  shows "flipped (flags_of b e - {EVLIST_ACTIVE_LATER}) e b (event_queue_remove_active_later e b)"
proof -
  define b' where "b' = event_queue_remove_active_later e b"
  have b': "evs b' = dropped EVLIST_ACTIVE_LATER e b" "same_frame b b'"
    "event_count b' = event_count b - (if EVLIST_INTERNAL \<in> flags_of b e then 0 else 1)"
    "same_maps b b'" "timeheap b' = timeheap b" "common_timeout_queues b' = common_timeout_queues b"
    "activequeues b' = activequeues b"
    "active_later_queue b' = remove1 e (active_later_queue b)" "event_count_active b' = event_count_active b - 1"
    using e by (simp_all add: b'_def event_queue_remove_active_later_def queue_defs frame_defs)
  have "core_ok b'"
  proof (rule core_dropped [OF ok _ e b'(1-3)])
    show "act_ok (flagp EVLIST_ACTIVE (evs b')) (flagp EVLIST_ACTIVE_LATER (evs b')) (pris (evs b))
       (activequeues b') (active_later_queue b') (event_count_active b')"
      unfolding b' using later_remove [of _ "flagp EVLIST_ACTIVE_LATER (evs b)" "pris (evs b)" _ _ _ e] ok e
      by (simp add: core_ok_def)
  qed (use ok in \<open>simp_all add: b' counted_def core_ok_def\<close>)
  with b' show ?thesis unfolding flipped_def b'_def by blast
qed

lemma insert_active_ok:
  assumes ok: "core_ok b" and e: "flags_of b e \<inter> {EVLIST_ACTIVE, EVLIST_ACTIVE_LATER} = {}"
    "evcb_pri (evs b e) < length (activequeues b)"
  shows "flipped (insert EVLIST_ACTIVE (flags_of b e)) e b (event_queue_insert_active e b)"
proof -
  define b' where "b' = event_queue_insert_active e b"
  have b': "evs b' = raised EVLIST_ACTIVE e b" "same_frame b b'"
    "event_count b' = event_count b + (if EVLIST_INTERNAL \<in> flags_of b e then 0 else 1)"
    "same_maps b b'" "timeheap b' = timeheap b" "common_timeout_queues b' = common_timeout_queues b"
    "activequeues b' = (activequeues b)[evcb_pri (evs b e) := activequeues b ! evcb_pri (evs b e) @ [e]]"
    "active_later_queue b' = active_later_queue b" "event_count_active b' = event_count_active b + 1"
    using e by (simp_all add: b'_def event_queue_insert_active_def queue_defs frame_defs ev_assert_def)
  have n: "EVLIST_ACTIVE \<notin> flags_of b e" "EVLIST_ACTIVE_LATER \<notin> flags_of b e" using e(1) by auto
  have "core_ok b'"
  proof (rule core_raised [OF ok _ n(1) e(2) _ b'(1-3)])
    show "act_ok (flagp EVLIST_ACTIVE (evs b')) (flagp EVLIST_ACTIVE_LATER (evs b')) (pris (evs b))
       (activequeues b') (active_later_queue b') (event_count_active b')"
      unfolding b' using act_insert [of "flagp EVLIST_ACTIVE (evs b)" "flagp EVLIST_ACTIVE_LATER (evs b)" "pris (evs b)" _ _ _ e] ok n e(2)
      by (simp add: core_ok_def)
  qed (use ok in \<open>simp_all add: b' counted_def core_ok_def\<close>)
  with b' show ?thesis unfolding flipped_def b'_def by blast
qed

lemma insert_active_later_ok:
  assumes ok: "core_ok b" and e: "flags_of b e \<inter> {EVLIST_ACTIVE, EVLIST_ACTIVE_LATER} = {}"
    "evcb_pri (evs b e) < length (activequeues b)"
  shows "flipped (insert EVLIST_ACTIVE_LATER (flags_of b e)) e b (event_queue_insert_active_later e b)"
proof -
  define b' where "b' = event_queue_insert_active_later e b"
  have n: "EVLIST_ACTIVE \<notin> flags_of b e" "EVLIST_ACTIVE_LATER \<notin> flags_of b e" using e(1) by auto
  have b': "evs b' = raised EVLIST_ACTIVE_LATER e b" "same_frame b b'"
    "event_count b' = event_count b + (if EVLIST_INTERNAL \<in> flags_of b e then 0 else 1)"
    "same_maps b b'" "timeheap b' = timeheap b" "common_timeout_queues b' = common_timeout_queues b"
    "activequeues b' = activequeues b"
    "active_later_queue b' = active_later_queue b @ [e]" "event_count_active b' = event_count_active b + 1"
    using n e(2) by (simp_all add: b'_def event_queue_insert_active_later_def queue_defs frame_defs ev_assert_def)
  have "core_ok b'"
  proof (rule core_raised [OF ok _ n(2) e(2) _ b'(1-3)])
    show "act_ok (flagp EVLIST_ACTIVE (evs b')) (flagp EVLIST_ACTIVE_LATER (evs b')) (pris (evs b))
       (activequeues b') (active_later_queue b') (event_count_active b')"
      unfolding b' using later_insert [of "flagp EVLIST_ACTIVE (evs b)" "flagp EVLIST_ACTIVE_LATER (evs b)" "pris (evs b)" _ _ _ e] ok n e(2)
      by (simp add: core_ok_def)
  qed (use ok in \<open>simp_all add: b' counted_def core_ok_def\<close>)
  with b' show ?thesis unfolding flipped_def b'_def by blast
qed

lemma remove_timeout_ok:
  assumes ok: "core_ok b" and e: "EVLIST_TIMEOUT \<in> flags_of b e"
  defines "b' \<equiv> event_queue_remove_timeout e b"
  shows "flipped (flags_of b e - {EVLIST_TIMEOUT}) e b b'"
    and "activequeues b' = activequeues b" and "active_later_queue b' = active_later_queue b"
    and "event_count_active b' = event_count_active b"
    and "is_common_timeout (deadline b e) b \<Longrightarrow> timeheap b' = timeheap b \<and>
       common_timeout_queues b' = (common_timeout_queues b)[COMMON_TIMEOUT_IDX (deadline b e) :=
         (common_timeout_queues b ! COMMON_TIMEOUT_IDX (deadline b e))\<lparr>ctl_events :=
            remove1 e (ctl_events (common_timeout_queues b ! COMMON_TIMEOUT_IDX (deadline b e)))\<rparr>]"
    and "\<not> is_common_timeout (deadline b e) b \<Longrightarrow> common_timeout_queues b' = common_timeout_queues b \<and>
       timeheap b' = snd (min_heap_erase (deadline b) e (timeheap b))"
proof -
  let ?i = "COMMON_TIMEOUT_IDX (deadline b e)"
  have b': "evs b' = dropped EVLIST_TIMEOUT e b" "same_frame b b'"
    "event_count b' = event_count b - (if EVLIST_INTERNAL \<in> flags_of b e then 0 else 1)"
    "same_maps b b'" "activequeues b' = activequeues b"
    "active_later_queue b' = active_later_queue b" "event_count_active b' = event_count_active b"
    using e by (simp_all add: b'_def event_queue_remove_timeout_def queue_defs frame_defs is_common_in)
  have c: "is_common_timeout (deadline b e) b \<Longrightarrow> timeheap b' = timeheap b \<and>
       common_timeout_queues b' = (common_timeout_queues b)[?i := (common_timeout_queues b ! ?i)\<lparr>ctl_events :=
            remove1 e (ctl_events (common_timeout_queues b ! ?i))\<rparr>]"
    using e by (simp add: b'_def event_queue_remove_timeout_def queue_defs is_common_in)
  have h: "\<not> is_common_timeout (deadline b e) b \<Longrightarrow> common_timeout_queues b' = common_timeout_queues b \<and>
       timeheap b' = snd (min_heap_erase (deadline b) e (timeheap b))"
    using e by (simp add: b'_def event_queue_remove_timeout_def queue_defs is_common_in)
  have tmo: "tmo_ok (flagp EVLIST_TIMEOUT (evs b)) (dls (evs b)) (timeheap b) (common_timeout_queues b)"
    using ok by (simp add: core_ok_def)
  have dl: "dls (evs b) = deadline b" by (simp add: dls_def)
  have fe: "flagp EVLIST_TIMEOUT (evs b) e" using e by (simp add: flagp_def)
  have "core_ok b'"
  proof (rule core_dropped [OF ok _ e b'(1-3)])
    show "tmo_ok (flagp EVLIST_TIMEOUT (evs b')) (dls (evs b)) (timeheap b') (common_timeout_queues b')"
    proof (cases "is_common_timeout (deadline b e) b")
      case True
      then show ?thesis
        using tmo_ctl_remove [OF tmo fe _ refl] c [OF True]
        unfolding b'(1) by (simp add: is_common_in dl del: field_apply)
    next
      case False
      then show ?thesis
        using tmo_heap_remove(1) [OF tmo fe] h [OF False]
        unfolding b'(1) by (simp add: is_common_in dl del: field_apply)
    qed
  qed (use ok in \<open>simp_all add: b' counted_def core_ok_def\<close>)
  with b' show "flipped (flags_of b e - {EVLIST_TIMEOUT}) e b b'" unfolding flipped_def by blast
  show "activequeues b' = activequeues b" "active_later_queue b' = active_later_queue b"
    "event_count_active b' = event_count_active b" by (fact b')+
  show "timeheap b' = timeheap b \<and>
       common_timeout_queues b' = (common_timeout_queues b)[?i := (common_timeout_queues b ! ?i)\<lparr>ctl_events :=
            remove1 e (ctl_events (common_timeout_queues b ! ?i))\<rparr>]"
    if "is_common_timeout (deadline b e) b" by (rule c [OF that])
  show "common_timeout_queues b' = common_timeout_queues b \<and>
       timeheap b' = snd (min_heap_erase (deadline b) e (timeheap b))"
    if "\<not> is_common_timeout (deadline b e) b" by (rule h [OF that])
qed

lemma insert_timeout_ok:
  assumes ok: "core_ok b" and e: "EVLIST_TIMEOUT \<notin> flags_of b e" "EVLIST_FINALIZING \<notin> flags_of b e"
    "addable (length (activequeues b)) e (evs b e)" "valid_tv (length (common_timeout_queues b)) (deadline b e)"
    and room: "\<not> is_common_timeout (deadline b e) b \<Longrightarrow>
       \<exists>h. min_heap_reserve (mem env) (hn (timeheap b) + 1) (timeheap b) = (0, h)"
  defines "b' \<equiv> event_queue_insert_timeout env e b"
  shows "flipped (insert EVLIST_TIMEOUT (flags_of b e)) e b b'" "activequeues b' = activequeues b"
    "active_later_queue b' = active_later_queue b" "event_count_active b' = event_count_active b"
proof -
  let ?i = "COMMON_TIMEOUT_IDX (deadline b e)"
  have tmo: "tmo_ok (flagp EVLIST_TIMEOUT (evs b)) (deadline b) (timeheap b) (common_timeout_queues b)"
    using ok by (simp add: core_ok_def dls_def)
  have fe: "\<not> flagp EVLIST_TIMEOUT (evs b) e" using e(1) by (simp add: flagp_def)
  have lim: "e < EVENT_LIMIT" using e(3) by (simp add: addable_def)
  define b1 where "b1 = set_flag e EVLIST_TIMEOUT (INCR_EVENT_COUNT e b)"
  have b1: "evs b1 = raised EVLIST_TIMEOUT e b" "same_frame b b1" "same_maps b b1"
    "event_count b1 = event_count b + (if EVLIST_INTERNAL \<in> flags_of b e then 0 else 1)"
    "activequeues b1 = activequeues b" "active_later_queue b1 = active_later_queue b"
    "event_count_active b1 = event_count_active b" "timeheap b1 = timeheap b"
    "common_timeout_queues b1 = common_timeout_queues b" "deadline b1 = deadline b"
    by (simp_all add: b1_def queue_defs frame_defs)
  have dl: "deadline b1 x = deadline b x" for x using b1(10) by meson
  obtain l r where ins: "insert_from_end b1 e (rev (ctl_events (common_timeout_queues b ! ?i))) [] = (l, r)"
    by fastforce
  have c: "b' = upd_ctl ?i (\<lambda>_. l) b1" and ct: "tmo_ok ((flagp EVLIST_TIMEOUT (evs b))(e := True)) (deadline b) (timeheap b)
      ((common_timeout_queues b)[?i := (common_timeout_queues b ! ?i)\<lparr>ctl_events := l\<rparr>])"
    if "is_common_timeout (deadline b e) b"
  proof -
    note t = tmo_ctl_insert [OF tmo fe that [unfolded is_common_in] refl lim e(4) _ ins]
    have D: "deadline b = dls (evs b1)" using b1(10) by (simp add: dls_def)
    have r: "r" using t(1) [OF D] .
    have "b' = (let b = b1 in insert_common_timeout_inorder ?i e b)"
      using e(1) that dl [of e] by (simp add: b'_def event_queue_insert_timeout_def b1_def [symmetric] is_common_in b1(9))
    then show "b' = upd_ctl ?i (\<lambda>_. l) b1"
      using ins r by (simp add: insert_common_timeout_inorder_def b1(9) ev_assert_def)
    show "tmo_ok ((flagp EVLIST_TIMEOUT (evs b))(e := True)) (deadline b) (timeheap b)
      ((common_timeout_queues b)[?i := (common_timeout_queues b ! ?i)\<lparr>ctl_events := l\<rparr>])"
      using t(2) [OF D] .
  qed
  have h: "b' = b1\<lparr>timeheap := snd (min_heap_push (mem env) (deadline b) e (timeheap b))\<rparr>"
    if "\<not> is_common_timeout (deadline b e) b"
    using e(1) that dl [of e]
    by (simp add: b'_def event_queue_insert_timeout_def b1_def [symmetric] is_common_in b1(8,9) Let_def) (simp add: b1(10))
  show aq: "activequeues b' = activequeues b" "active_later_queue b' = active_later_queue b"
    "event_count_active b' = event_count_active b"
    using c h b1 by (cases "is_common_timeout (deadline b e) b"; simp add: upd_ctl_def)+
  have ev: "evs b' = raised EVLIST_TIMEOUT e b"
    using c h b1(1) by (cases "is_common_timeout (deadline b e) b"; simp add: upd_ctl_def)
  have fr: "same_frame b b'" "same_maps b b'"
    using c h b1 by (cases "is_common_timeout (deadline b e) b"; simp add: upd_ctl_def frame_defs)+
  have cnt: "event_count b' = event_count b + (if EVLIST_INTERNAL \<in> flags_of b e then 0 else 1)"
    using c h b1(4) by (cases "is_common_timeout (deadline b e) b"; simp add: upd_ctl_def)
  have "core_ok b'"
  proof (rule core_raised [OF ok _ e(1) _ _ ev fr(1) cnt])
    show "tmo_ok (flagp EVLIST_TIMEOUT (evs b')) (dls (evs b)) (timeheap b') (common_timeout_queues b')"
    proof (cases "is_common_timeout (deadline b e) b")
      case True
      then show ?thesis using ct unfolding c [OF True] by (simp add: upd_ctl_def b1 dls_def)
    next
      case False
      from room [OF False] obtain h1 where "min_heap_reserve (mem env) (hn (timeheap b) + 1) (timeheap b) = (0, h1)" by blast
      from tmo_heap_insert [OF tmo fe False [unfolded is_common_in] lim e(4) this]
      show ?thesis unfolding h [OF False] by (simp add: b1 dls_def del: field_apply)
    qed
  qed (use ok aq e in \<open>simp_all add: ev counted_def core_ok_def addable_def\<close>)
  with ev fr show "flipped (insert EVLIST_TIMEOUT (flags_of b e)) e b b'" unfolding flipped_def by blast
qed

lemma insert_inserted_ok:
  assumes ok: "core_ok b" and e: "EVLIST_INSERTED \<notin> flags_of b e" "EVLIST_FINALIZING \<notin> flags_of b e"
    "addable (length (activequeues b)) e (evs b e)"
  shows "flipped (insert EVLIST_INSERTED (flags_of b e)) e b (event_queue_insert_inserted e b)"
proof -
  define b' where "b' = event_queue_insert_inserted e b"
  have b': "evs b' = raised EVLIST_INSERTED e b" "same_frame b b'"
    "event_count b' = event_count b + (if EVLIST_INTERNAL \<in> flags_of b e then 0 else 1)"
    "same_maps b b'" "timeheap b' = timeheap b" "common_timeout_queues b' = common_timeout_queues b"
    "activequeues b' = activequeues b"
    "active_later_queue b' = active_later_queue b" "event_count_active b' = event_count_active b"
    using e by (simp_all add: b'_def event_queue_insert_inserted_def queue_defs frame_defs)
  have "core_ok b'"
    by (rule core_raised [OF ok _ e(1) _ _ b'(1-3)])
       (use ok e in \<open>simp_all add: b' counted_def core_ok_def addable_def\<close>)
  with b' show ?thesis unfolding flipped_def b'_def by blast
qed

lemma remove_inserted_ok:
  assumes ok: "core_ok b" and e: "EVLIST_INSERTED \<in> flags_of b e"
  shows "flipped (flags_of b e - {EVLIST_INSERTED}) e b (event_queue_remove_inserted e b)"
proof -
  define b' where "b' = event_queue_remove_inserted e b"
  have b': "evs b' = dropped EVLIST_INSERTED e b" "same_frame b b'"
    "event_count b' = event_count b - (if EVLIST_INTERNAL \<in> flags_of b e then 0 else 1)"
    "same_maps b b'" "timeheap b' = timeheap b" "common_timeout_queues b' = common_timeout_queues b"
    "activequeues b' = activequeues b"
    "active_later_queue b' = active_later_queue b" "event_count_active b' = event_count_active b"
    using e by (simp_all add: b'_def event_queue_remove_inserted_def queue_defs frame_defs)
  have "core_ok b'"
    by (rule core_dropped [OF ok _ e b'(1-3)]) (use ok in \<open>simp_all add: b' counted_def core_ok_def\<close>)
  with b' show ?thesis unfolding flipped_def b'_def by blast
qed

section \<open>Deleting\<close>

lemma flipped_refl: "core_ok b \<Longrightarrow> X = flags_of b e \<Longrightarrow> flipped X e b b"
  by (simp add: flipped_def frame_defs)

lemma flipped_trans: "flipped X e a b \<Longrightarrow> flipped Y e b c \<Longrightarrow> flipped Y e a c"
  by (auto simp: flipped_def frame_defs)

lemma flipped_flags: "flipped X e b b' \<Longrightarrow> flags_of b' e = X"
  by (simp add: flipped_def)

lemma flipped_maps:
  "flipped X e b b' \<Longrightarrow> maps_ok I b' = maps_ok I b"
  by (simp add: flipped_def same_maps_def maps_ok_def)

lemma flipped_ev: "flipped X e b b' \<Longrightarrow> evs b' e = (evs b e)\<lparr>evcb_flags := X\<rparr>"
  by (simp add: flipped_def)

lemma flipped_core: "flipped X e b b' \<Longrightarrow> core_ok b'"
  by (simp add: flipped_def)

lemma mapped_frame: "mapped b b' \<Longrightarrow> same_frame b b'"
  using mapped_simps [of b b'] by (simp add: same_frame_def)

text \<open>One event with its flags as told, the maps with it, the rest as before.\<close>

definition reflagged :: "evlist_flag set \<Rightarrow> nat \<Rightarrow> event_base \<Rightarrow> event_base \<Rightarrow> bool" where
  "reflagged X e b b' \<longleftrightarrow> base_ok b' \<and> evs b' = (evs b)(e := (evs b e)\<lparr>evcb_flags := X\<rparr>) \<and> same_frame b b'"

lemma reflagged_trans: "reflagged X e a b \<Longrightarrow> reflagged Y e b c \<Longrightarrow> reflagged Y e a c"
  by (auto simp: reflagged_def frame_defs)

lemma reflagged_refl: "base_ok b \<Longrightarrow> X = flags_of b e \<Longrightarrow> reflagged X e b b"
  by (simp add: reflagged_def frame_defs)

lemma same_frame_ctl: "same_frame b b' \<Longrightarrow> length (common_timeout_queues b') = length (common_timeout_queues b)"
  unfolding same_frame_def using map_eq_imp_length_eq by blast

lemma flipped_persist:
  assumes "flipped X e b b'" and "base_ok b" and "EVLIST_INIT \<in> X \<longleftrightarrow> EVLIST_INIT \<in> flags_of b e"
  shows "persist_ok (length (activequeues b')) (length (common_timeout_queues b')) x (evs b' x)"
proof -
  have fr: "same_frame b b'" using assms(1) by (simp add: flipped_def)
  have l: "length (common_timeout_queues b') = length (common_timeout_queues b)"
    "length (activequeues b') = length (activequeues b)"
    using same_frame_ctl [OF fr] fr by (simp_all add: same_frame_def)
  have "persist_ok n m e (ev\<lparr>evcb_flags := X\<rparr>) = persist_ok n m e ev"
    if "EVLIST_INIT \<in> X \<longleftrightarrow> EVLIST_INIT \<in> evcb_flags ev" for n m ev
    using that by (simp add: persist_ok_def addable_def)
  then show ?thesis using assms unfolding l flipped_def base_ok_def by simp
qed

lemma flipped_reflagged:
  assumes "flipped X e b b'" and "base_ok b" and "EVLIST_INSERTED \<in> X \<longleftrightarrow> EVLIST_INSERTED \<in> flags_of b e"
    and "EVLIST_INIT \<in> X \<longleftrightarrow> EVLIST_INIT \<in> flags_of b e"
  shows "reflagged X e b b'"
proof -
  have "maps_ok (flagp EVLIST_INSERTED (evs b)) b'"
    using assms(2) flipped_maps [OF assms(1)] by (simp add: base_ok_def)
  moreover have "flagp EVLIST_INSERTED (evs b') = flagp EVLIST_INSERTED (evs b)"
    using assms(1,3) by (simp add: flipped_def)
  moreover have "persist_ok (length (activequeues b')) (length (common_timeout_queues b')) x (evs b' x)" for x
    by (rule flipped_persist [OF assms(1,2,4)])
  ultimately show ?thesis using assms(1) by (simp add: reflagged_def base_ok_def flipped_def)
qed

lemma not_both_active:
  "core_ok b \<Longrightarrow> \<not> (EVLIST_ACTIVE \<in> flags_of b e \<and> EVLIST_ACTIVE_LATER \<in> flags_of b e)"
  by (auto simp: core_ok_def act_ok_def)

lemma abort_signal_simps [simp]:
  "evs (abort_signal e b) = evs b" "core_ok (abort_signal e b) = core_ok b" "same_frame b (abort_signal e b)"
  "same_maps b (abort_signal e b)" "timeheap (abort_signal e b) = timeheap b"
  "common_timeout_queues (abort_signal e b) = common_timeout_queues b"
  "activequeues (abort_signal e b) = activequeues b" "maps_ok I (abort_signal e b) = maps_ok I b"
  by (simp_all add: abort_signal_def Let_def core_ok_def frame_defs base_ok_def maps_ok_def)

text \<open>The three parts of \<^verbatim>\<open>event_del_nolock_\<close>.\<close>

lemma del_timeout_ok:
  assumes "core_ok b"
  shows "flipped (flags_of b e - {EVLIST_TIMEOUT}) e b (del_timeout e b)"
    "timeheap (del_timeout e b) = (if EVLIST_TIMEOUT \<in> flags_of b e \<and> \<not> is_common_timeout (deadline b e) b
       then snd (min_heap_erase (deadline b) e (timeheap b)) else timeheap b)"
    "active_later_queue (del_timeout e b) = active_later_queue b" "activequeues (del_timeout e b) = activequeues b"
  using remove_timeout_ok [OF assms, of e] flipped_refl [OF assms] by (simp_all add: del_timeout_def)

lemma del_active_ok:
  assumes "core_ok b"
  shows "flipped (flags_of b e - {EVLIST_ACTIVE, EVLIST_ACTIVE_LATER}) e b (del_active e b)"
    "timeheap (del_active e b) = timeheap b"
proof -
  have "flags_of b e - {EVLIST_ACTIVE, EVLIST_ACTIVE_LATER} =
     (if EVLIST_ACTIVE \<in> flags_of b e then flags_of b e - {EVLIST_ACTIVE}
      else if EVLIST_ACTIVE_LATER \<in> flags_of b e then flags_of b e - {EVLIST_ACTIVE_LATER} else flags_of b e)"
    using not_both_active [OF assms, of e] by auto
  then show "flipped (flags_of b e - {EVLIST_ACTIVE, EVLIST_ACTIVE_LATER}) e b (del_active e b)"
    using remove_active_ok [OF assms, of e] remove_active_later_ok [OF assms, of e] flipped_refl [OF assms, of _ e]
    by (simp add: del_active_def)
  show "timeheap (del_active e b) = timeheap b"
    by (simp add: del_active_def event_queue_remove_active_def event_queue_remove_active_later_def queue_defs)
qed

lemma del_inserted_ok:
  assumes ok: "base_ok b" and eq: "del_inserted env e b = (r, b')"
  shows "reflagged (flags_of b e - {EVLIST_INSERTED}) e b b' \<and> r \<in> {-1, 0}" "timeheap b' = timeheap b"
proof -
  have "reflagged (flags_of b e - {EVLIST_INSERTED}) e b b' \<and> r \<in> {-1, 0} \<and> timeheap b' = timeheap b"
  proof (cases "EVLIST_INSERTED \<in> flags_of b e")
    case False
    then show ?thesis using eq ok by (auto simp: del_inserted_def intro: reflagged_refl)
  next
    case True
    define c where "c = event_queue_remove_inserted e b"
    define I where "I = flagp EVLIST_INSERTED (evs b)"
    have core: "core_ok b" using ok by (simp add: base_ok_def)
    note f = remove_inserted_ok [OF core True, folded c_def]
    have m: "maps_ok I c" using ok flipped_maps [OF f] by (simp add: base_ok_def I_def)
    have I: "I e" using True by (simp add: I_def)
    obtain q b2 where q: "(if ev_events (evs c e) \<inter> {EV_READ, EV_WRITE, EV_CLOSED} \<noteq> {}
        then evmap_io_del env (ev_fd (evs c e)) e c else evmap_signal_del env (ev_fd (evs c e)) e c) = (q, b2)"
      by fastforce
    have "mapped c b2 \<and> maps_ok (I(e := False)) b2 \<and> q \<in> {-1, 0, 1}"
    proof (cases "ev_events (evs c e) \<inter> {EV_READ, EV_WRITE, EV_CLOSED} \<noteq> {}")
      case io: True
      then have "evmap_io_del env (ev_fd (evs c e)) e c = (q, b2)" using q by simp
      from io_del_ok [where I = I, OF m I io this] show ?thesis by simp
    next
      case False
      then have "evmap_signal_del env (ev_fd (evs c e)) e c = (q, b2)" using q by simp
      from signal_del_ok [where I = I, OF m I _ this] False show ?thesis by auto
    qed
    then have b2: "mapped c b2" "maps_ok (I(e := False)) b2" "q \<in> {-1, 0, 1}" by blast+
    have b': "b' = b2" "r = (if q = 1 then 0 else q)"
      using eq True q unfolding del_inserted_def Let_def c_def [symmetric] by simp_all
    note ms = mapped_simps [OF b2(1)]
    have "flagp EVLIST_INSERTED (evs b2) = I(e := False)" using f unfolding ms(1) I_def by (simp add: flipped_def)
    moreover have "same_frame b b2" using f mapped_frame [OF b2(1)] by (auto simp: flipped_def same_frame_def)
    moreover have "persist_ok (length (activequeues b2)) (length (common_timeout_queues b2)) x (evs b2 x)" for x
      using flipped_persist [OF f ok] ms(1,3,5) by simp
    moreover have "timeheap b2 = timeheap b"
      using ms True by (simp add: c_def event_queue_remove_inserted_def queue_defs)
    ultimately show ?thesis
      unfolding b' using b2 f ms(1,11) by (auto simp: reflagged_def base_ok_def flipped_def)
  qed
  then show "reflagged (flags_of b e - {EVLIST_INSERTED}) e b b' \<and> r \<in> {-1, 0}" "timeheap b' = timeheap b" by blast+
qed

lemma event_del_ok:
  assumes ok: "base_ok b" and eq: "event_del_nolock env e bl b = (r, b')"
    and d: "bl = EVENT_DEL_EVEN_IF_FINALIZING \<or> EVLIST_FINALIZING \<notin> flags_of b e"
  shows "reflagged (flags_of b e - counted) e b b'" "r \<in> {-1, 0}"
    "timeheap b' = (if EVLIST_TIMEOUT \<in> flags_of b e \<and> \<not> is_common_timeout (deadline b e) b
       then snd (min_heap_erase (deadline b) e (timeheap b)) else timeheap b)"
proof -
  let ?F = "flags_of b e"
  define b0 where "b0 = abort_signal e b"
  define b1 where "b1 = del_timeout e b0"
  define b2 where "b2 = del_active e b1"
  have b0: "core_ok b0" "base_ok b0" "evs b0 = evs b" "same_frame b b0" "timeheap b0 = timeheap b"
    "is_common_timeout t b0 = is_common_timeout t b" for t
    using ok by (simp_all add: b0_def base_ok_def is_common_in)
  have f1: "flipped (?F - {EVLIST_TIMEOUT}) e b0 b1"
    using del_timeout_ok(1) [OF b0(1), of e] unfolding b1_def b0(3) by simp
  have f2: "flipped (?F - {EVLIST_TIMEOUT} - {EVLIST_ACTIVE, EVLIST_ACTIVE_LATER}) e b0 b2"
    using flipped_trans [OF f1 del_active_ok(1) [OF flipped_core [OF f1], of e, folded b2_def]]
    unfolding flipped_flags [OF f1] .
  have r2: "reflagged (?F - {EVLIST_TIMEOUT} - {EVLIST_ACTIVE, EVLIST_ACTIVE_LATER}) e b0 b2"
    by (rule flipped_reflagged [OF f2 b0(2)]) (simp_all add: b0(3))
  have h2: "timeheap b2 = (if EVLIST_TIMEOUT \<in> ?F \<and> \<not> is_common_timeout (deadline b e) b
       then snd (min_heap_erase (deadline b) e (timeheap b)) else timeheap b)"
    using del_active_ok(2) [OF flipped_core [OF f1], of e] del_timeout_ok(2) [OF b0(1), of e]
    by (simp add: b2_def b1_def b0(3,5,6))
  have "base_ok b2" using r2 by (simp add: reflagged_def)
  moreover have "del_inserted env e b2 = (r, b')"
    using eq d unfolding event_del_nolock_def b0_def b1_def b2_def by auto
  ultimately have d3: "reflagged (flags_of b2 e - {EVLIST_INSERTED}) e b2 b' \<and> r \<in> {-1, 0}" "timeheap b' = timeheap b2"
    using del_inserted_ok by blast+
  have "flags_of b2 e - {EVLIST_INSERTED} = ?F - counted"
    unfolding flipped_flags [OF f2] by (auto simp: counted_def)
  then have "reflagged (?F - counted) e b0 b'" using reflagged_trans [OF r2] d3(1) by simp
  then show "reflagged (?F - counted) e b b'" using b0(3,4) by (auto simp: reflagged_def same_frame_def)
  show "r \<in> {-1, 0}" "timeheap b' = (if EVLIST_TIMEOUT \<in> ?F \<and> \<not> is_common_timeout (deadline b e) b
       then snd (min_heap_erase (deadline b) e (timeheap b)) else timeheap b)"
    using d3 h2 by simp_all
qed

end
