(* ===== verification/EventAdd.thy ===== *)
theory EventAdd
  imports EventSteps
begin

text \<open>Adding an event keeps the invariant of the base, or fails and leaves the events as they were.\<close>

section \<open>Times\<close>

lemma gettime_frame:
  assumes "gettime b = (t, b')"
  obtains d l where "b' = b\<lparr>tv_clock_diff := d, last_updated_clock_diff := l\<rparr>" "t = tv_cache b \<or> t = monotonic b"
proof (cases "tv_sec (tv_cache b) \<noteq> 0 \<or> \<not> last_updated_clock_diff b + CLOCK_SYNC_INTERVAL < tv_sec (monotonic b)")
  case True
  then have "b' = b" "t = tv_cache b \<or> t = monotonic b" using assms by (auto simp: gettime_def Let_def split: if_splits)
  then show ?thesis using that [of "last_updated_clock_diff b" "tv_clock_diff b"] by simp
next
  case False
  then show ?thesis using assms that by (auto simp: gettime_def Let_def)
qed

lemma gettime_ok:
  assumes "gettime b = (t, b')"
  shows "core_ok b \<Longrightarrow> norm t" "evs b' = evs b" "core_ok b' = core_ok b" "maps_ok I b' = maps_ok I b"
    "base_ok b' = base_ok b" "same_frame b b'" "same_maps b b'" "timeheap b' = timeheap b"
    "common_timeout_queues b' = common_timeout_queues b" "activequeues b' = activequeues b"
    "active_later_queue b' = active_later_queue b" "event_count_active b' = event_count_active b"
  using assms
  by (elim gettime_frame; force simp: core_ok_def maps_ok_def base_ok_def frame_defs)+

lemma norm_timeradd: "norm a \<Longrightarrow> norm b \<Longrightarrow> norm (evutil_timeradd a b)"
  by (auto simp: norm_def evutil_timeradd_def Let_def)

lemma stamped_deadline:
  assumes "0 \<le> v" "v < 1000000" "i < 256" "0 \<le> u" "u < 1000000"
  shows "or v (and (stamp i u) (not MICROSECONDS_MASK)) = stamp i v"
proof -
  have "or v (push_bit 20 (1280 + int i)) = v + 2 ^ 20 * (1280 + int i)"
    using or_disj [of v 20 "1280 + int i"] assms by simp
  then show ?thesis
    unfolding stamp_facts(2) [OF assms(4,5,3)] stamp_arith [OF assms(1-3)] by (simp add: push_bit_eq_mult mult.commute)
qed

lemma new_deadline_ok:
  fixes absolute :: bool
  assumes tv: "valid_tv (length (common_timeout_queues b)) tv" and len: "length (common_timeout_queues b) \<le> 256"
    and now: "norm now"
  defines "d \<equiv> new_deadline tv absolute now b"
  shows "valid_tv (length (common_timeout_queues b)) d" "upper d = upper tv"
    "is_common_timeout d b = is_common_timeout tv b" "COMMON_TIMEOUT_IDX d = COMMON_TIMEOUT_IDX tv \<or> \<not> magic tv"
proof -
  let ?n = "length (common_timeout_queues b)"
  have "valid_tv ?n d \<and> upper d = upper tv \<and> is_common_timeout d b = is_common_timeout tv b \<and>
    (COMMON_TIMEOUT_IDX d = COMMON_TIMEOUT_IDX tv \<or> \<not> magic tv)"
  proof (cases absolute)
    case True
    then show ?thesis using tv by (simp add: d_def new_deadline_def)
  next
    case False
    show ?thesis
    proof (rule valid_tv_cases [OF tv len])
      assume p: "norm tv" "\<not> magic tv" "masked tv = tv" "upper tv = 0"
      then have d: "d = evutil_timeradd now tv" using False by (simp add: d_def new_deadline_def is_common_in common_in_def)
      then have n: "norm d" using norm_timeradd [OF now] p(1) by simp
      then have v: "valid_tv ?n d" by (simp add: valid_tv_def)
      have u: "\<not> magic d" "upper d = 0"
        using plain_facts [of "tv_usec d"] n by (simp_all add: norm_def magic_def upper_def COMMON_TIMEOUT_MAGIC_def)
      show ?thesis using p u v by (simp add: is_common_in common_in_def)
    next
      fix i u
      assume s: "i < ?n" "magic tv" "COMMON_TIMEOUT_IDX tv = i" "norm (masked tv)"
        "upper tv = 2 ^ 20 * (1280 + int i)" "tv_usec tv = stamp i u" "0 \<le> u" "u < 1000000" "masked tv = Timeval (tv_sec tv) u"
      define t where "t = evutil_timeradd now (masked tv)"
      have n: "norm t" using norm_timeradd [OF now s(4)] by (simp add: t_def)
      then have v: "0 \<le> tv_usec t" "tv_usec t < 1000000" by (simp_all add: norm_def)
      have i: "i < 256" using s(1) len by simp
      have "is_common_timeout tv b" using s by (simp add: is_common_in common_in_def)
      then have d: "d = Timeval (tv_sec t) (stamp i (tv_usec t))"
        using False stamped_deadline [OF v i s(7,8)] by (simp add: d_def new_deadline_def t_def s(6) Let_def)
      note f = stamp_facts [OF v i]
      have "magic d" "COMMON_TIMEOUT_IDX d = i" "upper d = upper tv"
        unfolding d using f s(5) by (simp_all add: magic_def COMMON_TIMEOUT_IDX_def upper_def)
      moreover have "valid_tv ?n d" unfolding d valid_tv_def using s(1) v by auto
      ultimately show ?thesis using s by (simp add: is_common_in common_in_def)
    qed
  qed
  then show "valid_tv ?n d" "upper d = upper tv" "is_common_timeout d b = is_common_timeout tv b"
    "COMMON_TIMEOUT_IDX d = COMMON_TIMEOUT_IDX tv \<or> \<not> magic tv" by blast+
qed

lemma norm_masked: "valid_tv n tv \<Longrightarrow> n \<le> 256 \<Longrightarrow> norm (masked tv)"
  by (erule valid_tv_cases) auto

section \<open>Registering\<close>

lemma add_io_ok:
  assumes ok: "base_ok b" and e: "addable (length (activequeues b)) e (evs b e)" "EVLIST_FINALIZING \<notin> flags_of b e"
    and eq: "event_add_io env e b = (r, b')"
  shows "(r = -1 \<and> base_ok b' \<and> evs b' = evs b \<and> same_frame b b') \<or>
      (r = 0 \<and> (\<exists>X. reflagged X e b b' \<and> X - {EVLIST_INSERTED} = flags_of b e - {EVLIST_INSERTED}))"
    "timeheap b' = timeheap b" "common_timeout_queues b' = common_timeout_queues b"
proof -
  let ?W = "ev_events (evs b e)" let ?I = "flagp EVLIST_INSERTED (evs b)"
  have main: "((r = -1 \<and> base_ok b' \<and> evs b' = evs b \<and> same_frame b b') \<or>
      (r = 0 \<and> (\<exists>X. reflagged X e b b' \<and> X - {EVLIST_INSERTED} = flags_of b e - {EVLIST_INSERTED}))) \<and>
     timeheap b' = timeheap b \<and> common_timeout_queues b' = common_timeout_queues b"
  proof (cases "?W \<inter> {EV_READ, EV_WRITE, EV_CLOSED, EV_SIGNAL} \<noteq> {} \<and>
      flags_of b e \<inter> {EVLIST_INSERTED, EVLIST_ACTIVE, EVLIST_ACTIVE_LATER} = {}")
    case False
    then have "r = 0 \<and> b' = b" using eq by (auto simp: event_add_io_def Let_def)
    then show ?thesis using reflagged_refl [OF ok refl] by blast
  next
    case True
    then have n: "EVLIST_INSERTED \<notin> flags_of b e" "\<not> ?I e" by auto
    obtain q c where q: "(if ?W \<inter> {EV_READ, EV_WRITE, EV_CLOSED} \<noteq> {} then evmap_io_add env (ev_fd (evs b e)) e b
        else if EV_SIGNAL \<in> ?W then evmap_signal_add env (ev_fd (evs b e)) e b else (0, b)) = (q, c)" by fastforce
    have m: "maps_ok ?I b" and core: "core_ok b" using ok by (simp_all add: base_ok_def)
    have "mapped b c \<and> (q = -1 \<and> maps_ok ?I c \<or> q \<in> {0, 1} \<and> maps_ok (?I(e := True)) c)"
    proof (cases "?W \<inter> {EV_READ, EV_WRITE, EV_CLOSED} \<noteq> {}")
      case io: True
      then have "evmap_io_add env (ev_fd (evs b e)) e b = (q, c)" using q by simp
      from io_add_ok [OF m n(2) io this] show ?thesis by blast
    next
      case False
      with True have s: "EV_SIGNAL \<in> ?W" by auto
      then have "evmap_signal_add env (ev_fd (evs b e)) e b = (q, c)" using q False by simp
      from signal_add_ok [OF m n(2) _ s this] False show ?thesis by blast
    qed
    then have c: "mapped b c" "q = -1 \<and> maps_ok ?I c \<or> q \<in> {0, 1} \<and> maps_ok (?I(e := True)) c" by blast+
    note ms = mapped_simps [OF c(1)]
    have u: "r = (if q = 1 then 0 else q)" "b' = (if q \<noteq> -1 then event_queue_insert_inserted e c else c)"
      using eq True q by (simp_all add: event_add_io_def Let_def)
    show ?thesis
    proof (cases "q = -1")
      case True
      then have "b' = c" "maps_ok ?I c" using u c(2) by auto
      then show ?thesis using True u(1) ok ms mapped_frame [OF c(1)] by (simp add: base_ok_def)
    next
      case False
      then have mc: "maps_ok (?I(e := True)) c" and q: "q \<in> {0, 1}" using c(2) by auto
      have "core_ok c" using core ms(11) by simp
      from insert_inserted_ok [OF this] n(1) e ms(1,3)
      have f: "flipped (insert EVLIST_INSERTED (flags_of b e)) e c (event_queue_insert_inserted e c)" by simp
      have b': "b' = event_queue_insert_inserted e c" using u(2) False by simp
      have ev: "evs b' = (evs b)(e := (evs b e)\<lparr>evcb_flags := insert EVLIST_INSERTED (flags_of b e)\<rparr>)"
        using f unfolding b' by (simp add: flipped_def ms(1))
      have "maps_ok (?I(e := True)) b'" using mc flipped_maps [OF f] unfolding b' by simp
      moreover have "flagp EVLIST_INSERTED (evs b') = ?I(e := True)" unfolding ev by simp
      moreover have okc: "persist_ok (length (activequeues c)) (length (common_timeout_queues c)) x (evs c x)" for x
        using ok ms by (simp add: base_ok_def)
      moreover have fr: "same_frame b b'"
        using f mapped_frame [OF c(1)] unfolding b' by (auto simp: flipped_def same_frame_def)
      moreover have "persist_ok (length (activequeues b')) (length (common_timeout_queues b')) x (evs b' x)" for x
        using ok same_frame_ctl [OF fr] fr unfolding ev by (simp add: base_ok_def persist_ok_def addable_def same_frame_def)
      ultimately have "reflagged (insert EVLIST_INSERTED (flags_of b e)) e b b'"
        using flipped_core [OF f] ev unfolding b' by (simp add: reflagged_def base_ok_def)
      moreover have "timeheap b' = timeheap b \<and> common_timeout_queues b' = common_timeout_queues b"
        unfolding b' using ms n(1) by (simp add: event_queue_insert_inserted_def queue_defs)
      ultimately show ?thesis using u(1) q by auto
    qed
  qed
  then show "(r = -1 \<and> base_ok b' \<and> evs b' = evs b \<and> same_frame b b') \<or>
      (r = 0 \<and> (\<exists>X. reflagged X e b b' \<and> X - {EVLIST_INSERTED} = flags_of b e - {EVLIST_INSERTED}))"
    "timeheap b' = timeheap b" "common_timeout_queues b' = common_timeout_queues b" by blast+
qed

section \<open>Setting the timeout\<close>

text \<open>Memory for the heap: what \<^verbatim>\<open>min_heap_reserve_\<close> took, or any amount if there are common lists.\<close>

definition roomy :: "event_env \<Rightarrow> nat \<Rightarrow> event_base \<Rightarrow> bool" where
  "roomy env e b \<longleftrightarrow> (EVLIST_TIMEOUT \<in> flags_of b e \<or> hn (timeheap b) < ha (timeheap b)) \<and>
     (common_timeout_queues b = [] \<or> (\<forall>n. mem env n))"

lemma del_timeout_room:
  assumes ok: "core_ok b" and r: "roomy env e b"
  shows "\<exists>h. min_heap_reserve (mem env) (hn (timeheap (del_timeout e b)) + 1) (timeheap (del_timeout e b)) = (0, h)"
proof -
  have h: "hn h < ha h \<Longrightarrow> ?thesis" if "h = timeheap (del_timeout e b)" for h
    using that by (simp add: min_heap_reserve_def)
  have tmo: "tmo_ok (flagp EVLIST_TIMEOUT (evs b)) (deadline b) (timeheap b) (common_timeout_queues b)"
    using ok by (simp add: core_ok_def dls_def)
  show ?thesis
  proof (cases "EVLIST_TIMEOUT \<in> flags_of b e")
    case True
    show ?thesis
    proof (cases "is_common_timeout (deadline b e) b")
      case c: True
      then have "\<forall>n. mem env n" using r by (auto simp: roomy_def is_common_in common_in_def)
      then show ?thesis by (simp add: min_heap_reserve_def Let_def)
    next
      case False
      have "flagp EVLIST_TIMEOUT (evs b) e" using True by simp
      from tmo_heap_remove(2) [OF tmo this] False del_timeout_ok(2) [OF ok, of e] True
      show ?thesis by (intro h [OF refl]) (simp add: is_common_in)
    qed
  next
    case False
    then have "hn (timeheap b) < ha (timeheap b)" using r by (simp add: roomy_def)
    then show ?thesis using del_timeout_ok(2) [OF ok, of e] False by (simp add: min_heap_reserve_def)
  qed
qed

lemma core_redate:
  assumes ok: "core_ok b" and e: "EVLIST_TIMEOUT \<notin> flags_of b e"
  shows "core_ok (upd_ev e (\<lambda>ev. ev\<lparr>ev_timeout := t\<rparr>) b)"
proof -
  let ?s = "(evs b)(e := (evs b e)\<lparr>ev_timeout := t\<rparr>)"
  have f: "flagp f ?s = flagp f (evs b)" "pris ?s = pris (evs b)" "flagf ?s = flagf (evs b)" "dls ?s = (dls (evs b))(e := t)"
    for f by (auto simp: field_defs fun_eq_iff)
  have "tmo_ok (flagp EVLIST_TIMEOUT (evs b)) ((dls (evs b))(e := t)) (timeheap b) (common_timeout_queues b)"
    by (rule tmo_redate) (use ok e in \<open>simp_all add: core_ok_def\<close>)
  moreover have "event_ok (length (activequeues b)) (?s x)" for x using ok by (simp add: core_ok_def event_ok_def)
  moreover have "ctl_event_ok (length (activequeues b)) ?s c" if "c \<in> set (common_timeout_queues b)" for c
    using ok that by (auto simp: core_ok_def ctl_event_ok_def addable_def Let_def)
  ultimately show ?thesis using ok by (simp add: core_ok_def f)
qed

text \<open>Changes of an event that the core of the invariant does not look at.\<close>

lemma core_plain:
  assumes "core_ok b" and "evcb_flags ev = flags_of b e" "evcb_pri ev = evcb_pri (evs b e)"
    "ev_timeout ev = ev_timeout (evs b e)" "ev_events ev = ev_events (evs b e)" "evcb_closure ev = evcb_closure (evs b e)"
  shows "core_ok (b\<lparr>evs := (evs b)(e := ev)\<rparr>)"
proof -
  let ?s = "(evs b)(e := ev)"
  have f: "flagp f ?s = flagp f (evs b)" "pris ?s = pris (evs b)" "flagf ?s = flagf (evs b)" "dls ?s = dls (evs b)"
    for f using assms(2-) by (auto simp: field_defs fun_eq_iff)
  have "event_ok (length (activequeues b)) (?s x)" for x using assms by (simp add: core_ok_def event_ok_def)
  moreover have "ctl_event_ok (length (activequeues b)) ?s c" if "c \<in> set (common_timeout_queues b)" for c
    using assms that by (auto simp: core_ok_def ctl_event_ok_def addable_def Let_def)
  ultimately show ?thesis using assms(1) by (simp add: core_ok_def f)
qed

lemma maps_plain:
  assumes "maps_ok I b" and "ev_events ev = ev_events (evs b e)" and "ev_fd ev = ev_fd (evs b e)"
  shows "maps_ok I (b\<lparr>evs := (evs b)(e := ev)\<rparr>)"
proof -
  have "whats ((evs b)(e := ev)) = whats (evs b)" "fds ((evs b)(e := ev)) = fds (evs b)"
    using assms(2,3) by (auto simp: field_defs fun_eq_iff)
  then show ?thesis using assms(1) by (simp add: maps_ok_def)
qed

lemma fst_gettime: "fst (gettime b) = (if tv_sec (tv_cache b) \<noteq> 0 then tv_cache b else monotonic b)"
  by (simp add: gettime_def Let_def)

lemma is_common_frame: "same_frame b b' \<Longrightarrow> is_common_timeout t b' = is_common_timeout t b"
  using same_frame_ctl by (simp add: is_common_in common_in_def)

lemma new_deadline_frame: "same_frame b b' \<Longrightarrow> new_deadline tv a now b' = new_deadline tv a now b"
  using is_common_frame by (simp add: new_deadline_def)

lemma del_timed_out_ok:
  fixes e :: nat
  assumes "core_ok b"
  defines "b' \<equiv> (if EVLIST_ACTIVE \<in> flags_of b e \<and> EV_TIMEOUT \<in> ev_res (evs b e)
     then event_queue_remove_active e (abort_signal e b) else b)"
  shows "\<exists>X. flipped X e b b' \<and> X \<in> {flags_of b e, flags_of b e - {EVLIST_ACTIVE}}" "timeheap b' = timeheap b"
    "common_timeout_queues b' = common_timeout_queues b"
proof -
  have "\<exists>X. flipped X e b b' \<and> X \<in> {flags_of b e, flags_of b e - {EVLIST_ACTIVE}}"
  proof (cases "EVLIST_ACTIVE \<in> flags_of b e \<and> EV_TIMEOUT \<in> ev_res (evs b e)")
    case True
    have "flipped (flags_of b e - {EVLIST_ACTIVE}) e (abort_signal e b) b'"
      using remove_active_ok [of "abort_signal e b" e] assms(1) True by (simp add: b'_def)
    then have "flipped (flags_of b e - {EVLIST_ACTIVE}) e b b'"
      by (auto simp: flipped_def frame_defs abort_signal_def Let_def)
    then show ?thesis by blast
  next
    case False
    then have "b' = b" by (auto simp: b'_def)
    then show ?thesis using flipped_refl [OF assms(1) refl] by blast
  qed
  then show "\<exists>X. flipped X e b b' \<and> X \<in> {flags_of b e, flags_of b e - {EVLIST_ACTIVE}}" .
  show "timeheap b' = timeheap b" "common_timeout_queues b' = common_timeout_queues b"
    by (simp_all add: b'_def event_queue_remove_active_def queue_defs)
qed

lemma set_timeout_ok:
  assumes ok: "base_ok b" and e: "addable (length (activequeues b)) e (evs b e)" "EVLIST_FINALIZING \<notin> flags_of b e"
    and tv: "valid_tv (length (common_timeout_queues b)) tv" and room: "roomy env e b"
    and ab: "absolute \<Longrightarrow> evcb_closure (evs b e) = EV_CLOSURE_EVENT_PERSIST \<Longrightarrow>
       ev_io_timeout (evs b e) = Timeval 0 0 \<or> is_same_common_timeout tv (ev_io_timeout (evs b e))"
  defines "b' \<equiv> event_set_timeout env e tv absolute b"
  shows "base_ok b'" "same_frame b b'" "\<And>x. x \<noteq> e \<Longrightarrow> evs b' x = evs b x" "EVLIST_TIMEOUT \<in> flags_of b' e"
    "deadline b' e = new_deadline tv absolute (fst (gettime b)) b"
    "flags_of b' e - {EVLIST_ACTIVE, EVLIST_TIMEOUT} = flags_of b e - {EVLIST_ACTIVE, EVLIST_TIMEOUT}"
proof -
  let ?F = "flags_of b e" let ?I = "flagp EVLIST_INSERTED (evs b)"
  define P where "P \<longleftrightarrow> evcb_closure (evs b e) = EV_CLOSURE_EVENT_PERSIST \<and> \<not> absolute"
  define b1 where "b1 = (if P then upd_ev e (\<lambda>ev. ev\<lparr>ev_io_timeout := tv\<rparr>) b else b)"
  define b2 where "b2 = del_timeout e b1"
  define b3 where "b3 = (if EVLIST_ACTIVE \<in> flags_of b2 e \<and> EV_TIMEOUT \<in> ev_res (evs b2 e)
     then event_queue_remove_active e (abort_signal e b2) else b2)"
  obtain now b4 where g: "gettime b3 = (now, b4)" by fastforce
  define d where "d = new_deadline tv absolute now b4"
  define b5 where "b5 = upd_ev e (\<lambda>ev. ev\<lparr>ev_timeout := d\<rparr>) b4"
  have b': "b' = event_queue_insert_timeout env e b5"
    using g unfolding b'_def event_set_timeout_def Let_def P_def [symmetric] b1_def [symmetric] b2_def [symmetric]
      b3_def [symmetric] by (simp add: b5_def d_def)
  have core: "core_ok b" and maps: "maps_ok ?I b" and len: "length (common_timeout_queues b) \<le> 256"
    using ok by (simp_all add: base_ok_def core_ok_def tmo_ok_def)
  have 1: "core_ok b1" "maps_ok ?I b1" "same_frame b b1" "flags_of b1 e = ?F" "timeheap b1 = timeheap b"
    "common_timeout_queues b1 = common_timeout_queues b" "evs b1 e = (evs b e)\<lparr>ev_io_timeout := ev_io_timeout (evs b1 e)\<rparr>"
    "x \<noteq> e \<Longrightarrow> evs b1 x = evs b x" for x
    using core maps core_plain [of b "(evs b e)\<lparr>ev_io_timeout := tv\<rparr>" e] maps_plain [of ?I b "(evs b e)\<lparr>ev_io_timeout := tv\<rparr>" e]
    by (auto simp: b1_def upd_ev_def frame_defs)
  have io1: "ev_io_timeout (evs b1 e) = (if P then tv else ev_io_timeout (evs b e))" by (simp add: b1_def)
  have f2: "flipped (?F - {EVLIST_TIMEOUT}) e b1 b2" using del_timeout_ok(1) [OF 1(1), of e] 1(4) by (simp add: b2_def)
  note t3 = del_timed_out_ok [OF flipped_core [OF f2], of e, folded b3_def]
  then obtain X where X: "flipped X e b2 b3" "X \<in> {flags_of b2 e, flags_of b2 e - {EVLIST_ACTIVE}}" by blast
  have f3: "flipped X e b1 b3" by (rule flipped_trans [OF f2 X(1)])
  have XF: "X \<in> {?F - {EVLIST_TIMEOUT}, ?F - {EVLIST_TIMEOUT} - {EVLIST_ACTIVE}}"
    using X(2) flipped_flags [OF f2] by simp
  note g4 = gettime_ok [OF g]
  have fr4: "same_frame b b4" using 1(3) f3 g4(6) by (auto simp: flipped_def same_frame_def)
  have l4: "length (common_timeout_queues b4) = length (common_timeout_queues b)" by (rule same_frame_ctl [OF fr4])
  have ev4: "evs b4 e = (evs b1 e)\<lparr>evcb_flags := X\<rparr>" "x \<noteq> e \<Longrightarrow> evs b4 x = evs b x" for x
    using f3 g4(2) 1(8) by (simp_all add: flipped_def)
  have core4: "core_ok b4" using flipped_core [OF f3] g4(3) by simp
  have nT: "EVLIST_TIMEOUT \<notin> X" using XF by auto
  have now: "norm now" using g4(1) flipped_core [OF f3] by blast
  have nw: "now = fst (gettime b)"
  proof -
    have "now = fst (gettime b3)" using g by simp
    moreover have "tv_cache b3 = tv_cache b \<and> monotonic b3 = monotonic b"
      using 1(3) f3 by (simp add: flipped_def same_frame_def)
    ultimately show ?thesis by (simp add: fst_gettime)
  qed
  have tv4: "valid_tv (length (common_timeout_queues b4)) tv" "length (common_timeout_queues b4) \<le> 256"
    using tv len l4 by simp_all
  note nd = new_deadline_ok [OF tv4 now, of absolute, folded d_def]
  have c5: "core_ok b5" unfolding b5_def by (rule core_redate [OF core4]) (simp add: ev4(1) nT)
  have m4: "maps_ok ?I b4" using 1(2) flipped_maps [OF f3] g4(4) by simp
  have m5: "maps_ok ?I b5" unfolding b5_def upd_ev_def by (rule maps_plain [OF m4]) simp_all
  have ev5: "evs b5 e = (evs b1 e)\<lparr>evcb_flags := X, ev_timeout := d\<rparr>" "x \<noteq> e \<Longrightarrow> evs b5 x = evs b x" for x
    using ev4 by (simp_all add: b5_def)
  have q5: "length (activequeues b5) = length (activequeues b)" "timeheap b5 = timeheap b2"
    using fr4 g4(8) t3(2) by (simp_all add: b5_def same_frame_def)
  have "addable (length (activequeues b5)) e (evs b5 e)"
    using e(1) XF 1(7) unfolding ev5(1) q5(1) by (auto simp: addable_def b1_def)
  moreover have "EVLIST_FINALIZING \<notin> flags_of b5 e" "EVLIST_TIMEOUT \<notin> flags_of b5 e"
    using e(2) XF nT unfolding ev5(1) by auto
  moreover have "valid_tv (length (common_timeout_queues b5)) (deadline b5 e)"
    using nd(1) unfolding ev5(1) by (simp add: b5_def)
  moreover have "\<exists>h. min_heap_reserve (mem env) (hn (timeheap b5) + 1) (timeheap b5) = (0, h)"
    using del_timeout_room [OF 1(1), of env e] room 1(4-6) unfolding q5(2) b2_def by (simp add: roomy_def)
  ultimately have f6: "flipped (insert EVLIST_TIMEOUT (flags_of b5 e)) e b5 b'"
    unfolding b' by (intro insert_timeout_ok(1) [OF c5])
  have ev6: "evs b' e = (evs b1 e)\<lparr>evcb_flags := insert EVLIST_TIMEOUT X, ev_timeout := d\<rparr>" "x \<noteq> e \<Longrightarrow> evs b' x = evs b x" for x
    using f6 ev5 by (simp_all add: flipped_def)
  show other: "evs b' x = evs b x" if "x \<noteq> e" for x by (rule ev6(2) [OF that])
  show fr: "same_frame b b'" using f6 fr4 by (auto simp: flipped_def same_frame_def b5_def)
  show "EVLIST_TIMEOUT \<in> flags_of b' e" by (simp add: ev6(1))
  show "deadline b' e = new_deadline tv absolute (fst (gettime b)) b"
    using new_deadline_frame [OF fr4] by (simp add: ev6(1) d_def nw)
  show "flags_of b' e - {EVLIST_ACTIVE, EVLIST_TIMEOUT} = ?F - {EVLIST_ACTIVE, EVLIST_TIMEOUT}"
    using XF by (auto simp: ev6(1))
  have p: "persist_ok (length (activequeues b')) (length (common_timeout_queues b')) x (evs b' x)" for x
  proof (cases "x = e")
    case False
    then show ?thesis using ok other same_frame_ctl [OF fr] fr by (simp add: base_ok_def same_frame_def)
  next
    case True
    have up: "upper d = upper tv" "valid_tv (length (common_timeout_queues b)) d" using nd(1,2) l4 by simp_all
    have ad6: "addable (length (activequeues b')) e ((evs b1 e)\<lparr>evcb_flags := insert EVLIST_TIMEOUT X, ev_timeout := d\<rparr>)"
      using e(1) XF fr 1(7) by (auto simp: addable_def same_frame_def b1_def)
    have "evcb_closure (evs b1 e) = evcb_closure (evs b e)" using 1(7) by (metis event.select_convs(3) event.surjective event.update_convs(7))
    then show ?thesis
      using ok ab tv up io1 same_frame_ctl [OF fr] ad6 unfolding True
      by (auto simp: base_ok_def persist_ok_def ev6(1) is_same_upper P_def)
  qed
  have "flagp EVLIST_INSERTED (evs b') = ?I"
  proof
    fix x
    show "flagp EVLIST_INSERTED (evs b') x = ?I x"
      using ev6 XF by (cases "x = e") (auto simp: flagp_def)
  qed
  moreover have "maps_ok ?I b'" using m5 flipped_maps [OF f6] by simp
  ultimately show "base_ok b'" using p flipped_core [OF f6] by (simp add: base_ok_def)
qed

section \<open>Adding\<close>

text \<open>What may be asked of \<^verbatim>\<open>event_add_nolock_\<close>.\<close>

definition add_ok :: "event_env \<Rightarrow> nat \<Rightarrow> timeval option \<Rightarrow> bool \<Rightarrow> event_base \<Rightarrow> bool" where
  "add_ok env e tvo absolute b \<longleftrightarrow> base_ok b \<and> addable (length (activequeues b)) e (evs b e) \<and>
     (common_timeout_queues b = [] \<or> (\<forall>n. mem env n)) \<and>
     (\<forall>tv. tvo = Some tv \<longrightarrow> valid_tv (length (common_timeout_queues b)) tv \<and>
       (absolute \<longrightarrow> evcb_closure (evs b e) = EV_CLOSURE_EVENT_PERSIST \<longrightarrow>
          ev_io_timeout (evs b e) = Timeval 0 0 \<or> is_same_common_timeout tv (ev_io_timeout (evs b e))))"

lemma hd_in_ctl:
  assumes "core_ok b" and "is_common_timeout (deadline b e) b" and "EVLIST_TIMEOUT \<in> flags_of b e"
  shows "e \<in> set (ctl_events (common_timeout_queues b ! COMMON_TIMEOUT_IDX (deadline b e)))"
proof -
  let ?i = "COMMON_TIMEOUT_IDX (deadline b e)"
  have "tmo_ok (flagp EVLIST_TIMEOUT (evs b)) (dls (evs b)) (timeheap b) (common_timeout_queues b)"
    using assms(1) by (simp add: core_ok_def)
  moreover have "?i < length (common_timeout_queues b)" using assms(2) by (simp add: is_common_in common_in_def)
  ultimately have "ctl_ok (flagp EVLIST_TIMEOUT (evs b)) (dls (evs b)) (common_timeout_queues b) ?i"
    by (rule tmo_okD(3))
  then show ?thesis using assms(2,3) by (auto simp: ctl_ok_def Let_def is_common_in flagp_def dls_def)
qed

lemma core_heap:
  assumes ok: "core_ok b" and r: "min_heap_reserve alloc n (timeheap b) = (r, h)"
  shows "core_ok (b\<lparr>timeheap := h\<rparr>)"
proof -
  have h: "heap_ok (dls (evs b)) (timeheap b)" using ok by (simp add: core_ok_def tmo_ok_def)
  note h' = min_heap_reserve_ok [OF h r]
  show ?thesis using ok h'(1,2) by (simp add: core_ok_def tmo_ok_def)
qed

lemma add_step_ok:
  assumes ok: "add_ok env e tvo absolute b" and eq: "event_add_step env e tvo absolute b = (r, sched, b')"
  shows "base_ok b'" "same_frame b b'" "r \<in> {-1, 0}" "\<And>x. x \<noteq> e \<Longrightarrow> evs b' x = evs b x"
    "r = -1 \<Longrightarrow> sched = None \<and> evs b' = evs b"
    "flags_of b' e - counted = flags_of b e - counted"
    "r = 0 \<Longrightarrow> tvo = Some tv \<Longrightarrow> EVLIST_TIMEOUT \<in> flags_of b' e \<and>
       deadline b' e = new_deadline tv absolute (fst (gettime b)) b"
    "sched = Some (h, t) \<Longrightarrow> \<exists>i < length (common_timeout_queues b'). h = ctl_timeout_event (common_timeout_queues b' ! i) \<and>
       valid_tv (length (common_timeout_queues b')) t"
proof -
  have base: "base_ok b" and ad: "addable (length (activequeues b)) e (evs b e)"
    and mem: "common_timeout_queues b = [] \<or> (\<forall>n. mem env n)"
    using ok by (simp_all add: add_ok_def)
  have core: "core_ok b" using base by (simp add: base_ok_def)
  define Q where "Q \<longleftrightarrow> base_ok b' \<and> same_frame b b' \<and> r \<in> {-1, 0} \<and> (\<forall>x. x \<noteq> e \<longrightarrow> evs b' x = evs b x) \<and>
    (r = -1 \<longrightarrow> sched = None \<and> evs b' = evs b) \<and> flags_of b' e - counted = flags_of b e - counted \<and>
    (\<forall>tv. r = 0 \<longrightarrow> tvo = Some tv \<longrightarrow> EVLIST_TIMEOUT \<in> flags_of b' e \<and>
       deadline b' e = new_deadline tv absolute (fst (gettime b)) b) \<and>
    (\<forall>h t. sched = Some (h, t) \<longrightarrow> (\<exists>i < length (common_timeout_queues b'). h = ctl_timeout_event (common_timeout_queues b' ! i) \<and>
       valid_tv (length (common_timeout_queues b')) t))"
  have "Q"
  proof (cases "EVLIST_FINALIZING \<in> flags_of b e")
    case True
    then have "r = -1 \<and> sched = None \<and> b' = b" using eq by (auto simp: event_add_step_def)
    then show ?thesis using base by (simp add: Q_def frame_defs)
  next
    case fin: False
    obtain q h where q: "(if tvo \<noteq> None \<and> EVLIST_TIMEOUT \<notin> flags_of b e
       then min_heap_reserve (mem env) (1 + hn (timeheap b)) (timeheap b) else (0, timeheap b)) = (q, h)" by fastforce
    obtain res c where c: "event_add_io env e (b\<lparr>timeheap := h\<rparr>) = (res, c)" by fastforce
    have u: "(r, sched, b') = (if q = -1 then (-1, None, b) else case tvo of None \<Rightarrow> (res, None, c)
       | Some tv \<Rightarrow> if res = -1 then (-1, None, c)
           else (case event_add_timeout env e tv absolute c of (sched, b) \<Rightarrow> (res, sched, b)))"
      using eq fin q c unfolding event_add_step_def Let_def by (simp del: not_None_eq cong: if_cong)
    show ?thesis
    proof (cases "q = -1")
      case True
      then show ?thesis using u base by (simp add: Q_def frame_defs)
    next
      case qn: False
      let ?b = "b\<lparr>timeheap := h\<rparr>"
      have h: "core_ok ?b" "tvo \<noteq> None \<Longrightarrow> EVLIST_TIMEOUT \<notin> flags_of b e \<Longrightarrow> hn h < ha h"
      proof -
        have hk: "heap_ok (dls (evs b)) (timeheap b)" using core by (simp add: core_ok_def tmo_ok_def)
        show "core_ok ?b" using core_heap [OF core] core q by (auto split: if_splits)
        show "hn h < ha h" if "tvo \<noteq> None" "EVLIST_TIMEOUT \<notin> flags_of b e"
          using min_heap_reserve_ok [OF hk, of "mem env" "1 + hn (timeheap b)" q h] q that qn by simp
      qed
      have okb: "base_ok ?b" using base h(1) by (simp add: base_ok_def maps_ok_def)
      have fb: "same_frame b ?b" by (simp add: frame_defs)
      note io = add_io_ok [OF okb _ _ c]
      have io': "(res = -1 \<and> base_ok c \<and> evs c = evs b \<and> same_frame b c) \<or>
        (res = 0 \<and> (\<exists>X. reflagged X e ?b c \<and> X - {EVLIST_INSERTED} = flags_of b e - {EVLIST_INSERTED}))"
        using io(1) ad fin by (simp add: same_frame_def)
      have ch: "timeheap c = h" "common_timeout_queues c = common_timeout_queues b"
        using io(2,3) ad fin by simp_all
      have notin: "EVLIST_FINALIZING \<notin> counted" "EVLIST_INIT \<notin> counted" "EVLIST_INSERTED \<in> counted" "EVLIST_ACTIVE \<in> counted" "EVLIST_TIMEOUT \<in> counted"
        by (simp_all add: counted_def)
      from io' show ?thesis
      proof (elim disjE conjE exE)
        assume r: "res = -1" "base_ok c" "evs c = evs b" "same_frame b c"
        then show ?thesis using u qn by (cases tvo) (simp_all add: Q_def)
      next
        fix X assume X: "res = 0" "reflagged X e ?b c" "X - {EVLIST_INSERTED} = flags_of b e - {EVLIST_INSERTED}"
        then have c1: "base_ok c" "same_frame b c" "evs c = (evs b)(e := (evs b e)\<lparr>evcb_flags := X\<rparr>)"
          by (simp_all add: reflagged_def same_frame_def)
        have Xc: "X - counted = flags_of b e - counted" using X(3) notin(3) by blast
        show ?thesis
        proof (cases tvo)
          case None
          then show ?thesis using u qn X(1) c1 Xc by (simp add: Q_def)
        next
          case (Some tv)
          define d where "d = event_set_timeout env e tv absolute c"
          have s1: "addable (length (activequeues c)) e (evs c e)"
          proof -
            have "EVLIST_INIT \<in> X" using ad X(3) by (auto simp: addable_def)
            then show ?thesis using ad c1(2) unfolding c1(3) by (simp add: addable_def same_frame_def)
          qed
          have s2: "EVLIST_FINALIZING \<notin> flags_of c e" using fin X(3) unfolding c1(3) by auto
          have s3: "valid_tv (length (common_timeout_queues c)) tv" using ok Some ch(2) by (simp add: add_ok_def)
          have s4: "roomy env e c"
          proof -
            have "EVLIST_TIMEOUT \<in> X \<longleftrightarrow> EVLIST_TIMEOUT \<in> flags_of b e" using X(3) by auto
            then show ?thesis using mem h(2) Some unfolding roomy_def ch c1(3) by auto
          qed
          have s5: "ev_io_timeout (evs c e) = Timeval 0 0 \<or> is_same_common_timeout tv (ev_io_timeout (evs c e))"
            if "absolute" "evcb_closure (evs c e) = EV_CLOSURE_EVENT_PERSIST"
            using ok Some that unfolding c1(3) by (simp add: add_ok_def)
          note st = set_timeout_ok [where env = env and absolute = absolute, OF c1(1) s1 s2 s3 s4 s5, folded d_def]
          have gt: "fst (gettime c) = fst (gettime b)" using c1(2) by (simp add: fst_gettime same_frame_def)
          have fr: "same_frame b d" using c1(2) st(2) by (auto simp: same_frame_def)
          define sc where "sc = fst (event_add_timeout env e tv absolute c)"
          have at: "event_add_timeout env e tv absolute c = (sc, d)"
            by (simp add: sc_def event_add_timeout_def d_def [symmetric] Let_def)
          have at2: "sc = Some (h, t) \<Longrightarrow> is_common_timeout tv d \<and>
               h = ctl_timeout_event (common_timeout_queues d ! COMMON_TIMEOUT_IDX (deadline d e)) \<and> t = masked (deadline d e)" for h t
            by (simp add: sc_def event_add_timeout_def d_def [symmetric] Let_def split: if_splits)
          have res: "r = 0" "sched = sc" "b' = d" using u qn Some X(1) at by simp_all
          have len: "length (common_timeout_queues d) \<le> 256"
            using st(1) by (simp add: base_ok_def core_ok_def tmo_ok_def)
          have dl: "deadline d e = new_deadline tv absolute (fst (gettime b)) b"
            using st(5) gt new_deadline_frame [OF c1(2)] by simp
          have now: "norm (fst (gettime b))" using core by (simp add: fst_gettime core_ok_def)
          have "valid_tv (length (common_timeout_queues b)) tv" "length (common_timeout_queues b) \<le> 256"
            using s3 ch(2) core by (simp_all add: core_ok_def tmo_ok_def)
          note nd = new_deadline_ok [OF this now, of absolute, folded dl]
          have "\<exists>i < length (common_timeout_queues d). h = ctl_timeout_event (common_timeout_queues d ! i) \<and>
              valid_tv (length (common_timeout_queues d)) t" if s: "sc = Some (h, t)" for h t
          proof -
            from at2 [OF s] have t: "is_common_timeout tv d" "t = masked (deadline d e)"
              "h = ctl_timeout_event (common_timeout_queues d ! COMMON_TIMEOUT_IDX (deadline d e))" by blast+
            have "is_common_timeout (deadline d e) b" using nd(3) t(1) is_common_frame [OF fr] by simp
            then have "is_common_timeout (deadline d e) d" using is_common_frame [OF fr] by simp
            then have "COMMON_TIMEOUT_IDX (deadline d e) < length (common_timeout_queues d)"
              by (simp add: is_common_in common_in_def)
            moreover have "norm t" unfolding t(2) using norm_masked [OF nd(1)] len same_frame_ctl [OF fr] by simp
            ultimately show ?thesis using t(3) by (auto simp: valid_tv_def)
          qed
          moreover have "flags_of d e - counted = flags_of b e - counted"
            using st(6) Xc notin unfolding c1(3) by auto
          moreover have "evs d x = evs b x" if "x \<noteq> e" for x using st(3) that by (simp add: c1(3))
          ultimately show ?thesis using st(1,4) fr res dl Some by (simp add: Q_def)
        qed
      qed
    qed
  qed
  then show "base_ok b'" "same_frame b b'" "r \<in> {-1, 0}" "\<And>x. x \<noteq> e \<Longrightarrow> evs b' x = evs b x"
    "r = -1 \<Longrightarrow> sched = None \<and> evs b' = evs b"
    "flags_of b' e - counted = flags_of b e - counted"
    "r = 0 \<Longrightarrow> tvo = Some tv \<Longrightarrow> EVLIST_TIMEOUT \<in> flags_of b' e \<and>
       deadline b' e = new_deadline tv absolute (fst (gettime b)) b"
    "sched = Some (h, t) \<Longrightarrow> \<exists>i < length (common_timeout_queues b'). h = ctl_timeout_event (common_timeout_queues b' ! i) \<and>
       valid_tv (length (common_timeout_queues b')) t"
    unfolding Q_def by blast+
qed

lemma ctl_event_at:
  assumes "core_ok b" and "i < length (common_timeout_queues b)"
  shows "ctl_event_ok (length (activequeues b)) (evs b) (common_timeout_queues b ! i)"
  using assms by (simp add: core_ok_def)

lemma event_add_nolock_ok:
  assumes ok: "add_ok env e tvo absolute b" and eq: "event_add_nolock env e tvo absolute b = (r, b')"
  shows "base_ok b'" "same_frame b b'" "r \<in> {-1, 0}" "r = -1 \<Longrightarrow> evs b' = evs b"
    "flags_of b' x - counted = flags_of b x - counted" "x \<noteq> e \<Longrightarrow> x \<notin> ctl_timeout_event ` set (common_timeout_queues b) \<Longrightarrow> evs b' x = evs b x"
proof -
  obtain sched c where s: "event_add_step env e tvo absolute b = (r, sched, c)"
    using eq by (auto simp: event_add_nolock.simps [of env e] split: prod.splits option.splits)
  note st = add_step_ok [OF ok s]
  have "base_ok b' \<and> same_frame b b' \<and> (r = -1 \<longrightarrow> evs b' = evs b) \<and> flags_of b' x - counted = flags_of b x - counted \<and>
    (x \<noteq> e \<longrightarrow> x \<notin> ctl_timeout_event ` set (common_timeout_queues b) \<longrightarrow> evs b' x = evs b x)"
  proof (cases sched)
    case None
    then have "b' = c" using eq s by (simp add: event_add_nolock.simps [of env e])
    then show ?thesis using st(1,2,4-6) by (cases "x = e") auto
  next
    case (Some ht)
    obtain h t where ht: "ht = (h, t)" by fastforce
    from st(8) Some ht obtain i where i: "i < length (common_timeout_queues c)"
      "h = ctl_timeout_event (common_timeout_queues c ! i)" "valid_tv (length (common_timeout_queues c)) t" by blast
    have core: "core_ok c" using st(1) by (simp add: base_ok_def)
    note ce = ctl_event_at [OF core i(1)]
    have nm: "\<not> magic t" using add_step_sched [of env e tvo absolute b r h t c] s Some ht by simp
    have "common_timeout_queues b \<noteq> []" using i(1) same_frame_ctl [OF st(2)] by auto
    then have mem: "\<forall>n. mem env n" using ok by (simp add: add_ok_def)
    have ok2: "add_ok env h (Some t) True c"
      using st(1) mem i ce by (simp add: add_ok_def ctl_event_ok_def Let_def)
    obtain r2 sched2 c2 where s2: "event_add_step env h (Some t) True c = (r2, sched2, c2)" using prod_cases3 by blast
    note st2 = add_step_ok [OF ok2 s2]
    have "sched2 = None"
    proof (rule ccontr)
      assume "sched2 \<noteq> None"
      then obtain h' t' where "sched2 = Some (h', t')" by auto
      then show False using add_step_sched [of env h "Some t" True c r2 h' t' c2] s2 nm by simp
    qed
    then have "event_add_nolock env h (Some t) True c = (r2, c2)"
      using s2 by (simp add: event_add_nolock.simps [of env h])
    then have b': "b' = c2" using eq s Some ht by (simp add: event_add_nolock.simps [of env e])
    have "h \<in> ctl_timeout_event ` set (common_timeout_queues b)"
    proof -
      have "h \<in> set (map ctl_timeout_event (common_timeout_queues c))" using i by simp
      then have "h \<in> set (map ctl_timeout_event (common_timeout_queues b))" using st(2) unfolding same_frame_def by argo
      then show ?thesis by simp
    qed
    moreover have "r \<noteq> -1" using st(5) Some by auto
    moreover have "same_frame b c2" using st(2) st2(2) by (auto simp: same_frame_def)
    moreover have "flags_of c2 x - counted = flags_of b x - counted"
      using st2(4,6) st(4,6) by (cases "x = h"; cases "x = e") auto
    moreover have "evs c2 x = evs b x" if "x \<noteq> e" "x \<notin> ctl_timeout_event ` set (common_timeout_queues b)"
    proof -
      have "x \<noteq> h" using that(2) calculation(1) by blast
      then show ?thesis using st2(4) st(4) that(1) by simp
    qed
    ultimately show ?thesis using st2(1) unfolding b' by blast
  qed
  then show "base_ok b'" "same_frame b b'" "r = -1 \<Longrightarrow> evs b' = evs b"
    "flags_of b' x - counted = flags_of b x - counted" "x \<noteq> e \<Longrightarrow> x \<notin> ctl_timeout_event ` set (common_timeout_queues b) \<Longrightarrow> evs b' x = evs b x"
    by blast+
  show "r \<in> {-1, 0}" by (rule st(3))
qed

lemma event_add_deadline:
  assumes ok: "add_ok env e tvo absolute b" and eq: "event_add_nolock env e tvo absolute b = (r, b')"
    and nc: "e \<notin> ctl_timeout_event ` set (common_timeout_queues b)" and r: "r = 0" and tv: "tvo = Some tv"
  shows "EVLIST_TIMEOUT \<in> flags_of b' e \<and> deadline b' e = new_deadline tv absolute (fst (gettime b)) b"
proof -
  obtain sched c where s: "event_add_step env e tvo absolute b = (r, sched, c)"
    using eq by (auto simp: event_add_nolock.simps [of env e] split: prod.splits option.splits)
  note st = add_step_ok [OF ok s]
  have c: "EVLIST_TIMEOUT \<in> flags_of c e \<and> deadline c e = new_deadline tv absolute (fst (gettime b)) b"
    using st(7) [OF r tv] .
  show ?thesis
  proof (cases sched)
    case None
    then have "b' = c" using eq s by (simp add: event_add_nolock.simps [of env e])
    then show ?thesis using c by simp
  next
    case (Some ht)
    obtain h t where ht: "ht = (h, t)" by fastforce
    from st(8) Some ht obtain i where i: "i < length (common_timeout_queues c)"
      "h = ctl_timeout_event (common_timeout_queues c ! i)" "valid_tv (length (common_timeout_queues c)) t" by blast
    have core: "core_ok c" using st(1) by (simp add: base_ok_def)
    note ce = ctl_event_at [OF core i(1)]
    have "common_timeout_queues b \<noteq> []" using i(1) same_frame_ctl [OF st(2)] by auto
    then have mem: "\<forall>n. mem env n" using ok by (simp add: add_ok_def)
    have ok2: "add_ok env h (Some t) True c"
      using st(1) mem i ce by (simp add: add_ok_def ctl_event_ok_def Let_def)
    obtain r2 c2 where s2: "event_add_nolock env h (Some t) True c = (r2, c2)" by fastforce
    have b': "b' = c2" using eq s Some ht s2 by (simp add: event_add_nolock.simps [of env e])
    have m: "map ctl_timeout_event (common_timeout_queues c) = map ctl_timeout_event (common_timeout_queues b)"
      using st(2) by (simp add: same_frame_def)
    then have "ctl_timeout_event ` set (common_timeout_queues c) = ctl_timeout_event ` set (common_timeout_queues b)"
      by (metis list.set_map)
    moreover have "h \<in> ctl_timeout_event ` set (common_timeout_queues c)" using i by simp
    ultimately have "e \<noteq> h" "e \<notin> ctl_timeout_event ` set (common_timeout_queues c)" using nc by auto
    then have "evs c2 e = evs c e" using event_add_nolock_ok(6) [OF ok2 s2] by blast
    then show ?thesis using c b' by simp
  qed
qed

end
