(* ===== verification/EventRun.thy ===== *)
theory EventRun
  imports EventAdd EventLoop
begin

text \<open>
  Activating events, timeouts that are due, and running callbacks keep the invariant of the base;
  what is due is what fires.
\<close>

section \<open>Activating\<close>

lemma base_plain:
  assumes ok: "base_ok b" and ev: "evcb_flags ev = flags_of b e" "evcb_pri ev = evcb_pri (evs b e)"
    "ev_timeout ev = ev_timeout (evs b e)" "ev_events ev = ev_events (evs b e)"
    "evcb_closure ev = evcb_closure (evs b e)" "ev_fd ev = ev_fd (evs b e)" "ev_io_timeout ev = ev_io_timeout (evs b e)"
  shows "base_ok (b\<lparr>evs := (evs b)(e := ev)\<rparr>)"
proof -
  have "core_ok (b\<lparr>evs := (evs b)(e := ev)\<rparr>)"
    by (rule core_plain) (use ok ev in \<open>simp_all add: base_ok_def\<close>)
  moreover have "flagp EVLIST_INSERTED ((evs b)(e := ev)) = flagp EVLIST_INSERTED (evs b)"
    using ev(1) by (auto simp: flagp_def fun_eq_iff)
  moreover have "maps_ok (flagp EVLIST_INSERTED (evs b)) (b\<lparr>evs := (evs b)(e := ev)\<rparr>)"
    by (rule maps_plain) (use ok ev in \<open>simp_all add: base_ok_def\<close>)
  ultimately show ?thesis using ok ev by (simp add: base_ok_def persist_ok_def addable_def)
qed

text \<open>The base as before but for one event.\<close>

definition only :: "nat \<Rightarrow> event_base \<Rightarrow> event_base \<Rightarrow> bool" where
  "only e b b' \<longleftrightarrow> base_ok b' \<and> same_frame b b' \<and> (\<forall>x. x \<noteq> e \<longrightarrow> evs b' x = evs b x)"

lemma only_refl: "base_ok b \<Longrightarrow> only e b b"
  by (simp add: only_def frame_defs)

lemma only_trans: "only e a b \<Longrightarrow> only e b c \<Longrightarrow> only e a c"
  by (auto simp: only_def frame_defs)

lemma reflagged_only: "reflagged X e b b' \<Longrightarrow> only e b b'"
  by (simp add: reflagged_def only_def)

lemma upd_only:
  assumes ok: "base_ok b" and ev: "evcb_flags (f (evs b e)) = flags_of b e" "evcb_pri (f (evs b e)) = evcb_pri (evs b e)"
    "ev_timeout (f (evs b e)) = ev_timeout (evs b e)" "ev_events (f (evs b e)) = ev_events (evs b e)"
    "evcb_closure (f (evs b e)) = evcb_closure (evs b e)" "ev_fd (f (evs b e)) = ev_fd (evs b e)"
    "ev_io_timeout (f (evs b e)) = ev_io_timeout (evs b e)"
  shows "only e b (upd_ev e f b)"
  unfolding only_def upd_ev_def using base_plain [OF ok ev] by (simp add: frame_defs)

lemma base_ok_run [simp]:
  "base_ok (b\<lparr>event_continue := c\<rparr>) = base_ok b" "base_ok (b\<lparr>n_deferreds_queued := n\<rparr>) = base_ok b"
  "base_ok (b\<lparr>event_running_priority := p\<rparr>) = base_ok b" "base_ok (b\<lparr>current_event := ce\<rparr>) = base_ok b"
  "base_ok (b\<lparr>event_break := c\<rparr>) = base_ok b" "base_ok (b\<lparr>event_gotterm := c\<rparr>) = base_ok b"
  "base_ok (b\<lparr>running_loop := c\<rparr>) = base_ok b" "base_ok (b\<lparr>sig_ncalls := n\<rparr>) = base_ok b"
  "base_ok (b\<lparr>virtual_event_count := k\<rparr>) = base_ok b"
  by (simp_all add: base_ok_def core_ok_def maps_ok_def)

lemma queue_heap: "timeheap (event_queue_insert_active e b) = timeheap b"
  "timeheap (event_queue_remove_active_later e b) = timeheap b"
  by (simp_all add: event_queue_insert_active_def event_queue_remove_active_later_def queue_defs ev_assert_def)

lemma activate_ok:
  assumes ok: "base_ok b" and pri: "evcb_pri (evs b e) < length (activequeues b)"
    and eq: "event_callback_activate_nolock e b = (r, b')"
  shows "reflagged (if EVLIST_FINALIZING \<in> flags_of b e then flags_of b e
      else insert EVLIST_ACTIVE (flags_of b e - {EVLIST_ACTIVE_LATER})) e b b'" "timeheap b' = timeheap b"
    "r = (if flags_of b e \<inter> {EVLIST_FINALIZING, EVLIST_ACTIVE, EVLIST_ACTIVE_LATER} = {} then 1 else 0)"
proof -
  let ?F = "flags_of b e"
  have core: "core_ok b" using ok by (simp add: base_ok_def)
  note nb = not_both_active [OF core, of e]
  have "reflagged (if EVLIST_FINALIZING \<in> ?F then ?F
      else insert EVLIST_ACTIVE (?F - {EVLIST_ACTIVE_LATER})) e b b' \<and> timeheap b' = timeheap b \<and>
    r = (if ?F \<inter> {EVLIST_FINALIZING, EVLIST_ACTIVE, EVLIST_ACTIVE_LATER} = {} then 1 else 0)"
  proof (cases "EVLIST_FINALIZING \<in> ?F \<or> EVLIST_ACTIVE \<in> ?F")
    case True
    then have "r = 0 \<and> b' = b" using eq nb by (auto simp: event_callback_activate_nolock_def split: if_splits)
    moreover have "?F = insert EVLIST_ACTIVE (?F - {EVLIST_ACTIVE_LATER})" if "EVLIST_FINALIZING \<notin> ?F" using True nb that by auto
    ultimately show ?thesis using reflagged_refl [OF ok] True by auto
  next
    case n: False
    show ?thesis
    proof (cases "EVLIST_ACTIVE_LATER \<in> ?F")
      case True
      let ?c = "event_queue_remove_active_later e b"
      have b': "r = 0" "b' = event_queue_insert_active e ?c"
        using eq n True by (simp_all add: event_callback_activate_nolock_def)
      note f = remove_active_later_ok [OF core True]
      have p: "evcb_pri (evs ?c e) < length (activequeues ?c)"
        using f pri by (simp add: flipped_def same_frame_def)
      have "flags_of ?c e \<inter> {EVLIST_ACTIVE, EVLIST_ACTIVE_LATER} = {}" using n flipped_flags [OF f] by auto
      from flipped_trans [OF f insert_active_ok [OF flipped_core [OF f] this p]]
      have "flipped (insert EVLIST_ACTIVE (?F - {EVLIST_ACTIVE_LATER})) e b b'"
        unfolding flipped_flags [OF f] b' .
      then have "reflagged (insert EVLIST_ACTIVE (?F - {EVLIST_ACTIVE_LATER})) e b b'"
        by (rule flipped_reflagged [OF _ ok]) auto
      moreover have "timeheap b' = timeheap b"
        by (simp add: b' queue_heap)
      ultimately show ?thesis using n True b'(1) by simp
    next
      case False
      have b': "r = 1" "b' = event_queue_insert_active e b"
        using eq n False by (simp_all add: event_callback_activate_nolock_def)
      have "?F \<inter> {EVLIST_ACTIVE, EVLIST_ACTIVE_LATER} = {}" using n False by auto
      from insert_active_ok [OF core this pri]
      have "flipped (insert EVLIST_ACTIVE (?F - {EVLIST_ACTIVE_LATER})) e b b'" using False by (simp add: b')
      then have "reflagged (insert EVLIST_ACTIVE (?F - {EVLIST_ACTIVE_LATER})) e b b'"
        by (rule flipped_reflagged [OF _ ok]) auto
      moreover have "timeheap b' = timeheap b"
        by (simp add: b' queue_heap)
      ultimately show ?thesis using n False b'(1) by auto
    qed
  qed
  then show "reflagged (if EVLIST_FINALIZING \<in> ?F then ?F
      else insert EVLIST_ACTIVE (?F - {EVLIST_ACTIVE_LATER})) e b b'" "timeheap b' = timeheap b"
    "r = (if ?F \<inter> {EVLIST_FINALIZING, EVLIST_ACTIVE, EVLIST_ACTIVE_LATER} = {} then 1 else 0)" by blast+
qed

lemma active_ok:
  fixes res :: "ev_what set" and n :: nat
  assumes ok: "base_ok b" and pri: "evcb_pri (evs b e) < length (activequeues b)"
  defines "b' \<equiv> event_active_nolock e res n b"
  shows "only e b b'" "timeheap b' = timeheap b"
    "flags_of b' e = (if EVLIST_FINALIZING \<in> flags_of b e then flags_of b e
      else insert EVLIST_ACTIVE (flags_of b e - {EVLIST_ACTIVE_LATER}))"
    "EVLIST_FINALIZING \<notin> flags_of b e \<Longrightarrow> ev_res (evs b' e) =
      (if flags_of b e \<inter> {EVLIST_ACTIVE, EVLIST_ACTIVE_LATER} = {} then res else ev_res (evs b e) \<union> res)"
proof -
  let ?F = "flags_of b e"
  have core: "core_ok b" using ok by (simp add: base_ok_def)
  note nb = not_both_active [OF core, of e]
  have "only e b b' \<and> timeheap b' = timeheap b \<and>
    flags_of b' e = (if EVLIST_FINALIZING \<in> ?F then ?F else insert EVLIST_ACTIVE (?F - {EVLIST_ACTIVE_LATER})) \<and>
    (EVLIST_FINALIZING \<notin> ?F \<longrightarrow> ev_res (evs b' e) =
      (if ?F \<inter> {EVLIST_ACTIVE, EVLIST_ACTIVE_LATER} = {} then res else ev_res (evs b e) \<union> res))"
  proof (cases "EVLIST_FINALIZING \<in> ?F")
    case True
    then show ?thesis using only_refl [OF ok] by (simp add: b'_def event_active_nolock_def)
  next
    case nf: False
    show ?thesis
    proof (cases "EVLIST_ACTIVE \<in> ?F")
      case True
      then have "b' = upd_ev e (\<lambda>ev. ev\<lparr>ev_res := ev_res ev \<union> res\<rparr>) b"
        using nf nb by (auto simp: b'_def event_active_nolock_def)
      moreover have "?F = insert EVLIST_ACTIVE (?F - {EVLIST_ACTIVE_LATER})" using True nb by auto
      ultimately show ?thesis using upd_only [OF ok, of "\<lambda>ev. ev\<lparr>ev_res := ev_res ev \<union> res\<rparr>" e] nf True by auto
    next
      case na: False
      define r where "r = (if EVLIST_ACTIVE_LATER \<in> ?F then ev_res (evs b e) \<union> res else res)"
      define b1 where "b1 = upd_ev e (\<lambda>ev. ev\<lparr>ev_res := r\<rparr>) b"
      define b2 where "b2 = (if int (evcb_pri (evs b1 e)) < event_running_priority b1 then b1\<lparr>event_continue := True\<rparr> else b1)"
      define b3 where "b3 = (if EV_SIGNAL \<in> ev_events (evs b2 e)
         then upd_ev e (\<lambda>ev. ev\<lparr>ev_ncalls := n, ev_pncalls := False\<rparr>) b2 else b2)"
      obtain q c where c: "event_callback_activate_nolock e b3 = (q, c)" by fastforce
      have "b1 = (if EVLIST_ACTIVE_LATER \<in> ?F then upd_ev e (\<lambda>ev. ev\<lparr>ev_res := ev_res ev \<union> res\<rparr>) b
          else upd_ev e (\<lambda>ev. ev\<lparr>ev_res := res\<rparr>) b)"
        by (simp add: b1_def r_def upd_ev_def)
      then have "b' = snd (event_callback_activate_nolock e b3)"
        using nf na unfolding b'_def event_active_nolock_def Let_def b3_def b2_def by simp
      then have b': "b' = c" using c by simp
      have o1: "only e b b1" unfolding b1_def by (rule upd_only [OF ok]) simp_all
      then have "only e b b2" by (simp add: b2_def only_def frame_defs)
      moreover have "only e b2 b3"
      proof (cases "EV_SIGNAL \<in> ev_events (evs b2 e)")
        case True
        have "base_ok b2" using \<open>only e b b2\<close> by (simp add: only_def)
        from upd_only [OF this, of "\<lambda>ev. ev\<lparr>ev_ncalls := n, ev_pncalls := False\<rparr>" e] True show ?thesis by (simp add: b3_def)
      next
        case False
        then show ?thesis using \<open>only e b b2\<close> only_refl by (simp add: b3_def only_def)
      qed
      ultimately have o3: "only e b b3" by (rule only_trans)
      have e3: "flags_of b3 e = ?F" "evcb_pri (evs b3 e) = evcb_pri (evs b e)" "ev_res (evs b3 e) = r" "timeheap b3 = timeheap b"
        by (simp_all add: b3_def b2_def b1_def)
      have "base_ok b3" "evcb_pri (evs b3 e) < length (activequeues b3)"
        using o3 e3(2) pri by (simp_all add: only_def same_frame_def)
      note a = activate_ok [OF this c]
      have "flags_of c e = insert EVLIST_ACTIVE (?F - {EVLIST_ACTIVE_LATER})" "ev_res (evs c e) = r"
        using a(1) nf e3 by (simp_all add: reflagged_def)
      then show ?thesis
        using only_trans [OF o3 reflagged_only [OF a(1)]] nf na a(2) e3(4) unfolding b' by (auto simp: r_def)
    qed
  qed
  then show "only e b b'" "timeheap b' = timeheap b"
    "flags_of b' e = (if EVLIST_FINALIZING \<in> ?F then ?F else insert EVLIST_ACTIVE (?F - {EVLIST_ACTIVE_LATER}))"
    "EVLIST_FINALIZING \<notin> ?F \<Longrightarrow> ev_res (evs b' e) =
      (if ?F \<inter> {EVLIST_ACTIVE, EVLIST_ACTIVE_LATER} = {} then res else ev_res (evs b e) \<union> res)" by blast+
qed

section \<open>Timeouts that are due\<close>

lemma event_of_timeout:
  assumes ok: "base_ok b" and e: "EVLIST_TIMEOUT \<in> flags_of b e"
  shows "EVLIST_FINALIZING \<notin> flags_of b e" "EVLIST_INIT \<in> flags_of b e" "evcb_pri (evs b e) < length (activequeues b)"
proof -
  have "event_ok (length (activequeues b)) (evs b e)" using ok by (simp add: base_ok_def core_ok_def)
  then show "EVLIST_FINALIZING \<notin> flags_of b e" "EVLIST_INIT \<in> flags_of b e" "evcb_pri (evs b e) < length (activequeues b)"
    using e by (auto simp: event_ok_def)
qed

lemma fire_ok:
  fixes env :: event_env
  assumes ok: "base_ok b" and e: "EVLIST_TIMEOUT \<in> flags_of b e"
  defines "c \<equiv> fire_timeout env e b"
  shows "only e b c" "flags_of c e = insert EVLIST_ACTIVE (flags_of b e - counted)" "ev_res (evs c e) = {EV_TIMEOUT}"
    "timeheap c = (if is_common_timeout (deadline b e) b then timeheap b else snd (min_heap_erase (deadline b) e (timeheap b)))"
proof -
  note ev = event_of_timeout [OF ok e]
  obtain r d where d: "event_del_nolock env e EVENT_DEL_NOBLOCK b = (r, d)" by fastforce
  note del = event_del_ok [OF ok d disjI2 [OF ev(1)]]
  have d': "base_ok d" "flags_of d e = flags_of b e - counted" "evcb_pri (evs d e) = evcb_pri (evs b e)"
    "length (activequeues d) = length (activequeues b)" "only e b d"
    using del(1) reflagged_only [OF del(1)] by (simp_all add: reflagged_def same_frame_def)
  have pri: "evcb_pri (evs d e) < length (activequeues d)" using d'(3,4) ev(3) by simp
  have c: "c = event_active_nolock e {EV_TIMEOUT} 1 d" using d by (simp add: c_def fire_timeout_def)
  note act = active_ok [OF d'(1) pri, of "{EV_TIMEOUT}" 1, folded c]
  have n: "EVLIST_FINALIZING \<notin> flags_of d e" "EVLIST_ACTIVE \<notin> flags_of d e" "EVLIST_ACTIVE_LATER \<notin> flags_of d e"
    using ev(1) d'(2) by (auto simp: counted_def)
  show "only e b c" by (rule only_trans [OF d'(5) act(1)])
  show "flags_of c e = insert EVLIST_ACTIVE (flags_of b e - counted)"
    using act(3) n(1) d'(2) by (auto simp: counted_def)
  show "ev_res (evs c e) = {EV_TIMEOUT}" using act(4) n by simp
  show "timeheap c = (if is_common_timeout (deadline b e) b then timeheap b else snd (min_heap_erase (deadline b) e (timeheap b)))"
    using act(2) del(3) e by simp
qed

lemma base_tmo: "base_ok b \<Longrightarrow> tmo_ok (flagp EVLIST_TIMEOUT (evs b)) (deadline b) (timeheap b) (common_timeout_queues b)"
  by (simp add: base_ok_def core_ok_def dls_def)

lemma in_heap:
  "base_ok b \<Longrightarrow> e \<in> set (elems (timeheap b)) \<longleftrightarrow> EVLIST_TIMEOUT \<in> flags_of b e \<and> \<not> is_common_timeout (deadline b e) b"
  using tmo_okD(2) [OF base_tmo] by (simp add: is_common_in)

lemma fire_heap:
  assumes ok: "base_ok b" and e: "e \<in> set (elems (timeheap b))"
  shows "hn (timeheap (fire_timeout env e b)) < hn (timeheap b)"
    "set (elems (timeheap (fire_timeout env e b))) = set (elems (timeheap b)) - {e}"
proof -
  have t: "EVLIST_TIMEOUT \<in> flags_of b e" "\<not> is_common_timeout (deadline b e) b" using e in_heap [OF ok] by blast+
  note f = fire_ok [OF ok t(1), of env]
  have h: "timeheap (fire_timeout env e b) = snd (min_heap_erase (deadline b) e (timeheap b))" using f(4) t(2) by simp
  have "flagp EVLIST_TIMEOUT (evs b) e" using t(1) by simp
  from tmo_heap_remove(3) [OF base_tmo [OF ok] this] t(2)
  show "hn (timeheap (fire_timeout env e b)) < hn (timeheap b)" unfolding h by (simp add: is_common_in)
  have c: "base_ok (fire_timeout env e b)" "evs (fire_timeout env e b) x = evs b x \<or> x = e"
    "same_frame b (fire_timeout env e b)" for x using f(1) by (auto simp: only_def)
  show "set (elems (timeheap (fire_timeout env e b))) = set (elems (timeheap b)) - {e}"
  proof (rule set_eqI)
    fix x
    show "x \<in> set (elems (timeheap (fire_timeout env e b))) \<longleftrightarrow> x \<in> set (elems (timeheap b)) - {e}"
    proof (cases "x = e")
      case True
      then show ?thesis using in_heap [OF c(1), of x] f(2) by (simp add: counted_def)
    next
      case False
      then show ?thesis
        using in_heap [OF c(1), of x] in_heap [OF ok, of x] c(2) [of x] is_common_frame [OF c(3)] by simp
    qed
  qed
qed

text \<open>What a run over the heap leaves: the events that were due have fired, the others are as they were.\<close>

definition fired :: "timeval \<Rightarrow> event_base \<Rightarrow> event_base \<Rightarrow> bool" where
  "fired now b b' \<longleftrightarrow> (\<forall>e. if e \<in> set (elems (timeheap b)) \<and> deadline b e \<le> now
     then flags_of b' e = insert EVLIST_ACTIVE (flags_of b e - counted) \<and> ev_res (evs b' e) = {EV_TIMEOUT}
     else evs b' e = evs b e)"

lemma timeout_loop_ok:
  "base_ok b \<Longrightarrow> \<exists>b'. timeout_loop env now b = Some b' \<and> base_ok b' \<and> same_frame b b' \<and> fired now b b'"
proof (induction "hn (timeheap b)" arbitrary: b rule: less_induct)
  case less
  have hk: "heap_ok (deadline b) (timeheap b)" by (rule tmo_okD(1) [OF base_tmo [OF less.prems]])
  show ?case
  proof (cases "min_heap_top (timeheap b)")
    case None
    then have "elems (timeheap b) = []" using min_heap_top_ok [OF hk] by simp
    then show ?thesis using None less.prems by (simp add: timeout_loop.simps [of env] fired_def frame_defs)
  next
    case (Some e)
    then have e: "e \<in> set (elems (timeheap b))" "\<And>x. x \<in> set (elems (timeheap b)) \<Longrightarrow> deadline b e \<le> deadline b x"
      using min_heap_top_ok [OF hk] by auto
    show ?thesis
    proof (cases "deadline b e > now")
      case True
      then have "\<not> (x \<in> set (elems (timeheap b)) \<and> deadline b x \<le> now)" for x using e(2) [of x] by (meson leD order_trans)
      then have "fired now b b" unfolding fired_def by meson
      then show ?thesis using Some True less.prems by (simp add: timeout_loop.simps [of env] frame_defs)
    next
      case False
      define c where "c = fire_timeout env e b"
      have t: "EVLIST_TIMEOUT \<in> flags_of b e" using in_heap [OF less.prems] e(1) by blast
      note f = fire_ok [OF less.prems t, of env, folded c_def] and h = fire_heap [OF less.prems e(1), of env, folded c_def]
      have c: "base_ok c" "same_frame b c" "\<And>x. x \<noteq> e \<Longrightarrow> evs c x = evs b x" using f(1) by (simp_all add: only_def)
      from less.hyps [OF h(1) c(1)] obtain b' where b': "timeout_loop env now c = Some b'" "base_ok b'" "same_frame c b'" "fired now c b'"
        by blast
      have "timeout_loop env now b = Some b'" using Some False b'(1) by (simp add: timeout_loop.simps [of env now b] c_def)
      moreover have "same_frame b b'" using c(2) b'(3) by (auto simp: same_frame_def)
      moreover have "fired now b b'"
        unfolding fired_def
      proof
        fix x
        show "if x \<in> set (elems (timeheap b)) \<and> deadline b x \<le> now
          then flags_of b' x = insert EVLIST_ACTIVE (flags_of b x - counted) \<and> ev_res (evs b' x) = {EV_TIMEOUT}
          else evs b' x = evs b x"
        proof (cases "x = e")
          case True
          then have "evs b' x = evs c x" using b'(4) h(2) by (simp add: fired_def)
          then show ?thesis using True e(1) False f(2,3) by (simp add: not_less)
        next
          case neq: False
          then have "evs c x = evs b x" "x \<in> set (elems (timeheap c)) \<longleftrightarrow> x \<in> set (elems (timeheap b))" using c(3) h(2) by auto
          then show ?thesis using b'(4) unfolding fired_def by presburger
        qed
      qed
      ultimately show ?thesis using b'(2) by blast
    qed
  qed
qed

lemma timeout_process_ok:
  assumes "base_ok b"
  shows "\<exists>b'. timeout_process env b = Some b' \<and> base_ok b' \<and> same_frame b b' \<and> fired (fst (gettime b)) b b'"
proof (cases "min_heap_empty (timeheap b)")
  case True
  then have "elems (timeheap b) = []" by (simp add: min_heap_empty_def elems_def)
  then show ?thesis using assms True by (simp add: timeout_process_def fired_def frame_defs)
next
  case False
  obtain now c where g: "gettime b = (now, c)" by fastforce
  note gt = gettime_ok [OF g]
  have c: "base_ok c" using assms gt(5) by simp
  from timeout_loop_ok [OF c, of env now] obtain b' where b': "timeout_loop env now c = Some b'" "base_ok b'"
    "same_frame c b'" "fired now c b'" by blast
  have "same_frame b b'" using gt(6) b'(3) by (auto simp: same_frame_def)
  then show ?thesis using False g b' gt(2,8) by (auto simp: timeout_process_def fired_def)
qed

end
