(* ===== verification/EventProcess.thy ===== *)
theory EventProcess
  imports EventRun
begin

text \<open>
  The other operations, the closures and the loop keep the invariant, with callbacks that do.
\<close>

section \<open>Smaller operations\<close>

lemma nonempty_pri: "base_ok b \<Longrightarrow> flags_of b e \<noteq> {} \<Longrightarrow> evcb_pri (evs b e) < length (activequeues b)"
  by (simp add: base_ok_def core_ok_def event_ok_def)

lemma active_live:
  assumes "base_ok b" and "flags_of b e \<noteq> {}"
  shows "only e b (event_active_nolock e res n b)" "flags_of (event_active_nolock e res n b) e \<noteq> {}"
  using active_ok [OF assms(1) nonempty_pri [OF assms]] assms(2) by simp_all

lemma activate_list_ok:
  assumes "base_ok b" and "\<forall>e \<in> set es. flags_of b e \<noteq> {}"
  shows "base_ok (activate_list what n es b) \<and> same_frame b (activate_list what n es b)"
  using assms
proof (induction es arbitrary: b)
  case Nil
  then show ?case by (simp add: frame_defs)
next
  case (Cons e es)
  define c where "c = (if ev_events (evs b e) \<inter> what \<noteq> {} then event_active_nolock e (ev_events (evs b e) \<inter> what) n b else b)"
  have "only e b c \<and> flags_of c e \<noteq> {}"
    using active_live [OF Cons.prems(1), of e] only_refl [OF Cons.prems(1)] Cons.prems(2) by (simp add: c_def)
  then have c: "base_ok c" "same_frame b c" "\<forall>x \<in> set es. flags_of c x \<noteq> {}"
    using Cons.prems(2) by (auto simp: only_def)
  from Cons.IH [OF c(1,3)] c(2) show ?case by (auto simp: c_def [symmetric] same_frame_def)
qed

lemma activate_signals_ok:
  assumes "base_ok b" and "\<forall>e \<in> set es. flags_of b e \<noteq> {}"
  shows "base_ok (activate_signals n es b) \<and> same_frame b (activate_signals n es b)"
  using assms
proof (induction es arbitrary: b)
  case Nil
  then show ?case by (simp add: frame_defs)
next
  case (Cons e es)
  define c where "c = event_active_nolock e {EV_SIGNAL} n b"
  have "only e b c \<and> flags_of c e \<noteq> {}"
    using active_live [OF Cons.prems(1), of e] Cons.prems(2) by (simp add: c_def)
  then have c: "base_ok c" "same_frame b c" "\<forall>x \<in> set es. flags_of c x \<noteq> {}"
    using Cons.prems(2) by (auto simp: only_def)
  from Cons.IH [OF c(1,3)] c(2) show ?case by (auto simp: c_def [symmetric] same_frame_def)
qed

lemma io_active_ok:
  assumes ok: "base_ok b"
  shows "base_ok (evmap_io_active fd what b) \<and> same_frame b (evmap_io_active fd what b)"
proof (cases "fd < 0 \<or> int (nentries (io b)) \<le> fd \<or> entries (io b) (nat fd) = None")
  case True
  then show ?thesis using ok by (auto simp: evmap_io_active_def frame_defs)
next
  case False
  then obtain c where c: "entries (io b) (nat fd) = Some c" by auto
  have io: "io_ok (flagp EVLIST_INSERTED (evs b)) (whats (evs b)) (fds (evs b)) (io b)"
    using ok by (simp add: base_ok_def maps_ok_def)
  have "flags_of b e \<noteq> {}" if "e \<in> set (io_events c)" for e
    using io_okD [OF io, of e "nat fd"] that io_list_Some [OF c] by (auto simp: flagp_def)
  then show ?thesis using activate_list_ok [OF ok] False c by (simp add: evmap_io_active_def)
qed

lemma signal_active_ok:
  assumes ok: "base_ok b"
  shows "base_ok (evmap_signal_active sig n b) \<and> same_frame b (evmap_signal_active sig n b)"
proof (cases "sig < 0 \<or> int (nentries (sigmap b)) \<le> sig \<or> entries (sigmap b) (nat sig) = None")
  case True
  then show ?thesis using ok by (auto simp: evmap_signal_active_def frame_defs)
next
  case False
  then obtain l where l: "entries (sigmap b) (nat sig) = Some l" by auto
  have sg: "sig_ok (flagp EVLIST_INSERTED (evs b)) (whats (evs b)) (fds (evs b)) (sigmap b)"
    using ok by (simp add: base_ok_def maps_ok_def)
  have "flags_of b e \<noteq> {}" if "e \<in> set l" for e
    using sig_okD [OF sg, of e "nat sig"] that sig_list_Some [OF l] by (auto simp: flagp_def)
  then show ?thesis using activate_signals_ok [OF ok] False l by (simp add: evmap_signal_active_def)
qed

lemma active_later_ok:
  assumes ok: "base_ok b" and e: "flags_of b e \<noteq> {}"
  shows "only e b (event_active_later_nolock e res b)"
proof (cases "flags_of b e \<inter> {EVLIST_ACTIVE, EVLIST_ACTIVE_LATER} \<noteq> {}")
  case True
  then show ?thesis
    using upd_only [OF ok, of "\<lambda>ev. ev\<lparr>ev_res := ev_res ev \<union> res\<rparr>" e] by (simp add: event_active_later_nolock_def)
next
  case False
  define c where "c = upd_ev e (\<lambda>ev. ev\<lparr>ev_res := res\<rparr>) b"
  have o: "only e b c" unfolding c_def by (rule upd_only [OF ok]) simp_all
  then have c: "base_ok c" by (simp add: only_def)
  have F: "flags_of c e = flags_of b e" by (simp add: c_def)
  have n: "flags_of c e \<inter> {EVLIST_ACTIVE, EVLIST_ACTIVE_LATER} = {}" using False F by simp
  have p: "evcb_pri (evs c e) < length (activequeues c)" by (rule nonempty_pri [OF c]) (simp add: F e)
  have core: "core_ok c" using c by (simp add: base_ok_def)
  have "reflagged (insert EVLIST_ACTIVE_LATER (flags_of c e)) e c (event_queue_insert_active_later e c)"
    by (rule flipped_reflagged [OF insert_active_later_ok [OF core n p] c]) simp_all
  then have "only e b (event_queue_insert_active_later e c)" using only_trans [OF o reflagged_only] by blast
  moreover have "event_active_later_nolock e res b = event_queue_insert_active_later e c"
    using False n by (simp add: event_active_later_nolock_def event_callback_activate_later_nolock_def c_def)
  ultimately show ?thesis by simp
qed

lemma remove_timer_ok:
  assumes ok: "base_ok b"
  shows "only e b (snd (event_remove_timer e b))"
proof (cases "EVLIST_TIMEOUT \<in> flags_of b e")
  case False
  then show ?thesis using only_refl [OF ok] by (simp add: event_remove_timer_def)
next
  case True
  define c where "c = event_queue_remove_timeout e b"
  have core: "core_ok b" using ok by (simp add: base_ok_def)
  have r: "reflagged (flags_of b e - {EVLIST_TIMEOUT}) e b c"
    unfolding c_def by (rule flipped_reflagged [OF remove_timeout_ok(1) [OF core True] ok]) simp_all
  then have c: "base_ok c" "only e b c" using reflagged_only by (auto simp: reflagged_def)
  let ?ev = "(evs c e)\<lparr>ev_io_timeout := evutil_timerclear\<rparr>"
  have "core_ok (c\<lparr>evs := (evs c)(e := ?ev)\<rparr>)" by (rule core_plain) (use c(1) in \<open>simp_all add: base_ok_def\<close>)
  moreover have "maps_ok (flagp EVLIST_INSERTED (evs c)) (c\<lparr>evs := (evs c)(e := ?ev)\<rparr>)"
    by (rule maps_plain) (use c(1) in \<open>simp_all add: base_ok_def\<close>)
  moreover have "flagp EVLIST_INSERTED ((evs c)(e := ?ev)) = flagp EVLIST_INSERTED (evs c)"
    by (auto simp: flagp_def fun_eq_iff)
  ultimately have "base_ok (c\<lparr>evs := (evs c)(e := ?ev)\<rparr>)"
    using c(1) by (simp add: base_ok_def persist_ok_def addable_def evutil_timerclear_def)
  then have "only e c (upd_ev e (\<lambda>ev. ev\<lparr>ev_io_timeout := evutil_timerclear\<rparr>) c)"
    by (simp add: only_def upd_ev_def frame_defs)
  then show ?thesis using only_trans [OF c(2)] True by (simp add: event_remove_timer_def c_def)
qed

lemma act_redate:
  assumes "act_ok A L P qs later n" and "\<not> A e" and "p < length qs"
  shows "act_ok A L (P(e := p)) qs later n"
  using assms by (auto simp: act_ok_def)

lemma priority_set_ok:
  assumes ok: "base_ok b" and eq: "event_priority_set e pri b = (r, b')"
  shows "only e b b'" "r \<in> {-1, 0}"
proof -
  have "only e b b' \<and> r \<in> {-1, 0}"
  proof (cases "EVLIST_ACTIVE \<in> flags_of b e \<or> pri < 0 \<or> int (length (activequeues b)) \<le> pri")
    case True
    then show ?thesis using eq only_refl [OF ok] by (auto simp: event_priority_set_def split: if_splits)
  next
    case False
    let ?ev = "(evs b e)\<lparr>evcb_pri := nat pri\<rparr>" let ?s = "(evs b)(e := ?ev)"
    have b': "r = 0" "b' = b\<lparr>evs := ?s\<rparr>" using eq False by (auto simp: event_priority_set_def upd_ev_def)
    have p: "nat pri < length (activequeues b)" using False by linarith
    have f: "flagp f ?s = flagp f (evs b)" "pris ?s = (pris (evs b))(e := nat pri)" "flagf ?s = flagf (evs b)"
      "dls ?s = dls (evs b)" "whats ?s = whats (evs b)" "fds ?s = fds (evs b)" for f
      by (auto simp: field_defs fun_eq_iff)
    have core: "core_ok b" using ok by (simp add: base_ok_def)
    have "act_ok (flagp EVLIST_ACTIVE (evs b)) (flagp EVLIST_ACTIVE_LATER (evs b)) ((pris (evs b))(e := nat pri))
       (activequeues b) (active_later_queue b) (event_count_active b)"
      by (rule act_redate) (use core False p in \<open>simp_all add: core_ok_def\<close>)
    moreover have "event_ok (length (activequeues b)) (?s x)" for x
      using core p by (simp add: core_ok_def event_ok_def)
    moreover have "ctl_event_ok (length (activequeues b)) ?s c" if "c \<in> set (common_timeout_queues b)" for c
      using core that p by (auto simp: core_ok_def ctl_event_ok_def addable_def Let_def)
    ultimately have "core_ok b'" using core by (simp add: b' core_ok_def f)
    then have "base_ok b'" using ok p by (simp add: b' base_ok_def maps_ok_def f persist_ok_def addable_def)
    then show ?thesis by (simp add: only_def b' frame_defs)
  qed
  then show "only e b b'" "r \<in> {-1, 0}" by blast+
qed

lemma cancel_ok:
  assumes ok: "base_ok b" and eq: "event_callback_cancel_nolock env e fin b = (r, b')"
  shows "only e b b'" "flags_of b' e \<inter> counted \<noteq> {} \<Longrightarrow> EVLIST_FINALIZING \<in> flags_of b e \<and> \<not> fin"
proof -
  have core: "core_ok b" using ok by (simp add: base_ok_def)
  have ev: "event_ok (length (activequeues b)) (evs b e)" using core by (simp add: core_ok_def)
  note nb = not_both_active [OF core, of e]
  have "only e b b' \<and> (flags_of b' e \<inter> counted \<noteq> {} \<longrightarrow> EVLIST_FINALIZING \<in> flags_of b e \<and> \<not> fin)"
  proof (cases "EVLIST_FINALIZING \<in> flags_of b e \<and> \<not> fin")
    case True
    then show ?thesis using eq only_refl [OF ok] by (simp add: event_callback_cancel_nolock_def)
  next
    case nf: False
    show ?thesis
    proof (cases "EVLIST_INIT \<in> flags_of b e")
      case True
      let ?bl = "if fin then EVENT_DEL_EVEN_IF_FINALIZING else EVENT_DEL_AUTOBLOCK"
      have "event_del_nolock env e ?bl b = (r, b')"
        using eq nf True by (simp add: event_callback_cancel_nolock_def split: if_splits)
      from event_del_ok(1) [OF ok this] nf have "reflagged (flags_of b e - counted) e b b'" by auto
      then show ?thesis using reflagged_only by (auto simp: reflagged_def)
    next
      case False
      then have t: "EVLIST_TIMEOUT \<notin> flags_of b e" "EVLIST_INSERTED \<notin> flags_of b e" using ev by (auto simp: event_ok_def)
      have "b' = del_active e b"
        using eq nf False nb by (auto simp: event_callback_cancel_nolock_def del_active_def split: if_splits)
      then have f: "flipped (flags_of b e - {EVLIST_ACTIVE, EVLIST_ACTIVE_LATER}) e b b'"
        using del_active_ok(1) [OF core] by simp
      have "reflagged (flags_of b e - {EVLIST_ACTIVE, EVLIST_ACTIVE_LATER}) e b b'"
        by (rule flipped_reflagged [OF f ok]) simp_all
      then show ?thesis using reflagged_only t by (auto simp: reflagged_def counted_def)
    qed
  qed
  then show "only e b b'" "flags_of b' e \<inter> counted \<noteq> {} \<Longrightarrow> EVLIST_FINALIZING \<in> flags_of b e \<and> \<not> fin" by blast+
qed

section \<open>Deferred activation\<close>

definition promote :: "nat \<Rightarrow> nat list \<Rightarrow> event_base \<Rightarrow> event_base" where
  "promote e es b =
     (let b = b\<lparr>active_later_queue := es\<rparr>;
          b = set_flag e EVLIST_ACTIVE (clear_flag e EVLIST_ACTIVE_LATER b);
          b = ev_assert (evcb_pri (evs b e) < length (activequeues b)) b;
          b = upd_queue (evcb_pri (evs b e)) (\<lambda>q. q @ [e]) b
      in b\<lparr>n_deferreds_queued := n_deferreds_queued b +
                 (if evcb_closure (evs b e) = EV_CLOSURE_CB_SELF then 1 else 0)\<rparr>)"

lemma make_active_Cons: "make_active (e # es) b = make_active es (promote e es b)"
  by (simp add: promote_def Let_def)

lemma promote_ok:
  assumes ok: "base_ok b" and l: "active_later_queue b = e # es"
  shows "reflagged (insert EVLIST_ACTIVE (flags_of b e - {EVLIST_ACTIVE_LATER})) e b (promote e es b)"
    "active_later_queue (promote e es b) = es" "timeheap (promote e es b) = timeheap b"
proof -
  let ?F = "flags_of b e" let ?X = "insert EVLIST_ACTIVE (?F - {EVLIST_ACTIVE_LATER})"
  have core: "core_ok b" using ok by (simp add: base_ok_def)
  have act: "act_ok (flagp EVLIST_ACTIVE (evs b)) (flagp EVLIST_ACTIVE_LATER (evs b)) (pris (evs b))
       (activequeues b) (active_later_queue b) (event_count_active b)" using core by (simp add: core_ok_def)
  have L: "EVLIST_ACTIVE_LATER \<in> ?F" using act l by (auto simp: act_ok_def flagp_def)
  have nA: "EVLIST_ACTIVE \<notin> ?F" using not_both_active [OF core, of e] L by blast
  have p: "evcb_pri (evs b e) < length (activequeues b)" using nonempty_pri [OF ok] L by blast
  define b' where "b' = promote e es b"
  have b': "evs b' = (evs b)(e := (evs b e)\<lparr>evcb_flags := ?X\<rparr>)" "same_frame b b'" "same_maps b b'"
    "event_count b' = event_count b" "timeheap b' = timeheap b" "common_timeout_queues b' = common_timeout_queues b"
    "activequeues b' = (activequeues b)[evcb_pri (evs b e) := activequeues b ! evcb_pri (evs b e) @ [e]]"
    "active_later_queue b' = es" "event_count_active b' = event_count_active b"
    using p by (simp_all add: b'_def promote_def Let_def set_flag_def clear_flag_def upd_queue_def ev_assert_def frame_defs upd_ev_def)
  have "act_ok (flagp EVLIST_ACTIVE (evs b)) ((flagp EVLIST_ACTIVE_LATER (evs b))(e := False)) (pris (evs b))
       (activequeues b) es (event_count_active b - 1)"
    using later_remove [OF act, of e] L l by simp
  from act_insert [OF this, of e] have act': "act_ok ((flagp EVLIST_ACTIVE (evs b))(e := True)) ((flagp EVLIST_ACTIVE_LATER (evs b))(e := False))
       (pris (evs b)) (activequeues b') es (event_count_active b)"
    using nA p by (simp add: b'(7))
  have "weight ?X = weight ?F"
  proof -
    have "?F = insert EVLIST_ACTIVE_LATER (?F - {EVLIST_ACTIVE_LATER})" using L by auto
    then have "weight ?F = weight (?F - {EVLIST_ACTIVE_LATER}) + (if EVLIST_INTERNAL \<in> ?F - {EVLIST_ACTIVE_LATER} then 0 else 1)"
      using weight_insert [of EVLIST_ACTIVE_LATER "?F - {EVLIST_ACTIVE_LATER}"] by (simp add: counted_def)
    then show ?thesis
      using weight_insert [of EVLIST_ACTIVE "?F - {EVLIST_ACTIVE_LATER}"] nA by (simp add: counted_def)
  qed
  then have cnt: "cnt_ok ((flagf (evs b))(e := ?X)) (event_count b')"
    using cnt_flip [of "flagf (evs b)" "event_count b" e ?X] core by (simp add: core_ok_def b'(4))
  have "core_ok b'"
  proof (rule core_flip [OF core b'(1,2) _ _ cnt])
    show "event_ok (length (activequeues b)) ((evs b e)\<lparr>evcb_flags := ?X\<rparr>)"
      using core p by (auto simp: core_ok_def event_ok_def)
    show "tmo_ok (flagp EVLIST_TIMEOUT (evs b')) (dls (evs b)) (timeheap b') (common_timeout_queues b')"
      using core by (simp add: b' core_ok_def)
    show "act_ok (flagp EVLIST_ACTIVE (evs b')) (flagp EVLIST_ACTIVE_LATER (evs b')) (pris (evs b))
       (activequeues b') (active_later_queue b') (event_count_active b')"
      using act' by (simp add: b'(1,8,9))
  qed simp
  then have "flipped ?X e b b'" using b' by (simp add: flipped_def)
  then have "reflagged ?X e b b'" by (rule flipped_reflagged [OF _ ok]) auto
  then show "reflagged ?X e b (promote e es b)" by (simp add: b'_def)
  show "active_later_queue (promote e es b) = es" "timeheap (promote e es b) = timeheap b" using b'(5,8) by (simp_all add: b'_def)
qed

lemma make_active_ok:
  assumes "base_ok b" and "active_later_queue b = es"
  shows "base_ok (make_active es b) \<and> same_frame b (make_active es b) \<and> active_later_queue (make_active es b) = []"
  using assms
proof (induction es arbitrary: b)
  case Nil
  then show ?case by (simp add: frame_defs)
next
  case (Cons e es)
  note p = promote_ok [OF Cons.prems]
  have "base_ok (promote e es b)" "same_frame b (promote e es b)" using p(1) by (simp_all add: reflagged_def)
  with Cons.IH [OF _ p(2)] show ?case unfolding make_active_Cons by (auto simp: same_frame_def)
qed

lemma make_later_ok:
  "base_ok b \<Longrightarrow> base_ok (event_queue_make_later_events_active b) \<and>
     same_frame b (event_queue_make_later_events_active b)"
  using make_active_ok [of b] by (simp add: event_queue_make_later_events_active_def)

section \<open>Making events and lists\<close>

lemma valid_tv_mono: "valid_tv n tv \<Longrightarrow> n \<le> m \<Longrightarrow> valid_tv m tv"
  by (force simp: valid_tv_def)

lemma magic_usec: "and (tv_usec a) COMMON_TIMEOUT_MASK = and (upper a) COMMON_TIMEOUT_MASK"
  "and (tv_usec a) COMMON_TIMEOUT_IDX_MASK = and (upper a) COMMON_TIMEOUT_IDX_MASK"
proof -
  have m: "and (not MICROSECONDS_MASK) COMMON_TIMEOUT_MASK = COMMON_TIMEOUT_MASK"
    "and (not MICROSECONDS_MASK) COMMON_TIMEOUT_IDX_MASK = COMMON_TIMEOUT_IDX_MASK"
    by (simp_all add: MICROSECONDS_MASK_def COMMON_TIMEOUT_MASK_def COMMON_TIMEOUT_IDX_MASK_def)
  show "and (tv_usec a) COMMON_TIMEOUT_MASK = and (upper a) COMMON_TIMEOUT_MASK"
    "and (tv_usec a) COMMON_TIMEOUT_IDX_MASK = and (upper a) COMMON_TIMEOUT_IDX_MASK"
    unfolding upper_def by (simp_all only: and.assoc m)
qed

lemma magic_upper:
  assumes "upper a = upper b"
  shows "magic a = magic b" "COMMON_TIMEOUT_IDX a = COMMON_TIMEOUT_IDX b"
  using magic_usec [of a] magic_usec [of b] assms by (simp_all add: magic_def COMMON_TIMEOUT_IDX_def)

text \<open>An event that is not pending is free to be made anew.\<close>

lemma cnt_same:
  assumes "cnt_ok F n" and "F e \<inter> counted = {}" and "X \<inter> counted = {}"
  shows "cnt_ok (F(e := X)) n"
proof -
  have "weight (F e) = 0" "weight X = 0" using assms(2,3) by (simp_all only: weight_def card.empty) simp_all
  then show ?thesis using cnt_flip [OF assms(1), of e X] by simp
qed

lemma assign_ok:
  assumes ok: "base_ok b" and free: "flags_of b e \<inter> counted = {}"
    and nc: "e \<notin> ctl_timeout_event ` set (common_timeout_queues b)" and e: "e < EVENT_LIMIT"
    and q: "activequeues b \<noteq> []" and eq: "event_assign e fd what b = (0, b')"
  shows "only e b b'" "flags_of b' e = {EVLIST_INIT}" "ev_events (evs b' e) = what" "ev_fd (evs b' e) = fd"
    "evcb_closure (evs b' e) = (if EV_SIGNAL \<in> what then EV_CLOSURE_EVENT_SIGNAL
       else if EV_PERSIST \<in> what then EV_CLOSURE_EVENT_PERSIST else EV_CLOSURE_EVENT)"
    "activequeues b' = activequeues b" "common_timeout_queues b' = common_timeout_queues b"
proof -
  let ?cl = "if EV_SIGNAL \<in> what then EV_CLOSURE_EVENT_SIGNAL
       else if EV_PERSIST \<in> what then EV_CLOSURE_EVENT_PERSIST else EV_CLOSURE_EVENT"
  let ?ev = "(evs b e)\<lparr>ev_fd := fd, ev_events := what, ev_res := {}, evcb_flags := {EVLIST_INIT}, ev_ncalls := 0,
     ev_pncalls := False,
     ev_io_timeout := (if EV_SIGNAL \<notin> what \<and> EV_PERSIST \<in> what then evutil_timerclear else ev_io_timeout (evs b e)),
     evcb_closure := ?cl, evcb_pri := length (activequeues b) div 2\<rparr>"
  let ?s = "(evs b)(e := ?ev)"
  have w: "EV_SIGNAL \<in> what \<Longrightarrow> what \<inter> io_whats = {}"
    using eq by (auto simp: event_assign_def Let_def split: if_splits)
  have b': "b' = b\<lparr>timeheap := min_heap_elem_init e (timeheap b), evs := ?s\<rparr>"
    using eq w by (auto simp: event_assign_def Let_def upd_ev_def split: if_splits)
  have F: "EVLIST_TIMEOUT \<notin> flags_of b e" "EVLIST_ACTIVE \<notin> flags_of b e" "EVLIST_ACTIVE_LATER \<notin> flags_of b e"
    "EVLIST_INSERTED \<notin> flags_of b e" using free by (auto simp: counted_def)
  have core: "core_ok b" using ok by (simp add: base_ok_def)
  have f: "flagp EVLIST_TIMEOUT ?s = flagp EVLIST_TIMEOUT (evs b)" "flagp EVLIST_ACTIVE ?s = flagp EVLIST_ACTIVE (evs b)"
    "flagp EVLIST_ACTIVE_LATER ?s = flagp EVLIST_ACTIVE_LATER (evs b)" "flagp EVLIST_INSERTED ?s = flagp EVLIST_INSERTED (evs b)"
    "dls ?s = dls (evs b)" "flagf ?s = (flagf (evs b))(e := {EVLIST_INIT})" "pris ?s = (pris (evs b))(e := length (activequeues b) div 2)"
    "whats ?s = (whats (evs b))(e := what)" "fds ?s = (fds (evs b))(e := fd)"
    using F by (auto simp: field_defs fun_eq_iff)
  have p: "length (activequeues b) div 2 < length (activequeues b)" using q by (cases "activequeues b") auto
  have h: "heap_ok (dls (evs b)) (timeheap b)" using core by (simp add: core_ok_def tmo_ok_def)
  have "e \<notin> set (elems (timeheap b))" using in_heap [OF ok] F(1) by blast
  then have "hidx (timeheap b) e = EV_SIZE_MAX" using h by (simp add: heap_ok_def)
  then have mh: "min_heap_elem_init e (timeheap b) = timeheap b" by (simp add: min_heap_elem_init_def fun_upd_idem)
  have "act_ok (flagp EVLIST_ACTIVE (evs b)) (flagp EVLIST_ACTIVE_LATER (evs b)) ((pris (evs b))(e := length (activequeues b) div 2))
       (activequeues b) (active_later_queue b) (event_count_active b)"
    by (rule act_redate) (use core F p in \<open>simp_all add: core_ok_def flagp_def\<close>)
  moreover have "cnt_ok ((flagf (evs b))(e := {EVLIST_INIT})) (event_count b)"
    by (rule cnt_same) (use core free in \<open>simp_all add: core_ok_def counted_def\<close>)
  moreover have "event_ok (length (activequeues b)) (?s x)" for x
    using core p w by (auto simp: core_ok_def event_ok_def)
  moreover have "ctl_event_ok (length (activequeues b)) ?s c" if "c \<in> set (common_timeout_queues b)" for c
    using core that nc by (auto simp: core_ok_def ctl_event_ok_def Let_def)
  ultimately have "core_ok b'" using core by (simp add: b' mh core_ok_def f)
  moreover have "maps_ok (flagp EVLIST_INSERTED (evs b)) b'"
  proof -
    have I: "\<not> flagp EVLIST_INSERTED (evs b) e" using F by (simp add: flagp_def)
    have io: "io_ok (flagp EVLIST_INSERTED (evs b)) (whats (evs b)) (fds (evs b)) (io b)"
      and sg: "sig_ok (flagp EVLIST_INSERTED (evs b)) (whats (evs b)) (fds (evs b)) (sigmap b)"
      using ok by (simp_all add: base_ok_def maps_ok_def)
    have "ctx_ok ((whats (evs b))(e := what)) c" if c: "entries (io b) fd' = Some c" for fd' c
    proof -
      have "e \<notin> set (io_events c)" using io_okD [OF io, of e fd'] I io_list_Some [OF c] by simp
      then have "count_in ((whats (evs b))(e := what)) w (io_events c) = count_in (whats (evs b)) w (io_events c)" for w
        unfolding count_in_def by (intro arg_cong [where f = length] filter_cong) auto
      then show ?thesis using io c by (simp add: io_ok_def ctx_ok_def)
    qed
    then have "io_ok (flagp EVLIST_INSERTED (evs b)) ((whats (evs b))(e := what)) ((fds (evs b))(e := fd)) (io b)"
      using io I unfolding io_ok_def by auto
    moreover have "sig_ok (flagp EVLIST_INSERTED (evs b)) ((whats (evs b))(e := what)) ((fds (evs b))(e := fd)) (sigmap b)"
      using sg I unfolding sig_ok_def by auto
    ultimately show ?thesis by (simp add: b' maps_ok_def f)
  qed
  ultimately have "base_ok b'"
    using ok e p by (simp add: b' base_ok_def f persist_ok_def addable_def evutil_timerclear_def)
  then show "only e b b'" by (simp add: only_def b' frame_defs)
  show "flags_of b' e = {EVLIST_INIT}" "ev_events (evs b' e) = what" "ev_fd (evs b' e) = fd"
    "evcb_closure (evs b' e) = ?cl" "activequeues b' = activequeues b" "common_timeout_queues b' = common_timeout_queues b"
    by (simp_all add: b')
qed

lemma norm_mod: "0 \<le> us \<Longrightarrow> norm (Timeval s (us mod 1000000))"
  by (simp add: norm_def)

lemma find_common_Some:
  "find_common d cs = Some r \<Longrightarrow> \<exists>i < length cs. r = ctl_duration (cs ! i)"
  by (induction cs) (fastforce split: if_splits)+

lemma tmo_longer:
  assumes ok: "tmo_ok F D h cs" and c: "ctl_events c = []" and len: "length cs < 256"
  shows "tmo_ok F D h (cs @ [c])"
proof -
  have common: "common_in (cs @ [c]) (D x) = common_in cs (D x)" if "F x" for x
  proof -
    have "valid_tv (length cs) (D x)" by (rule tmo_okD(6) [OF ok that])
    then show ?thesis
      by (rule valid_tv_cases) (use len in \<open>auto simp: common_in_def\<close>)
  qed
  show ?thesis
  proof (rule tmo_okI)
    show "heap_ok D h" by (rule tmo_okD(1) [OF ok])
    show "e \<in> set (elems h) \<longleftrightarrow> F e \<and> \<not> common_in (cs @ [c]) (D e)" for e
      using tmo_okD(2) [OF ok, of e] common by blast
    show "ctl_ok F D (cs @ [c]) i" if i: "i < length (cs @ [c])" for i
    proof (cases "i < length cs")
      case True
      show ?thesis by (rule ctl_cong [OF tmo_okD(3) [OF ok True]]) (use common True in \<open>auto simp: nth_append\<close>)
    next
      case False
      then have e: "i = length cs" "(cs @ [c]) ! i = c" using i by (simp_all add: nth_append)
      have "\<not> (F x \<and> common_in (cs @ [c]) (D x) \<and> COMMON_TIMEOUT_IDX (D x) = i)" for x
        using common [of x] e(1) by (auto simp: common_in_def)
      then show ?thesis using e(2) c by (simp add: ctl_ok_def)
    qed
    show "length (cs @ [c]) \<le> 256" using len by simp
    show "e < EVENT_LIMIT \<and> valid_tv (length (cs @ [c])) (D e)" if "F e" for e
      using tmo_okD(5) [OF ok that] valid_tv_mono [OF tmo_okD(6) [OF ok that]] by simp
  qed
qed

lemma base_longer:
  assumes ok: "base_ok b" and len: "length (common_timeout_queues b) < 256"
    and c: "ctl_events c = []" "ctl_event_ok (length (activequeues b)) (evs b) c"
      "tv_usec (ctl_duration c) = stamp (length (common_timeout_queues b)) u" "0 \<le> u" "u < 1000000"
  shows "base_ok (b\<lparr>common_timeout_queues := common_timeout_queues b @ [c]\<rparr>)"
proof -
  have core: "core_ok b" using ok by (simp add: base_ok_def)
  have "dur_ok (map ctl_duration (common_timeout_queues b @ [c]))"
    using core c(3-5) by (auto simp: core_ok_def dur_ok_def nth_append less_Suc_eq)
  moreover have "persist_ok (length (activequeues b)) (length (common_timeout_queues b @ [c])) x (evs b x)" for x
    using ok valid_tv_mono [of "length (common_timeout_queues b)" _ "length (common_timeout_queues b @ [c])"]
    by (auto simp: base_ok_def persist_ok_def)
  ultimately show ?thesis
    using ok core tmo_longer [OF _ c(1) len] c(2) by (simp add: base_ok_def core_ok_def maps_ok_def)
qed

definition list_request_ok :: "nat \<Rightarrow> timeval \<Rightarrow> event_base \<Rightarrow> bool" where
  "list_request_ok fresh dur b \<longleftrightarrow> flags_of b fresh \<inter> counted = {} \<and> fresh < EVENT_LIMIT \<and>
     fresh \<notin> ctl_timeout_event ` set (common_timeout_queues b) \<and> activequeues b \<noteq> [] \<and>
     0 \<le> tv_usec dur \<and> tv_usec dur \<noteq> 1000000"

lemma internal_ok:
  assumes ok: "base_ok b" and e: "flags_of b e = {EVLIST_INIT}"
  shows "reflagged (insert EVLIST_INTERNAL (flags_of b e)) e b (set_flag e EVLIST_INTERNAL b)"
proof -
  let ?X = "{EVLIST_INTERNAL, EVLIST_INIT}"
  define c where "c = set_flag e EVLIST_INTERNAL b"
  have c: "evs c = (evs b)(e := (evs b e)\<lparr>evcb_flags := ?X\<rparr>)" "same_frame b c" "same_maps b c"
    "timeheap c = timeheap b" "common_timeout_queues c = common_timeout_queues b" "activequeues c = activequeues b"
    "active_later_queue c = active_later_queue b" "event_count_active c = event_count_active b" "event_count c = event_count b"
    using e by (simp_all add: c_def set_flag_def frame_defs)
  have core: "core_ok b" using ok by (simp add: base_ok_def)
  have "core_ok c"
  proof (rule core_flip [OF core c(1,2)])
    show "cnt_ok ((flagf (evs b))(e := ?X)) (event_count c)"
      unfolding c(9) by (rule cnt_same) (use core e in \<open>simp_all add: core_ok_def counted_def\<close>)
    show "event_ok (length (activequeues b)) ((evs b e)\<lparr>evcb_flags := ?X\<rparr>)"
      using core e by (auto simp: core_ok_def event_ok_def dest: spec [of _ e])
  qed (use core e in \<open>simp_all add: c core_ok_def\<close>)
  then have "flipped ?X e b c" using c by (simp add: flipped_def)
  then have "reflagged ?X e b c" by (rule flipped_reflagged [OF _ ok]) (use e in auto)
  then show ?thesis using e by (simp add: c_def insert_commute)
qed

lemma init_common_ok:
  assumes ok: "base_ok b" and g: "list_request_ok fresh dur b"
    and eq: "event_base_init_common_timeout env fresh dur b = (r, b')"
  shows "base_ok b'" "r = Some tv \<Longrightarrow> is_common_timeout tv b' \<and> valid_tv (length (common_timeout_queues b')) tv"
    "activequeues b' = activequeues b"
proof -
  define d where "d = (if tv_usec dur > 1000000 then
       (let us = (if is_common_timeout dur b then and (tv_usec dur) MICROSECONDS_MASK else tv_usec dur)
        in Timeval (tv_sec dur + us div 1000000) (us mod 1000000)) else dur)"
  have nd: "norm d"
    using g norm_mod by (auto simp: d_def list_request_ok_def norm_def Let_def)
  have core: "core_ok b" using ok by (simp add: base_ok_def)
  let ?n = "length (common_timeout_queues b)"
  have len: "?n \<le> 256" using core by (simp add: core_ok_def tmo_ok_def)
  have "base_ok b' \<and> (\<forall>tv. r = Some tv \<longrightarrow> is_common_timeout tv b' \<and> valid_tv (length (common_timeout_queues b')) tv) \<and>
    activequeues b' = activequeues b"
  proof (cases "find_common d (common_timeout_queues b)")
    case (Some t)
    from find_common_Some [OF Some] obtain i where i: "i < ?n" "t = ctl_duration (common_timeout_queues b ! i)" by blast
    have "\<exists>u. 0 \<le> u \<and> u < 1000000 \<and> tv_usec t = stamp i u"
      using core i by (simp add: core_ok_def dur_ok_def)
    then have v: "\<exists>u. 0 \<le> u \<and> u < 1000000 \<and> tv_usec t = stamp i u" "valid_tv ?n t" using i(1) by (auto simp: valid_tv_def)
    have i2: "i < 256" using i(1) len by simp
    have cm: "is_common_timeout t b"
      using v(1) stamp_facts(3,4) [OF _ _ i2] i(1)
      by (auto simp: is_common_in common_in_def magic_def COMMON_TIMEOUT_IDX_def)
    then have "r = Some t" "b' = b"
      using eq Some by (simp_all add: event_base_init_common_timeout_def d_def [symmetric] ev_assert_def)
    then show ?thesis using ok cm v(2) by simp
  next
    case None
    show ?thesis
    proof (cases "?n = MAX_COMMON_TIMEOUTS \<or> \<not> mem env (8 * (if ?n < 16 then 16 else 2 * ?n)) \<or> \<not> mem env 160")
      case True
      then have "r = None \<and> b' = b"
        using eq None by (auto simp: event_base_init_common_timeout_def d_def [symmetric] Let_def split: if_splits)
      then show ?thesis using ok by simp
    next
      case False
      then have l: "?n < 256" using len by (simp add: MAX_COMMON_TIMEOUTS_def)
      define t where "t = Timeval (tv_sec d) (stamp ?n (tv_usec d))"
      obtain b1 where a1: "event_assign fresh (-1) {} b = (0, b1)"
        by (simp add: event_assign_def Let_def)
      note as = assign_ok [OF ok _ _ _ _ a1]
      have as': "only fresh b b1" "flags_of b1 fresh = {EVLIST_INIT}" "ev_events (evs b1 fresh) = {}"
        "evcb_closure (evs b1 fresh) = EV_CLOSURE_EVENT" "activequeues b1 = activequeues b"
        "common_timeout_queues b1 = common_timeout_queues b"
        using as g by (simp_all add: list_request_ok_def)
      have b1: "base_ok b1" using as'(1) by (simp add: only_def)
      define b2 where "b2 = set_flag fresh EVLIST_INTERNAL b1"
      note in2 = internal_ok [OF b1 as'(2), folded b2_def]
      have b2: "base_ok b2" using in2 by (simp add: reflagged_def)
      obtain r3 b3 where p3: "event_priority_set fresh 0 b2 = (r3, b3)" by fastforce
      note ps = priority_set_ok [OF b2 p3]
      have q2: "activequeues b2 = activequeues b" "common_timeout_queues b2 = common_timeout_queues b"
        by (simp_all add: b2_def set_flag_def as')
      have e2: "evs b2 fresh = (evs b1 fresh)\<lparr>evcb_flags := {EVLIST_INTERNAL, EVLIST_INIT}\<rparr>"
        using as'(2) by (simp add: b2_def set_flag_def)
      have b3: "b3 = upd_ev fresh (\<lambda>ev. ev\<lparr>evcb_pri := 0\<rparr>) b2"
        using p3 g q2 by (auto simp: event_priority_set_def e2 list_request_ok_def)
      let ?c = "\<lparr>ctl_events = [], ctl_duration = t, ctl_timeout_event = fresh\<rparr>"
      define b4 where "b4 = b3\<lparr>common_timeout_queues := common_timeout_queues b3 @ [?c]\<rparr>"
      have q3: "activequeues b3 = activequeues b" "common_timeout_queues b3 = common_timeout_queues b"
        by (simp_all add: b3 q2)
      have "ctl_event_ok (length (activequeues b3)) (evs b3) ?c"
        using g as'(3,4) by (simp add: ctl_event_ok_def addable_def b3 e2 q2 Let_def list_request_ok_def)
      then have ok4: "base_ok b4"
        unfolding b4_def using ps(1) nd l q3
        by (intro base_longer [where u = "tv_usec d"]) (simp_all add: only_def t_def norm_def)
      have cq: "common_timeout_queues b4 = common_timeout_queues b @ [?c]" by (simp add: b4_def q3)
      have cm: "is_common_timeout t b4"
        using stamp_facts(3,4) [of "tv_usec d" ?n] nd l
        by (simp add: is_common_in common_in_def magic_def COMMON_TIMEOUT_IDX_def cq t_def norm_def)
      have v: "valid_tv (length (common_timeout_queues b4)) t"
        using nd by (auto simp: valid_tv_def t_def cq norm_def)
      have "(r, b') = (Some t, ev_assert (is_common_timeout t b4) b4)"
        using eq None False a1 p3
        by (simp add: event_base_init_common_timeout_def d_def [symmetric] Let_def b2_def [symmetric] b4_def t_def stamp_def q3)
      then have "r = Some t" "b' = b4" using cm by (simp_all add: ev_assert_def)
      then show ?thesis using ok4 cm v by (simp add: b4_def q3)
    qed
  qed
  then show "base_ok b'" "r = Some tv \<Longrightarrow> is_common_timeout tv b' \<and> valid_tv (length (common_timeout_queues b')) tv"
    "activequeues b' = activequeues b" by blast+
qed

end
