(* ===== verification/EventClosures.thy ===== *)
theory EventClosures
  imports EventProcess
begin

text \<open>Running the callbacks of events, and the loop.\<close>

section \<open>Persistent events\<close>

lemma norm_masked_upper:
  assumes "valid_tv n t" and "n \<le> 256"
  shows "norm (masked t)" and "upper t = 0 \<Longrightarrow> norm t"
  using assms by (auto elim!: valid_tv_cases simp: norm_masked)

lemma upper_norm: "norm t \<Longrightarrow> upper t = 0"
  using plain_facts(2) by (simp add: norm_def upper_def)

lemma persist_run_at_ok:
  assumes io: "valid_tv n (ev_io_timeout ev)" and t: "valid_tv n (ev_timeout ev)" and n: "n \<le> 256"
    and same: "upper (ev_timeout ev) = upper (ev_io_timeout ev)" and now: "norm now"
    and c: "c \<longleftrightarrow> magic (ev_timeout ev) \<and> COMMON_TIMEOUT_IDX (ev_timeout ev) < n"
  shows "valid_tv n (persist_run_at ev c now)" "upper (persist_run_at ev c now) = upper (ev_io_timeout ev)"
    "now \<le> masked (persist_run_at ev c now) \<or> \<not> Timeval 0 0 \<le> masked (ev_io_timeout ev)"
    "masked (persist_run_at ev c now) =
       (let next = evutil_timeradd (if EV_TIMEOUT \<in> ev_res ev then masked (ev_timeout ev) else now) (masked (ev_io_timeout ev))
        in if next < now then evutil_timeradd now (masked (ev_io_timeout ev)) else next)"
proof -
  let ?io = "ev_io_timeout ev"
  define delay where "delay = (if c then masked ?io else ?io)"
  define rel where "rel = (if EV_TIMEOUT \<in> ev_res ev then (if c then masked (ev_timeout ev) else ev_timeout ev) else now)"
  define run where "run = (if evutil_timeradd rel delay < now then evutil_timeradd now delay else evutil_timeradd rel delay)"
  define um where "um = (if c then and (tv_usec ?io) (not MICROSECONDS_MASK) else 0)"
  have r: "persist_run_at ev c now = Timeval (tv_sec run) (or (tv_usec run) um)"
    by (simp add: persist_run_at_def Let_def run_def rel_def delay_def um_def)
  have uc: "\<not> c \<Longrightarrow> upper ?io = 0"
    using magic_upper [OF same] c by (auto intro: valid_tv_cases [OF io n])
  have nd: "norm delay" using norm_masked_upper [OF io n] uc by (auto simp: delay_def)
  have nr: "norm rel" using norm_masked_upper [OF t n] uc same now by (auto simp: rel_def)
  have nrun: "norm run" using norm_timeradd [OF nr nd] norm_timeradd [OF now nd] by (simp add: run_def)
  have mio: "masked ?io = delay"
    by (rule valid_tv_cases [OF io n]) (auto simp: delay_def c same magic_upper [OF same])
  have mrel: "rel = (if EV_TIMEOUT \<in> ev_res ev then masked (ev_timeout ev) else now)"
    using uc same by (auto simp: rel_def intro: valid_tv_cases [OF t n])
  have le: "now \<le> run \<or> \<not> Timeval 0 0 \<le> delay"
  proof (cases "evutil_timeradd rel delay < now")
    case False
    then have "now \<le> run" using leI by (simp add: run_def)
    then show ?thesis ..
  next
    case True
    show ?thesis
    proof (intro disjCI)
      assume "\<not> \<not> Timeval 0 0 \<le> delay"
      then have "0 \<le> tv_sec delay" using nd by (auto simp: less_eq_timeval_def norm_def split: if_splits)
      then have "now \<le> evutil_timeradd now delay"
        using nd now by (auto simp: less_eq_timeval_def evutil_timeradd_def Let_def norm_def)
      then show "now \<le> run" using True by (simp add: run_def)
    qed
  qed
  have "valid_tv n (persist_run_at ev c now) \<and> upper (persist_run_at ev c now) = upper ?io \<and> masked (persist_run_at ev c now) = run"
  proof (rule valid_tv_cases [OF io n])
    assume "norm ?io" "\<not> magic ?io" "masked ?io = ?io" "upper ?io = 0"
    then have "um = 0" using c magic_upper(1) [OF same] by (simp add: um_def)
    then have p: "persist_run_at ev c now = run" using r by (simp add: timeval.expand)
    have "and (tv_usec run) MICROSECONDS_MASK = tv_usec run" using plain_facts(1) nrun by (simp add: norm_def)
    then show ?thesis using p nrun upper_norm [OF nrun] \<open>upper ?io = 0\<close>
      by (simp add: valid_tv_def masked_def timeval.expand)
  next
    fix i u
    assume s: "i < n" "magic ?io" "COMMON_TIMEOUT_IDX ?io = i" "upper ?io = 2 ^ 20 * (1280 + int i)" "tv_usec ?io = stamp i u"
      "0 \<le> u" "u < 1000000"
    have i: "i < 256" using s(1) n by simp
    have c: "c" using c magic_upper [OF same] s(1-3) by simp
    have v: "0 \<le> tv_usec run" "tv_usec run < 1000000" using nrun by (simp_all add: norm_def)
    have p: "persist_run_at ev c now = Timeval (tv_sec run) (stamp i (tv_usec run))"
      using r c stamped_deadline [OF v i s(6,7)] by (simp add: um_def s(5))
    note f = stamp_facts [OF v i]
    have "valid_tv n (persist_run_at ev c now)" unfolding p valid_tv_def using s(1) v by auto
    then show ?thesis using f s(4) by (simp add: p upper_def masked_def timeval.expand)
  qed
  then show "valid_tv n (persist_run_at ev c now)" "upper (persist_run_at ev c now) = upper ?io"
    "now \<le> masked (persist_run_at ev c now) \<or> \<not> Timeval 0 0 \<le> masked ?io"
    using le mio by simp_all
  show "masked (persist_run_at ev c now) =
       (let next = evutil_timeradd (if EV_TIMEOUT \<in> ev_res ev then masked (ev_timeout ev) else now) (masked ?io)
        in if next < now then evutil_timeradd now (masked ?io) else next)"
    using \<open>valid_tv n (persist_run_at ev c now) \<and> _\<close> unfolding mrel [symmetric] mio by (simp add: run_def Let_def)
qed

lemma persist_reschedule_ok:
  assumes ok: "base_ok b" and c: "evcb_closure (evs b e) = EV_CLOSURE_EVENT_PERSIST" and mem: "\<forall>n. mem env n"
  shows "base_ok (persist_reschedule env e b) \<and> same_frame b (persist_reschedule env e b)"
    "ev_io_timeout (evs b e) \<noteq> Timeval 0 0 \<Longrightarrow> evs (persist_reschedule env e b) = evs b \<or>
       EVLIST_TIMEOUT \<in> flags_of (persist_reschedule env e b) e \<and>
       deadline (persist_reschedule env e b) e =
         persist_run_at (evs b e) (is_common_timeout (deadline b e) b) (fst (gettime b))"
proof -
  have "(base_ok (persist_reschedule env e b) \<and> same_frame b (persist_reschedule env e b)) \<and>
    (ev_io_timeout (evs b e) \<noteq> Timeval 0 0 \<longrightarrow> evs (persist_reschedule env e b) = evs b \<or>
       EVLIST_TIMEOUT \<in> flags_of (persist_reschedule env e b) e \<and>
       deadline (persist_reschedule env e b) e =
         persist_run_at (evs b e) (is_common_timeout (deadline b e) b) (fst (gettime b)))"
proof (cases "ev_io_timeout (evs b e) = Timeval 0 0")
  case True
  then show ?thesis using ok by (simp add: persist_reschedule_def Let_def frame_defs)
next
  case False
  let ?n = "length (common_timeout_queues b)" let ?ev = "evs b e"
  have nz: "tv_sec (ev_io_timeout ?ev) \<noteq> 0 \<or> tv_usec (ev_io_timeout ?ev) \<noteq> 0"
    using False by (cases "ev_io_timeout ?ev") auto
  have p: "addable (length (activequeues b)) e ?ev" "valid_tv ?n (ev_io_timeout ?ev)" "valid_tv ?n (ev_timeout ?ev)"
    "is_same_common_timeout (ev_timeout ?ev) (ev_io_timeout ?ev)"
  proof -
    have "persist_ok (length (activequeues b)) ?n e ?ev" using ok by (simp add: base_ok_def)
    then show "addable (length (activequeues b)) e ?ev" "valid_tv ?n (ev_io_timeout ?ev)" "valid_tv ?n (ev_timeout ?ev)"
      "is_same_common_timeout (ev_timeout ?ev) (ev_io_timeout ?ev)"
      using c False by (simp_all add: persist_ok_def)
  qed
  have core: "core_ok b" using ok by (simp add: base_ok_def)
  have n: "?n \<le> 256" using core by (simp add: core_ok_def tmo_ok_def)
  obtain now b1 where g: "gettime b = (now, b1)" by fastforce
  note gt = gettime_ok [OF g]
  define r where "r = persist_run_at ?ev (is_common_timeout (ev_timeout ?ev) b1) now"
  have cm: "is_common_timeout (ev_timeout ?ev) b1 \<longleftrightarrow> magic (ev_timeout ?ev) \<and> COMMON_TIMEOUT_IDX (ev_timeout ?ev) < ?n"
    using is_common_frame [OF gt(6)] by (simp add: is_common_in common_in_def)
  note ra = persist_run_at_ok(1,2) [OF p(2,3) n _ gt(1) [OF core] cm, folded r_def]
  have same: "upper (ev_timeout ?ev) = upper (ev_io_timeout ?ev)" using p(4) by (simp add: is_same_upper)
  have v: "valid_tv ?n r" "upper r = upper (ev_io_timeout ?ev)" using ra same by simp_all
  have ad: "add_ok env e (Some r) True b1"
    using ok gt p(1) v mem by (simp add: add_ok_def is_same_upper)
  obtain q b2 where q: "event_add_nolock env e (Some r) True b1 = (q, b2)" by fastforce
  have "persist_reschedule env e b = b2"
    using nz p(4) g q by (simp add: persist_reschedule_def Let_def ev_assert_def r_def)
  moreover have "same_frame b b2" using event_add_nolock_ok(2) [OF ad q] gt(6) by (auto simp: same_frame_def)
  moreover have "evs b2 = evs b \<or> EVLIST_TIMEOUT \<in> flags_of b2 e \<and>
       deadline b2 e = persist_run_at (evs b e) (is_common_timeout (deadline b e) b) (fst (gettime b))"
  proof (cases "q = -1")
    case True
    then show ?thesis using event_add_nolock_ok(4) [OF ad q] gt(2) by simp
  next
    case False
    then have q0: "q = 0" using event_add_nolock_ok(3) [OF ad q] by simp
    have "e \<notin> ctl_timeout_event ` set (common_timeout_queues b1)"
      using core c gt(9) by (auto simp: core_ok_def ctl_event_ok_def Let_def)
    then show ?thesis
      using event_add_deadline [OF ad q _ q0 refl] is_common_frame [OF gt(6)] g
      by (simp add: new_deadline_def r_def)
  qed
  ultimately show ?thesis using event_add_nolock_ok(1) [OF ad q] by simp
qed
  then show "base_ok (persist_reschedule env e b) \<and> same_frame b (persist_reschedule env e b)"
    "ev_io_timeout (evs b e) \<noteq> Timeval 0 0 \<Longrightarrow> evs (persist_reschedule env e b) = evs b \<or>
       EVLIST_TIMEOUT \<in> flags_of (persist_reschedule env e b) e \<and>
       deadline (persist_reschedule env e b) e =
         persist_run_at (evs b e) (is_common_timeout (deadline b e) b) (fst (gettime b))" by blast+
qed

section \<open>Common timeouts\<close>

lemma ctl_list:
  assumes "base_ok b" and "i < length (common_timeout_queues b)"
  shows "distinct (ctl_events (common_timeout_queues b ! i))" "sorted (map (deadline b) (ctl_events (common_timeout_queues b ! i)))"
    "e \<in> set (ctl_events (common_timeout_queues b ! i)) \<longleftrightarrow>
       EVLIST_TIMEOUT \<in> flags_of b e \<and> is_common_timeout (deadline b e) b \<and> COMMON_TIMEOUT_IDX (deadline b e) = i"
  using tmo_okD(3) [OF base_tmo [OF assms(1)] assms(2)] by (simp_all add: ctl_ok_def Let_def is_common_in)

lemma fire_list:
  fixes env :: event_env
  assumes ok: "base_ok b" and i: "i < length (common_timeout_queues b)"
    and e: "e \<in> set (ctl_events (common_timeout_queues b ! i))"
  defines "c \<equiv> fire_timeout env e b"
  shows "base_ok c" "same_frame b c"
    "set (ctl_events (common_timeout_queues c ! i)) = set (ctl_events (common_timeout_queues b ! i)) - {e}"
    "length (ctl_events (common_timeout_queues c ! i)) < length (ctl_events (common_timeout_queues b ! i))"
proof -
  have t: "EVLIST_TIMEOUT \<in> flags_of b e" using ctl_list(3) [OF ok i] e by blast
  note f = fire_ok [OF ok t, of env, folded c_def]
  have c: "base_ok c" "same_frame b c" "\<And>x. x \<noteq> e \<Longrightarrow> evs c x = evs b x" using f(1) by (simp_all add: only_def)
  have j: "i < length (common_timeout_queues c)" using i same_frame_ctl [OF c(2)] by simp
  show s: "set (ctl_events (common_timeout_queues c ! i)) = set (ctl_events (common_timeout_queues b ! i)) - {e}"
  proof (rule set_eqI)
    fix x
    show "x \<in> set (ctl_events (common_timeout_queues c ! i)) \<longleftrightarrow> x \<in> set (ctl_events (common_timeout_queues b ! i)) - {e}"
    proof (cases "x = e")
      case True
      then show ?thesis using ctl_list(3) [OF c(1) j, of x] f(2) by (simp add: counted_def)
    next
      case False
      then show ?thesis
        using ctl_list(3) [OF c(1) j, of x] ctl_list(3) [OF ok i, of x] c(3) [OF False] is_common_frame [OF c(2)] by simp
    qed
  qed
  have "card (set (ctl_events (common_timeout_queues c ! i))) < card (set (ctl_events (common_timeout_queues b ! i)))"
    unfolding s by (rule psubset_card_mono) (use e in auto)
  then show "length (ctl_events (common_timeout_queues c ! i)) < length (ctl_events (common_timeout_queues b ! i))"
    using ctl_list(1) [OF ok i] ctl_list(1) [OF c(1) j] by (simp add: distinct_card)
  show "base_ok c" "same_frame b c" by (rule c(1), rule c(2))
qed

lemma common_timeout_loop_ok:
  assumes "base_ok b" and "i < length (common_timeout_queues b)"
  shows "\<exists>h b'. common_timeout_loop env i now b = Some (h, b') \<and> base_ok b' \<and> same_frame b b' \<and>
    (case h of None \<Rightarrow> ctl_events (common_timeout_queues b' ! i) = []
     | Some e \<Rightarrow> e \<in> set (ctl_events (common_timeout_queues b' ! i)) \<and> now < masked (deadline b' e))"
  using assms
proof (induction "length (ctl_events (common_timeout_queues b ! i))" arbitrary: b rule: less_induct)
  case less
  show ?case
  proof (cases "ctl_events (common_timeout_queues b ! i)")
    case Nil
    then show ?thesis using less.prems by (simp add: common_timeout_loop.simps [of env] frame_defs)
  next
    case (Cons e es)
    show ?thesis
    proof (cases "masked (deadline b e) > now")
      case True
      then show ?thesis using Cons less.prems by (simp add: common_timeout_loop.simps [of env] frame_defs)
    next
      case False
      define c where "c = fire_timeout env e b"
      have e: "e \<in> set (ctl_events (common_timeout_queues b ! i))" using Cons by simp
      note f = fire_list [OF less.prems e, of env, folded c_def]
      have i: "i < length (common_timeout_queues c)" using less.prems(2) same_frame_ctl [OF f(2)] by simp
      from less.hyps [OF f(4,1) i] obtain h b' where h: "common_timeout_loop env i now c = Some (h, b')" "base_ok b'" "same_frame c b'"
        "case h of None \<Rightarrow> ctl_events (common_timeout_queues b' ! i) = []
         | Some e \<Rightarrow> e \<in> set (ctl_events (common_timeout_queues b' ! i)) \<and> now < masked (deadline b' e)" by blast
      have "common_timeout_loop env i now b = Some (h, b')" using Cons False h(1) by (simp add: common_timeout_loop.simps [of env i now b] c_def)
      moreover have "same_frame b b'" using f(2) h(3) by (auto simp: same_frame_def)
      ultimately show ?thesis using h(2,4) by blast
    qed
  qed
qed

lemma common_timeout_callback_ok:
  assumes ok: "base_ok b" and i: "i < length (common_timeout_queues b)" and mem: "\<forall>n. mem env n"
  shows "\<exists>b'. common_timeout_callback env i b = Some b' \<and> base_ok b' \<and> same_frame b b'"
proof -
  obtain now c where g: "gettime b = (now, c)" by fastforce
  note gt = gettime_ok [OF g]
  have c: "base_ok c" "i < length (common_timeout_queues c)" using ok i gt by simp_all
  from common_timeout_loop_ok [OF c, of env now] obtain h d where h: "common_timeout_loop env i now c = Some (h, d)"
    "base_ok d" "same_frame c d" "case h of None \<Rightarrow> ctl_events (common_timeout_queues d ! i) = []
     | Some e \<Rightarrow> e \<in> set (ctl_events (common_timeout_queues d ! i)) \<and> now < masked (deadline d e)" by blast
  have fr: "same_frame b d" using gt(6) h(3) by (auto simp: same_frame_def)
  show ?thesis
  proof (cases h)
    case None
    then show ?thesis using g h fr by (simp add: common_timeout_callback_def)
  next
    case (Some e)
    have j: "i < length (common_timeout_queues d)" using c(2) same_frame_ctl [OF h(3)] by simp
    have t: "EVLIST_TIMEOUT \<in> flags_of d e" using ctl_list(3) [OF h(2) j] h(4) Some by simp
    have core: "core_ok d" using h(2) by (simp add: base_ok_def)
    have v: "valid_tv (length (common_timeout_queues d)) (deadline d e)" "length (common_timeout_queues d) \<le> 256"
      using tmo_okD(4) [OF base_tmo [OF h(2)]] tmo_okD(6) [OF base_tmo [OF h(2)], of e] t by simp_all
    let ?h = "ctl_timeout_event (common_timeout_queues d ! i)"
    have "add_ok env ?h (Some (masked (deadline d e))) True d"
      using h(2) ctl_event_at [OF core j] mem norm_masked [OF v] by (simp add: add_ok_def ctl_event_ok_def Let_def valid_tv_def)
    moreover obtain q b' where q: "event_add_nolock env ?h (Some (masked (deadline d e))) True d = (q, b')" by fastforce
    ultimately have "base_ok b'" "same_frame d b'" using event_add_nolock_ok(1,2) by blast+
    moreover have "common_timeout_callback env i b = Some b'"
      using g h(1) Some q by (simp add: common_timeout_callback_def common_timeout_schedule_def)
    ultimately show ?thesis using fr by (auto simp: same_frame_def)
  qed
qed

section \<open>Closures\<close>

definition keeps :: "event_base \<Rightarrow> event_base \<Rightarrow> bool" where
  "keeps b b' \<longleftrightarrow> base_ok b' \<and> length (activequeues b') = length (activequeues b)"

text \<open>The callbacks, the backend and the watchers use the base by its operations.\<close>

definition app_ok :: "event_app \<Rightarrow> bool" where
  "app_ok app \<longleftrightarrow> (\<forall>e res b. base_ok b \<longrightarrow> keeps b (callback app e res b)) \<and>
     (\<forall>tv b. base_ok b \<longrightarrow> keeps b (snd (dispatch app tv b))) \<and>
     (\<forall>tv b. base_ok b \<longrightarrow> keeps b (prepare_watchers app tv b)) \<and>
     (\<forall>b. base_ok b \<longrightarrow> keeps b (check_watchers app b))"

lemma app_okD:
  assumes "app_ok app" and "base_ok b"
  shows "keeps b (callback app e res b)" "keeps b (snd (dispatch app tv b))" "keeps b (prepare_watchers app tv b)"
    "keeps b (check_watchers app b)"
  using assms unfolding app_ok_def by blast+

lemma keeps_refl: "base_ok b \<Longrightarrow> keeps b b"
  by (simp add: keeps_def)

lemma keeps_trans: "keeps a b \<Longrightarrow> keeps b c \<Longrightarrow> keeps a c"
  by (simp add: keeps_def)

lemma keeps_base: "keeps a b \<Longrightarrow> base_ok b"
  by (simp add: keeps_def)

lemma keepsI: "base_ok b' \<Longrightarrow> same_frame b b' \<Longrightarrow> keeps b b'"
  by (simp add: keeps_def same_frame_def)

lemma only_keeps: "only e b b' \<Longrightarrow> keeps b b'"
  by (simp add: only_def keeps_def same_frame_def)

lemma keeps_run [simp]:
  "keeps a (b\<lparr>event_continue := c\<rparr>) = keeps a b" "keeps a (b\<lparr>n_deferreds_queued := n\<rparr>) = keeps a b"
  "keeps a (b\<lparr>event_running_priority := p\<rparr>) = keeps a b" "keeps a (b\<lparr>current_event := ce\<rparr>) = keeps a b"
  "keeps a (b\<lparr>event_break := c\<rparr>) = keeps a b" "keeps a (b\<lparr>event_gotterm := c\<rparr>) = keeps a b"
  "keeps a (b\<lparr>running_loop := c\<rparr>) = keeps a b" "keeps a (b\<lparr>sig_ncalls := n\<rparr>) = keeps a b"
  by (simp_all add: keeps_def)

lemma run_callback_ok:
  assumes app: "app_ok app" and mem: "\<forall>n. mem env n" and ok: "base_ok b" and r: "run_callback env app e res b = Some b'"
  shows "keeps b b'"
proof (cases "filter (\<lambda>i. ctl_timeout_event (common_timeout_queues b ! i) = e) [0..<length (common_timeout_queues b)]")
  case Nil
  then show ?thesis using r app_okD(1) [OF app ok] by (auto simp: run_callback_def)
next
  case (Cons i js)
  then have "i \<in> set (filter (\<lambda>i. ctl_timeout_event (common_timeout_queues b ! i) = e) [0..<length (common_timeout_queues b)])"
    by simp
  then have "i < length (common_timeout_queues b)" by simp
  from common_timeout_callback_ok [OF ok this mem] obtain c where
    c: "common_timeout_callback env i b = Some c" "base_ok c" "same_frame b c" by blast
  then have "b' = c" using r Cons by (simp add: run_callback_def)
  then show ?thesis using keepsI [OF c(2,3)] by simp
qed

lemma upd_keeps:
  assumes ok: "base_ok b" and f: "\<And>ev. \<exists>n p r. f ev = ev\<lparr>ev_ncalls := n, ev_pncalls := p, ev_res := r\<rparr>"
  shows "keeps b (upd_ev e f b)"
proof -
  obtain n p r where "f (evs b e) = (evs b e)\<lparr>ev_ncalls := n, ev_pncalls := p, ev_res := r\<rparr>" using f by blast
  then show ?thesis by (intro only_keeps [where e = e] upd_only [OF ok]) simp_all
qed

lemma upd_pncalls: "base_ok b \<Longrightarrow> keeps b (upd_ev e (\<lambda>ev. ev\<lparr>ev_pncalls := x\<rparr>) b)"
  by (rule only_keeps, rule upd_only) simp_all

lemma signal_closure_ok:
  assumes app: "app_ok app" and mem: "\<forall>n. mem env n"
  shows "base_ok b \<Longrightarrow> event_signal_closure env app e n b = Some b' \<Longrightarrow> keeps b b'"
proof (induction n arbitrary: b b' rule: less_induct)
  case (less n)
  show ?case
  proof (cases n)
    case 0
    then show ?thesis using less.prems keeps_refl by simp
  next
    case (Suc m)
    define c where "c = upd_ev e (\<lambda>ev. ev\<lparr>ev_ncalls := m, ev_pncalls := ev_pncalls ev \<and> m \<noteq> 0\<rparr>) (b\<lparr>sig_ncalls := m\<rparr>)"
    have b1: "base_ok (b\<lparr>sig_ncalls := m\<rparr>)" using less.prems(1) by simp
    have "keeps (b\<lparr>sig_ncalls := m\<rparr>) c"
      unfolding c_def by (rule only_keeps, rule upd_only [OF b1]) simp_all
    then have c: "keeps b c" by (simp add: keeps_def)
    from less.prems(2) Suc obtain d where d: "run_callback env app e (ev_res (evs c e)) c = Some d"
      by (auto simp: c_def Let_def split: option.splits)
    have kd: "keeps b d" using keeps_trans [OF c run_callback_ok [OF app mem keeps_base [OF c] d]] .
    have r: "Some b' = (if event_break d
         then Some (if sig_ncalls d \<noteq> 0 then upd_ev e (\<lambda>ev. ev\<lparr>ev_pncalls := False\<rparr>) d else d)
         else event_signal_closure env app e (if sig_ncalls d = 0 then 0 else m) d)"
      using less.prems(2) Suc d by (simp add: c_def Let_def)
    show ?thesis
    proof (cases "event_break d")
      case True
      then show ?thesis using r kd keeps_trans [OF kd upd_pncalls [OF keeps_base [OF kd]]] by (auto split: if_splits)
    next
      case False
      then have "event_signal_closure env app e (if sig_ncalls d = 0 then 0 else m) d = Some b'" using r by simp
      from less.IH [OF _ keeps_base [OF kd] this] Suc show ?thesis using keeps_trans [OF kd] by simp
    qed
  qed
qed

lemma run_closure_ok:
  assumes app: "app_ok app" and mem: "\<forall>n. mem env n" and ok: "base_ok b" and r: "run_closure env app e b = Some b'"
  shows "keeps b b'"
proof -
  have fin: "evcb_closure (evs b e) \<in> {EV_CLOSURE_CB_FINALIZE, EV_CLOSURE_EVENT_FINALIZE, EV_CLOSURE_EVENT_FINALIZE_FREE} \<Longrightarrow>
     EVLIST_FINALIZING \<in> flags_of b e"
  proof -
    have "event_ok (length (activequeues b)) (evs b e)" using ok by (simp add: base_ok_def core_ok_def)
    then show "evcb_closure (evs b e) \<in> {EV_CLOSURE_CB_FINALIZE, EV_CLOSURE_EVENT_FINALIZE, EV_CLOSURE_EVENT_FINALIZE_FREE} \<Longrightarrow>
       EVLIST_FINALIZING \<in> flags_of b e" by (simp add: event_ok_def)
  qed
  have cur: "keeps b (b\<lparr>current_event := None\<rparr>)" using keeps_refl [OF ok] by simp
  have cb: "keeps b (callback app e res b)" for res by (rule app_okD(1) [OF app ok])
  have cbf: "keeps b (callback app e {} (b\<lparr>current_event := None\<rparr>))"
    using keeps_trans [OF cur app_okD(1) [OF app keeps_base [OF cur]]] .
  show ?thesis
  proof (cases "evcb_closure (evs b e)")
    case EV_CLOSURE_EVENT
    then show ?thesis using r run_callback_ok [OF app mem ok] by (simp add: run_closure_def)
  next
    case EV_CLOSURE_EVENT_SIGNAL
    define c where "c = (if ev_ncalls (evs b e) \<noteq> 0 then upd_ev e (\<lambda>ev. ev\<lparr>ev_pncalls := True\<rparr>) b else b)"
    have c: "keeps b c" using upd_pncalls [OF ok] keeps_refl [OF ok] by (simp add: c_def)
    have "event_signal_closure env app e (ev_ncalls (evs b e)) c = Some b'"
      using r EV_CLOSURE_EVENT_SIGNAL by (simp add: run_closure_def Let_def c_def)
    then show ?thesis using keeps_trans [OF c signal_closure_ok [OF app mem keeps_base [OF c]]] by blast
  next
    case EV_CLOSURE_EVENT_PERSIST
  note p = persist_reschedule_ok(1) [OF ok EV_CLOSURE_EVENT_PERSIST mem]
    then have k: "keeps b (persist_reschedule env e b)" using keepsI by blast
    have "run_callback env app e (ev_res (evs (persist_reschedule env e b) e)) (persist_reschedule env e b) = Some b'"
      using r EV_CLOSURE_EVENT_PERSIST by (simp add: run_closure_def event_persist_closure_def Let_def)
    then show ?thesis using keeps_trans [OF k run_callback_ok [OF app mem keeps_base [OF k]]] by blast
  next
    case EV_CLOSURE_CB_SELF
    then show ?thesis using r cb by (auto simp: run_closure_def)
  qed (use r cbf fin in \<open>auto simp: run_closure_def ev_assert_def\<close>)
qed

lemma take_active_ok:
  assumes ok: "base_ok b" and e: "EVLIST_ACTIVE \<in> flags_of b e"
  shows "only e b (take_active env e b)" "EVLIST_ACTIVE \<notin> flags_of (take_active env e b) e"
proof -
  have core: "core_ok b" using ok by (simp add: base_ok_def)
  have rm: "reflagged (flags_of b e - {EVLIST_ACTIVE}) e b (event_queue_remove_active e b)"
    by (rule flipped_reflagged [OF remove_active_ok [OF core e] ok]) simp_all
  have "\<exists>X. reflagged X e b (take_active env e b) \<and> EVLIST_ACTIVE \<notin> X"
  proof (cases "EVLIST_INIT \<in> flags_of b e \<and> \<not> (EV_PERSIST \<in> ev_events (evs b e) \<or> EVLIST_FINALIZING \<in> flags_of b e)")
    case True
    obtain r c where c: "event_del_nolock env e EVENT_DEL_NOBLOCK b = (r, c)" by fastforce
    have "EVLIST_FINALIZING \<notin> flags_of b e" using True by blast
    from event_del_ok(1) [OF ok c disjI2 [OF this]]
    have "reflagged (flags_of b e - counted) e b (take_active env e b)" using True c by (simp add: take_active_def)
    then show ?thesis by (intro exI [of _ "flags_of b e - counted"]) (simp add: counted_def)
  next
    case False
    then have "take_active env e b = event_queue_remove_active e b" by (auto simp: take_active_def)
    then show ?thesis using rm by auto
  qed
  then show "only e b (take_active env e b)" "EVLIST_ACTIVE \<notin> flags_of (take_active env e b) e"
    using reflagged_only by (auto simp: reflagged_def)
qed

section \<open>The loop\<close>

lemma update_time_cache_ok:
  assumes "base_ok b"
  shows "keeps b (clear_time_cache b)" "keeps b (update_time_cache b)"
proof -
  have "core_ok b" using assms by (simp add: base_ok_def)
  then have "norm (Timeval 0 (tv_usec (tv_cache b)))" by (simp add: core_ok_def norm_def)
  then show k: "keeps b (clear_time_cache b)"
    using assms by (simp add: clear_time_cache_def keeps_def base_ok_def core_ok_def maps_ok_def)
  show "keeps b (update_time_cache b)"
  proof (cases "no_cache_time (clear_time_cache b)")
    case True
    then show ?thesis using k by (simp add: update_time_cache_def Let_def)
  next
    case False
    obtain t c where g: "gettime (clear_time_cache b) = (t, c)" by fastforce
    note gt = gettime_ok [OF g]
    have core: "core_ok (clear_time_cache b)" using keeps_base [OF k] by (simp add: base_ok_def)
    have "base_ok c" "norm t" "length (activequeues c) = length (activequeues b)"
      using gt(1) [OF core] gt(5,10) k by (simp_all add: keeps_def)
    then show ?thesis using False g by (simp add: update_time_cache_def Let_def keeps_def base_ok_def core_ok_def maps_ok_def)
  qed
qed

lemma gettime_keeps: "base_ok b \<Longrightarrow> gettime b = (t, b') \<Longrightarrow> keeps b b'"
  using gettime_ok(5,10) [of b t b'] by (simp add: keeps_def)

lemma head_active:
  assumes ok: "base_ok b" and i: "i < length (activequeues b)" and q: "activequeues b ! i = e # es"
  shows "EVLIST_ACTIVE \<in> flags_of b e" "evcb_pri (evs b e) = i"
proof -
  have "act_ok (flagp EVLIST_ACTIVE (evs b)) (flagp EVLIST_ACTIVE_LATER (evs b)) (pris (evs b))
       (activequeues b) (active_later_queue b) (event_count_active b)" using ok by (simp add: base_ok_def core_ok_def)
  moreover have "e \<in> set (activequeues b ! i)" using q by simp
  ultimately show "EVLIST_ACTIVE \<in> flags_of b e" "evcb_pri (evs b e) = i" using i by (auto simp: act_ok_def flagp_def pris_def)
qed

lemma process_single_queue_keeps:
  assumes "process_single_queue env app i max_to_process endtime cnt b = Some r"
  shows "app_ok app \<longrightarrow> (\<forall>n. mem env n) \<longrightarrow> base_ok b \<longrightarrow> i < length (activequeues b) \<longrightarrow> keeps b (snd r)"
  using assms
proof (induction rule: process_single_queue.raw_induct [rotated, consumes 1])
  case (1 psq env app i m en cnt b r)
  show ?case
  proof (intro impI)
    assume app: "app_ok app" and mem: "\<forall>n. mem env n" and ok: "base_ok b" and i: "i < length (activequeues b)"
    show "keeps b (snd r)"
    proof (cases "activequeues b ! i")
      case Nil
      then show ?thesis using 1(2) keeps_refl [OF ok] by auto
    next
      case (Cons e es)
      define c where "c = take_active env e b"
      note ta = take_active_ok(1) [OF ok head_active(1) [OF ok i Cons], of env, folded c_def]
      have kc: "keeps b c" by (rule only_keeps [OF ta])
      then have okc: "base_ok (c\<lparr>current_event := Some e\<rparr>)" by (simp add: keeps_def)
      define k where "k = (if EVLIST_INTERNAL \<notin> flags_of c e then Suc cnt else cnt)"
      from 1(2) Cons obtain d where d: "run_closure env app e (c\<lparr>current_event := Some e\<rparr>) = Some d"
        by (auto simp: c_def [symmetric] Let_def split: option.splits)
      have "keeps (c\<lparr>current_event := Some e\<rparr>) d" by (rule run_closure_ok [OF app mem okc d])
      then have kd: "keeps b (d\<lparr>current_event := None\<rparr>)" using kc by (simp add: keeps_def)
      define f where "f = d\<lparr>current_event := None\<rparr>"
      have kf: "keeps b f" using kd by (simp add: f_def)
      define g where "g = (if k \<noteq> 0 \<and> en \<noteq> None then snd (gettime (update_time_cache f)) else f)"
      define late where "late \<longleftrightarrow> k \<noteq> 0 \<and> en \<noteq> None \<and> fst (gettime (update_time_cache f)) \<ge> the en"
      have kg: "keeps b g"
      proof -
        note u = update_time_cache_ok(2) [OF keeps_base [OF kf]]
        obtain t x where "gettime (update_time_cache f) = (t, x)" by fastforce
        with keeps_trans [OF u gettime_keeps [OF keeps_base [OF u]]] keeps_trans [OF kf] kf show ?thesis
          by (auto simp: g_def)
      qed
      have lg: "(if k \<noteq> 0 \<and> en \<noteq> None then (case gettime (update_time_cache f) of (now, b) \<Rightarrow> (the en \<le> now, b)) else (False, f)) = (late, g)"
        by (simp add: late_def g_def split_beta)
      have r: "Some r = (if event_break f then Some (-1, f) else if k \<ge> m then Some (int k, f)
          else if late then Some (int k, g) else if event_continue g then Some (int k, g)
          else psq env app i m en k g)"
        using 1(2) [symmetric] Cons d lg
        by (simp add: c_def [symmetric] Let_def k_def [symmetric] f_def [symmetric] del: not_None_eq cong: if_cong)
      show ?thesis
      proof (cases "event_break f \<or> k \<ge> m \<or> late \<or> event_continue g")
        case True
        then show ?thesis using r kf kg by (auto split: if_splits)
      next
        case False
        then have "psq env app i m en k g = Some r" using r by simp
        from 1(1) [OF this] app mem keeps_base [OF kg] i kg have "keeps g (snd r)" by (simp add: keeps_def)
        then show ?thesis by (rule keeps_trans [OF kg])
      qed
    qed
  qed
qed

lemma process_queues_ok:
  assumes app: "app_ok app" and mem: "\<forall>n. mem env n"
  shows "base_ok b \<Longrightarrow> \<forall>j \<in> set js. j < length (activequeues b) \<Longrightarrow>
    process_queues env app endtime js c b = Some (r, b') \<Longrightarrow> keeps b b'"
proof (induction js arbitrary: b c)
  case Nil
  then show ?case using keeps_refl by simp
next
  case (Cons j js)
  show ?case
  proof (cases "activequeues b ! j = []")
    case True
    then show ?thesis using Cons by simp
  next
    case False
    let ?b = "b\<lparr>event_running_priority := int j\<rparr>"
    obtain q d where d: "(if j < limit_callbacks_after_prio ?b
        then process_single_queue env app j INT_MAX None 0 ?b
        else process_single_queue env app j (max_dispatch_callbacks ?b) endtime 0 ?b) = Some (q, d)" (is "?x = _")
      using False Cons.prems(3) by (cases ?x) (auto simp: Let_def)
    then obtain m en where p: "process_single_queue env app j m en 0 ?b = Some (q, d)" by (auto split: if_splits)
    have "keeps ?b (snd (q, d))"
      using process_single_queue_keeps [OF p] app mem Cons.prems(1,2) by simp
    then have kd: "keeps b d" by (simp add: keeps_def)
    have r: "(if q < 0 then Some (q, d) else if q > 0 then Some (q, d)
        else process_queues env app endtime js q d) = Some (r, b')"
      using Cons.prems(3) False d by (simp add: Let_def)
    show ?thesis
    proof (cases "q = 0")
      case True
      then have "process_queues env app endtime js q d = Some (r, b')" using r by simp
      moreover have "\<forall>j \<in> set js. j < length (activequeues d)" using Cons.prems(2) kd by (simp add: keeps_def)
      ultimately show ?thesis using Cons.IH [OF keeps_base [OF kd]] keeps_trans [OF kd] by blast
    next
      case False
      then show ?thesis using r kd by (auto split: if_splits)
    qed
  qed
qed

lemma process_active_ok:
  assumes app: "app_ok app" and mem: "\<forall>n. mem env n" and ok: "base_ok b"
    and r: "event_process_active env app b = Some (c, b')"
  shows "keeps b b'"
proof -
  define b1 where "b1 = (if tv_sec (max_dispatch_time b) \<ge> 0 then snd (gettime (update_time_cache b)) else b)"
  define en where "en = (if tv_sec (max_dispatch_time b) \<ge> 0
     then Some (evutil_timeradd (max_dispatch_time (update_time_cache b)) (fst (gettime (update_time_cache b)))) else None)"
  have k1: "keeps b b1"
  proof -
    note u = update_time_cache_ok(2) [OF ok]
    obtain t x where "gettime (update_time_cache b) = (t, x)" by fastforce
    with keeps_trans [OF u gettime_keeps [OF keeps_base [OF u]]] keeps_refl [OF ok] show ?thesis by (auto simp: b1_def)
  qed
  obtain en' where e: "event_process_active env app b =
     (case process_queues env app en' [0..<length (activequeues b1)] 0 b1 of None \<Rightarrow> None
      | Some (c, b) \<Rightarrow> Some (c, b\<lparr>event_running_priority := -1\<rparr>))"
    by (cases "tv_sec (max_dispatch_time b) \<ge> 0") (auto simp: event_process_active_def b1_def split_beta Let_def)
  from r e obtain d where d: "process_queues env app en' [0..<length (activequeues b1)] 0 b1 = Some (c, d)"
    "b' = d\<lparr>event_running_priority := -1\<rparr>" by (auto split: option.splits)
  have "keeps b1 d" by (rule process_queues_ok [OF app mem keeps_base [OF k1] _ d(1)]) simp
  then show ?thesis using keeps_trans [OF k1] d(2) by simp
qed

lemma timeout_next_ok:
  assumes ok: "base_ok b" and r: "timeout_next b = (tv, b')"
  shows "keeps b b'"
proof (cases "min_heap_top (timeheap b)")
  case None
  then show ?thesis using r keeps_refl [OF ok] by (simp add: timeout_next_def)
next
  case (Some e)
  obtain now c where g: "gettime b = (now, c)" by fastforce
  note gt = gettime_ok [OF g]
  have core: "core_ok b" using ok by (simp add: base_ok_def)
  have hk: "heap_ok (deadline b) (timeheap b)" by (rule tmo_okD(1) [OF base_tmo [OF ok]])
  have "e \<in> set (elems (timeheap b))" using min_heap_top_ok(2) [OF hk Some] by blast
  then have e: "EVLIST_TIMEOUT \<in> flags_of b e" "\<not> is_common_timeout (deadline b e) b" using in_heap [OF ok] by blast+
  have v: "valid_tv (length (common_timeout_queues b)) (deadline b e)" "length (common_timeout_queues b) \<le> 256"
    using tmo_okD(6) [OF base_tmo [OF ok], of e] tmo_okD(4) [OF base_tmo [OF ok]] e(1) by simp_all
  have nd: "norm (deadline b e)"
    by (rule valid_tv_cases [OF v]) (use e(2) in \<open>auto simp: is_common_in common_in_def\<close>)
  have "deadline c e = deadline b e" using gt(2) by simp
  moreover have "tv_sec (evutil_timersub (deadline b e) now) \<ge> 0 \<and> tv_usec (evutil_timersub (deadline b e) now) \<ge> 0"
    if "\<not> deadline b e \<le> now"
    using that nd gt(1) [OF core]
    by (auto simp: less_eq_timeval_def evutil_timersub_def Let_def norm_def split: if_splits)
  ultimately have "b' = c"
    using r Some g by (auto simp: timeout_next_def ev_assert_def split: if_splits)
  then show ?thesis using gettime_keeps [OF ok g] by simp
qed

lemma loop_turns_keeps:
  assumes "loop_turns env app flags b = Some r"
  shows "app_ok app \<longrightarrow> (\<forall>n. mem env n) \<longrightarrow> base_ok b \<longrightarrow> keeps b (snd r)"
  using assms
proof (induction rule: loop_turns.raw_induct [rotated, consumes 1])
  case (1 lt env app flags b r)
  show ?case
  proof (intro impI)
    assume app: "app_ok app" and mem: "\<forall>n. mem env n" and ok: "base_ok b"
    define b0 where "b0 = b\<lparr>event_continue := False, n_deferreds_queued := 0\<rparr>"
    have k0: "keeps b b0" using keeps_refl [OF ok] by (simp add: b0_def)
    obtain tv b1 where b1: "(if event_count_active b0 = 0 \<and> EVLOOP_NONBLOCK \<notin> flags then timeout_next b0
        else (Some evutil_timerclear, b0)) = (tv, b1)" by fastforce
    have k1: "keeps b b1"
    proof (cases "event_count_active b0 = 0 \<and> EVLOOP_NONBLOCK \<notin> flags")
      case True
      then have "timeout_next b0 = (tv, b1)" using b1 by simp
      from keeps_trans [OF k0 timeout_next_ok [OF keeps_base [OF k0] this]] show ?thesis .
    next
      case False
      then have "b1 = b0" using b1 by (auto split: if_splits)
      then show ?thesis using k0 by simp
    qed
    define b2 where "b2 = event_queue_make_later_events_active b1"
    define b3 where "b3 = clear_time_cache (prepare_watchers app tv b2)"
    obtain res b4 where b4: "dispatch app tv b3 = (res, b4)" by fastforce
    define b5 where "b5 = check_watchers app (update_time_cache b4)"
    have k2: "keeps b b2" using keeps_trans [OF k1 keepsI] make_later_ok [OF keeps_base [OF k1]] by (simp add: b2_def)
    have "keeps b (prepare_watchers app tv b2)" by (rule keeps_trans [OF k2 app_okD(3) [OF app keeps_base [OF k2]]])
    then have k3: "keeps b b3" using keeps_trans update_time_cache_ok(1) keeps_base unfolding b3_def by blast
    have k4: "keeps b b4" using keeps_trans [OF k3 app_okD(2) [OF app keeps_base [OF k3], of tv]] b4 by simp
    have ku: "keeps b (update_time_cache b4)" using keeps_trans [OF k4 update_time_cache_ok(2) [OF keeps_base [OF k4]]] .
    have k5: "keeps b b5" unfolding b5_def using keeps_trans [OF ku app_okD(4) [OF app keeps_base [OF ku]]] .
    from timeout_process_ok [OF keeps_base [OF k5], of env] obtain b6 where
      b6: "timeout_process env b5 = Some b6" "base_ok b6" "same_frame b5 b6" by blast
    have k6: "keeps b b6" using keeps_trans [OF k5 keepsI [OF b6(2,3)]] .
    have r: "Some r = (if event_gotterm b0 \<or> event_break b0 then Some (0, b0)
        else if EVLOOP_NO_EXIT_ON_EMPTY \<notin> flags \<and> \<not> event_haveevents b1 \<and> event_count_active b1 = 0 then Some (1, b1)
        else if res = -1 then Some (-1, b4)
        else if event_count_active b6 \<noteq> 0 then
          (case event_process_active env app b6 of None \<Rightarrow> None
           | Some (n, b) \<Rightarrow> if EVLOOP_ONCE \<in> flags \<and> event_count_active b = 0 \<and> n \<noteq> 0 then Some (0, b) else lt env app flags b)
        else if EVLOOP_NONBLOCK \<in> flags then Some (0, b6) else lt env app flags b6)"
      using 1(2) [symmetric] b1 b4 b6(1)
      unfolding Let_def b0_def [symmetric]
      by (simp add: b2_def [symmetric] b3_def [symmetric] b5_def [symmetric] cong: if_cong option.case_cong)
    have rec: "keeps b (snd r)" if "keeps b x" "lt env app flags x = Some r" for x
      using 1(1) [OF that(2)] app mem keeps_base [OF that(1)] keeps_trans [OF that(1)] by blast
    show "keeps b (snd r)"
    proof (cases "event_gotterm b0 \<or> event_break b0 \<or> (EVLOOP_NO_EXIT_ON_EMPTY \<notin> flags \<and> \<not> event_haveevents b1 \<and>
        event_count_active b1 = 0) \<or> res = -1")
      case True
      then show ?thesis using r k0 k1 k4 by (auto split: if_splits)
    next
      case no: False
      show ?thesis
      proof (cases "event_count_active b6 \<noteq> 0")
        case True
        then obtain n x where x: "event_process_active env app b6 = Some (n, x)"
          using r no by (cases "event_process_active env app b6") auto
        have kx: "keeps b x" using keeps_trans [OF k6 process_active_ok [OF app mem b6(2) x]] .
        show ?thesis using r no True x kx rec [OF kx] by (auto split: if_splits)
      next
        case False
        then show ?thesis using r no k6 rec [OF k6] by (auto split: if_splits)
      qed
    qed
  qed
qed

lemma event_base_loop_ok:
  assumes app: "app_ok app" and mem: "\<forall>n. mem env n" and ok: "base_ok b"
    and r: "event_base_loop env app flags b = Some (c, b')"
  shows "keeps b b'"
proof (cases "running_loop b")
  case True
  then show ?thesis using r keeps_refl [OF ok] by (simp add: event_base_loop_def)
next
  case False
  define b1 where "b1 = (clear_time_cache (b\<lparr>running_loop := True\<rparr>))\<lparr>event_gotterm := False, event_break := False\<rparr>"
  have "base_ok (b\<lparr>running_loop := True\<rparr>)" using ok by simp
  from update_time_cache_ok(1) [OF this] have k1: "keeps b b1" by (simp add: b1_def keeps_def)
  from r False obtain d where d: "loop_turns env app flags b1 = Some (c, d)"
    "b' = (clear_time_cache d)\<lparr>running_loop := False\<rparr>"
    by (auto simp: event_base_loop_def Let_def b1_def split: option.splits)
  have "keeps b1 d" using loop_turns_keeps [OF d(1)] app mem keeps_base [OF k1] by simp
  then have kd: "keeps b d" by (rule keeps_trans [OF k1])
  then show ?thesis using keeps_trans [OF kd update_time_cache_ok(1) [OF keeps_base [OF kd]]] d(2) by simp
qed

end
