(* ===== verification/EventReach.thy ===== *)
theory EventReach
  imports EventClosures
begin

text \<open>
  The base as a state machine: its steps are the calls a program makes and what the loop does
  between them. Every base that is reached is well-formed and passes the library's own check.
\<close>

section \<open>Steps\<close>

text \<open>
  The conditions are what the documentation asks of the caller: events are made before they are
  used and not made anew while they are pending or made by the library; an address is one;
  times are normal or those of common timeout lists.
\<close>

inductive base_step :: "event_env \<Rightarrow> event_base \<Rightarrow> event_base \<Rightarrow> bool" for env where
  Assign: "activequeues b \<noteq> [] \<Longrightarrow> flags_of b e \<inter> counted = {} \<Longrightarrow> e < EVENT_LIMIT \<Longrightarrow>
     e \<notin> ctl_timeout_event ` set (common_timeout_queues b) \<Longrightarrow> event_assign e fd what b = (0, b') \<Longrightarrow> base_step env b b'"
| Add: "EVLIST_INIT \<in> flags_of b e \<Longrightarrow> e < EVENT_LIMIT \<Longrightarrow>
     (\<And>tv. tvo = Some tv \<Longrightarrow> valid_tv (length (common_timeout_queues b)) tv) \<Longrightarrow>
     base_step env b (snd (event_add env e tvo b))"
| Del: "base_step env b (snd (event_del_nolock env e bl b))"
| Remove_timer: "base_step env b (snd (event_remove_timer e b))"
| Active: "flags_of b e \<noteq> {} \<Longrightarrow> base_step env b (event_active_nolock e res n b)"
| Active_later: "flags_of b e \<noteq> {} \<Longrightarrow> base_step env b (event_active_later_nolock e res b)"
| Cancel: "base_step env b (snd (event_callback_cancel_nolock env e fin b))"
| Priority: "base_step env b (snd (event_priority_set e pri b))"
| Common: "list_request_ok e dur b \<Longrightarrow> base_step env b (snd (event_base_init_common_timeout env e dur b))"
| Io: "base_step env b (evmap_io_active fd what b)"
| Signal: "base_step env b (evmap_signal_active sig n b)"
| Later: "base_step env b (event_queue_make_later_events_active b)"
| Timeouts: "timeout_process env b = Some b' \<Longrightarrow> base_step env b b'"
| Common_timeouts: "i < length (common_timeout_queues b) \<Longrightarrow> common_timeout_callback env i b = Some b' \<Longrightarrow> base_step env b b'"
| Take: "EVLIST_ACTIVE \<in> flags_of b e \<Longrightarrow> base_step env b (take_active env e b)"
| Reschedule: "evcb_closure (evs b e) = EV_CLOSURE_EVENT_PERSIST \<Longrightarrow> base_step env b (persist_reschedule env e b)"
| Cache: "base_step env b (update_time_cache b)"
| Uncache: "base_step env b (clear_time_cache b)"
| Clock: "norm now \<Longrightarrow> base_step env b (b\<lparr>monotonic := now, wall := clock\<rparr>)"
| Break: "base_step env b (event_base_loopbreak b)"
| Continue: "base_step env b (event_base_loopcontinue b)"
| Exit: "base_step env b (event_loopexit_cb b)"

inductive reached :: "event_env \<Rightarrow> event_base \<Rightarrow> bool" for env where
  New: "(\<And>e. evcb_flags (store e) = {} \<and> evcb_closure (store e) = EV_CLOSURE_EVENT) \<Longrightarrow> norm now \<Longrightarrow>
     event_base_new_with_config env cfg backend store now clock = Some b \<Longrightarrow> reached env b"
| Step: "reached env b \<Longrightarrow> base_step env b b' \<Longrightarrow> reached env b'"

lemma new_ok:
  assumes s: "\<And>e. evcb_flags (store e) = {} \<and> evcb_closure (store e) = EV_CLOSURE_EVENT" and now: "norm now"
    and b: "event_base_new_with_config env cfg backend store now clock = Some b"
  shows "base_ok b" "activequeues b = [[]]"
proof -
  from b have "evs b = store \<and> timeheap b = min_heap_ctor \<and> activequeues b = [[]] \<and> active_later_queue b = [] \<and>
     common_timeout_queues b = [] \<and> io b = \<lparr>nentries = 0, entries = Map.empty\<rparr> \<and>
     sigmap b = \<lparr>nentries = 0, entries = Map.empty\<rparr> \<and> event_count b = 0 \<and> event_count_active b = 0 \<and>
     tv_cache b = Timeval 0 0 \<and> monotonic b = now \<and> \<not> aborted b"
    by (auto simp: event_base_new_with_config_def gettime_def Let_def split: if_splits)
  then have f: "evs b = store" "timeheap b = min_heap_ctor" "activequeues b = [[]]" "active_later_queue b = []"
     "common_timeout_queues b = []" "io b = \<lparr>nentries = 0, entries = Map.empty\<rparr>"
     "sigmap b = \<lparr>nentries = 0, entries = Map.empty\<rparr>" "event_count b = 0" "event_count_active b = 0"
     "tv_cache b = Timeval 0 0" "monotonic b = now" "\<not> aborted b" by blast+
  have "cnt_ok (flagf store) 0" unfolding cnt_ok_def using s by (intro exI [of _ "{}"]) simp
  moreover have "tmo_ok (flagp EVLIST_TIMEOUT store) (dls store) min_heap_ctor []"
    using s min_heap_ctor_ok by (simp add: tmo_ok_def flagp_def)
  moreover have "act_ok (flagp EVLIST_ACTIVE store) (flagp EVLIST_ACTIVE_LATER store) (pris store) [[]] [] 0"
    using s by (simp add: act_ok_def flagp_def)
  moreover have "event_ok n (store e)" for n e using s [of e] by (simp add: event_ok_def)
  ultimately have "core_ok b" using now by (simp add: core_ok_def f dur_ok_def norm_def)
  moreover have "maps_ok (flagp EVLIST_INSERTED store) b"
    using s by (simp add: maps_ok_def f io_ok_def sig_ok_def io_list_def sig_list_def flagp_def)
  moreover have "persist_ok n m e (store e)" for n m e using s [of e] by (simp add: persist_ok_def)
  ultimately show "base_ok b" by (simp add: base_ok_def f)
  show "activequeues b = [[]]" by (rule f(3))
qed

lemma step_keeps:
  assumes mem: "\<forall>n. mem env n" and st: "base_step env b b'" and ok: "base_ok b"
  shows "keeps b b'"
  using st
proof cases
  case (Assign e fd what)
  from assign_ok(1) [OF ok Assign(2,4,3,1,5)] show ?thesis by (rule only_keeps)
next
  case (Add e tvo)
  obtain r c where c: "event_add_nolock env e tvo False b = (r, c)" by fastforce
  have "flags_of b e \<noteq> {}" using Add by auto
  then have "addable (length (activequeues b)) e (evs b e)"
    using Add nonempty_pri [OF ok] by (simp add: addable_def)
  then have "add_ok env e tvo False b" using ok mem Add by (simp add: add_ok_def)
  from event_add_nolock_ok(1,2) [OF this c] c show ?thesis using Add keepsI by (simp add: event_add_def)
next
  case (Del e bl)
  obtain r c where c: "event_del_nolock env e bl b = (r, c)" by fastforce
  show ?thesis
  proof (cases "bl = EVENT_DEL_EVEN_IF_FINALIZING \<or> EVLIST_FINALIZING \<notin> flags_of b e")
    case True
    from event_del_ok(1) [OF ok c True] show ?thesis using c Del only_keeps [OF reflagged_only] by simp
  next
    case False
    then have "c = b" using c by (simp add: event_del_nolock_def)
    then show ?thesis using c Del keeps_refl [OF ok] by simp
  qed
next
  case (Remove_timer e)
  then show ?thesis using only_keeps [OF remove_timer_ok [OF ok]] by simp
next
  case (Active e res n)
  then show ?thesis using only_keeps [OF active_live(1) [OF ok]] by simp
next
  case (Active_later e res)
  then show ?thesis using only_keeps [OF active_later_ok [OF ok]] by simp
next
  case (Cancel e fin)
  obtain r c where c: "event_callback_cancel_nolock env e fin b = (r, c)" by fastforce
  then show ?thesis using Cancel only_keeps [OF cancel_ok(1) [OF ok c]] by simp
next
  case (Priority e pri)
  obtain r c where c: "event_priority_set e pri b = (r, c)" by fastforce
  then show ?thesis using Priority only_keeps [OF priority_set_ok(1) [OF ok c]] by simp
next
  case (Common e dur)
  obtain r c where c: "event_base_init_common_timeout env e dur b = (r, c)" by fastforce
  then show ?thesis using Common init_common_ok(1,3) [OF ok _ c] by (simp add: keeps_def)
next
  case (Io fd what)
  then show ?thesis using io_active_ok [OF ok] keepsI by simp
next
  case (Signal sig n)
  then show ?thesis using signal_active_ok [OF ok] keepsI by simp
next
  case Later
  then show ?thesis using make_later_ok [OF ok] keepsI by simp
next
  case Timeouts
  from timeout_process_ok [OF ok, of env] obtain c where "timeout_process env b = Some c" "base_ok c" "same_frame b c" by blast
  then show ?thesis using Timeouts keepsI by simp
next
  case (Common_timeouts i)
  from common_timeout_callback_ok [OF ok Common_timeouts(1) mem] obtain c where
    "common_timeout_callback env i b = Some c" "base_ok c" "same_frame b c" by blast
  then show ?thesis using Common_timeouts keepsI by simp
next
  case (Take e)
  then show ?thesis using only_keeps [OF take_active_ok(1) [OF ok]] by simp
next
  case (Reschedule e)
  then show ?thesis using persist_reschedule_ok(1) [OF ok _ mem] keepsI by simp
next
  case Cache
  then show ?thesis using update_time_cache_ok(2) [OF ok] by simp
next
  case Uncache
  then show ?thesis using update_time_cache_ok(1) [OF ok] by simp
next
  case (Clock now clock)
  then show ?thesis using ok by (simp add: keeps_def base_ok_def core_ok_def maps_ok_def)
qed (use ok keeps_refl [OF ok] in \<open>simp_all add: event_base_loopbreak_def event_base_loopcontinue_def event_loopexit_cb_def\<close>)

lemma reached_ok:
  assumes "\<forall>n. mem env n" and "reached env b"
  shows "base_ok b \<and> activequeues b \<noteq> []"
  using assms(2)
proof induction
  case (New store now cfg backend clock b)
  then show ?case using new_ok [OF New] by simp
next
  case (Step b b')
  then show ?case using step_keeps [OF assms(1) Step.hyps(2)] by (auto simp: keeps_def)
qed

text \<open>Callbacks, watchers and the backend that do what a program may do.\<close>

definition app_steps :: "event_env \<Rightarrow> event_app \<Rightarrow> bool" where
  "app_steps env app \<longleftrightarrow> (\<forall>e res b. (base_step env)\<^sup>*\<^sup>* b (callback app e res b)) \<and>
     (\<forall>tv b. (base_step env)\<^sup>*\<^sup>* b (snd (dispatch app tv b))) \<and>
     (\<forall>tv b. (base_step env)\<^sup>*\<^sup>* b (prepare_watchers app tv b)) \<and>
     (\<forall>b. (base_step env)\<^sup>*\<^sup>* b (check_watchers app b))"

lemma steps_keep:
  assumes "\<forall>n. mem env n" and "(base_step env)\<^sup>*\<^sup>* b b'" and "base_ok b"
  shows "keeps b b'"
  using assms(2)
proof induction
  case base
  then show ?case by (rule keeps_refl [OF assms(3)])
next
  case (step c d)
  show ?case by (rule keeps_trans [OF step.IH step_keeps [OF assms(1) step.hyps(2) keeps_base [OF step.IH]]])
qed

lemma app_steps_ok: "\<forall>n. mem env n \<Longrightarrow> app_steps env app \<Longrightarrow> app_ok app"
  unfolding app_ok_def app_steps_def using steps_keep by blast

section \<open>The properties\<close>

text \<open>
  C20: The flags of an event say where it is. In every base a program can reach, an event has
  EVLIST_TIMEOUT iff it is in the heap or in one of the lists of common timeouts, EVLIST_ACTIVE iff
  it is in the queue of its priority, EVLIST_ACTIVE_LATER iff it is in the queue for the next turn, and
  EVLIST_INSERTED iff it is on its descriptor (or that is negative) or its signal; it is never in
  both active queues, and the counter of active events is the length of the queues.
\<close>

theorem reached_well_formed:
  assumes "\<forall>n. mem env n" and "reached env b"
  shows "(EVLIST_TIMEOUT \<in> flags_of b e \<longleftrightarrow> e \<in> set (elems (timeheap b)) \<or>
        (\<exists>c \<in> set (common_timeout_queues b). e \<in> set (ctl_events c))) \<and>
    (EVLIST_ACTIVE \<in> flags_of b e \<longleftrightarrow> (\<exists>q \<in> set (activequeues b). e \<in> set q)) \<and>
    (EVLIST_ACTIVE \<in> flags_of b e \<longrightarrow> e \<in> set (activequeues b ! evcb_pri (evs b e))) \<and>
    (EVLIST_ACTIVE_LATER \<in> flags_of b e \<longleftrightarrow> e \<in> set (active_later_queue b)) \<and>
    \<not> {EVLIST_ACTIVE, EVLIST_ACTIVE_LATER} \<subseteq> flags_of b e \<and>
    (EVLIST_INSERTED \<in> flags_of b e \<longrightarrow> ev_fd (evs b e) < 0 \<or>
        e \<in> set (io_list (io b) (nat (ev_fd (evs b e)))) \<or> e \<in> set (sig_list (sigmap b) (nat (ev_fd (evs b e))))) \<and>
    (e \<in> set (io_list (io b) fd) \<or> e \<in> set (sig_list (sigmap b) fd) \<longrightarrow> EVLIST_INSERTED \<in> flags_of b e) \<and>
    event_count_active b = int (sum_list (map length (activequeues b)) + length (active_later_queue b))"
proof -
  have ok: "base_ok b" using reached_ok [OF assms] by blast
  have core: "core_ok b" using ok by (simp add: base_ok_def)
  have act: "act_ok (flagp EVLIST_ACTIVE (evs b)) (flagp EVLIST_ACTIVE_LATER (evs b)) (pris (evs b))
       (activequeues b) (active_later_queue b) (event_count_active b)" using core by (simp add: core_ok_def)
  have io: "io_ok (flagp EVLIST_INSERTED (evs b)) (whats (evs b)) (fds (evs b)) (io b)"
    and sg: "sig_ok (flagp EVLIST_INSERTED (evs b)) (whats (evs b)) (fds (evs b)) (sigmap b)"
    using ok by (simp_all add: base_ok_def maps_ok_def)
  have "EVLIST_TIMEOUT \<in> flags_of b e \<longleftrightarrow> e \<in> set (elems (timeheap b)) \<or>
        (\<exists>c \<in> set (common_timeout_queues b). e \<in> set (ctl_events c))"
  proof -
    have "(\<exists>c \<in> set (common_timeout_queues b). e \<in> set (ctl_events c)) \<longleftrightarrow>
       (\<exists>i < length (common_timeout_queues b). e \<in> set (ctl_events (common_timeout_queues b ! i)))"
      by (metis in_set_conv_nth)
    then show ?thesis
      using in_heap [OF ok, of e] ctl_list(3) [OF ok, of _ e] by (auto simp: is_common_in common_in_def)
  qed
  moreover have "EVLIST_ACTIVE \<in> flags_of b e \<longleftrightarrow> (\<exists>q \<in> set (activequeues b). e \<in> set q)"
  proof -
    have "(\<exists>q \<in> set (activequeues b). e \<in> set q) \<longleftrightarrow> (\<exists>i < length (activequeues b). e \<in> set (activequeues b ! i))"
      by (metis in_set_conv_nth)
    then show ?thesis using act by (auto simp: act_ok_def)
  qed
  moreover have "EVLIST_ACTIVE \<in> flags_of b e \<longrightarrow> e \<in> set (activequeues b ! evcb_pri (evs b e))"
    "EVLIST_ACTIVE_LATER \<in> flags_of b e \<longleftrightarrow> e \<in> set (active_later_queue b)"
    "\<not> {EVLIST_ACTIVE, EVLIST_ACTIVE_LATER} \<subseteq> flags_of b e"
    "event_count_active b = int (sum_list (map length (activequeues b)) + length (active_later_queue b))"
    using act not_both_active [OF core, of e] by (auto simp: act_ok_def)
  moreover have "EVLIST_INSERTED \<in> flags_of b e \<longrightarrow> ev_fd (evs b e) < 0 \<or>
        e \<in> set (io_list (io b) (nat (ev_fd (evs b e)))) \<or> e \<in> set (sig_list (sigmap b) (nat (ev_fd (evs b e))))"
    using io_okD [OF io, of e] sig_okD [OF sg, of e] by (cases "ev_fd (evs b e) < 0") auto
  moreover have "e \<in> set (io_list (io b) fd) \<or> e \<in> set (sig_list (sigmap b) fd) \<longrightarrow> EVLIST_INSERTED \<in> flags_of b e"
    using io_okD [OF io, of e fd] sig_okD [OF sg, of e fd] by simp
  ultimately show ?thesis by blast
qed

text \<open>
  C21: The library's own check of a base never fails. In every base a program can reach by making,
  adding, deleting and activating events, asking for common timeout lists, and letting timeouts and
  closures run, \<^verbatim>\<open>event_base_assert_ok_\<close> finds nothing wrong, and no assertion of the library
  failed on the way.
\<close>

theorem reached_integrity:
  assumes "\<forall>n. mem env n" and "reached env b"
  shows "event_base_assert_ok b \<and> \<not> aborted b"
  using reached_ok [OF assms] base_ok_integrity by (auto simp: base_ok_def core_ok_def)

text \<open>
  C22: The loop keeps the base sound. Whatever the callbacks, the watchers and the backend do by the
  operations of the library, when \<^verbatim>\<open>event_base_loop\<close> returns, the check of the base still finds
  nothing wrong and no assertion has failed, in the closures of persistent events and signals and
  in the lists of common timeouts.
\<close>

theorem loop_keeps_integrity:
  assumes "\<forall>n. mem env n" and "reached env b" and "app_steps env app"
    and "event_base_loop env app flags b = Some (r, b')"
  shows "event_base_assert_ok b' \<and> \<not> aborted b' \<and> length (activequeues b') = length (activequeues b)"
proof -
  have ok: "base_ok b" using reached_ok [OF assms(1,2)] by blast
  have "keeps b b'" by (rule event_base_loop_ok [OF app_steps_ok [OF assms(1,3)] assms(1) ok assms(4)])
  then show ?thesis using base_ok_integrity by (auto simp: keeps_def base_ok_def core_ok_def)
qed

text \<open>
  C23: What is due fires, and nothing else. \<^verbatim>\<open>timeout_process\<close> ends; every event of the heap whose
  deadline is not after the time is then off the heap and its descriptor, active, with EV_TIMEOUT as
  its only result; every other event is as it was.
\<close>

theorem due_timeouts_fire:
  assumes "\<forall>n. mem env n" and "reached env b"
  shows "\<exists>b'. timeout_process env b = Some b' \<and>
    (\<forall>e. if e \<in> set (elems (timeheap b)) \<and> deadline b e \<le> fst (gettime b)
         then EVLIST_ACTIVE \<in> flags_of b' e \<and> ev_res (evs b' e) = {EV_TIMEOUT} \<and>
           e \<in> set (activequeues b' ! evcb_pri (evs b' e)) \<and> e \<notin> set (elems (timeheap b')) \<and>
           flags_of b' e \<inter> {EVLIST_TIMEOUT, EVLIST_INSERTED, EVLIST_ACTIVE_LATER} = {}
         else evs b' e = evs b e)"
proof -
  have ok: "base_ok b" using reached_ok [OF assms] by blast
  from timeout_process_ok [OF ok, of env] obtain b' where b': "timeout_process env b = Some b'" "base_ok b'"
    "fired (fst (gettime b)) b b'" by blast
  have act: "act_ok (flagp EVLIST_ACTIVE (evs b')) (flagp EVLIST_ACTIVE_LATER (evs b')) (pris (evs b'))
       (activequeues b') (active_later_queue b') (event_count_active b')" using b'(2) by (simp add: base_ok_def core_ok_def)
  have q: "EVLIST_ACTIVE \<in> flags_of b' e \<Longrightarrow> e \<in> set (activequeues b' ! evcb_pri (evs b' e))" for e
    using act by (auto simp: act_ok_def)
  have h: "e \<in> set (elems (timeheap b')) \<Longrightarrow> EVLIST_TIMEOUT \<in> flags_of b' e" for e
    using in_heap [OF b'(2)] by blast
  have "if e \<in> set (elems (timeheap b)) \<and> deadline b e \<le> fst (gettime b)
         then EVLIST_ACTIVE \<in> flags_of b' e \<and> ev_res (evs b' e) = {EV_TIMEOUT} \<and>
           e \<in> set (activequeues b' ! evcb_pri (evs b' e)) \<and> e \<notin> set (elems (timeheap b')) \<and>
           flags_of b' e \<inter> {EVLIST_TIMEOUT, EVLIST_INSERTED, EVLIST_ACTIVE_LATER} = {}
         else evs b' e = evs b e" for e
  proof (cases "e \<in> set (elems (timeheap b)) \<and> deadline b e \<le> fst (gettime b)")
    case True
    then have f: "flags_of b' e = insert EVLIST_ACTIVE (flags_of b e - counted)" "ev_res (evs b' e) = {EV_TIMEOUT}"
      using b'(3) unfolding fired_def by presburger+
    then have "EVLIST_TIMEOUT \<notin> flags_of b' e" by (simp add: counted_def)
    then show ?thesis using True f q h by (auto simp: counted_def)
  next
    case False
    then show ?thesis using b'(3) unfolding fired_def by presburger
  qed
  with b'(1) show ?thesis by blast
qed


lemma timeheap_queues: "timeheap (event_queue_remove_active e b) = timeheap b" "evs (abort_signal e b) = evs b"
  "tv_cache (abort_signal e b) = tv_cache b" "monotonic (abort_signal e b) = monotonic b"
  "tv_cache (event_queue_remove_active e b) = tv_cache b" "monotonic (event_queue_remove_active e b) = monotonic b"
  "common_timeout_queues (event_queue_remove_active e b) = common_timeout_queues b"
  by (simp_all add: event_queue_remove_active_def queue_defs abort_signal_def frame_defs)



section \<open>Instances\<close>

definition unused :: event where
  "unused = \<lparr>evcb_flags = {}, evcb_pri = 0, evcb_closure = EV_CLOSURE_EVENT, ev_fd = -1, ev_events = {}, ev_res = {},
     ev_io_timeout = Timeval 0 0, ev_ncalls = 0, ev_pncalls = False, ev_timeout = Timeval 0 0\<rparr>"

definition plenty :: event_env where
  "plenty = \<lparr>mem = (\<lambda>_. True), be = (\<lambda>_ _. True), fdinfo_len = 0, debug_mode = False\<rparr>"

text \<open>A new base; a persistent event in it with an interval of two seconds; three seconds later.\<close>

definition base0 :: event_base where
  "base0 = the (event_base_new_with_config plenty None True (\<lambda>_. unused) (Timeval 100 0) (Timeval 5000 0))"

definition base1 :: event_base where "base1 = snd (event_assign 7 (-1) {EV_PERSIST} base0)"
definition base2 :: event_base where "base2 = snd (event_add plenty 7 (Some (Timeval 2 0)) base1)"
definition base3 :: event_base where "base3 = base2\<lparr>monotonic := Timeval 103 0, wall := Timeval 5003 0\<rparr>"

definition idle :: event_app where
  "idle = \<lparr>callback = (\<lambda>e res b. b), dispatch = (\<lambda>tv b. (0, b)), prepare_watchers = (\<lambda>tv b. b), check_watchers = (\<lambda>b. b)\<rparr>"

lemma plenty_mem: "\<forall>n. mem plenty n"
  by (simp add: plenty_def)

lemma base0_new: "event_base_new_with_config plenty None True (\<lambda>_. unused) (Timeval 100 0) (Timeval 5000 0) = Some base0"
  by (simp add: base0_def event_base_new_with_config_def plenty_def Let_def)

lemma base0_reached: "reached plenty base0"
  by (rule New [OF _ _ base0_new]) (simp_all add: unused_def norm_def)

lemma base0_simps: "activequeues base0 = [[]]" "evs base0 = (\<lambda>_. unused)" "common_timeout_queues base0 = []"
  "tv_cache base0 = Timeval 0 0" "monotonic base0 = Timeval 100 0" "timeheap base0 = min_heap_ctor"
  "event_count base0 = 0" "virtual_event_count base0 = 0" "event_count_active base0 = 0" "running_loop base0 = False"
  by (simp_all add: base0_def event_base_new_with_config_def plenty_def Let_def gettime_def)

lemma base1_assign: "event_assign 7 (-1) {EV_PERSIST} base0 = (0, base1)"
  by (simp add: base1_def event_assign_def Let_def)

lemma base1_simps: "flags_of base1 7 = {EVLIST_INIT}" "evcb_closure (evs base1 7) = EV_CLOSURE_EVENT_PERSIST"
  "common_timeout_queues base1 = []" "tv_cache base1 = Timeval 0 0" "monotonic base1 = Timeval 100 0"
  "ev_events (evs base1 7) = {EV_PERSIST}"
  by (simp_all add: base1_def event_assign_def Let_def base0_simps)

lemma base1_reached: "reached plenty base1"
  by (rule Step [OF base0_reached], rule Assign [OF _ _ _ _ base1_assign])
     (simp_all add: base0_simps unused_def EVENT_LIMIT_def)

lemma two_seconds: "valid_tv n (Timeval 2 0)"
  by (simp add: valid_tv_def norm_def)

lemma base2_reached: "reached plenty base2"
  unfolding base2_def
  by (rule Step [OF base1_reached], rule Add) (simp_all add: base1_simps EVENT_LIMIT_def two_seconds)

lemma norm_not_common: "norm t \<Longrightarrow> \<not> is_common_timeout t b"
  using plain_facts(3) by (simp add: norm_def is_common_in common_in_def magic_def COMMON_TIMEOUT_MAGIC_def)

lemma base2_add: "event_add plenty 7 (Some (Timeval 2 0)) base1 = (0, base2)"
proof -
  have "\<not> is_common_timeout (Timeval 2 0) b" for b by (rule norm_not_common) (simp add: norm_def)
  then have "\<exists>b. event_add_step plenty 7 (Some (Timeval 2 0)) False base1 = (0, None, b)"
    by (simp add: event_add_step_def base1_simps event_add_io_def event_add_timeout_def min_heap_reserve_def plenty_mem Let_def)
  then have "fst (event_add plenty 7 (Some (Timeval 2 0)) base1) = 0"
    by (auto simp: event_add_def event_add_nolock.simps [of plenty])
  then show ?thesis by (simp add: base2_def prod_eq_iff)
qed

lemma base2_timer: "EVLIST_TIMEOUT \<in> flags_of base2 7" "deadline base2 7 = Timeval 102 0" "7 \<in> set (elems (timeheap base2))"
proof -
  have ok: "base_ok base1" using reached_ok [OF plenty_mem base1_reached] by blast
  have ad: "add_ok plenty 7 (Some (Timeval 2 0)) False base1"
    using ok plenty_mem nonempty_pri [OF ok, of 7] by (simp add: add_ok_def addable_def base1_simps EVENT_LIMIT_def two_seconds)
  have eq: "event_add_nolock plenty 7 (Some (Timeval 2 0)) False base1 = (0, base2)"
    using base2_add by (simp add: event_add_def)
  have nc: "\<not> is_common_timeout (Timeval 2 0) b" "\<not> is_common_timeout (Timeval 102 0) b" for b
    by (rule norm_not_common; simp add: norm_def)+
  have t: "EVLIST_TIMEOUT \<in> flags_of base2 7 \<and> deadline base2 7 = new_deadline (Timeval 2 0) False (fst (gettime base1)) base1"
    by (rule event_add_deadline [OF ad eq _ refl refl]) (simp add: base1_simps)
  then show d: "EVLIST_TIMEOUT \<in> flags_of base2 7" "deadline base2 7 = Timeval 102 0"
    using nc by (simp_all add: new_deadline_def fst_gettime base1_simps evutil_timeradd_def)
  show "7 \<in> set (elems (timeheap base2))"
    using in_heap [OF event_add_nolock_ok(1) [OF ad eq], of 7] d nc by simp
qed

lemma base3_reached: "reached plenty base3"
  unfolding base3_def by (rule Step [OF base2_reached], rule Clock) (simp add: norm_def)

lemma base3_simps: "deadline base3 7 = Timeval 102 0" "timeheap base3 = timeheap base2" "evs base3 = evs base2"
  by (simp_all add: base3_def base2_timer)

lemma base2_frame: "same_frame base1 base2" "\<forall>x. flags_of base2 x - counted = flags_of base1 x - counted"
proof -
  have ok: "base_ok base1" using reached_ok [OF plenty_mem base1_reached] by blast
  have ad: "add_ok plenty 7 (Some (Timeval 2 0)) False base1"
    using ok plenty_mem nonempty_pri [OF ok, of 7] by (simp add: add_ok_def addable_def base1_simps EVENT_LIMIT_def two_seconds)
  have eq: "event_add_nolock plenty 7 (Some (Timeval 2 0)) False base1 = (0, base2)"
    using base2_add by (simp add: event_add_def)
  show "same_frame base1 base2" "\<forall>x. flags_of base2 x - counted = flags_of base1 x - counted"
    using event_add_nolock_ok(2,5) [OF ad eq] by blast+
qed

lemma base3_now: "fst (gettime base3) = Timeval 103 0"
  using base2_frame(1) by (simp add: fst_gettime base3_def same_frame_def base1_simps)

theorem reached_well_formed_witness:
  "EVLIST_TIMEOUT \<in> flags_of base3 7 \<and> 7 \<in> set (elems (timeheap base3)) \<and>
    (EVLIST_ACTIVE_LATER \<in> flags_of base3 7 \<longleftrightarrow> 7 \<in> set (active_later_queue base3))"
  using reached_well_formed [OF plenty_mem base3_reached, of 7 0] base2_timer base3_simps by simp

theorem reached_integrity_witness: "event_base_assert_ok base3 \<and> \<not> aborted base3"
  by (rule reached_integrity [OF plenty_mem base3_reached])

lemma idle_steps: "app_steps env idle"
  by (simp add: app_steps_def idle_def)

theorem loop_keeps_integrity_witness:
  "\<exists>b. event_base_loop plenty idle {} base0 = Some (1, b) \<and> event_base_assert_ok b"
proof -
  have "\<exists>b. event_base_loop plenty idle {} base0 = Some (1, b)"
    by (simp add: event_base_loop_def base0_simps loop_turns.simps [of plenty] clear_time_cache_def timeout_next_def
        min_heap_top_def min_heap_ctor_def event_haveevents_def Let_def)
  then obtain b where b: "event_base_loop plenty idle {} base0 = Some (1, b)" by blast
  from loop_keeps_integrity [OF plenty_mem base0_reached idle_steps b] b show ?thesis by blast
qed

theorem due_timeouts_fire_witness:
  "\<exists>b. timeout_process plenty base3 = Some b \<and> EVLIST_ACTIVE \<in> flags_of b 7 \<and> ev_res (evs b 7) = {EV_TIMEOUT} \<and>
     7 \<in> set (activequeues b ! evcb_pri (evs b 7)) \<and> 7 \<notin> set (elems (timeheap b))"
proof -
  have due: "7 \<in> set (elems (timeheap base3)) \<and> deadline base3 7 \<le> fst (gettime base3)"
    using base2_timer(3) base3_simps base3_now by (simp add: less_eq_timeval_def)
  from due_timeouts_fire [OF plenty_mem base3_reached] obtain b where b: "timeout_process plenty base3 = Some b"
    "\<forall>e. if e \<in> set (elems (timeheap base3)) \<and> deadline base3 e \<le> fst (gettime base3)
         then EVLIST_ACTIVE \<in> flags_of b e \<and> ev_res (evs b e) = {EV_TIMEOUT} \<and>
           e \<in> set (activequeues b ! evcb_pri (evs b e)) \<and> e \<notin> set (elems (timeheap b)) \<and>
           flags_of b e \<inter> {EVLIST_TIMEOUT, EVLIST_INSERTED, EVLIST_ACTIVE_LATER} = {}
         else evs b e = evs base3 e" by blast
  with spec [OF b(2), of 7] due show ?thesis by auto
qed



lemma base2_persist: "evcb_closure (evs base2 7) = EV_CLOSURE_EVENT_PERSIST" "ev_io_timeout (evs base2 7) = Timeval 2 0"
  "ev_res (evs base2 7) = {}"
proof -
  have r: "ev_res (evs base1 7) = {}" by (simp add: base1_def event_assign_def Let_def)
  have nc: "\<not> is_common_timeout (Timeval 2 0) b" for b by (rule norm_not_common) (simp add: norm_def)
  define h where "h = snd (min_heap_reserve (mem plenty) (1 + hn (timeheap base1)) (timeheap base1))"
  have eq: "base2 = event_set_timeout plenty 7 (Timeval 2 0) False (base1\<lparr>timeheap := h\<rparr>)"
    using nc by (simp add: base2_def event_add_def event_add_nolock.simps [of plenty] event_add_step_def base1_simps
        event_add_io_def event_add_timeout_def min_heap_reserve_def plenty_mem Let_def h_def)
  define b where "b = upd_ev 7 (\<lambda>ev. ev\<lparr>ev_io_timeout := Timeval 2 0\<rparr>) (base1\<lparr>timeheap := h\<rparr>)"
  obtain now c where g: "gettime b = (now, c)" by fastforce
  have c: "evs c 7 = evs base1 7\<lparr>ev_io_timeout := Timeval 2 0\<rparr>" using gettime_ok(2) [OF g] by (simp add: b_def)
  have fb: "flags_of b 7 = {EVLIST_INIT}" by (simp add: b_def base1_simps)
  have i: "evs (insert_common_timeout_inorder i e b) = evs b" for i e b
    by (simp add: insert_common_timeout_inorder_def upd_ctl_def ev_assert_def split: prod.split)
  have "event_set_timeout plenty 7 (Timeval 2 0) False (base1\<lparr>timeheap := h\<rparr>) =
      event_queue_insert_timeout plenty 7 (upd_ev 7 (\<lambda>ev. ev\<lparr>ev_timeout := new_deadline (Timeval 2 0) False now c\<rparr>) c)"
    using g fb by (simp add: event_set_timeout_def del_timeout_def base1_simps b_def [symmetric] Let_def)
  moreover have "evs (event_queue_insert_timeout plenty 7 d) 7 =
      (if EVLIST_TIMEOUT \<in> flags_of d 7 then evs d 7 else evs d 7\<lparr>evcb_flags := insert EVLIST_TIMEOUT (flags_of d 7)\<rparr>)" for d
    by (simp add: event_queue_insert_timeout_def queue_defs i ev_assert_def Let_def upd_ev_def)
  ultimately have "evcb_closure (evs base2 7) = evcb_closure (evs base1 7) \<and> ev_io_timeout (evs base2 7) = Timeval 2 0 \<and>
     ev_res (evs base2 7) = ev_res (evs base1 7)"
    by (simp add: eq c)
  then show "evcb_closure (evs base2 7) = EV_CLOSURE_EVENT_PERSIST" "ev_io_timeout (evs base2 7) = Timeval 2 0"
    "ev_res (evs base2 7) = {}"
    by (simp_all add: base1_simps r)
qed


end
