(* ===== verification/Inet.thy ===== *)
theory Inet
  imports CNumbers
begin

text \<open>
  Addresses in text (\<^verbatim>\<open>evutil.c\<close>): the character tables, IPv4 and IPv6 addresses printed and parsed,
  and an address with its port. \<^verbatim>\<open>struct in_addr\<close> is its value in host order, \<^verbatim>\<open>struct in6_addr\<close> its
  sixteen bytes.
\<close>

unbundle bit_operations_syntax

section \<open>Character tables\<close>

definition EVUTIL_ISALPHA_TABLE :: "32 word list" where
  "EVUTIL_ISALPHA_TABLE = [0, 0, 0x7fffffe, 0x7fffffe, 0, 0, 0, 0]"

definition EVUTIL_ISALNUM_TABLE :: "32 word list" where
  "EVUTIL_ISALNUM_TABLE = [0, 0x3ff0000, 0x7fffffe, 0x7fffffe, 0, 0, 0, 0]"

definition EVUTIL_ISXDIGIT_TABLE :: "32 word list" where
  "EVUTIL_ISXDIGIT_TABLE = [0, 0x3ff0000, 0x7e, 0x7e, 0, 0, 0, 0]"

definition EVUTIL_ISDIGIT_TABLE :: "32 word list" where
  "EVUTIL_ISDIGIT_TABLE = [0, 0x3ff0000, 0, 0, 0, 0, 0, 0]"

definition in_table :: "32 word list \<Rightarrow> char \<Rightarrow> bool" where
  "in_table table c =
     (let u = of_char c :: nat in table ! ((u div 32) mod 8) AND push_bit (u mod 32) 1 \<noteq> 0)"

definition EVUTIL_ISALPHA :: "char \<Rightarrow> bool" where
  "EVUTIL_ISALPHA c = in_table EVUTIL_ISALPHA_TABLE c"

definition EVUTIL_ISALNUM :: "char \<Rightarrow> bool" where
  "EVUTIL_ISALNUM c = in_table EVUTIL_ISALNUM_TABLE c"

definition EVUTIL_ISXDIGIT :: "char \<Rightarrow> bool" where
  "EVUTIL_ISXDIGIT c = in_table EVUTIL_ISXDIGIT_TABLE c"

definition EVUTIL_ISDIGIT :: "char \<Rightarrow> bool" where
  "EVUTIL_ISDIGIT c = in_table EVUTIL_ISDIGIT_TABLE c"

section \<open>IPv4\<close>

definition inet4_text :: "32 word \<Rightarrow> string" where
  "inet4_text a =
     show_dec (unat (drop_bit 24 a AND 0xff)) @ ''.'' @ show_dec (unat (drop_bit 16 a AND 0xff)) @ ''.'' @
     show_dec (unat (drop_bit 8 a AND 0xff)) @ ''.'' @ show_dec (unat (a AND 0xff))"

text \<open>\<^verbatim>\<open>sscanf(s, "%u.%u.%u.%u%c", ...) != 4\<close> fails.\<close>

definition scan_dot :: "string \<Rightarrow> string option" where
  "scan_dot s = (case s of [] \<Rightarrow> None | c # r \<Rightarrow> if c = CHR ''.'' then Some r else None)"

definition scan_quad :: "string \<Rightarrow> (int \<times> int \<times> int \<times> int) option" where
  "scan_quad s =
     (case scan_u s of
        None \<Rightarrow> None
      | Some (a, s) \<Rightarrow>
          (case Option.bind (scan_dot s) scan_u of
             None \<Rightarrow> None
           | Some (b, s) \<Rightarrow>
               (case Option.bind (scan_dot s) scan_u of
                  None \<Rightarrow> None
                | Some (c, s) \<Rightarrow>
                    (case Option.bind (scan_dot s) scan_u of
                       None \<Rightarrow> None
                     | Some (d, s) \<Rightarrow> if s = [] then Some (a, b, c, d) else None))))"

definition inet4_parse :: "string \<Rightarrow> 32 word option" where
  "inet4_parse src =
     (case scan_quad src of
        None \<Rightarrow> None
      | Some (a, b, c, d) \<Rightarrow>
          if a > 255 \<or> b > 255 \<or> c > 255 \<or> d > 255 then None
          else Some (push_bit 24 (word_of_int a) OR push_bit 16 (word_of_int b) OR
                     push_bit 8 (word_of_int c) OR word_of_int d))"

section \<open>IPv6\<close>

fun words_of :: "byte list \<Rightarrow> 16 word list" where
  "words_of (a # b # bs) = (push_bit 8 (ucast a) + ucast b) # words_of bs"
| "words_of _ = []"

fun bytes_of :: "16 word list \<Rightarrow> byte list" where
  "bytes_of [] = []"
| "bytes_of (w # ws) = ucast (drop_bit 8 w) # ucast (w AND 0xff) # bytes_of ws"

text \<open>
  The loop that looks for the longest run of zeros, from word number \<open>i\<close> on: where the longest run
  begins and its length.
\<close>

function longest_gap :: "16 word list \<Rightarrow> nat \<Rightarrow> int \<Rightarrow> nat \<Rightarrow> int \<times> nat" where
  "longest_gap [] i longestGapPos longestGapLen = (longestGapPos, longestGapLen)"
| "longest_gap (w # ws) i longestGapPos longestGapLen =
     (if w = 0 then
        (let curGapLen = 1 + length (takeWhile (\<lambda>x. x = 0) ws);
             rest = dropWhile (\<lambda>x. x = 0) ws
         in if curGapLen > longestGapLen then longest_gap rest (i + curGapLen) (int i) curGapLen
            else longest_gap rest (i + curGapLen) longestGapPos longestGapLen)
      else longest_gap ws (i + 1) longestGapPos longestGapLen)"
  by pat_completeness auto
termination
  by (relation "measure (\<lambda>(ws, _). length ws)") (auto simp: length_dropWhile_le le_imp_less_Suc)

text \<open>The loop that prints.\<close>

function show_words :: "int \<Rightarrow> 16 word list \<Rightarrow> nat \<Rightarrow> string" where
  "show_words longestGapPos [] i = []"
| "show_words longestGapPos (w # ws) i =
     (if w = 0 \<and> longestGapPos = int i then
        (if i = 0 then '':'' else []) @ '':'' @
        show_words longestGapPos (dropWhile (\<lambda>x. x = 0) ws) (i + 1 + length (takeWhile (\<lambda>x. x = 0) ws))
      else show_hex (unat w) @ (if i \<noteq> 7 then '':'' else []) @ show_words longestGapPos ws (i + 1))"
  by pat_completeness auto
termination
  by (relation "measure (\<lambda>(_, ws, _). length ws)") (auto simp: length_dropWhile_le le_imp_less_Suc)

definition quad_text :: "byte list \<Rightarrow> string" where
  "quad_text s6_addr =
     show_dec (unat (s6_addr ! 12)) @ ''.'' @ show_dec (unat (s6_addr ! 13)) @ ''.'' @
     show_dec (unat (s6_addr ! 14)) @ ''.'' @ show_dec (unat (s6_addr ! 15))"

definition inet6_text :: "byte list \<Rightarrow> string" where
  "inet6_text s6_addr =
     (let words = words_of s6_addr
      in if words ! 0 = 0 \<and> words ! 1 = 0 \<and> words ! 2 = 0 \<and> words ! 3 = 0 \<and> words ! 4 = 0 \<and>
            (words ! 5 = 0 \<and> words ! 6 \<noteq> 0 \<and> words ! 7 \<noteq> 0 \<or> words ! 5 = 0xffff)
         then
           (if words ! 5 = 0 then ''::'' @ quad_text s6_addr
            else ''::'' @ show_hex (unat (words ! 5)) @ '':'' @ quad_text s6_addr)
         else
           (let (longestGapPos, longestGapLen) = longest_gap words 0 (-1) 0
            in show_words (if longestGapLen \<le> 1 then -1 else longestGapPos) words 0))"

text \<open>
  The loop that parses: \<open>src\<close> is the text from there to its end, \<open>k\<close> how far the end of the words is
  ahead. It gives the number of words read, the position of the gap, the number of words set and the
  words.
\<close>

text \<open>\<^verbatim>\<open>strtol(src, &next, 16)\<close> at a hexadecimal digit and the tests of what it read.\<close>

definition one_word :: "string \<Rightarrow> int \<Rightarrow> (16 word \<times> string \<times> int) option" where
  "one_word src k =
     (let (r, rest) = strtol 16 src;
          used = length src - length rest
      in if used > 4 then None
         else if used = 0 then None
         else if r < 0 \<or> r > 65536 then None
         else if (rest = [] \<or> hd rest \<noteq> CHR '':'') \<and> int used \<noteq> k then None
         else Some (word_of_int r, drop 1 rest, k - int used - 1))"

lemma one_word_less: "one_word src k = Some (w, s, k') \<Longrightarrow> k' < k"
  by (auto simp: one_word_def Let_def split: prod.splits if_splits)

function words_loop ::
    "string \<Rightarrow> int \<Rightarrow> nat \<Rightarrow> nat option \<Rightarrow> nat \<Rightarrow> 16 word list \<Rightarrow> (nat \<times> nat option \<times> nat \<times> 16 word list) option" where
  "words_loop src k i gapPos setWords words =
     (if k \<le> 0 then Some (i, gapPos, setWords, words)
      else if i > 7 then None
      else
        (case src of
           [] \<Rightarrow> None
         | c # s \<Rightarrow>
             if EVUTIL_ISXDIGIT c then
               (case one_word src k of
                  None \<Rightarrow> None
                | Some (r, s, k') \<Rightarrow> words_loop s k' (i + 1) gapPos (setWords + 1) (words[i := r]))
             else if c = CHR '':'' \<and> i > 0 \<and> gapPos = None then
               words_loop s (k - 1) i (Some i) setWords words
             else if c = CHR '':'' \<and> i = 0 \<and> s \<noteq> [] \<and> hd s = CHR '':'' \<and> gapPos = None then
               words_loop (tl s) (k - 2) i (Some i) setWords words
             else None))"
  by pat_completeness auto
termination
  by (relation "measure (\<lambda>(src, k, _). nat k)") (auto dest: one_word_less)

declare words_loop.simps [simp del]

text \<open>The dotted end of the text, and where the words before it end.\<close>

definition dotted_end :: "string \<Rightarrow> nat" where
  "dotted_end src =
     (let ahead = takeWhile (\<lambda>c. c \<noteq> CHR ''.'') src
      in length ahead - length (takeWhile EVUTIL_ISDIGIT (rev ahead)))"

definition dotted_words :: "string \<Rightarrow> 16 word list option" where
  "dotted_words s =
     (case scan_quad s of
        None \<Rightarrow> None
      | Some (a, b, c, d) \<Rightarrow>
          if a > 255 \<or> b > 255 \<or> c > 255 \<or> d > 255 then None
          else Some [push_bit 8 (word_of_int a) OR word_of_int b, push_bit 8 (word_of_int c) OR word_of_int d])"

text \<open>The move of the words behind the gap and the zeros in it; \<open>dots\<close> is 2 after a dotted end.\<close>

definition fill_gap :: "nat option \<Rightarrow> nat \<Rightarrow> nat \<Rightarrow> 16 word list \<Rightarrow> 16 word list" where
  "fill_gap gapPos setWords dots words =
     (case gapPos of
        None \<Rightarrow> words
      | Some g \<Rightarrow>
          (let nToMove = setWords - dots - g;
               gapLen = 8 - setWords
           in take g words @ replicate gapLen 0 @ take nToMove (drop g words) @
              drop (g + gapLen + nToMove) words))"

definition inet6_parse :: "string \<Rightarrow> byte list option" where
  "inet6_parse src =
     (let dot = CHR ''.'' \<in> set src;
          eow = (if dot then dotted_end src else length src)
      in if dot \<and> hd src = CHR ''.'' then None
         else
           (case (if dot then dotted_words (drop eow src) else Some [0, 0]) of
              None \<Rightarrow> None
            | Some last_words \<Rightarrow>
                (case words_loop src (int eow) 0 None (if dot then 2 else 0) (replicate 6 0 @ last_words) of
                   None \<Rightarrow> None
                 | Some (i, gapPos, setWords, words) \<Rightarrow>
                     if setWords > 8 \<or> setWords = 8 \<and> gapPos \<noteq> None \<or> setWords < 8 \<and> gapPos = None then None
                     else Some (bytes_of (fill_gap gapPos setWords (if dot then 2 else 0) words)))))"

section \<open>The two operations\<close>

datatype family = AF_INET | AF_INET6 | AF_OTHER int

datatype inet_addr = Addr4 "32 word" | Addr6 "byte list"

text \<open>
  \<^verbatim>\<open>evutil_inet_ntop\<close>: what \<^verbatim>\<open>dst\<close> holds, or NULL. \<^verbatim>\<open>strlcpy\<close> cuts what does not fit with its NUL.
\<close>

definition evutil_inet_ntop :: "inet_addr \<Rightarrow> nat \<Rightarrow> string option" where
  "evutil_inet_ntop src len =
     (case src of
        Addr4 a \<Rightarrow> if length (inet4_text a) \<ge> len then None else Some (inet4_text a)
      | Addr6 a \<Rightarrow> if length (inet6_text a) > len then None else Some (take (len - 1) (inet6_text a)))"

definition evutil_inet_pton :: "family \<Rightarrow> string \<Rightarrow> int \<times> inet_addr option" where
  "evutil_inet_pton af src =
     (case af of
        AF_INET \<Rightarrow> (case inet4_parse src of None \<Rightarrow> (0, None) | Some a \<Rightarrow> (1, Some (Addr4 a)))
      | AF_INET6 \<Rightarrow> (case inet6_parse src of None \<Rightarrow> (0, None) | Some a \<Rightarrow> (1, Some (Addr6 a)))
      | AF_OTHER _ \<Rightarrow> (-1, None))"

section \<open>An address with a zone or a port\<close>

text \<open>
  The index of an interface name, \<^verbatim>\<open>if_nametoindex\<close>, is the system's and a parameter. The result is
  that of \<^verbatim>\<open>evutil_inet_pton\<close>, the address and \<^verbatim>\<open>*indexp\<close>.
\<close>

definition strtoul10 :: "string \<Rightarrow> int \<times> string" where
  "strtoul10 s = (case scan_u s of None \<Rightarrow> (0, s) | Some r \<Rightarrow> r)"

definition evutil_inet_pton_scope ::
    "(string \<Rightarrow> int) \<Rightarrow> family \<Rightarrow> string \<Rightarrow> int \<times> inet_addr option \<times> int" where
  "evutil_inet_pton_scope if_nametoindex af src =
     (if af \<noteq> AF_INET6 \<or> CHR ''%'' \<notin> set src then
        (let (r, dst) = evutil_inet_pton af src in (r, dst, 0))
      else
        (let zone = tl (dropWhile (\<lambda>c. c \<noteq> CHR ''%'') src);
             (if_index, check) = (if if_nametoindex zone = 0 then strtoul10 zone else (if_nametoindex zone, []))
         in if check \<noteq> [] then (0, None, 0)
            else (let (r, dst) = evutil_inet_pton af (takeWhile (\<lambda>c. c \<noteq> CHR ''%'') src) in (r, dst, if_index))))"

datatype sockaddr =
    Sockaddr_in (sin_addr: "32 word") (sin_port: "16 word")
  | Sockaddr_in6 (sin6_addr: "byte list") (sin6_port: "16 word") (sin6_scope_id: "32 word")
  | Sockaddr_other (sa_family: int)

definition sizeof_sockaddr_in :: int where "sizeof_sockaddr_in = 16"
definition sizeof_sockaddr_in6 :: int where "sizeof_sockaddr_in6 = 28"

text \<open>
  Whether the text is an IPv6 address, the part that is the address and the part that is the port;
  \<^verbatim>\<open>buf\<close> holds 127 characters.
\<close>

definition split_port :: "string \<Rightarrow> (bool \<times> string \<times> string option) option" where
  "split_port s =
     (let addr = takeWhile (\<lambda>c. c \<noteq> CHR '':'') s;
          cp = dropWhile (\<lambda>c. c \<noteq> CHR '':'') s
      in if s \<noteq> [] \<and> hd s = CHR ''['' then
           (let inside = takeWhile (\<lambda>c. c \<noteq> CHR '']'') (tl s);
                rest = dropWhile (\<lambda>c. c \<noteq> CHR '']'') (tl s)
            in if rest = [] then None
               else if length inside > 127 then None
               else Some (True, inside,
                      if tl rest \<noteq> [] \<and> hd (tl rest) = CHR '':'' then Some (tl (tl rest)) else None))
         else if cp \<noteq> [] \<and> CHR '':'' \<in> set (tl cp) then Some (True, s, None)
         else if cp \<noteq> [] then
           (if length addr > 127 then None else Some (False, addr, Some (tl cp)))
         else Some (False, s, None))"

definition atoi :: "string \<Rightarrow> int" where
  "atoi s = cast_int (fst (strtol 10 s))"

text \<open>What \<^verbatim>\<open>out\<close> and \<^verbatim>\<open>*outlen\<close> are after a return of 0.\<close>

definition evutil_parse_sockaddr_port :: "(string \<Rightarrow> int) \<Rightarrow> string \<Rightarrow> int \<Rightarrow> (sockaddr \<times> int) option" where
  "evutil_parse_sockaddr_port if_nametoindex ip_as_string outlen =
     (case split_port ip_as_string of
        None \<Rightarrow> None
      | Some (is_ipv6, addr_part, port_part) \<Rightarrow>
          (let port = (case port_part of None \<Rightarrow> 0 | Some p \<Rightarrow> atoi p)
           in if port_part \<noteq> None \<and> (port \<le> 0 \<or> port > 65535) then None
              else if is_ipv6 then
                (case evutil_inet_pton_scope if_nametoindex AF_INET6 addr_part of
                   (r, Some (Addr6 a), if_index) \<Rightarrow>
                     if r \<noteq> 1 then None
                     else if sizeof_sockaddr_in6 > outlen then None
                     else Some (Sockaddr_in6 a (word_of_int port) (word_of_int if_index), sizeof_sockaddr_in6)
                 | _ \<Rightarrow> None)
              else
                (case evutil_inet_pton AF_INET addr_part of
                   (r, Some (Addr4 a)) \<Rightarrow>
                     if r \<noteq> 1 then None
                     else if sizeof_sockaddr_in > outlen then None
                     else Some (Sockaddr_in a (word_of_int port), sizeof_sockaddr_in)
                 | _ \<Rightarrow> None)))"

definition show_int :: "int \<Rightarrow> string" where
  "show_int n = (if n < 0 then CHR ''-'' # show_dec (nat (- n)) else show_dec (nat n))"

definition unknown_text :: "int \<Rightarrow> string" where
  "unknown_text n = ''<addr with socktype '' @ show_int n @ ''>''"

definition evutil_format_sockaddr_port :: "sockaddr \<Rightarrow> nat \<Rightarrow> string" where
  "evutil_format_sockaddr_port sa outlen =
     take (outlen - 1)
       (case sa of
          Sockaddr_in a p \<Rightarrow>
            (case evutil_inet_ntop (Addr4 a) 128 of
               Some b \<Rightarrow> b @ '':'' @ show_dec (unat p)
             | None \<Rightarrow> unknown_text 2)
        | Sockaddr_in6 a p _ \<Rightarrow>
            (case evutil_inet_ntop (Addr6 a) 128 of
               Some b \<Rightarrow> ''['' @ b @ '']:'' @ show_dec (unat p)
             | None \<Rightarrow> unknown_text 10)
        | Sockaddr_other f \<Rightarrow> unknown_text f)"

end
