(* ===== verification/HttpUri.thy ===== *)
theory HttpUri
  imports Inet
begin

text \<open>
  Strings, headers and URIs of the HTTP layer (\<^verbatim>\<open>http.c\<close>). A C string is its characters before the
  NUL; a pointer into one is the text from there on. Allocations are taken to succeed: where one
  fails the functions return NULL or -1.
\<close>

section \<open>Escapes\<close>

definition html_replace :: "char \<Rightarrow> string" where
  "html_replace ch =
     (if ch = CHR ''<'' then ''&lt;''
      else if ch = CHR ''>'' then ''&gt;''
      else if ch = CHR 0x22 then ''&quot;''
      else if ch = CHR 0x27 then ''&#039;''
      else if ch = CHR ''&'' then ''&amp;''
      else [ch])"

fun html_size :: "nat \<Rightarrow> string \<Rightarrow> nat option" where
  "html_size new_size [] = Some new_size"
| "html_size new_size (ch # html) =
     (if length (html_replace ch) > EV_SIZE_MAX - new_size then None
      else html_size (new_size + length (html_replace ch)) html)"

definition evhttp_htmlescape :: "string \<Rightarrow> string option" where
  "evhttp_htmlescape html =
     (case html_size 0 html of
        None \<Rightarrow> None
      | Some new_size \<Rightarrow> if new_size = EV_SIZE_MAX then None else Some (concat (map html_replace html)))"

text \<open>The table of the characters that stand for themselves in a URI.\<close>

definition uri_chars :: "nat list" where
  "uri_chars =
     [0, 0, 0, 0, 0, 0, 0, 0, 0, 0, 0, 0, 0, 0, 0, 0, 0, 0, 0, 0, 0, 0, 0, 0, 0, 0, 0, 0, 0, 0, 0, 0,
      0, 0, 0, 0, 0, 0, 0, 0, 0, 0, 0, 0, 0, 1, 1, 0, 1, 1, 1, 1, 1, 1, 1, 1, 1, 1, 0, 0, 0, 0, 0, 0,
      0, 1, 1, 1, 1, 1, 1, 1, 1, 1, 1, 1, 1, 1, 1, 1, 1, 1, 1, 1, 1, 1, 1, 1, 1, 1, 1, 0, 0, 0, 0, 1,
      0, 1, 1, 1, 1, 1, 1, 1, 1, 1, 1, 1, 1, 1, 1, 1, 1, 1, 1, 1, 1, 1, 1, 1, 1, 1, 1, 0, 0, 0, 1, 0,
      0, 0, 0, 0, 0, 0, 0, 0, 0, 0, 0, 0, 0, 0, 0, 0, 0, 0, 0, 0, 0, 0, 0, 0, 0, 0, 0, 0, 0, 0, 0, 0,
      0, 0, 0, 0, 0, 0, 0, 0, 0, 0, 0, 0, 0, 0, 0, 0, 0, 0, 0, 0, 0, 0, 0, 0, 0, 0, 0, 0, 0, 0, 0, 0,
      0, 0, 0, 0, 0, 0, 0, 0, 0, 0, 0, 0, 0, 0, 0, 0, 0, 0, 0, 0, 0, 0, 0, 0, 0, 0, 0, 0, 0, 0, 0, 0,
      0, 0, 0, 0, 0, 0, 0, 0, 0, 0, 0, 0, 0, 0, 0, 0, 0, 0, 0, 0, 0, 0, 0, 0, 0, 0, 0, 0, 0, 0, 0, 0]"

definition CHAR_IS_UNRESERVED :: "char \<Rightarrow> bool" where
  "CHAR_IS_UNRESERVED c \<longleftrightarrow> uri_chars ! of_char c \<noteq> 0"

text \<open>\<^verbatim>\<open>%%%02X\<close>\<close>

definition hex_upper :: "nat \<Rightarrow> char" where
  "hex_upper d = char_of (if d < 10 then 48 + d else 55 + d)"

definition percent :: "char \<Rightarrow> string" where
  "percent c = [CHR ''%'', hex_upper (of_char c div 16), hex_upper (of_char c mod 16)]"

text \<open>The string the pointer \<open>uri\<close> and the length \<open>len\<close> stand for is encoded.\<close>

definition evhttp_uriencode :: "string \<Rightarrow> int \<Rightarrow> bool \<Rightarrow> string option" where
  "evhttp_uriencode uri len space_as_plus =
     (let src = (if len \<ge> 0 then take (nat len) uri else c_str uri)
      in if len < 0 \<and> int (length src) \<ge> 2 ^ 63 - 1 then None
         else Some (concat (map (\<lambda>c. if CHAR_IS_UNRESERVED c then [c]
                                    else if c = CHR '' '' \<and> space_as_plus then ''+''
                                    else percent c) src)))"

definition evhttp_encode_uri :: "string \<Rightarrow> string option" where
  "evhttp_encode_uri str = evhttp_uriencode str (-1) False"

text \<open>
  The loop of \<^verbatim>\<open>evhttp_decode_uri_internal\<close> on the text from \<open>i\<close> on; its index is 32 bits wide, so it
  ends for texts shorter than \<^term>\<open>2 ^ 32 :: nat\<close>.
\<close>

function decode_loop :: "int \<Rightarrow> bool \<Rightarrow> string \<Rightarrow> string" where
  "decode_loop decode_plus_ctl decode_plus [] = []"
| "decode_loop decode_plus_ctl decode_plus (c # s) =
     (if c = CHR ''?'' then c # decode_loop decode_plus_ctl (decode_plus \<or> decode_plus_ctl < 0) s
      else if c = CHR ''+'' \<and> decode_plus then CHR '' '' # decode_loop decode_plus_ctl decode_plus s
      else if 2 \<le> length s \<and> c = CHR ''%'' \<and> EVUTIL_ISXDIGIT (s ! 0) \<and> EVUTIL_ISXDIGIT (s ! 1) then
        char_of (nat (fst (strtol 16 (take 2 s)))) # decode_loop decode_plus_ctl decode_plus (drop 2 s)
      else c # decode_loop decode_plus_ctl decode_plus s)"
  by pat_completeness auto
termination
  by (relation "measure (\<lambda>(_, _, s). length s)") auto

definition evhttp_decode_uri_internal :: "string \<Rightarrow> int \<Rightarrow> int \<times> string" where
  "evhttp_decode_uri_internal uri decode_plus_ctl =
     (let ret = decode_loop decode_plus_ctl (decode_plus_ctl = 1) uri in (int (length ret), ret))"

definition evhttp_decode_uri :: "string \<Rightarrow> string" where
  "evhttp_decode_uri uri = snd (evhttp_decode_uri_internal uri (-1))"

text \<open>The bytes written and \<^verbatim>\<open>*size_out\<close>.\<close>

definition evhttp_uridecode :: "string \<Rightarrow> bool \<Rightarrow> string \<times> int" where
  "evhttp_uridecode uri decode_plus =
     (let (n, ret) = evhttp_decode_uri_internal uri (if decode_plus then 1 else 0) in (ret, n))"

section \<open>Headers\<close>

text \<open>A queue of keys and values, the first at the head.\<close>

type_synonym evkeyvalq = "(string \<times> string) list"

definition signed_char :: "char \<Rightarrow> int" where
  "signed_char c = signed_take_bit 7 (of_char c)"

text \<open>\<^verbatim>\<open>EVUTIL_TOLOWER_\<close> is the table of \<^term>\<open>tolower\<close>.\<close>

fun evutil_ascii_strcasecmp :: "string \<Rightarrow> string \<Rightarrow> int" where
  "evutil_ascii_strcasecmp (c # s) (d # t) =
     (if signed_char (tolower c) < signed_char (tolower d) then -1
      else if signed_char (tolower c) > signed_char (tolower d) then 1
      else evutil_ascii_strcasecmp s t)"
| "evutil_ascii_strcasecmp [] [] = 0"
| "evutil_ascii_strcasecmp [] (d # t) = (if 0 < signed_char (tolower d) then -1 else 1)"
| "evutil_ascii_strcasecmp (c # s) [] = (if signed_char (tolower c) < 0 then -1 else 1)"

definition evutil_rtrim_lws :: "string \<Rightarrow> string" where
  "evutil_rtrim_lws str = rev (dropWhile (\<lambda>c. c = CHR '' '' \<or> c = CHR 0x09) (rev str))"

fun evhttp_find_header :: "evkeyvalq \<Rightarrow> string \<Rightarrow> string option" where
  "evhttp_find_header [] key = None"
| "evhttp_find_header (header # headers) key =
     (if evutil_ascii_strcasecmp (fst header) key = 0 then Some (snd header)
      else evhttp_find_header headers key)"

definition evhttp_clear_headers :: "evkeyvalq \<Rightarrow> evkeyvalq" where
  "evhttp_clear_headers headers = []"

fun evhttp_remove_header :: "evkeyvalq \<Rightarrow> string \<Rightarrow> int \<times> evkeyvalq" where
  "evhttp_remove_header [] key = (-1, [])"
| "evhttp_remove_header (header # headers) key =
     (if evutil_ascii_strcasecmp (fst header) key = 0 then (0, headers)
      else (let (r, hs) = evhttp_remove_header headers key in (r, header # hs)))"

definition is_crlf :: "char \<Rightarrow> bool" where
  "is_crlf c \<longleftrightarrow> c = CHR 0x0D \<or> c = CHR 0x0A"

text \<open>The text from \<^verbatim>\<open>p\<close> on.\<close>

function evhttp_header_is_valid_value :: "string \<Rightarrow> bool" where
  "evhttp_header_is_valid_value p =
     (let q = dropWhile (\<lambda>c. \<not> is_crlf c) p
      in if q = [] then True
         else
           (let r = dropWhile is_crlf q
            in if r = [] then False
               else if hd r \<noteq> CHR '' '' \<and> hd r \<noteq> CHR 0x09 then False
               else evhttp_header_is_valid_value r))"
  by pat_completeness auto
termination
proof (relation "measure length")
  fix p q r :: string
  assume q: "q = dropWhile (\<lambda>c. \<not> is_crlf c) p" "q \<noteq> []" and r: "r = dropWhile is_crlf q"
  obtain c s where cs: "q = c # s" using q(2) by (cases q) auto
  moreover have "is_crlf (hd q)" using hd_dropWhile [of "\<lambda>c. \<not> is_crlf c" p] q by blast
  ultimately have "is_crlf c" by simp
  with r cs have "length r \<le> length s" by (simp add: length_dropWhile_le)
  also have "\<dots> < length q" using cs by simp
  also have "\<dots> \<le> length p" using q(1) by (simp add: length_dropWhile_le)
  finally show "(r, p) \<in> measure length" by simp
qed simp

declare evhttp_header_is_valid_value.simps [simp del]

definition evhttp_add_header_internal :: "evkeyvalq \<Rightarrow> string \<Rightarrow> string \<Rightarrow> int \<times> evkeyvalq" where
  "evhttp_add_header_internal headers key v = (0, headers @ [(key, v)])"

definition evhttp_add_header :: "evkeyvalq \<Rightarrow> string \<Rightarrow> string \<Rightarrow> int \<times> evkeyvalq" where
  "evhttp_add_header headers key v =
     (if CHR 0x0D \<in> set key \<or> CHR 0x0A \<in> set key then (-1, headers)
      else if \<not> evhttp_header_is_valid_value v then (-1, headers)
      else evhttp_add_header_internal headers key v)"

text \<open>\<^verbatim>\<open>strsep\<close> with one delimiter: the token, and where the string goes on.\<close>

definition strsep :: "char \<Rightarrow> string \<Rightarrow> string \<times> string option" where
  "strsep del s =
     (takeWhile (\<lambda>c. c \<noteq> del) s, if del \<in> set s then Some (tl (dropWhile (\<lambda>c. c \<noteq> del) s)) else None)"

section \<open>URIs\<close>

record evhttp_uri =
  uri_flags :: nat
  scheme :: "string option"
  userinfo :: "string option"
  host :: "string option"
  port :: int
  path :: "string option"
  query :: "string option"
  fragment :: "string option"

definition EVHTTP_URI_NONCONFORMANT :: nat where "EVHTTP_URI_NONCONFORMANT = 1"

definition nonconformant :: "nat \<Rightarrow> bool" where
  "nonconformant flags \<longleftrightarrow> odd (flags div EVHTTP_URI_NONCONFORMANT)"

definition evhttp_uri_new :: evhttp_uri where
  "evhttp_uri_new = \<lparr>uri_flags = 0, scheme = None, userinfo = None, host = None, port = -1,
     path = None, query = None, fragment = None\<rparr>"

definition evhttp_uri_set_flags :: "evhttp_uri \<Rightarrow> nat \<Rightarrow> evhttp_uri" where
  "evhttp_uri_set_flags uri flags = uri\<lparr>uri_flags := flags\<rparr>"

definition scheme_ok :: "string \<Rightarrow> bool" where
  "scheme_ok s \<longleftrightarrow> s \<noteq> [] \<and> EVUTIL_ISALPHA (hd s) \<and>
     list_all (\<lambda>c. EVUTIL_ISALNUM c \<or> c = CHR ''+'' \<or> c = CHR ''-'' \<or> c = CHR ''.'') (tl s)"

definition SUBDELIMS :: string where
  "SUBDELIMS = ''!$&'' @ [CHR 0x27] @ ''()*+,;=''"

text \<open>\<^verbatim>\<open>strchr\<close> finds the NUL that ends the string.\<close>

definition strchr_in :: "string \<Rightarrow> char \<Rightarrow> bool" where
  "strchr_in s c \<longleftrightarrow> c \<in> set s \<or> c = CHR 0x00"

function userinfo_ok :: "string \<Rightarrow> bool" where
  "userinfo_ok [] = True"
| "userinfo_ok (c # s) =
     (if CHAR_IS_UNRESERVED c \<or> strchr_in SUBDELIMS c \<or> c = CHR '':'' then userinfo_ok s
      else if c = CHR ''%'' \<and> 2 \<le> length s \<and> EVUTIL_ISXDIGIT (s ! 0) \<and> EVUTIL_ISXDIGIT (s ! 1)
      then userinfo_ok (drop 2 s)
      else False)"
  by pat_completeness auto
termination
  by (relation "measure length") auto

text \<open>\<open>s\<close> is the text to its NUL and \<open>n\<close> what is left of the name; the escapes are read in the text.\<close>

definition hex_pair :: "string \<Rightarrow> bool" where
  "hex_pair s \<longleftrightarrow> (case s of a # b # _ \<Rightarrow> EVUTIL_ISXDIGIT a \<and> EVUTIL_ISXDIGIT b | _ \<Rightarrow> False)"

function regname_ok :: "string \<Rightarrow> int \<Rightarrow> bool" where
  "regname_ok [] n = True"
| "regname_ok (c # s) n =
     (if n \<le> 0 then True
      else if CHAR_IS_UNRESERVED c \<or> strchr_in SUBDELIMS c then regname_ok s (n - 1)
      else if c = CHR ''%'' \<and> hex_pair s then regname_ok (drop 2 s) (n - 3)
      else False)"
  by pat_completeness auto
termination
  by (relation "measure (\<lambda>(s, _). length s)") auto

fun parse_port :: "int \<Rightarrow> string \<Rightarrow> int" where
  "parse_port portnum [] = portnum"
| "parse_port portnum (c # s) =
     (if \<not> EVUTIL_ISDIGIT c then -1
      else
        (let portnum = portnum * 10 + (int (of_char c) - 48)
         in if portnum < 0 then -1
            else if portnum > 65535 then -1
            else parse_port portnum s))"

definition ipvfuture_ok :: "string \<Rightarrow> bool" where
  "ipvfuture_ok s \<longleftrightarrow>
     (let rest = dropWhile EVUTIL_ISXDIGIT s
      in s \<noteq> [] \<and> EVUTIL_ISXDIGIT (hd s) \<and> rest \<noteq> [] \<and> hd rest = CHR ''.'' \<and>
         list_all (\<lambda>c. CHAR_IS_UNRESERVED c \<or> strchr_in SUBDELIMS c \<or> c = CHR '':'') (tl rest))"

definition bracket_addr_ok :: "string \<Rightarrow> int" where
  "bracket_addr_ok s =
     (if length s < 3 \<or> hd s \<noteq> CHR ''['' \<or> last s \<noteq> CHR '']'' then 0
      else if s ! 1 = CHR ''v'' then (if ipvfuture_ok (drop 2 (butlast s)) then 2 else 0)
      else if length s - 2 \<ge> 64 then 0
      else if fst (evutil_inet_pton AF_INET6 (c_str (tl (butlast s)))) = 1 then 1 else 0)"

text \<open>
  \<open>s\<close> is the text to its NUL, of which the authority is the first \<open>n\<close> characters. The result is
  \<^term>\<open>None\<close> for -1.
\<close>

definition split_userinfo :: "string \<Rightarrow> string option \<times> string" where
  "split_userinfo s =
     (if CHR ''@'' \<in> set s
      then (Some (takeWhile (\<lambda>c. c \<noteq> CHR ''@'') s), tl (dropWhile (\<lambda>c. c \<noteq> CHR ''@'') s))
      else (None, s))"

text \<open>The host and the port with its colon.\<close>

definition split_host :: "string \<Rightarrow> string \<times> string" where
  "split_host s =
     (let n = length s - length (takeWhile EVUTIL_ISDIGIT (rev s))
      in if 0 < n \<and> s ! (n - 1) = CHR '':'' then (take (n - 1) s, drop (n - 1) s) else (s, []))"

definition host_ok :: "string \<Rightarrow> string \<Rightarrow> bool" where
  "host_ok h rest \<longleftrightarrow>
     (if h \<noteq> [] \<and> hd h = CHR ''['' \<and> 2 \<le> length h \<and> last h = CHR '']'' then bracket_addr_ok h \<noteq> 0
      else regname_ok (h @ rest) (int (length h)))"

definition parse_authority :: "evhttp_uri \<Rightarrow> string \<Rightarrow> nat \<Rightarrow> evhttp_uri option" where
  "parse_authority uri s n =
     (if n = 0 then Some (uri\<lparr>host := Some []\<rparr>)
      else
        (let (info, hp) = split_userinfo (take n s);
             (h, p) = split_host hp;
             uri = (if info = None then uri else uri\<lparr>userinfo := info\<rparr>);
             portnum = (if length p \<le> 1 then -1 else parse_port 0 (tl p));
             uri = (if p = [] then uri else uri\<lparr>port := portnum\<rparr>)
         in if info \<noteq> None \<and> \<not> userinfo_ok (the info) then None
            else if 1 < length p \<and> portnum < 0 then None
            else if \<not> host_ok h (p @ drop n s) then None
            else Some (uri\<lparr>host := Some h\<rparr>)))"

definition end_of_authority :: "string \<Rightarrow> nat" where
  "end_of_authority cp = length (takeWhile (\<lambda>c. \<not> (c = CHR ''?'' \<or> c = CHR ''#'' \<or> c = CHR ''/'')) cp)"

datatype uri_part = PART_PATH | PART_QUERY | PART_FRAGMENT

text \<open>How many characters of the text belong to the part.\<close>

function conformant_end :: "string \<Rightarrow> uri_part \<Rightarrow> nat" where
  "conformant_end [] part = 0"
| "conformant_end (c # s) part =
     (if CHAR_IS_UNRESERVED c \<or> strchr_in SUBDELIMS c \<or> c = CHR '':'' \<or> c = CHR ''@'' \<or> c = CHR ''/''
      then Suc (conformant_end s part)
      else if c = CHR ''%'' \<and> hex_pair s then 3 + conformant_end (drop 2 s) part
      else if c = CHR ''?'' \<and> part \<noteq> PART_PATH then Suc (conformant_end s part)
      else 0)"
  by pat_completeness auto
termination
  by (relation "measure (\<lambda>(s, _). length s)") auto

definition end_of_path :: "string \<Rightarrow> uri_part \<Rightarrow> nat \<Rightarrow> nat" where
  "end_of_path cp part flags =
     (if nonconformant flags then
        (case part of
           PART_PATH \<Rightarrow> length (takeWhile (\<lambda>c. c \<noteq> CHR ''#'' \<and> c \<noteq> CHR ''?'') cp)
         | PART_QUERY \<Rightarrow> length (takeWhile (\<lambda>c. c \<noteq> CHR ''#'') cp)
         | PART_FRAGMENT \<Rightarrow> length cp)
      else conformant_end cp part)"

fun path_matches_noscheme :: "string \<Rightarrow> bool" where
  "path_matches_noscheme [] = True"
| "path_matches_noscheme (c # cp) =
     (if c = CHR '':'' then False else if c = CHR ''/'' then True else path_matches_noscheme cp)"

definition slashes :: "string \<Rightarrow> bool" where
  "slashes s \<longleftrightarrow> take 2 s = ''//''"

text \<open>The scheme and the text behind it.\<close>

definition parse_scheme :: "string \<Rightarrow> string option \<times> string" where
  "parse_scheme readp =
     (let token = takeWhile (\<lambda>c. c \<noteq> CHR '':'') readp
      in if CHR '':'' \<in> set readp \<and> scheme_ok token
         then (Some token, tl (dropWhile (\<lambda>c. c \<noteq> CHR '':'') readp)) else (None, readp))"

text \<open>A part that the character begins: what it is and what follows.\<close>

definition parse_part :: "char \<Rightarrow> uri_part \<Rightarrow> nat \<Rightarrow> string \<Rightarrow> string option \<times> string" where
  "parse_part c part flags readp =
     (if readp \<noteq> [] \<and> hd readp = c
      then (let n = end_of_path (tl readp) part flags in (Some (take n (tl readp)), drop n (tl readp)))
      else (None, readp))"

definition evhttp_uri_parse_with_flags :: "string \<Rightarrow> nat \<Rightarrow> evhttp_uri option" where
  "evhttp_uri_parse_with_flags source_uri flags =
     (let (sch, readp) = parse_scheme source_uri;
          uri = evhttp_uri_new\<lparr>uri_flags := flags, scheme := sch\<rparr>;
          got_authority = slashes readp;
          n = end_of_authority (drop 2 readp)
      in case (if got_authority then parse_authority uri (drop 2 readp) n else Some uri) of
           None \<Rightarrow> None
         | Some uri \<Rightarrow>
             (let readp = (if got_authority then drop n (drop 2 readp) else readp);
                  m = end_of_path readp PART_PATH flags;
                  pth = take m readp;
                  (qry, readp) = parse_part (CHR ''?'') PART_QUERY flags (drop m readp);
                  (frag, readp) = parse_part (CHR ''#'') PART_FRAGMENT flags readp
              in if readp \<noteq> [] then None
                 else if \<not> got_authority \<and> slashes pth then None
                 else if got_authority \<and> pth \<noteq> [] \<and> hd pth \<noteq> CHR ''/'' then None
                 else if sch = None \<and> \<not> path_matches_noscheme pth then None
                 else Some (uri\<lparr>path := Some pth, query := qry, fragment := frag\<rparr>)))"

definition evhttp_uri_parse :: "string \<Rightarrow> evhttp_uri option" where
  "evhttp_uri_parse source_uri = evhttp_uri_parse_with_flags source_uri 0"

definition evhttp_uri_parse_authority :: "string \<Rightarrow> evhttp_uri option" where
  "evhttp_uri_parse_authority source_uri =
     (case parse_authority evhttp_uri_new source_uri (end_of_authority source_uri) of
        None \<Rightarrow> None
      | Some uri \<Rightarrow> Some (uri\<lparr>path := Some []\<rparr>))"

section \<open>A URI put together\<close>

definition opt_text :: "string \<Rightarrow> string option \<Rightarrow> string \<Rightarrow> string" where
  "opt_text pre f post = (case f of None \<Rightarrow> [] | Some s \<Rightarrow> pre @ s @ post)"

definition uri_text :: "evhttp_uri \<Rightarrow> string" where
  "uri_text uri =
     opt_text [] (scheme uri) '':'' @
     (case host uri of
        None \<Rightarrow> []
      | Some h \<Rightarrow> ''//'' @ opt_text [] (userinfo uri) ''@'' @ h @
          (if port uri \<ge> 0 then '':'' @ show_int (port uri) else [])) @
     opt_text [] (path uri) [] @ opt_text ''?'' (query uri) [] @ opt_text ''#'' (fragment uri) []"

text \<open>The string in \<open>buf\<close>, or NULL.\<close>

definition evhttp_uri_join :: "evhttp_uri \<Rightarrow> nat \<Rightarrow> string option" where
  "evhttp_uri_join uri limit =
     (if limit = 0 then None
      else if host uri \<noteq> None \<and> (case path uri of None \<Rightarrow> False | Some p \<Rightarrow> p \<noteq> [] \<and> hd p \<noteq> CHR ''/'') then None
      else if length (uri_text uri) + 1 > limit then None
      else Some (uri_text uri))"

section \<open>The setters\<close>

definition evhttp_uri_set_scheme :: "evhttp_uri \<Rightarrow> string option \<Rightarrow> int \<times> evhttp_uri" where
  "evhttp_uri_set_scheme uri s =
     (if s \<noteq> None \<and> \<not> scheme_ok (the s) then (-1, uri) else (0, uri\<lparr>scheme := s\<rparr>))"

definition evhttp_uri_set_userinfo :: "evhttp_uri \<Rightarrow> string option \<Rightarrow> int \<times> evhttp_uri" where
  "evhttp_uri_set_userinfo uri s =
     (if s \<noteq> None \<and> \<not> userinfo_ok (the s) then (-1, uri) else (0, uri\<lparr>userinfo := s\<rparr>))"

definition evhttp_uri_set_host :: "evhttp_uri \<Rightarrow> string option \<Rightarrow> int \<times> evhttp_uri" where
  "evhttp_uri_set_host uri s =
     (case s of
        None \<Rightarrow> (0, uri\<lparr>host := s\<rparr>)
      | Some h \<Rightarrow>
          if h \<noteq> [] \<and> hd h = CHR ''['' then
            (if bracket_addr_ok h = 0 then (-1, uri) else (0, uri\<lparr>host := s\<rparr>))
          else if \<not> regname_ok h (int (length h)) then (-1, uri) else (0, uri\<lparr>host := s\<rparr>))"

definition evhttp_uri_set_port :: "evhttp_uri \<Rightarrow> int \<Rightarrow> int \<times> evhttp_uri" where
  "evhttp_uri_set_port uri p = (if p < -1 then (-1, uri) else (0, uri\<lparr>port := p\<rparr>))"

definition part_ok :: "evhttp_uri \<Rightarrow> uri_part \<Rightarrow> string option \<Rightarrow> bool" where
  "part_ok uri part s \<longleftrightarrow> (case s of None \<Rightarrow> True | Some t \<Rightarrow> end_of_path t part (uri_flags uri) = length t)"

definition evhttp_uri_set_path :: "evhttp_uri \<Rightarrow> string option \<Rightarrow> int \<times> evhttp_uri" where
  "evhttp_uri_set_path uri s = (if \<not> part_ok uri PART_PATH s then (-1, uri) else (0, uri\<lparr>path := s\<rparr>))"

definition evhttp_uri_set_query :: "evhttp_uri \<Rightarrow> string option \<Rightarrow> int \<times> evhttp_uri" where
  "evhttp_uri_set_query uri s = (if \<not> part_ok uri PART_QUERY s then (-1, uri) else (0, uri\<lparr>query := s\<rparr>))"

definition evhttp_uri_set_fragment :: "evhttp_uri \<Rightarrow> string option \<Rightarrow> int \<times> evhttp_uri" where
  "evhttp_uri_set_fragment uri s =
     (if \<not> part_ok uri PART_FRAGMENT s then (-1, uri) else (0, uri\<lparr>fragment := s\<rparr>))"

section \<open>Queries\<close>

definition EVHTTP_URI_QUERY_NONCONFORMANT :: nat where "EVHTTP_URI_QUERY_NONCONFORMANT = 1"
definition EVHTTP_URI_QUERY_LAST_VAL :: nat where "EVHTTP_URI_QUERY_LAST_VAL = 2"

definition flag_set :: "nat \<Rightarrow> nat \<Rightarrow> bool" where
  "flag_set flags f \<longleftrightarrow> odd (flags div f)"

text \<open>One argument: \<^term>\<open>None\<close> for the jump to \<^verbatim>\<open>error\<close>.\<close>

definition parse_argument :: "nat \<Rightarrow> string \<Rightarrow> evkeyvalq \<Rightarrow> evkeyvalq option" where
  "parse_argument flags argument headers =
     (let (key, v) = strsep (CHR ''='') argument;
          lax = flag_set flags EVHTTP_URI_QUERY_NONCONFORMANT
      in if \<not> lax \<and> (v = None \<or> key = []) then None
         else if key = [] then Some headers
         else
           (let decoded = c_str (snd (evhttp_decode_uri_internal (case v of None \<Rightarrow> [] | Some v \<Rightarrow> v) 1));
                headers = (if flag_set flags EVHTTP_URI_QUERY_LAST_VAL
                           then snd (evhttp_remove_header headers key) else headers)
            in Some (snd (evhttp_add_header_internal headers key decoded))))"

function parse_arguments :: "nat \<Rightarrow> string \<Rightarrow> evkeyvalq \<Rightarrow> evkeyvalq option" where
  "parse_arguments flags p headers =
     (if p = [] then Some headers
      else
        (case strsep (CHR ''&'') p of
           (argument, rest) \<Rightarrow>
             (case parse_argument flags argument headers of
                None \<Rightarrow> None
              | Some headers \<Rightarrow>
                  (case rest of None \<Rightarrow> Some headers | Some p \<Rightarrow> parse_arguments flags p headers))))"
  by pat_completeness auto
termination
proof (relation "measure (\<lambda>(_, p, _). length p)")
  fix flags :: nat and p q argument :: string and rest :: "string option" and headers h :: evkeyvalq
  assume p: "p \<noteq> []" and "(argument, rest) = strsep (CHR ''&'') p" and "rest = Some q"
  then have "q = tl (dropWhile (\<lambda>c. c \<noteq> CHR ''&'') p)" by (auto simp: strsep_def split: if_splits)
  then have "length q \<le> length (dropWhile (\<lambda>c. c \<noteq> CHR ''&'') p) - 1" by simp
  then have "length q \<le> length p - 1" using length_dropWhile_le [of "\<lambda>c. c \<noteq> CHR ''&''" p] by linarith
  then show "((flags, q, h), flags, p, headers) \<in> measure (\<lambda>(_, p, _). length p)"
    using p by (cases p) auto
qed simp

declare parse_arguments.simps [simp del]

text \<open>The result and the headers.\<close>

definition evhttp_parse_query_impl :: "string \<Rightarrow> bool \<Rightarrow> nat \<Rightarrow> int \<times> evkeyvalq" where
  "evhttp_parse_query_impl str is_whole_uri flags =
     (let uri = evhttp_uri_parse str
      in if is_whole_uri \<and> uri = None then (-1, evhttp_clear_headers [])
         else
           (case (if is_whole_uri then query (the uri) else Some str) of
              None \<Rightarrow> (0, [])
            | Some q \<Rightarrow>
                if q = [] then (0, [])
                else (case parse_arguments flags q [] of None \<Rightarrow> (-1, evhttp_clear_headers []) | Some hs \<Rightarrow> (0, hs))))"

definition evhttp_parse_query :: "string \<Rightarrow> int \<times> evkeyvalq" where
  "evhttp_parse_query uri = evhttp_parse_query_impl uri True 0"

definition evhttp_parse_query_str :: "string \<Rightarrow> int \<times> evkeyvalq" where
  "evhttp_parse_query_str uri = evhttp_parse_query_impl uri False 0"

definition evhttp_parse_query_str_flags :: "string \<Rightarrow> nat \<Rightarrow> int \<times> evkeyvalq" where
  "evhttp_parse_query_str_flags uri flags = evhttp_parse_query_impl uri False flags"

end
