(* ===== verification/EvbufferSearch.thy ===== *)
theory EvbufferSearch
  imports Evbuffer
begin

text \<open>
  Searching in an \<^verbatim>\<open>evbuffer\<close> and reading lines from it (\<^verbatim>\<open>buffer.c\<close>). A walk along the chains has the
  chains from number \<open>k\<close> on and the position \<open>i\<close> in the first of them; the bytes a C function sees
  from there are \<open>drop i (chain_data c)\<close>. A pointer into the memory of a chain that the code
  returns is the bytes it may be read for.
\<close>

section \<open>Bytes\<close>

text \<open>The index of the first byte with the property, \<^verbatim>\<open>memchr\<close> and \<^verbatim>\<open>memcmp\<close> of the standard library.\<close>

fun first_index :: "('a \<Rightarrow> bool) \<Rightarrow> 'a list \<Rightarrow> nat option" where
  "first_index P [] = None"
| "first_index P (x # xs) = (if P x then Some 0 else map_option Suc (first_index P xs))"

definition memchr :: "byte \<Rightarrow> byte list \<Rightarrow> nat option" where
  "memchr c bs = first_index (\<lambda>x. x = c) bs"

fun memcmp :: "byte list \<Rightarrow> byte list \<Rightarrow> int" where
  "memcmp (x # xs) (y # ys) = (if x = y then memcmp xs ys else if x < y then -1 else 1)"
| "memcmp _ _ = 0"

abbreviation LF :: byte where "LF \<equiv> 10"
abbreviation CR :: byte where "CR \<equiv> 13"

definition CHUNK_SZ :: nat where "CHUNK_SZ = 128"

function find_eol_char :: "byte list \<Rightarrow> nat option" where
  "find_eol_char s =
     (if s = [] then None
      else
        (let chunk = (if CHUNK_SZ < length s then CHUNK_SZ else length s);
             cr = memchr CR (take chunk s);
             lf = memchr LF (take chunk s)
         in case cr of
              Some c \<Rightarrow> (case lf of Some l \<Rightarrow> if l < c then Some l else Some c | None \<Rightarrow> Some c)
            | None \<Rightarrow>
                (case lf of Some l \<Rightarrow> Some l
                 | None \<Rightarrow> map_option ((+) CHUNK_SZ) (find_eol_char (drop CHUNK_SZ s)))))"
  by pat_completeness auto
termination
  by (relation "measure length") (auto simp: CHUNK_SZ_def)

declare find_eol_char.simps [simp del]

section \<open>Positions\<close>

definition PTR_NOT_FOUND :: evbuffer_ptr where
  "PTR_NOT_FOUND = \<lparr>pos = -1, ptr_chain = None, pos_in_chain = 0\<rparr>"

definition cast_ssize :: "int \<Rightarrow> int" where
  "cast_ssize x = signed_take_bit 63 x"

datatype evbuffer_ptr_how = EVBUFFER_PTR_SET | EVBUFFER_PTR_ADD

text \<open>The walk of \<^verbatim>\<open>evbuffer_ptr_set\<close>: the chain it ends at, the position in it and what is left.\<close>

fun ptr_walk :: "evchain list \<Rightarrow> nat \<Rightarrow> nat \<Rightarrow> nat \<Rightarrow> nat option \<times> nat \<times> nat" where
  "ptr_walk [] k position left = (None, position, left)"
| "ptr_walk (c # cs) k position left =
     (if position + left \<ge> off c then ptr_walk cs (k + 1) 0 (left + position - off c)
      else (Some k, position, left))"

definition ptr_arrive :: "nat option \<times> nat \<times> nat \<Rightarrow> int \<Rightarrow> int \<times> evbuffer_ptr" where
  "ptr_arrive w p =
     (case w of
        (Some k, position, left) \<Rightarrow> (0, \<lparr>pos = p, ptr_chain = Some k, pos_in_chain = position + left\<rparr>)
      | (None, position, left) \<Rightarrow>
          if left = 0 then (0, \<lparr>pos = p, ptr_chain = None, pos_in_chain = 0\<rparr>) else (-1, PTR_NOT_FOUND))"

definition ptr_set_abs :: "evbuffer \<Rightarrow> nat \<Rightarrow> int \<times> evbuffer_ptr" where
  "ptr_set_abs b position = ptr_arrive (ptr_walk (chains b) 0 0 position) (cast_ssize (int position))"

text \<open>The chains from a position on, and its chain's number.\<close>

definition chains_from :: "evbuffer \<Rightarrow> evbuffer_ptr \<Rightarrow> evchain list" where
  "chains_from b it = (case ptr_chain it of None \<Rightarrow> [] | Some k \<Rightarrow> drop k (chains b))"

definition chain_no :: "evbuffer_ptr \<Rightarrow> nat" where
  "chain_no it = (case ptr_chain it of None \<Rightarrow> 0 | Some k \<Rightarrow> k)"

text \<open>The result is \<^term>\<open>None\<close> where the assertion fails; it cannot for \<^verbatim>\<open>EVBUFFER_PTR_SET\<close>.\<close>

definition evbuffer_ptr_set ::
    "evbuffer \<Rightarrow> evbuffer_ptr \<Rightarrow> nat \<Rightarrow> evbuffer_ptr_how \<Rightarrow> (int \<times> evbuffer_ptr) option" where
  "evbuffer_ptr_set b p position how =
     (case how of
        EVBUFFER_PTR_SET \<Rightarrow> Some (ptr_set_abs b position)
      | EVBUFFER_PTR_ADD \<Rightarrow>
          if pos p < 0 \<or> int (EV_SIZE_MAX - position) < pos p then Some (-1, p)
          else if EV_SIZE_MAX - position < pos_in_chain p then None
          else Some (ptr_arrive (ptr_walk (chains_from b p) (chain_no p) (pos_in_chain p) position)
                       (cast_ssize (pos p + int position))))"

definition evbuffer_ptr_subtract :: "evbuffer \<Rightarrow> evbuffer_ptr \<Rightarrow> nat \<Rightarrow> int \<times> evbuffer_ptr" where
  "evbuffer_ptr_subtract b p howfar =
     (if pos p < 0 then (-1, p)
      else if int howfar > pos p then (-1, p)
      else if ptr_chain p \<noteq> None \<and> howfar \<le> pos_in_chain p
      then (0, p\<lparr>pos_in_chain := pos_in_chain p - howfar, pos := pos p - int howfar\<rparr>)
      else ptr_set_abs b (nat (pos p) - howfar))"

section \<open>Searching for a byte\<close>

text \<open>
  The loop of \<^verbatim>\<open>evbuffer_strchr\<close> and of \<^verbatim>\<open>evbuffer_find_eol_char\<close>, which differ in what finds the byte
  in one chain.
\<close>

fun scan_chains :: "(byte list \<Rightarrow> nat option) \<Rightarrow> evchain list \<Rightarrow> nat \<Rightarrow> nat \<Rightarrow> int \<Rightarrow> evbuffer_ptr option" where
  "scan_chains srch [] k i p = None"
| "scan_chains srch (c # cs) k i p =
     (case srch (drop i (chain_data c)) of
        Some d \<Rightarrow> Some \<lparr>pos = p + int d, ptr_chain = Some k, pos_in_chain = i + d\<rparr>
      | None \<Rightarrow> scan_chains srch cs (k + 1) 0 (p + int (off c - i)))"

definition evbuffer_strchr :: "evbuffer \<Rightarrow> evbuffer_ptr \<Rightarrow> byte \<Rightarrow> evbuffer_ptr option" where
  "evbuffer_strchr b it c = scan_chains (memchr c) (chains_from b it) (chain_no it) (pos_in_chain it) (pos it)"

definition evbuffer_find_eol_char :: "evbuffer \<Rightarrow> evbuffer_ptr \<Rightarrow> evbuffer_ptr option" where
  "evbuffer_find_eol_char b it =
     scan_chains find_eol_char (chains_from b it) (chain_no it) (pos_in_chain it) (pos it)"

fun strspn_loop :: "byte list \<Rightarrow> evchain list \<Rightarrow> nat \<Rightarrow> nat \<Rightarrow> nat \<Rightarrow> nat \<times> nat \<times> nat" where
  "strspn_loop chrset [] k i n = (n, k, i)"
| "strspn_loop chrset (c # cs) k i n =
     (let d = drop i (chain_data c);
          m = length (takeWhile (\<lambda>x. x \<in> set chrset) d)
      in if m < length d then (n + m, k, i + m)
         else if cs = [] then (n + m, k, 0)
         else strspn_loop chrset cs (k + 1) 0 (n + m))"

definition evbuffer_strspn :: "evbuffer \<Rightarrow> evbuffer_ptr \<Rightarrow> byte list \<Rightarrow> nat \<times> evbuffer_ptr" where
  "evbuffer_strspn b p chrset =
     (if ptr_chain p = None then (0, p)
      else
        (let (n, k, i) = strspn_loop chrset (chains_from b p) (chain_no p) (pos_in_chain p) 0
         in (n, \<lparr>pos = pos p + int n, ptr_chain = Some k, pos_in_chain = i\<rparr>)))"

definition evbuffer_getchr :: "evbuffer \<Rightarrow> evbuffer_ptr \<Rightarrow> int" where
  "evbuffer_getchr b it =
     (case ptr_chain it of
        None \<Rightarrow> -1
      | Some k \<Rightarrow> uint (buffer (chains b ! k) ! (misalign (chains b ! k) + pos_in_chain it)))"

section \<open>Searching for a string\<close>

fun memcmp_chains :: "evchain list \<Rightarrow> nat \<Rightarrow> byte list \<Rightarrow> int" where
  "memcmp_chains [] i mem = 0"
| "memcmp_chains (c # cs) i mem =
     (if mem = [] then 0
      else
        (let n = (if length mem + i > off c then off c - i else length mem);
             r = memcmp (take n (drop i (chain_data c))) (take n mem)
         in if r \<noteq> 0 then r else memcmp_chains cs 0 (drop n mem)))"

definition evbuffer_ptr_memcmp :: "evbuffer \<Rightarrow> evbuffer_ptr \<Rightarrow> byte list \<Rightarrow> int" where
  "evbuffer_ptr_memcmp b p mem =
     (if pos p < 0 \<or> int (EV_SIZE_MAX - length mem) < pos p \<or> pos p + int (length mem) > int (total_len b)
      then -1
      else memcmp_chains (chains_from b p) (pos_in_chain p) mem)"

lemma first_index_less: "first_index P xs = Some d \<Longrightarrow> d < length xs"
  by (induction xs arbitrary: d) (auto split: if_splits)

lemma length_chain_data_le: "length (chain_data c) \<le> off c"
  by (simp add: chain_data_def)

function search_loop ::
    "evbuffer \<Rightarrow> byte list \<Rightarrow> evbuffer_ptr option \<Rightarrow> evchain list \<Rightarrow> nat \<Rightarrow> nat \<Rightarrow> int \<Rightarrow> evbuffer_ptr" where
  "search_loop b what end_at [] k i p = PTR_NOT_FOUND"
| "search_loop b what end_at (c # cs) k i p =
     (case memchr (hd what) (drop i (chain_data c)) of
        Some d \<Rightarrow>
          (let here = \<lparr>pos = p + int d, ptr_chain = Some k, pos_in_chain = i + d\<rparr>
           in if evbuffer_ptr_memcmp b here what = 0 then
                (if (case end_at of None \<Rightarrow> False | Some e \<Rightarrow> pos here + int (length what) > pos e)
                 then PTR_NOT_FOUND else here)
              else if i + d + 1 = off c then search_loop b what end_at cs (k + 1) 0 (pos here + 1)
              else search_loop b what end_at (c # cs) k (i + d + 1) (pos here + 1))
      | None \<Rightarrow>
          if (case end_at of None \<Rightarrow> False | Some e \<Rightarrow> ptr_chain e = Some k) then PTR_NOT_FOUND
          else search_loop b what end_at cs (k + 1) 0 (p + int (off c - i)))"
  by pat_completeness auto
termination
proof (relation "measures [\<lambda>(b, what, e, cs, k, i, p). length cs,
    \<lambda>(b, what, e, cs, k, i, p). case cs of [] \<Rightarrow> 0 | c # _ \<Rightarrow> off c - i]")
  fix b what e c cs k i p d here
  assume "memchr (hd what) (drop i (chain_data c)) = Some d"
  then have "i + d < off c"
    using first_index_less [of "\<lambda>x. x = hd what" "drop i (chain_data c)" d] length_chain_data_le [of c]
    by (simp add: memchr_def)
  then show "((b, what, e, c # cs, k, i + d + 1, pos here + 1), b, what, e, c # cs, k, i, p) \<in>
      measures [\<lambda>(b, what, e, cs, k, i, p). length cs, \<lambda>(b, what, e, cs, k, i, p). case cs of [] \<Rightarrow> 0 | c # _ \<Rightarrow> off c - i]"
    by simp
qed auto

declare search_loop.simps(2) [simp del]

definition begin_ptr :: "evbuffer \<Rightarrow> evbuffer_ptr" where
  "begin_ptr b = \<lparr>pos = 0, ptr_chain = (if chains b = [] then None else Some 0), pos_in_chain = 0\<rparr>"

definition evbuffer_search_range ::
    "evbuffer \<Rightarrow> byte list \<Rightarrow> evbuffer_ptr option \<Rightarrow> evbuffer_ptr option \<Rightarrow> evbuffer_ptr" where
  "evbuffer_search_range b what start end_at =
     (let p = (case start of Some s \<Rightarrow> s | None \<Rightarrow> begin_ptr b)
      in if what = [] \<or> length what > EV_SSIZE_MAX then p
         else search_loop b what end_at (chains_from b p) (chain_no p) (pos_in_chain p) (pos p))"

definition evbuffer_search :: "evbuffer \<Rightarrow> byte list \<Rightarrow> evbuffer_ptr option \<Rightarrow> evbuffer_ptr" where
  "evbuffer_search b what start = evbuffer_search_range b what start None"

section \<open>Lines\<close>

datatype evbuffer_eol_style = EVBUFFER_EOL_ANY | EVBUFFER_EOL_CRLF | EVBUFFER_EOL_CRLF_STRICT
  | EVBUFFER_EOL_LF | EVBUFFER_EOL_NUL

definition search_crlf :: "evbuffer \<Rightarrow> evbuffer_ptr \<Rightarrow> (evbuffer_ptr \<times> nat) option" where
  "search_crlf b start =
     (case evbuffer_strchr b start LF of
        None \<Rightarrow> None
      | Some it \<Rightarrow>
          if pos it = pos start then Some (it, 1)
          else
            (let (r, it2) = evbuffer_ptr_subtract b it 1
             in if r < 0 then Some (it, 1)
                else if evbuffer_getchr b it2 = uint CR then Some (it2, 2)
                else Some (it, 1)))"

definition search_style :: "evbuffer \<Rightarrow> evbuffer_ptr \<Rightarrow> evbuffer_eol_style \<Rightarrow> (evbuffer_ptr \<times> nat) option" where
  "search_style b it style =
     (case style of
        EVBUFFER_EOL_ANY \<Rightarrow>
          map_option (\<lambda>it. (it, fst (evbuffer_strspn b it [CR, LF]))) (evbuffer_find_eol_char b it)
      | EVBUFFER_EOL_CRLF_STRICT \<Rightarrow>
          (let it = evbuffer_search b [CR, LF] (Some it) in if pos it < 0 then None else Some (it, 2))
      | EVBUFFER_EOL_CRLF \<Rightarrow> search_crlf b it
      | EVBUFFER_EOL_LF \<Rightarrow> map_option (\<lambda>it. (it, 1)) (evbuffer_strchr b it LF)
      | EVBUFFER_EOL_NUL \<Rightarrow> map_option (\<lambda>it. (it, 1)) (evbuffer_strchr b it 0))"

definition evbuffer_search_eol ::
    "evbuffer \<Rightarrow> evbuffer_ptr option \<Rightarrow> evbuffer_eol_style \<Rightarrow> evbuffer_ptr \<times> nat" where
  "evbuffer_search_eol b start style =
     (if (case start of None \<Rightarrow> False | Some s \<Rightarrow> ptr_chain s = None) then (PTR_NOT_FOUND, 0)
      else case search_style b (case start of Some s \<Rightarrow> s | None \<Rightarrow> begin_ptr b) style of
             None \<Rightarrow> (PTR_NOT_FOUND, 0)
           | Some r \<Rightarrow> r)"

text \<open>The line without its terminating NUL, its length and the buffer.\<close>

definition evbuffer_readln ::
    "malloc \<Rightarrow> evbuffer \<Rightarrow> evbuffer_eol_style \<Rightarrow> byte list option \<times> nat \<times> evbuffer" where
  "evbuffer_readln m b style =
     (if freeze_start b then (None, 0, b)
      else
        (let (it, extra_drain) = evbuffer_search_eol b None style
         in if pos it < 0 then (None, 0, b)
            else if m (nat (pos it) + 1) = None then (None, 0, b)
            else
              (let n_to_copy = nat (pos it);
                   (r, line, b) = evbuffer_remove b n_to_copy;
                   (r, b) = evbuffer_drain b extra_drain
               in (Some line, n_to_copy, b))))"

section \<open>Making bytes contiguous\<close>

fun pinned_ahead :: "evchain list \<Rightarrow> nat \<Rightarrow> bool" where
  "pinned_ahead [] remaining = False"
| "pinned_ahead (c # cs) remaining =
     (if CHAIN_PINNED c then True
      else if off c \<ge> remaining then False
      else pinned_ahead cs (remaining - off c))"

text \<open>The bytes copied, the number of chains freed, and the chains left.\<close>

fun pull_chains :: "evchain list \<Rightarrow> nat \<Rightarrow> byte list \<times> nat \<times> evchain list" where
  "pull_chains [] sz = ([], 0, [])"
| "pull_chains (c # cs) sz =
     (if sz \<ge> off c
      then (let (bs, n, rest) = pull_chains cs (sz - off c) in (chain_data c @ bs, n + 1, rest))
      else (take sz (drop (misalign c) (buffer c)), 0,
            c\<lparr>misalign := misalign c + sz, off := off c - sz\<rparr> # cs))"

text \<open>
  Where \<^verbatim>\<open>last_with_datap\<close> points after chains \<open>i\<close>, ..., \<open>n\<close> of them, were freed and the first chain is
  followed by \<open>rest\<close>.
\<close>

definition pulled_lwd :: "nat \<Rightarrow> nat \<Rightarrow> nat \<Rightarrow> evchain list \<Rightarrow> nat" where
  "pulled_lwd l i n rest =
     (if 0 < l \<and> i \<le> l \<and> l < i + n then 0
      else if 0 < l \<and> i \<le> l - 1 \<and> l - 1 < i + n
      then (case rest of [] \<Rightarrow> 0 | c # _ \<Rightarrow> if off c \<noteq> 0 then 1 else 0)
      else if l = 0 then 0 else l + 1 - (i + n))"

text \<open>Pulling into the first chain \<open>tmp\<close>, from its byte \<open>at\<close> on, what chains \<open>i\<close> and on hold.\<close>

definition pull_into :: "evbuffer \<Rightarrow> evchain \<Rightarrow> nat \<Rightarrow> nat \<Rightarrow> evchain list \<Rightarrow> nat \<Rightarrow> byte list option \<times> evbuffer" where
  "pull_into b tmp had i cs sz =
     (let (bs, n, rest) = pull_chains cs (sz - had);
          tmp = (chain_write (misalign tmp + had) bs tmp)\<lparr>off := sz\<rparr>
      in (Some (take sz (drop (misalign tmp) (buffer tmp))),
          b\<lparr>chains := tmp # rest, lwd := pulled_lwd (lwd b) i n rest\<rparr>))"

definition evbuffer_pullup :: "malloc \<Rightarrow> evbuffer \<Rightarrow> int \<Rightarrow> byte list option \<times> evbuffer" where
  "evbuffer_pullup m b sz =
     (let sz = (if sz < 0 then total_len b else nat sz)
      in if sz = 0 \<or> sz > total_len b then (None, b)
         else
           (case chains b of
              [] \<Rightarrow> (None, b)
            | c # cs \<Rightarrow>
                if off c \<ge> sz then (Some (take sz (drop (misalign c) (buffer c))), b)
                else if pinned_ahead cs (sz - off c) then (None, b)
                else if CHAIN_PINNED c then
                  (if CHAIN_SPACE_LEN c < sz - off c then (None, b) else pull_into b c (off c) 1 cs sz)
                else if buffer_len c - misalign c \<ge> sz then pull_into b c (off c) 1 cs sz
                else
                  (case evbuffer_chain_new m sz of
                     None \<Rightarrow> (None, b)
                   | Some tmp \<Rightarrow> pull_into b tmp 0 0 (c # cs) sz)))"

definition evbuffer_find :: "malloc \<Rightarrow> evbuffer \<Rightarrow> byte list \<Rightarrow> byte list option \<times> evbuffer" where
  "evbuffer_find m b what =
     (let p = evbuffer_search b what None
      in if pos p < 0 then (None, b)
         else
           (let (r, b) = evbuffer_pullup m b (pos p + int (length what))
            in (map_option (drop (nat (pos p))) r, b)))"

text \<open>
  \<^verbatim>\<open>evbuffer_peek\<close>: the number of extents needed, and the bytes of those that were filled in.
\<close>

fun peek_loop :: "evchain list \<Rightarrow> int \<Rightarrow> int \<Rightarrow> nat \<Rightarrow> nat \<Rightarrow> byte list list \<Rightarrow> nat \<times> byte list list" where
  "peek_loop [] len so_far idx n_vec vec = (idx, vec)"
| "peek_loop (c # cs) len so_far idx n_vec vec =
     (if len \<ge> 0 \<and> so_far \<ge> len then (idx, vec)
      else if idx < n_vec
      then peek_loop cs len (so_far + int (off c)) (idx + 1) n_vec (vec @ [chain_data c])
      else if len < 0 then (idx, vec)
      else peek_loop cs len (so_far + int (off c)) (idx + 1) n_vec vec)"

definition evbuffer_peek ::
    "evbuffer \<Rightarrow> int \<Rightarrow> evbuffer_ptr option \<Rightarrow> nat \<Rightarrow> nat \<times> byte list list" where
  "evbuffer_peek b len start_at n_vec =
     (if (case start_at of None \<Rightarrow> False | Some s \<Rightarrow> ptr_chain s = None) then (0, [])
      else
        (let all = (if n_vec = 0 \<and> len < 0
                    then int (total_len b) - (case start_at of None \<Rightarrow> 0 | Some s \<Rightarrow> pos s) else len)
         in case start_at of
              None \<Rightarrow> peek_loop (chains b) all 0 0 n_vec []
            | Some s \<Rightarrow>
                (let c = chains b ! chain_no s
                 in peek_loop (tl (chains_from b s)) all (int (off c - pos_in_chain s)) 1 n_vec
                      (if n_vec > 0 then [drop (pos_in_chain s) (chain_data c)] else []))))"

end
