(* ===== verification/HttpMessage.thy ===== *)
theory HttpMessage
  imports HttpUri EvbufferSearch
begin

text \<open>
  Messages of the HTTP layer (\<^verbatim>\<open>http.c\<close>): the first line, the headers, the length of the body and a
  body in chunks, read from an \<^verbatim>\<open>evbuffer\<close> as the bytes arrive; and a response put together. A line
  read from a buffer is a C string, which ends at its first NUL.
\<close>

section \<open>Bytes and characters\<close>

definition cast_char :: "int \<Rightarrow> int" where
  "cast_char x = signed_take_bit 7 x"

definition char_of_byte :: "byte \<Rightarrow> char" where
  "char_of_byte b = char_of (unat b)"

definition byte_of_char :: "char \<Rightarrow> byte" where
  "byte_of_char c = of_nat (of_char c)"

definition bytes :: "string \<Rightarrow> byte list" where
  "bytes s = map byte_of_char s"

definition line_text :: "byte list \<Rightarrow> string" where
  "line_text bs = c_str (map char_of_byte bs)"

section \<open>Requests\<close>

datatype message_read_status = ALL_DATA_READ | MORE_DATA_EXPECTED | DATA_CORRUPTED | REQUEST_CANCELED
  | DATA_TOO_LONG

datatype evhttp_request_kind = EVHTTP_REQUEST | EVHTTP_RESPONSE

definition EVHTTP_REQ_GET :: nat where "EVHTTP_REQ_GET = 2 ^ 0"
definition EVHTTP_REQ_POST :: nat where "EVHTTP_REQ_POST = 2 ^ 1"
definition EVHTTP_REQ_HEAD :: nat where "EVHTTP_REQ_HEAD = 2 ^ 2"
definition EVHTTP_REQ_PUT :: nat where "EVHTTP_REQ_PUT = 2 ^ 3"
definition EVHTTP_REQ_DELETE :: nat where "EVHTTP_REQ_DELETE = 2 ^ 4"
definition EVHTTP_REQ_OPTIONS :: nat where "EVHTTP_REQ_OPTIONS = 2 ^ 5"
definition EVHTTP_REQ_TRACE :: nat where "EVHTTP_REQ_TRACE = 2 ^ 6"
definition EVHTTP_REQ_CONNECT :: nat where "EVHTTP_REQ_CONNECT = 2 ^ 7"
definition EVHTTP_REQ_PATCH :: nat where "EVHTTP_REQ_PATCH = 2 ^ 8"
definition EVHTTP_REQ_PROPFIND :: nat where "EVHTTP_REQ_PROPFIND = 2 ^ 9"
definition EVHTTP_REQ_PROPPATCH :: nat where "EVHTTP_REQ_PROPPATCH = 2 ^ 10"
definition EVHTTP_REQ_MKCOL :: nat where "EVHTTP_REQ_MKCOL = 2 ^ 11"
definition EVHTTP_REQ_LOCK :: nat where "EVHTTP_REQ_LOCK = 2 ^ 12"
definition EVHTTP_REQ_UNLOCK :: nat where "EVHTTP_REQ_UNLOCK = 2 ^ 13"
definition EVHTTP_REQ_COPY :: nat where "EVHTTP_REQ_COPY = 2 ^ 14"
definition EVHTTP_REQ_MOVE :: nat where "EVHTTP_REQ_MOVE = 2 ^ 15"

text \<open>A virtual host with its aliases and the hosts below it.\<close>

datatype evhttp = Evhttp (vhost_pattern: string) (aliases: "string list") (virtualhosts: "evhttp list")

text \<open>
  What a request uses of its connection. The callback for methods the library does not know is the
  user's: it is given the name, the type and the flags, and returns a status and the three.
\<close>

type_synonym ext_method = "string option \<times> nat \<times> nat"

record evhttp_connection =
  max_headers_size :: nat
  max_body_size :: nat
  ext_method_cmp :: "(ext_method \<Rightarrow> int \<times> ext_method) option"
  http_server :: evhttp

record evhttp_request =
  kind :: evhttp_request_kind
  req_type :: nat
  proxy_request :: bool
  needs_free :: bool
  evcon :: "evhttp_connection option"
  req_uri :: "string option"
  uri_elems :: "evhttp_uri option"
  major :: int
  minor :: int
  response_code :: int
  response_code_line :: "string option"
  input_headers :: evkeyvalq
  output_headers :: evkeyvalq
  headers_size :: nat
  ntoread :: int
  body_size :: nat
  chunked :: bool
  userdone :: bool
  input_buffer :: evbuffer

section \<open>Virtual hosts\<close>

fun prefix_suffix_match :: "string \<Rightarrow> string \<Rightarrow> bool \<Rightarrow> bool"
and star_match :: "string \<Rightarrow> string \<Rightarrow> bool \<Rightarrow> bool" where
  "prefix_suffix_match [] name ignorecase \<longleftrightarrow> name = []"
| "prefix_suffix_match (c # pattern) name ignorecase \<longleftrightarrow>
     (if c = CHR ''*'' then star_match pattern name ignorecase
      else case name of
             [] \<Rightarrow> False
           | d # rest \<Rightarrow>
               (c = d \<or> ignorecase \<and> tolower c = tolower d) \<and> prefix_suffix_match pattern rest ignorecase)"
| "star_match pattern [] ignorecase \<longleftrightarrow> False"
| "star_match pattern (d # name) ignorecase \<longleftrightarrow>
     prefix_suffix_match pattern (d # name) ignorecase \<or> star_match pattern name ignorecase"

fun evhttp_find_alias :: "evhttp \<Rightarrow> string \<Rightarrow> evhttp option"
and find_alias_in :: "evhttp list \<Rightarrow> string \<Rightarrow> evhttp option" where
  "evhttp_find_alias (Evhttp pat as vhosts) hostname =
     (if \<exists>a \<in> set as. evutil_ascii_strcasecmp a hostname = 0 then Some (Evhttp pat as vhosts)
      else find_alias_in vhosts hostname)"
| "find_alias_in [] hostname = None"
| "find_alias_in (vhost # vhosts) hostname =
     (case evhttp_find_alias vhost hostname of
        Some h \<Rightarrow> Some h
      | None \<Rightarrow> find_alias_in vhosts hostname)"

text \<open>
  The descent of \<^verbatim>\<open>evhttp_find_vhost\<close>: while a host below matches, the first that does. \<open>matched\<close> is
  \<^verbatim>\<open>match_found\<close>.
\<close>

fun vhost_descent :: "evhttp \<Rightarrow> string \<Rightarrow> bool \<Rightarrow> bool \<times> evhttp"
and descent_in :: "evhttp list \<Rightarrow> string \<Rightarrow> (bool \<times> evhttp) option" where
  "vhost_descent (Evhttp pat as vhosts) hostname matched =
     (case descent_in vhosts hostname of
        Some r \<Rightarrow> r
      | None \<Rightarrow> (matched, Evhttp pat as vhosts))"
| "descent_in [] hostname = None"
| "descent_in (vhost # vhosts) hostname =
     (if prefix_suffix_match (vhost_pattern vhost) hostname True
      then Some (vhost_descent vhost hostname True)
      else descent_in vhosts hostname)"

text \<open>The result and \<^verbatim>\<open>*outhttp\<close>.\<close>

definition evhttp_find_vhost :: "evhttp \<Rightarrow> string \<Rightarrow> bool \<times> evhttp" where
  "evhttp_find_vhost http hostname =
     (case evhttp_find_alias http hostname of
        Some h \<Rightarrow> (True, h)
      | None \<Rightarrow> vhost_descent http hostname False)"

section \<open>The first line\<close>

text \<open>The directive \<^verbatim>\<open>%d\<close> of \<^verbatim>\<open>sscanf\<close>.\<close>

definition scan_d :: "string \<Rightarrow> (int \<times> string) option" where
  "scan_d s =
     (let (n, rest) = strtol 10 s in if length rest = length s then None else Some (cast_int n, rest))"

text \<open>\<^verbatim>\<open>sscanf(version, "HTTP/%d.%d%c", ...) == 2\<close>\<close>

definition scan_version :: "string \<Rightarrow> (int \<times> int) option" where
  "scan_version version =
     (if take 5 version \<noteq> ''HTTP/'' then None
      else
        (case scan_d (drop 5 version) of
           None \<Rightarrow> None
         | Some (mj, s) \<Rightarrow>
             (case Option.bind (scan_dot s) scan_d of
                None \<Rightarrow> None
              | Some (mn, s) \<Rightarrow> if s = [] then Some (mj, mn) else None)))"

text \<open>The two numbers are kept in a \<^verbatim>\<open>char\<close> each.\<close>

definition evhttp_parse_http_version :: "string \<Rightarrow> evhttp_request \<Rightarrow> int \<times> evhttp_request" where
  "evhttp_parse_http_version version req =
     (case scan_version version of
        None \<Rightarrow> (-1, req)
      | Some (mj, mn) \<Rightarrow> if mj > 1 then (-1, req) else (0, req\<lparr>major := cast_char mj, minor := cast_char mn\<rparr>))"

definition evhttp_valid_response_code :: "int \<Rightarrow> bool" where
  "evhttp_valid_response_code code \<longleftrightarrow> code \<noteq> 0"

definition evhttp_parse_response_line :: "evhttp_request \<Rightarrow> string \<Rightarrow> int \<times> evhttp_request" where
  "evhttp_parse_response_line req line =
     (case strsep (CHR '' '') line of
        (protocol, None) \<Rightarrow> (-1, req)
      | (protocol, Some line) \<Rightarrow>
          (let (number, rest) = strsep (CHR '' '') line;
               readable = (case rest of None \<Rightarrow> [] | Some r \<Rightarrow> r);
               (r, req) = evhttp_parse_http_version protocol req
           in if r < 0 then (-1, req)
              else
                (let req = req\<lparr>response_code := atoi number\<rparr>
                 in if \<not> evhttp_valid_response_code (response_code req) then (-1, req)
                    else (0, req\<lparr>response_code_line := Some readable\<rparr>))))"

text \<open>The switch on the length and the characters of the method.\<close>

definition known_method :: "string \<Rightarrow> nat" where
  "known_method method =
     (if length method = 3 then
        (if method = ''GET'' then EVHTTP_REQ_GET else if method = ''PUT'' then EVHTTP_REQ_PUT else 0)
      else if length method = 4 then
        (if method = ''POST'' then EVHTTP_REQ_POST else if method = ''HEAD'' then EVHTTP_REQ_HEAD
         else if method = ''LOCK'' then EVHTTP_REQ_LOCK else if method = ''COPY'' then EVHTTP_REQ_COPY
         else if method = ''MOVE'' then EVHTTP_REQ_MOVE else 0)
      else if length method = 5 then
        (if method = ''PATCH'' then EVHTTP_REQ_PATCH else if method = ''TRACE'' then EVHTTP_REQ_TRACE
         else if method = ''MKCOL'' then EVHTTP_REQ_MKCOL else 0)
      else if length method = 6 then
        (if method = ''DELETE'' then EVHTTP_REQ_DELETE else if method = ''UNLOCK'' then EVHTTP_REQ_UNLOCK else 0)
      else if length method = 7 then
        (if method = ''OPTIONS'' then EVHTTP_REQ_OPTIONS
         else if method = ''CONNECT'' then EVHTTP_REQ_CONNECT else 0)
      else if length method = 8 then (if method = ''PROPFIND'' then EVHTTP_REQ_PROPFIND else 0)
      else if length method = 9 then (if method = ''PROPPATCH'' then EVHTTP_REQ_PROPPATCH else 0)
      else 0)"

text \<open>\<^term>\<open>None\<close> where the callback changed what it may not.\<close>

definition request_method :: "evhttp_connection \<Rightarrow> string \<Rightarrow> nat option" where
  "request_method con method =
     (if known_method method \<noteq> 0 then Some (known_method method)
      else
        (case ext_method_cmp con of
           None \<Rightarrow> Some 0
         | Some cmp \<Rightarrow>
             (let (r, m, ty, fl) = cmp (Some method, 0, 0)
              in if r \<noteq> 0 then Some 0
                 else if m \<noteq> Some method then None
                 else if fl \<noteq> 0 then None
                 else Some ty)))"

definition rtrim_spaces :: "string \<Rightarrow> string" where
  "rtrim_spaces s = rev (dropWhile (\<lambda>c. c = CHR '' '') (rev s))"

text \<open>The text before and behind the last space: \<^verbatim>\<open>strrchr\<close>.\<close>

definition split_last_space :: "string \<Rightarrow> (string \<times> string) option" where
  "split_last_space s =
     (if CHR '' '' \<in> set s
      then (let version = rev (takeWhile (\<lambda>c. c \<noteq> CHR '' '') (rev s))
            in Some (take (length s - length version - 1) s, version))
      else None)"

text \<open>The line is given with its length, so that it may hold NULs.\<close>

definition evhttp_parse_request_line :: "evhttp_connection \<Rightarrow> evhttp_request \<Rightarrow> string \<Rightarrow> int \<times> evhttp_request" where
  "evhttp_parse_request_line con req line =
     (let line = rtrim_spaces line
      in if length line < length ''GET / HTTP/1.0'' then (-1, req)
         else
           (case strsep (CHR '' '') (c_str line) of
              (method, None) \<Rightarrow> (-1, req)
            | (method, Some rest) \<Rightarrow>
                (case split_last_space rest of
                   None \<Rightarrow> (-1, req)
                 | Some (u, version) \<Rightarrow>
                     if u = [] then (-1, req)
                     else
                       (case request_method con method of
                          None \<Rightarrow> (-1, req)
                        | Some type \<Rightarrow>
                            (let (r, req) = evhttp_parse_http_version version (req\<lparr>req_type := type\<rparr>)
                             in if r < 0 then (-1, req)
                                else
                                  (let elems = (if type = EVHTTP_REQ_CONNECT then evhttp_uri_parse_authority u
                                                else evhttp_uri_parse_with_flags u EVHTTP_URI_NONCONFORMANT);
                                       req = req\<lparr>req_uri := Some u, uri_elems := elems\<rparr>
                                   in case elems of
                                        None \<Rightarrow> (-1, req)
                                      | Some e \<Rightarrow>
                                          (case (scheme e, host e) of
                                             (Some s, Some h) \<Rightarrow>
                                               if (evutil_ascii_strcasecmp s ''http'' = 0 \<or>
                                                   evutil_ascii_strcasecmp s ''https'' = 0) \<and>
                                                  \<not> fst (evhttp_find_vhost (http_server con) h)
                                               then (0, req\<lparr>proxy_request := True\<rparr>) else (0, req)
                                           | _ \<Rightarrow> (0, req))))))))"

definition evhttp_parse_firstline ::
    "malloc \<Rightarrow> evhttp_request \<Rightarrow> evbuffer \<Rightarrow> message_read_status \<times> evhttp_request \<times> evbuffer" where
  "evhttp_parse_firstline m req b =
     (case evbuffer_readln m b EVBUFFER_EOL_CRLF of
        (None, _, b) \<Rightarrow>
          (case evcon req of
             Some con \<Rightarrow> if total_len b > max_headers_size con then (DATA_TOO_LONG, req, b)
                         else (MORE_DATA_EXPECTED, req, b)
           | None \<Rightarrow> (MORE_DATA_EXPECTED, req, b))
      | (Some bs, len, b) \<Rightarrow>
          if (case evcon req of Some con \<Rightarrow> len > max_headers_size con | None \<Rightarrow> False)
          then (DATA_TOO_LONG, req, b)
          else
            (let req = req\<lparr>headers_size := len\<rparr>;
                 (r, req) = (case kind req of
                    EVHTTP_REQUEST \<Rightarrow>
                      (case evcon req of
                         Some con \<Rightarrow> evhttp_parse_request_line con req (map char_of_byte bs)
                       | None \<Rightarrow> (-1, req))
                  | EVHTTP_RESPONSE \<Rightarrow> evhttp_parse_response_line req (line_text bs))
             in (if r = -1 then DATA_CORRUPTED else ALL_DATA_READ, req, b)))"

section \<open>The headers\<close>

definition evhttp_append_to_last_header :: "evkeyvalq \<Rightarrow> string \<Rightarrow> evkeyvalq option" where
  "evhttp_append_to_last_header headers line =
     (if headers = [] then None
      else
        (let (key, v) = last headers;
             line = evutil_rtrim_lws (dropWhile (\<lambda>c. c = CHR '' '' \<or> c = CHR 0x09) line)
         in Some (butlast headers @ [(key, v @ '' '' @ line)])))"

definition too_long :: "evhttp_request \<Rightarrow> nat \<Rightarrow> bool" where
  "too_long req n \<longleftrightarrow> (case evcon req of None \<Rightarrow> False | Some con \<Rightarrow> n > max_headers_size con)"

text \<open>
  The body of the loop for one line and its length: the status to return with, or \<^term>\<open>None\<close> to go
  on.
\<close>

definition header_line :: "evhttp_request \<Rightarrow> string \<Rightarrow> nat \<Rightarrow> message_read_status option \<times> evhttp_request" where
  "header_line req line len =
     (let req = req\<lparr>headers_size := headers_size req + len\<rparr>
      in if too_long req (headers_size req) then (Some DATA_TOO_LONG, req)
         else if line = [] then (Some ALL_DATA_READ, req)
         else if hd line = CHR '' '' \<or> hd line = CHR 0x09 then
           (case evhttp_append_to_last_header (input_headers req) line of
              None \<Rightarrow> (Some DATA_CORRUPTED, req)
            | Some hs \<Rightarrow> (None, req\<lparr>input_headers := hs\<rparr>))
         else
           (case strsep (CHR '':'') line of
              (skey, None) \<Rightarrow> (Some DATA_CORRUPTED, req)
            | (skey, Some svalue) \<Rightarrow>
                (let svalue = evutil_rtrim_lws (dropWhile (\<lambda>c. c = CHR '' '') svalue);
                     (r, hs) = evhttp_add_header (input_headers req) skey svalue
                 in if r = -1 then (Some DATA_CORRUPTED, req)
                    else (None, req\<lparr>input_headers := hs\<rparr>))))"

definition headers_more :: "evhttp_request \<Rightarrow> nat \<Rightarrow> message_read_status" where
  "headers_more req buffered =
     (if too_long req (headers_size req + buffered) then DATA_TOO_LONG else MORE_DATA_EXPECTED)"

text \<open>A line takes a byte off the buffer at least: its length bounds the lines.\<close>

fun parse_headers_loop ::
    "nat \<Rightarrow> malloc \<Rightarrow> evhttp_request \<Rightarrow> evbuffer \<Rightarrow> message_read_status \<times> evhttp_request \<times> evbuffer" where
  "parse_headers_loop 0 m req b = (headers_more req (total_len b), req, b)"
| "parse_headers_loop (Suc fuel) m req b =
     (case evbuffer_readln m b EVBUFFER_EOL_CRLF of
        (None, _, b) \<Rightarrow> (headers_more req (total_len b), req, b)
      | (Some bs, len, b) \<Rightarrow>
          (case header_line req (line_text bs) len of
             (Some status, req) \<Rightarrow> (status, req, b)
           | (None, req) \<Rightarrow> parse_headers_loop fuel m req b))"

definition evhttp_parse_headers ::
    "malloc \<Rightarrow> evhttp_request \<Rightarrow> evbuffer \<Rightarrow> message_read_status \<times> evhttp_request \<times> evbuffer" where
  "evhttp_parse_headers m req b = parse_headers_loop (total_len b) m req b"

section \<open>The body\<close>

definition evhttp_get_body_length :: "evhttp_request \<Rightarrow> int \<times> evhttp_request" where
  "evhttp_get_body_length req =
     (let content_length = evhttp_find_header (input_headers req) ''Content-Length'';
          connection = evhttp_find_header (input_headers req) ''Connection''
      in case content_length of
           None \<Rightarrow>
             (case connection of
                None \<Rightarrow> (0, req\<lparr>ntoread := -1\<rparr>)
              | Some c \<Rightarrow>
                  if evutil_ascii_strcasecmp c ''Close'' \<noteq> 0 then (0, req\<lparr>ntoread := 0\<rparr>)
                  else (0, req\<lparr>ntoread := -1\<rparr>))
         | Some c \<Rightarrow>
             (let (n, endp) = strtol 10 c
              in if c = [] \<or> endp \<noteq> [] \<or> n < 0 then (-1, req) else (0, req\<lparr>ntoread := n\<rparr>)))"

text \<open>The size at the start of a chunk; \<^term>\<open>None\<close> for the error.\<close>

definition chunk_size :: "string \<Rightarrow> int option" where
  "chunk_size p =
     (let (n, endp) = strtol 16 p
      in if p = [] \<or> (endp \<noteq> [] \<and> hd endp \<noteq> CHR '' '') \<or> n < 0 then None else Some n)"

definition chunk_header :: "evhttp_request \<Rightarrow> string \<Rightarrow> message_read_status option \<times> evhttp_request" where
  "chunk_header req p =
     (if p = [] then (None, req)
      else
        (case chunk_size p of
           None \<Rightarrow> (Some DATA_CORRUPTED, req)
         | Some n \<Rightarrow>
             if n > int (EV_SIZE_MAX - body_size req) then (Some DATA_CORRUPTED, req)
             else if (case evcon req of None \<Rightarrow> False | Some con \<Rightarrow> body_size req + nat n > max_body_size con)
             then (Some DATA_TOO_LONG, req)
             else
               (let req = req\<lparr>body_size := body_size req + nat n, ntoread := n\<rparr>
                in if n = 0 then (Some ALL_DATA_READ, req) else (None, req))))"

text \<open>
  The callback for chunks is the user's: a function of the request, after which the data it was shown
  is gone.
\<close>

definition chunk_done :: "(evhttp_request \<Rightarrow> evhttp_request) option \<Rightarrow> evhttp_request \<Rightarrow> evhttp_request" where
  "chunk_done chunk_cb req =
     (case chunk_cb of
        None \<Rightarrow> req
      | Some cb \<Rightarrow>
          (let req = cb req;
               (r, ib) = evbuffer_drain (input_buffer req) (total_len (input_buffer req))
           in req\<lparr>input_buffer := ib\<rparr>))"

text \<open>Every two turns take a byte off the buffer.\<close>

fun chunked_loop ::
    "nat \<Rightarrow> malloc \<Rightarrow> (evhttp_request \<Rightarrow> evhttp_request) option \<Rightarrow> evhttp_request \<Rightarrow> evbuffer \<Rightarrow>
     message_read_status \<times> evhttp_request \<times> evbuffer" where
  "chunked_loop 0 m chunk_cb req b = (MORE_DATA_EXPECTED, req, b)"
| "chunked_loop (Suc fuel) m chunk_cb req b =
     (if total_len b = 0 then (MORE_DATA_EXPECTED, req, b)
      else if total_len b > EV_SSIZE_MAX then (DATA_CORRUPTED, req, b)
      else if ntoread req < 0 then
        (case evbuffer_readln m b EVBUFFER_EOL_CRLF of
           (None, _, b) \<Rightarrow> (MORE_DATA_EXPECTED, req, b)
         | (Some bs, _, b) \<Rightarrow>
             (case chunk_header req (line_text bs) of
                (Some status, req) \<Rightarrow> (status, req, b)
              | (None, req) \<Rightarrow> chunked_loop fuel m chunk_cb req b))
      else if ntoread req > int EV_SSIZE_MAX then (DATA_CORRUPTED, req, b)
      else if ntoread req > 0 \<and> int (total_len b) < ntoread req then (MORE_DATA_EXPECTED, req, b)
      else
        (let (r, b, ib) = evbuffer_remove_buffer m b (input_buffer req) (nat (ntoread req));
             req = chunk_done chunk_cb (req\<lparr>input_buffer := ib, ntoread := -1\<rparr>)
         in if chunk_cb \<noteq> None \<and> needs_free req then (REQUEST_CANCELED, req, b)
            else chunked_loop fuel m chunk_cb req b))"

definition evhttp_handle_chunked_read ::
    "malloc \<Rightarrow> (evhttp_request \<Rightarrow> evhttp_request) option \<Rightarrow> evhttp_request \<Rightarrow> evbuffer \<Rightarrow>
     message_read_status \<times> evhttp_request \<times> evbuffer" where
  "evhttp_handle_chunked_read m chunk_cb req b = chunked_loop (2 * total_len b + 2) m chunk_cb req b"

section \<open>A message put together\<close>

definition HTTP_NOCONTENT :: int where "HTTP_NOCONTENT = 204"
definition HTTP_NOTMODIFIED :: int where "HTTP_NOTMODIFIED = 304"

definition evhttp_response_needs_body :: "evhttp_request \<Rightarrow> bool" where
  "evhttp_response_needs_body req \<longleftrightarrow>
     response_code req \<noteq> HTTP_NOCONTENT \<and> response_code req \<noteq> HTTP_NOTMODIFIED \<and>
     (response_code req < 100 \<or> response_code req \<ge> 200) \<and>
     req_type req \<noteq> EVHTTP_REQ_CONNECT \<and> req_type req \<noteq> EVHTTP_REQ_HEAD"

text \<open>The lines that \<^verbatim>\<open>evhttp_make_header\<close> writes for the headers, with the empty one that ends them.\<close>

definition header_text :: "string \<times> string \<Rightarrow> string" where
  "header_text header = fst header @ '': '' @ snd header @ [CHR 0x0D, CHR 0x0A]"

definition headers_text :: "evkeyvalq \<Rightarrow> string" where
  "headers_text headers = concat (map header_text headers) @ [CHR 0x0D, CHR 0x0A]"

definition response_line :: "evhttp_request \<Rightarrow> string" where
  "response_line req =
     ''HTTP/'' @ show_int (major req) @ ''.'' @ show_int (minor req) @ '' '' @ show_int (response_code req) @ '' '' @
     (case response_code_line req of None \<Rightarrow> ''(null)'' | Some s \<Rightarrow> s) @ [CHR 0x0D, CHR 0x0A]"

text \<open>
  What the functions for a reply do with the connection once they have filled its output: free the
  request, start the writing (with the callback of the user or \<^verbatim>\<open>evhttp_send_done\<close> at its end), call
  \<^verbatim>\<open>evhttp_send_done\<close> at once, or have it called by the writing that goes on.
\<close>

datatype reply_action = No_action | Free_request | Write_for_user | Write_to_done | Done_now | Done_after_writing

text \<open>
  What \<^verbatim>\<open>evhttp_send_reply_chunk\<close> and \<^verbatim>\<open>evhttp_send_reply_end\<close> add to the output for a response in
  chunks: \<open>out\<close> is what the output of the connection holds. The size is converted to 32 bits.
\<close>

definition chunk_text :: "byte list \<Rightarrow> byte list" where
  "chunk_text data = bytes (show_hex (nat (cast_uint32 (int (length data)))) @ [CHR 0x0D, CHR 0x0A]) @ data @ [13, 10]"

definition evhttp_send_reply_chunk :: "evhttp_request \<Rightarrow> byte list \<Rightarrow> byte list \<Rightarrow> byte list \<times> reply_action" where
  "evhttp_send_reply_chunk req databuf out =
     (if evcon req = None then (out, No_action)
      else if databuf = [] then (out, No_action)
      else if \<not> evhttp_response_needs_body req then (out, No_action)
      else (out @ (if chunked req then chunk_text databuf else databuf), Write_for_user))"

definition evhttp_send_reply_end :: "evhttp_request \<Rightarrow> byte list \<Rightarrow> evhttp_request \<times> byte list \<times> reply_action" where
  "evhttp_send_reply_end req out =
     (if evcon req = None then (req, out, Free_request)
      else
        (let req = req\<lparr>userdone := True\<rparr>
         in if chunked req then (req\<lparr>chunked := False\<rparr>, out @ [48, 13, 10, 13, 10], Write_to_done)
            else if out = [] then (req, out, Done_now)
            else (req, out, Done_after_writing)))"

end
