(* ===== verification/InetSpec.thy ===== *)
theory InetSpec
  imports Inet
begin

text \<open>
  What an address is printed as is parsed back: the lemmas follow the loops of the printer and of the
  parser over the same words.
\<close>

unbundle bit_operations_syntax

section \<open>Character tables\<close>

lemma all_chars:
  assumes "list_all (\<lambda>n. P (char_of n :: char)) [0..<256::nat]"
  shows "P c"
proof -
  have "(of_char c :: nat) < 256" by simp
  then have "of_char c \<in> set [0..<256::nat]" by (simp only: set_upt atLeastLessThan_iff le0 simp_thms)
  with assms have "P (char_of (of_char c :: nat))" unfolding list_all_iff by blast
  then show ?thesis by simp
qed

lemma test_bit_mask: "(x :: 32 word) AND push_bit r 1 \<noteq> 0 \<longleftrightarrow> bit x r"
  by (simp add: and_exp_eq_0_iff_not_bit)

lemma in_table_bit:
  "in_table table c \<longleftrightarrow> bit (table ! (of_char c div 32)) ((of_char c :: nat) mod 32)"
proof -
  have "of_char c div 32 < (8 :: nat)" by (simp add: less_mult_imp_div_less)
  then have "of_char c div 32 mod 8 = (of_char c div 32 :: nat)" by simp
  then show ?thesis unfolding in_table_def Let_def test_bit_mask by simp
qed

text \<open>The entries of the tables.\<close>

lemma table_words:
  "(0x7fffffe :: 32 word) = push_bit 1 (mask 26)" "(0x7e :: 32 word) = push_bit 1 (mask 6)"
  "(0x3ff0000 :: 32 word) = push_bit 16 (mask 10)"
  by (simp_all add: mask_eq_exp_minus_1)

lemma len_32: "LENGTH(32) = 32"
  by simp

lemma table_bits:
  "bit (0x7fffffe :: 32 word) n \<longleftrightarrow> 1 \<le> n \<and> n \<le> 26"
  "bit (0x7e :: 32 word) n \<longleftrightarrow> 1 \<le> n \<and> n \<le> 6"
  "bit (0x3ff0000 :: 32 word) n \<longleftrightarrow> 16 \<le> n \<and> n \<le> 25"
  unfolding table_words bit_push_bit_iff bit_mask_iff possible_bit_word len_32 by presburger+

text \<open>The row of a table a character is in, and its place there.\<close>

lemma table_rows:
  assumes "u < (256 :: nat)"
  shows "u < 32 \<and> u div 32 = 0 \<and> u mod 32 = u \<or>
    32 \<le> u \<and> u < 64 \<and> u div 32 = 1 \<and> u mod 32 = u - 32 \<or>
    64 \<le> u \<and> u < 96 \<and> u div 32 = 2 \<and> u mod 32 = u - 64 \<or>
    96 \<le> u \<and> u < 128 \<and> u div 32 = 3 \<and> u mod 32 = u - 96 \<or>
    128 \<le> u \<and> (u div 32 = 4 \<or> u div 32 = 5 \<or> u div 32 = 6 \<or> u div 32 = 7)"
proof -
  define q where "q = u div 32"
  have "q < 8" using assms by (simp add: q_def less_mult_imp_div_less)
  then have "q = 0 \<or> q = 1 \<or> q = 2 \<or> q = 3 \<or> q = 4 \<or> q = 5 \<or> q = 6 \<or> q = 7" by linarith
  moreover have "u mod 32 = u - 32 * q" by (simp add: q_def minus_mult_div_eq_mod)
  moreover have "32 * q \<le> u" "u < 32 * q + 32" by (simp_all add: q_def dividend_less_div_times)
  ultimately show ?thesis
    unfolding q_def [symmetric] by (elim disjE) simp_all
qed

lemma isxdigit_is_digit: "EVUTIL_ISXDIGIT c \<longleftrightarrow> is_digit 16 c"
  using table_rows [OF nat_of_char_less_256 [of c]]
  by (elim disjE conjE) (auto simp: EVUTIL_ISXDIGIT_def in_table_bit
    EVUTIL_ISXDIGIT_TABLE_def is_digit_16 table_bits simp del: bit_numeral_word_iff)

lemma isdigit_is_digit: "EVUTIL_ISDIGIT c \<longleftrightarrow> is_digit 10 c"
  using table_rows [OF nat_of_char_less_256 [of c]]
  by (elim disjE conjE) (auto simp: EVUTIL_ISDIGIT_def in_table_bit
    EVUTIL_ISDIGIT_TABLE_def is_digit_10 table_bits simp del: bit_numeral_word_iff)

lemma isalpha_range:
  "EVUTIL_ISALPHA c \<longleftrightarrow> 65 \<le> (of_char c :: nat) \<and> of_char c \<le> (90 :: nat) \<or>
    97 \<le> (of_char c :: nat) \<and> of_char c \<le> (122 :: nat)"
  using table_rows [OF nat_of_char_less_256 [of c]]
  by (elim disjE conjE) (auto simp: EVUTIL_ISALPHA_def in_table_bit
    EVUTIL_ISALPHA_TABLE_def table_bits simp del: bit_numeral_word_iff)

lemma isalnum_iff: "EVUTIL_ISALNUM c \<longleftrightarrow> EVUTIL_ISALPHA c \<or> EVUTIL_ISDIGIT c"
  using table_rows [OF nat_of_char_less_256 [of c]]
  by (elim disjE conjE) (simp_all add: EVUTIL_ISALNUM_def EVUTIL_ISALPHA_def EVUTIL_ISDIGIT_def in_table_bit
    EVUTIL_ISALPHA_TABLE_def EVUTIL_ISALNUM_TABLE_def EVUTIL_ISDIGIT_TABLE_def del: bit_numeral_word_iff)

section \<open>Words and bytes\<close>

lemma word_of_bytes:
  fixes a b :: byte
  defines "w \<equiv> push_bit 8 (ucast a) + ucast b :: 16 word"
  shows "ucast (drop_bit 8 w) = a" "ucast (w AND 0xff) = b"
proof -
  have w: "w = push_bit 8 (ucast a) OR ucast b"
    unfolding w_def by (rule disjunctive_add) (auto simp: bit_simps dest: bit_imp_le_length)
  have m: "(0xff :: 16 word) = mask 8" by (simp add: mask_eq_exp_minus_1)
  show "ucast (drop_bit 8 w) = a"
    by (rule bit_eqI) (auto simp: w bit_simps dest: bit_imp_le_length)
  show "ucast (w AND 0xff) = b"
    by (rule bit_eqI) (auto simp: w m bit_simps dest: bit_imp_le_length)
qed

lemma bytes_of_words: "even (length bs) \<Longrightarrow> bytes_of (words_of bs) = bs"
  by (induction bs rule: words_of.induct) (auto simp: word_of_bytes)

lemma length_words_of: "length (words_of bs) = length bs div 2"
  by (induction bs rule: words_of.induct) auto

section \<open>IPv4\<close>

lemma scan_u_dec:
  assumes "n < 2 ^ 32" "rest = [] \<or> \<not> is_digit 10 (hd rest)"
  shows "scan_u (show_dec n @ rest) = Some (int n, rest)"
proof -
  have "int n < 2 ^ 32" using assms(1) by simp
  then show ?thesis
    using scan_u_digits [of "show_dec n" rest] show_dec_digits [of n] assms(2) by simp
qed

lemma not_digit_dot [simp]: "\<not> is_digit 10 (CHR ''.'')"
  by (simp add: is_digit_10)

lemma scan_quad_text:
  assumes "a < 256" "b < 256" "c < 256" "d < 256"
  shows "scan_quad (show_dec a @ ''.'' @ show_dec b @ ''.'' @ show_dec c @ ''.'' @ show_dec d) =
    Some (int a, int b, int c, int d)"
  using assms scan_u_dec [of d "[]"]
  by (simp add: scan_quad_def scan_u_dec scan_dot_def)

lemma byte_parts:
  fixes a :: "32 word"
  shows "push_bit 24 (drop_bit 24 a AND 0xff) OR push_bit 16 (drop_bit 16 a AND 0xff) OR
    push_bit 8 (drop_bit 8 a AND 0xff) OR (a AND 0xff) = a"
proof -
  have m: "(0xff :: 32 word) = mask 8" by (simp add: mask_eq_exp_minus_1)
  show ?thesis
  proof (rule bit_eqI)
    fix n assume n: "possible_bit TYPE(32 word) n"
    consider "n < 8" | "8 \<le> n" "n < 16" | "16 \<le> n" "n < 24" | "24 \<le> n" "n < 32"
      using n by (fastforce simp: possible_bit_def)
    then show "bit (push_bit 24 (drop_bit 24 a AND 0xff) OR push_bit 16 (drop_bit 16 a AND 0xff) OR
        push_bit 8 (drop_bit 8 a AND 0xff) OR (a AND 0xff)) n = bit a n"
      unfolding m bit_or_iff bit_push_bit_iff bit_and_iff bit_drop_bit_eq bit_mask_iff o_def
      by cases (auto simp: possible_bit_def)
  qed
qed

lemma octet_less: "unat (x AND 0xff :: 32 word) < 256"
proof -
  have "x AND 0xff \<le> 0xff" by (rule word_and_le1)
  then show ?thesis by (simp add: word_le_nat_alt)
qed

lemma uint_int_unat: "uint (x :: 'a::len word) = int (unat x)"
  by simp

lemma inet4_parse_quad:
  assumes s: "scan_quad t = Some (int (unat A), int (unat B), int (unat C), int (unat (D :: 32 word)))"
    and g: "unat A < 256" "unat B < 256" "unat C < 256" "unat D < 256"
  shows "inet4_parse t = Some (push_bit 24 A OR push_bit 16 B OR push_bit 8 C OR D)"
proof -
  have s': "scan_quad t = Some (uint A, uint B, uint C, uint D)" using s by simp
  have g': "\<not> uint A > 255" "\<not> uint B > 255" "\<not> uint C > 255" "\<not> uint D > 255"
    using g uint_int_unat [of A] uint_int_unat [of B] uint_int_unat [of C] uint_int_unat [of D] by linarith+
  show ?thesis
    unfolding inet4_parse_def s' option.case prod.case
    by (simp only: g' if_False simp_thms) (simp only: word_of_int_uint)
qed

lemma inet4_roundtrip: "inet4_parse (inet4_text a) = Some a"
  using inet4_parse_quad [OF scan_quad_text [OF octet_less octet_less octet_less octet_less]
      octet_less octet_less octet_less octet_less, of "drop_bit 24 a" "drop_bit 16 a" "drop_bit 8 a" a]
  unfolding byte_parts inet4_text_def .

section \<open>IPv6: the loops\<close>

definition hexs :: "16 word list \<Rightarrow> string" where
  "hexs us = concat (map (\<lambda>w. show_hex (unat w) @ '':'') us)"

lemma hexs_simps [simp]:
  "hexs [] = []" "hexs (w # us) = show_hex (unat w) @ CHR '':'' # hexs us"
  by (simp_all add: hexs_def)

lemma length_show_base:
  assumes "2 \<le> b" "n < b ^ Suc m"
  shows "length (show_base b n) \<le> Suc m"
  using assms(2)
proof (induction m arbitrary: n)
  case 0
  then show ?case by (simp add: show_base.simps)
next
  case (Suc m)
  show ?case
  proof (cases "n < b")
    case True
    then show ?thesis by (simp add: show_base.simps)
  next
    case False
    have "n div b < b ^ Suc m" using Suc.prems by (simp add: less_mult_imp_div_less mult.commute)
    from Suc.IH [OF this] False assms(1) show ?thesis by (simp add: show_base.simps [of b n])
  qed
qed

lemma show_word:
  fixes w :: "16 word"
  shows "list_all (is_digit 16) (show_hex (unat w))" "show_hex (unat w) \<noteq> []"
    "digits_val 16 (show_hex (unat w)) = uint w" "length (show_hex (unat w)) \<le> 4"
proof -
  have "unat w < 16 ^ Suc 3" using unsigned_less [of w, where 'a = nat] by simp
  from length_show_base [OF _ this] show "length (show_hex (unat w)) \<le> 4" by simp
qed (use show_hex_digits [of "unat w"] in auto)

lemma not_hex_colon [simp]: "\<not> is_digit 16 (CHR '':'')"
  by (simp add: is_digit_16)

lemma strtol_word:
  assumes "rest = [] \<or> hd rest = CHR '':''"
  shows "strtol 16 (show_hex (unat (w :: 16 word)) @ rest) = (uint w, rest)"
proof -
  have "\<not> hex_prefix (show_hex (unat w) @ rest)"
    using assms by (intro no_hex_prefix) (auto simp: show_word)
  moreover have "uint w < 65536" using unsigned_less [of w, where 'a = int] by simp
  then have "digits_val 16 (show_hex (unat w)) \<le> LONG_MAX"
    by (simp only: show_word LONG_MAX_def) simp
  ultimately show ?thesis
    using strtol_digits_end [of 16 "show_hex (unat w)" rest] assms
    by (auto simp: show_word)
qed

lemma one_word_colon:
  "one_word (show_hex (unat w) @ CHR '':'' # rest) k = Some (w, rest, k - int (length (show_hex (unat w))) - 1)"
proof -
  have "uint w < 65536" using unsigned_less [of w, where 'a = int] by simp
  then show ?thesis
    using show_word [of w] by (simp add: one_word_def strtol_word Let_def)
qed

lemma one_word_last:
  "one_word (show_hex (unat w)) (int (length (show_hex (unat w)))) = Some (w, [], -1)"
proof -
  have "uint w < 65536" using unsigned_less [of w, where 'a = int] by simp
  then show ?thesis
    using show_word [of w] strtol_word [of "[]" w] by (simp add: one_word_def Let_def)
qed

lemma show_word_Cons:
  obtains c s where "show_hex (unat (w :: 16 word)) = c # s" "EVUTIL_ISXDIGIT c"
  using show_word [of w] by (cases "show_hex (unat w)") (auto simp: isxdigit_is_digit)

lemma words_loop_step:
  assumes "0 < k" "i \<le> 7" "one_word (show_hex (unat (u :: 16 word)) @ rest) k = Some (r, s, k')"
  shows "words_loop (show_hex (unat u) @ rest) k i gap n ws = words_loop s k' (i + 1) gap (n + 1) (ws[i := r])"
proof -
  obtain c t where c: "show_hex (unat u) = c # t" "EVUTIL_ISXDIGIT c" by (rule show_word_Cons)
  then show ?thesis
    using assms by (simp add: words_loop.simps [of "c # t @ rest"])
qed

lemma words_loop_done: "k \<le> 0 \<Longrightarrow> words_loop src k i gap n ws = Some (i, gap, n, ws)"
  by (simp add: words_loop.simps)

lemma words_loop_hexs:
  assumes "i + length us \<le> 8" "length ws = 8" "0 \<le> k"
  shows "words_loop (hexs us @ rest) (int (length (hexs us)) + k) i gap n ws =
    words_loop rest k (i + length us) gap (n + length us) (take i ws @ us @ drop (i + length us) ws)"
  using assms(1,2)
proof (induction us arbitrary: i n ws)
  case Nil
  then show ?case by simp
next
  case (Cons u us)
  define l where "l = int (length (show_hex (unat u)))"
  have "words_loop (hexs (u # us) @ rest) (int (length (hexs (u # us))) + k) i gap n ws =
      words_loop (hexs us @ rest) (int (length (hexs us)) + k) (i + 1) gap (n + 1) (ws[i := u])"
    using words_loop_step [of "l + 1 + int (length (hexs us)) + k" i u "CHR '':'' # hexs us @ rest" u
        "hexs us @ rest" "int (length (hexs us)) + k" gap n ws] Cons.prems assms(3)
    by (simp add: one_word_colon l_def algebra_simps)
  also have "\<dots> = words_loop rest k (i + 1 + length us) gap (n + 1 + length us)
      (take (i + 1) (ws[i := u]) @ us @ drop (i + 1 + length us) (ws[i := u]))"
    using Cons.prems by (intro Cons.IH) auto
  also have "take (i + 1) (ws[i := u]) = take i ws @ [u]"
    using Cons.prems by (simp add: take_Suc_conv_app_nth)
  finally show ?case by simp
qed

text \<open>The last words, of which the last ends the text.\<close>

definition words_end :: "16 word list \<Rightarrow> string" where
  "words_end vs = (if vs = [] then [] else hexs (butlast vs) @ show_hex (unat (last vs)))"

lemma words_loop_end:
  assumes "i + length vs \<le> 8" "length ws = 8"
  shows "words_loop (words_end vs) (int (length (words_end vs))) i gap n ws =
    Some (i + length vs, gap, n + length vs, take i ws @ vs @ drop (i + length vs) ws)"
proof (cases vs rule: rev_cases)
  case Nil
  then show ?thesis by (simp add: words_end_def words_loop_done)
next
  case (snoc us u)
  define ws' where "ws' = take i ws @ us @ drop (i + length us) ws"
  define l where "l = int (length (show_hex (unat u)))"
  have b: "i + length us \<le> 7" using assms snoc by simp
  have e: "words_end vs = hexs us @ show_hex (unat u)" by (simp add: words_end_def snoc)
  have "words_loop (words_end vs) (int (length (words_end vs))) i gap n ws =
      words_loop (show_hex (unat u)) l (i + length us) gap (n + length us) ws'"
    using words_loop_hexs [of i us ws l "show_hex (unat u)" gap n] b assms(2)
    unfolding e by (simp add: l_def ws'_def)
  also have "\<dots> = words_loop [] (-1) (i + length us + 1) gap (n + length us + 1) (ws'[i + length us := u])"
    using words_loop_step [of l "i + length us" u "[]" u "[]" "-1" gap "n + length us" ws'] assms snoc show_word [of u]
    by (simp add: one_word_last l_def)
  also have "ws'[i + length us := u] = take i ws @ vs @ drop (i + length vs) ws"
    using assms snoc by (simp add: ws'_def list_update_append Cons_nth_drop_Suc [symmetric])
  finally show ?thesis by (simp add: words_loop_done snoc)
qed

section \<open>IPv6: the printer\<close>

lemma hexs_append [simp]: "hexs (us @ vs) = hexs us @ hexs vs"
  by (induction us) auto

lemma words_end_Cons:
  "words_end (v # vs) = show_hex (unat v) @ (if vs = [] then [] else CHR '':'' # words_end vs)"
  by (simp add: words_end_def)

lemma show_words_end:
  assumes "i + length vs = 8" "p < int i"
  shows "show_words p vs i = words_end vs"
  using assms
proof (induction vs arbitrary: i)
  case Nil
  then show ?case by (simp add: words_end_def)
next
  case (Cons v vs)
  then have "show_words p vs (i + 1) = words_end vs" by (intro Cons.IH) auto
  moreover have "vs = [] \<longleftrightarrow> i = 7" using Cons.prems(1) by auto
  ultimately show ?case using Cons.prems(2) by (auto simp: words_end_Cons words_end_def)
qed

lemma show_words_hexs:
  assumes "p = int (i + length us)" "i + length us < 8"
  shows "show_words p (us @ vs) i = hexs us @ show_words p vs (i + length us)"
  using assms by (induction us arbitrary: i) auto

lemma dropWhile_zeros:
  assumes "vs = [] \<or> hd vs \<noteq> (0 :: 'a :: zero)"
  shows "dropWhile (\<lambda>x. x = 0) (replicate m 0 @ vs) = vs"
    "takeWhile (\<lambda>x. x = 0) (replicate m 0 @ vs) = replicate m 0"
  using assms by (induction m; cases vs; auto)+

lemma show_words_gap:
  assumes "length us + Suc m + length vs = 8" "vs = [] \<or> hd vs \<noteq> 0"
  shows "show_words (int (length us)) (us @ replicate (Suc m) 0 @ vs) 0 =
    hexs us @ (if us = [] then ''::'' else '':'') @ words_end vs"
proof -
  have "show_words (int (length us)) (replicate (Suc m) 0 @ vs) (length us) =
      (if us = [] then '':'' else []) @ '':'' @
      show_words (int (length us)) vs (length us + 1 + m)"
    using dropWhile_zeros [OF assms(2), of m] by simp
  moreover have "show_words (int (length us)) vs (length us + 1 + m) = words_end vs"
    using assms by (intro show_words_end) auto
  ultimately show ?thesis
    using show_words_hexs [of "int (length us)" 0 us "replicate (Suc m) 0 @ vs"] assms(1) by simp
qed

lemma takeWhile_zeros: "takeWhile (\<lambda>x. x = 0) ws = replicate (length (takeWhile (\<lambda>x. x = 0) ws)) 0"
  by (induction ws) auto

lemma longest_gap_is_gap:
  assumes "longest_gap ws i p l = (p', l')"
  shows "p' = p \<and> l' = l \<or>
    (\<exists>us m vs. ws = us @ replicate (Suc m) 0 @ vs \<and> (vs = [] \<or> hd vs \<noteq> 0) \<and>
      p' = int (i + length us) \<and> l' = Suc m)"
  using assms
proof (induction ws i p l rule: longest_gap.induct)
  case (1 i p l)
  then show ?case by simp
next
  case (2 w ws i p l)
  define m where "m = length (takeWhile (\<lambda>x. x = 0) ws)"
  define rest where "rest = dropWhile (\<lambda>x. x = 0) ws"
  have split: "ws = replicate m 0 @ rest"
    unfolding m_def rest_def using takeWhile_zeros [of ws] takeWhile_dropWhile_id [of "\<lambda>x. x = 0" ws] by simp
  have hd: "rest = [] \<or> hd rest \<noteq> 0"
    unfolding rest_def using hd_dropWhile [of "\<lambda>x. x = 0" ws] by blast
  have shift: "\<exists>us' m' vs'. w # ws = us' @ replicate (Suc m') 0 @ vs' \<and> (vs' = [] \<or> hd vs' \<noteq> 0) \<and>
      p' = int (i + length us') \<and> l' = Suc m'"
    if "w # ws = us0 @ rest0" "rest0 = us @ replicate (Suc m') 0 @ vs" "vs = [] \<or> hd vs \<noteq> 0"
      "p' = int (i + length us0 + length us)" "l' = Suc m'" for us0 rest0 us m' vs
    using that by (intro exI [of _ "us0 @ us"] exI [of _ m'] exI [of _ vs]) simp
  show ?case
  proof (cases "w = 0")
    case True
    have here: "\<exists>us' m' vs'. w # ws = us' @ replicate (Suc m') 0 @ vs' \<and> (vs' = [] \<or> hd vs' \<noteq> 0) \<and>
        int i = int (i + length us') \<and> 1 + m = Suc m'"
      using True split hd by (intro exI [of _ "[]"] exI [of _ m] exI [of _ rest]) simp
    have pre: "w # ws = replicate (Suc m) 0 @ rest" using True split by simp
    show ?thesis
    proof (cases "1 + m > l")
      case greater: True
      then have "longest_gap rest (i + (1 + m)) (int i) (1 + m) = (p', l')"
        using 2(4) True by (simp add: Let_def m_def rest_def)
      from 2(1) [OF True refl refl, folded m_def rest_def, OF greater this]
      show ?thesis using here shift [OF pre] by auto
    next
      case False
      then have "longest_gap rest (i + (1 + m)) p l = (p', l')"
        using 2(4) True by (simp add: Let_def m_def rest_def)
      from 2(2) [OF True refl refl, folded m_def rest_def, OF False this]
      show ?thesis using shift [OF pre] by auto
    qed
  next
    case False
    with 2(4) have "longest_gap ws (i + 1) p l = (p', l')" by simp
    from 2(3) [OF False this] show ?thesis using shift [of "[w]" ws] by auto
  qed
qed

section \<open>IPv6: round trip\<close>

definition address_chars :: "string \<Rightarrow> bool" where
  "address_chars s \<longleftrightarrow> list_all (\<lambda>c. is_digit 16 c \<or> c = CHR '':'') s"

lemma address_chars_word [simp]: "address_chars (show_hex (unat (w :: 16 word)))"
  using show_word(1) [of w] by (auto simp: address_chars_def list_all_iff)

lemma address_chars_append [simp]: "address_chars (s @ t) \<longleftrightarrow> address_chars s \<and> address_chars t"
  by (simp add: address_chars_def)

lemma address_chars_Cons [simp]:
  "address_chars (c # t) \<longleftrightarrow> (is_digit 16 c \<or> c = CHR '':'') \<and> address_chars t"
  by (simp add: address_chars_def)

lemma address_chars_Nil [simp]: "address_chars []"
  by (simp add: address_chars_def)

lemma address_chars_hexs [simp]: "address_chars (hexs us)"
  by (induction us) auto

lemma address_chars_end [simp]: "address_chars (words_end vs)"
  by (simp add: words_end_def)

lemma address_chars_no_dot: "address_chars s \<Longrightarrow> CHR ''.'' \<notin> set s"
  using digits_not_special(7) by (auto simp: address_chars_def list_all_iff)

lemma inet6_parse_no_dot:
  assumes "address_chars s" "words_loop s (int (length s)) 0 None 0 (replicate 8 0) = Some (i, gap, n, ws)"
    "n < 8 \<and> gap \<noteq> None \<or> n = 8 \<and> gap = None"
  shows "inet6_parse s = Some (bytes_of (fill_gap gap n 0 ws))"
proof -
  have "replicate 6 0 @ [0, 0] = (replicate 8 0 :: 16 word list)" by (simp add: numeral_eq_Suc)
  then show ?thesis
    using assms address_chars_no_dot [OF assms(1)] by (auto simp: inet6_parse_def Let_def)
qed

lemma words_loop_colons:
  assumes "0 \<le> e"
  shows "words_loop ((if g = 0 then ''::'' else '':'') @ r) ((if g = 0 then 2 else 1) + e) g None n ws =
    (if g \<le> 7 then words_loop r e g (Some g) n ws else None)"
proof -
  have x: "\<not> EVUTIL_ISXDIGIT (CHR '':'')" by (simp add: isxdigit_is_digit)
  show ?thesis
    using assms x by (cases "g = 0") (simp_all add: words_loop.simps [of "CHR '':'' # q" for q])
qed

lemma fill_gap_words:
  assumes "length us + Suc m + length vs = 8" "length (junk :: 16 word list) = Suc m"
  shows "fill_gap (Some (length us)) (length us + length vs) 0 (us @ vs @ junk) =
    us @ replicate (Suc m) 0 @ vs"
proof -
  have "8 - (length us + length vs) = Suc m" using assms(1) by simp
  then show ?thesis
    using assms by (simp add: fill_gap_def Let_def)
qed

lemma inet6_parse_gap:
  assumes "length us + Suc m + length vs = 8" "1 \<le> m"
  shows "inet6_parse (hexs us @ (if us = [] then ''::'' else '':'') @ words_end vs) =
    Some (bytes_of (us @ replicate (Suc m) 0 @ vs))"
proof -
  define g where "g = length us"
  define colons where "colons = (if g = 0 then ''::'' else '':'')"
  define k where "k = (if g = 0 then 2 else 1 :: int)"
  define e where "e = int (length (words_end vs))"
  define w0 where "w0 = us @ replicate (8 - g) (0 :: 16 word)"
  have c: "(if us = [] then ''::'' else '':'') = colons" "k = int (length colons)"
    by (simp_all add: g_def colons_def k_def)
  have ke: "0 \<le> k + e" "0 \<le> e" by (simp_all add: k_def e_def)
  have "words_loop (hexs us @ colons @ words_end vs) (int (length (hexs us)) + (k + e)) 0 None 0 (replicate 8 0) =
      words_loop (colons @ words_end vs) (k + e) g None g w0"
    using words_loop_hexs [of 0 us "replicate 8 0" "k + e" "colons @ words_end vs" None 0] assms ke
    by (simp add: g_def w0_def)
  also have "\<dots> = words_loop (words_end vs) e g (Some g) g w0"
    using words_loop_colons [OF ke(2), of g "words_end vs" g w0] assms
    unfolding colons_def [symmetric] k_def [symmetric] by (simp add: g_def)
  also have "\<dots> = Some (g + length vs, Some g, g + length vs, take g w0 @ vs @ drop (g + length vs) w0)"
    unfolding e_def using assms by (intro words_loop_end) (simp_all add: w0_def g_def)
  also have "take g w0 @ vs @ drop (g + length vs) w0 = us @ vs @ replicate (Suc m) 0"
  proof -
    have "8 - (g + length vs) = Suc m" using assms by (simp add: g_def)
    then show ?thesis using assms by (simp add: w0_def g_def)
  qed
  finally have loop: "words_loop (hexs us @ colons @ words_end vs) (int (length (hexs us @ colons @ words_end vs))) 0 None 0
      (replicate 8 0) = Some (g + length vs, Some g, g + length vs, us @ vs @ replicate (Suc m) 0)"
    by (simp add: c(2) e_def add.assoc)
  have "address_chars (hexs us @ colons @ words_end vs)" by (simp add: colons_def)
  from inet6_parse_no_dot [OF this loop] fill_gap_words [OF assms(1), of "replicate (Suc m) 0"] assms
  show ?thesis unfolding c g_def by simp
qed

lemma inet6_parse_full:
  assumes "length ws = 8"
  shows "inet6_parse (words_end ws) = Some (bytes_of ws)"
  using inet6_parse_no_dot [of "words_end ws" 8 None 8 ws] words_loop_end [of 0 ws "replicate 8 0" None 0] assms
  by (simp add: fill_gap_def)

text \<open>The dotted form.\<close>

lemma word_of_quad:
  "push_bit 8 (word_of_int (int (unat a))) OR word_of_int (int (unat b)) =
    (push_bit 8 (ucast a) + ucast (b :: byte) :: 16 word)" for a :: byte
proof -
  have "push_bit 8 (ucast a) + ucast b = (push_bit 8 (ucast a) OR ucast b :: 16 word)"
    by (rule disjunctive_add) (auto simp: bit_simps dest: bit_imp_le_length)
  then show ?thesis by simp
qed

lemma dotted_words_quad:
  "dotted_words (show_dec (unat (a :: byte)) @ ''.'' @ show_dec (unat (b :: byte)) @ ''.'' @
      show_dec (unat (c :: byte)) @ ''.'' @ show_dec (unat (d :: byte))) =
    Some [push_bit 8 (ucast a) + ucast b, push_bit 8 (ucast c) + ucast d]"
proof -
  have l: "unat x < 256" for x :: byte using unsigned_less [of x, where 'a = nat] by simp
  have g: "\<not> int (unat x) > 255" for x :: byte using l [of x] by linarith
  show ?thesis
    unfolding dotted_words_def scan_quad_text [OF l l l l] option.case prod.case
    by (simp only: g if_False simp_thms word_of_quad)
qed

lemma dec_no_dot [simp]: "CHR ''.'' \<notin> set (show_dec n)"
  using show_dec_digits [of n] by (auto simp: list_all_iff)

lemma dotted_end_at:
  assumes "CHR ''.'' \<notin> set s" "s \<noteq> []" "\<not> is_digit 10 (last s)"
  shows "dotted_end (s @ show_dec n @ CHR ''.'' # r) = length s"
proof -
  have "takeWhile (\<lambda>c. c \<noteq> CHR ''.'') (s @ show_dec n @ CHR ''.'' # r) = s @ show_dec n"
  proof -
    have "\<forall>c \<in> set (s @ show_dec n). c \<noteq> CHR ''.''" using assms(1) dec_no_dot [of n] by auto
    from takeWhile_eq_prefix [OF this, of "CHR ''.''" r] show ?thesis by simp
  qed
  moreover have "takeWhile (is_digit 10) (rev (show_dec n) @ rev s) = rev (show_dec n)"
    using show_dec_digits [of n] assms(2,3)
    by (intro takeWhile_digits) (auto simp: list_all_iff hd_rev)
  ultimately show ?thesis by (simp add: dotted_end_def isdigit_is_digit [abs_def])
qed

lemma inet6_parse_dotted:
  assumes s: "address_chars s" "s \<noteq> []" "\<not> is_digit 10 (last s)"
    and q: "q = show_dec (unat (a :: byte)) @ ''.'' @ show_dec (unat (b :: byte)) @ ''.'' @
      show_dec (unat (c :: byte)) @ ''.'' @ show_dec (unat (d :: byte))"
    and w: "w6 = push_bit 8 (ucast a) + ucast b" "w7 = push_bit 8 (ucast c) + ucast d"
    and loop: "words_loop (s @ q) (int (length s)) 0 None 2 (replicate 6 0 @ [w6, w7]) = Some (i, Some g, n, ws)"
    and n: "n < 8"
  shows "inet6_parse (s @ q) = Some (bytes_of (fill_gap (Some g) n 2 ws))"
proof -
  have "dotted_end (s @ q) = length s"
    using dotted_end_at [of s "unat a"] s address_chars_no_dot [OF s(1)] by (simp add: q)
  moreover have "hd (s @ q) \<noteq> CHR ''.''"
    using s address_chars_no_dot [OF s(1)] by (cases s) auto
  moreover have "dotted_words q = Some [w6, w7]"
    unfolding q w by (rule dotted_words_quad)
  moreover have "CHR ''.'' \<in> set (s @ q)" by (simp add: q)
  ultimately show ?thesis
    using loop n by (simp add: inet6_parse_def Let_def)
qed

lemma two_colons:
  assumes "0 \<le> k"
  shows "words_loop (CHR '':'' # CHR '':'' # r) (2 + k) 0 None n ws = words_loop r k 0 (Some 0) n ws"
  using words_loop_colons [OF assms, of 0 r n ws] by simp

lemma parse_dotted_short:
  assumes q: "q = show_dec (unat (a :: byte)) @ ''.'' @ show_dec (unat (b :: byte)) @ ''.'' @
      show_dec (unat (c :: byte)) @ ''.'' @ show_dec (unat (d :: byte))"
    and w: "w6 = push_bit 8 (ucast a) + ucast b" "w7 = push_bit 8 (ucast c) + ucast d"
  shows "inet6_parse (''::'' @ q) = Some (bytes_of (replicate 6 0 @ [w6, w7]))"
proof -
  have "words_loop (''::'' @ q) (int (length ''::'')) 0 None 2 (replicate 6 0 @ [w6, w7]) =
      Some (0, Some 0, 2, replicate 6 0 @ [w6, w7])"
    using two_colons [of 0 q 2 "replicate 6 0 @ [w6, w7]"] by (simp add: words_loop_done)
  then have "inet6_parse (''::'' @ q) = Some (bytes_of (fill_gap (Some 0) 2 2 (replicate 6 0 @ [w6, w7])))"
    by (intro inet6_parse_dotted [OF _ _ _ q w]) (simp_all add: is_digit_10)
  then show ?thesis
    by (simp add: fill_gap_def)
qed

lemma parse_dotted_word:
  assumes q: "q = show_dec (unat (a :: byte)) @ ''.'' @ show_dec (unat (b :: byte)) @ ''.'' @
      show_dec (unat (c :: byte)) @ ''.'' @ show_dec (unat (d :: byte))"
    and w: "w6 = push_bit 8 (ucast a) + ucast b" "w7 = push_bit 8 (ucast c) + ucast d"
  shows "inet6_parse (''::'' @ show_hex (unat w5) @ '':'' @ q) = Some (bytes_of (replicate 5 0 @ [w5, w6, w7]))"
proof -
  define h where "h = show_hex (unat w5)"
  define l where "l = int (length h)"
  define s where "s = ''::'' @ h @ '':''"
  have "words_loop (s @ q) (int (length s)) 0 None 2 (replicate 6 0 @ [w6, w7]) =
      words_loop (h @ CHR '':'' # q) (l + 1) 0 (Some 0) 2 (replicate 6 0 @ [w6, w7])"
    using two_colons [of "l + 1" "h @ CHR '':'' # q" 2 "replicate 6 0 @ [w6, w7]"]
    by (simp add: s_def l_def add.commute)
  also have "\<dots> = words_loop q 0 1 (Some 0) 3 ((replicate 6 0 @ [w6, w7])[0 := w5])"
    unfolding h_def l_def using one_word_colon [of w5 q]
    by (subst words_loop_step) simp_all
  also have "\<dots> = Some (1, Some 0, 3, [w5, 0, 0, 0, 0, 0, w6, w7])"
    by (simp add: words_loop_done numeral_eq_Suc)
  finally have "inet6_parse (s @ q) = Some (bytes_of (fill_gap (Some 0) 3 2 [w5, 0, 0, 0, 0, 0, w6, w7]))"
    by (intro inet6_parse_dotted [OF _ _ _ q w]) (simp_all add: s_def h_def is_digit_10)
  then show ?thesis
    by (simp add: fill_gap_def s_def h_def numeral_eq_Suc)
qed

lemma list8:
  assumes "length ws = 8"
  obtains w0 w1 w2 w3 w4 w5 w6 w7 where "ws = [w0, w1, w2, w3, w4, w5, w6, w7]"
  using assms by (auto simp: numeral_eq_Suc length_Suc_conv)

lemma last_words:
  assumes "length a = 16"
  shows "words_of a ! 6 = push_bit 8 (ucast (a ! 12)) + ucast (a ! 13)"
    "words_of a ! 7 = push_bit 8 (ucast (a ! 14)) + ucast (a ! 15)"
  using assms by (auto simp: numeral_eq_Suc length_Suc_conv)

text \<open>The printer gives one of four forms.\<close>

lemma inet6_text_forms:
  assumes a: "length a = 16"
  obtains (short) "inet6_text a = ''::'' @ quad_text a"
      "words_of a = replicate 6 0 @ [words_of a ! 6, words_of a ! 7]"
  | (word) w where "inet6_text a = ''::'' @ show_hex (unat (w :: 16 word)) @ '':'' @ quad_text a"
      "words_of a = replicate 5 0 @ [w, words_of a ! 6, words_of a ! 7]"
  | (full) "inet6_text a = words_end (words_of a)"
  | (gap) us m vs where "length us + Suc m + length vs = 8" "1 \<le> m"
      "words_of a = us @ replicate (Suc m) 0 @ vs"
      "inet6_text a = hexs us @ (if us = [] then ''::'' else '':'') @ words_end vs"
proof -
  define ws where "ws = words_of a"
  have b: "length ws = 8" using a by (simp add: ws_def length_words_of)
  let ?four = "ws ! 0 = 0 \<and> ws ! 1 = 0 \<and> ws ! 2 = 0 \<and> ws ! 3 = 0 \<and> ws ! 4 = 0 \<and>
            (ws ! 5 = 0 \<and> ws ! 6 \<noteq> 0 \<and> ws ! 7 \<noteq> 0 \<or> ws ! 5 = 0xffff)"
  obtain p l where g: "longest_gap ws 0 (-1) 0 = (p, l)" by fastforce
  show thesis
  proof (cases ?four)
    case True
    have e: "ws = replicate 5 0 @ [ws ! 5, ws ! 6, ws ! 7]"
      by (rule list8 [OF b]) (use True in \<open>simp add: numeral_eq_Suc\<close>)
    have t: "inet6_text a = (if ws ! 5 = 0 then ''::'' @ quad_text a
        else ''::'' @ show_hex (unat (ws ! 5)) @ '':'' @ quad_text a)"
      unfolding inet6_text_def Let_def ws_def [symmetric] if_P [OF True] ..
    show thesis
    proof (cases "ws ! 5 = 0")
      case True
      with e have "ws = replicate 6 0 @ [ws ! 6, ws ! 7]" by (simp add: numeral_eq_Suc)
      then show thesis using t True short unfolding ws_def by simp
    next
      case False
      then show thesis using t e word unfolding ws_def by simp
    qed
  next
    case False
    have t: "inet6_text a = show_words (if l \<le> 1 then -1 else p) ws 0"
      unfolding inet6_text_def Let_def ws_def [symmetric] if_not_P [OF False] g by simp
    show thesis
    proof (cases "l \<le> 1")
      case True
      then show thesis using show_words_end [of 0 ws "-1"] b t full unfolding ws_def by simp
    next
      case False
      with longest_gap_is_gap [OF g] obtain us m vs where
        ws: "ws = us @ replicate (Suc m) 0 @ vs" "vs = [] \<or> hd vs \<noteq> 0" "p = int (length us)" "l = Suc m"
        by auto
      have n: "length us + Suc m + length vs = 8" using b ws(1) by simp
      have "inet6_text a = hexs us @ (if us = [] then ''::'' else '':'') @ words_end vs"
        using show_words_gap [OF n ws(2)] t False ws by simp
      then show thesis using n False ws gap unfolding ws_def by simp
    qed
  qed
qed

lemma inet6_roundtrip:
  assumes a: "length a = 16"
  shows "inet6_parse (inet6_text a) = Some a"
proof -
  have b: "bytes_of (words_of a) = a" "length (words_of a) = 8"
    using a by (simp_all add: bytes_of_words length_words_of)
  note w = last_words [OF a]
  show ?thesis
  proof (rule inet6_text_forms [OF a])
    assume "inet6_text a = ''::'' @ quad_text a" "words_of a = replicate 6 0 @ [words_of a ! 6, words_of a ! 7]"
    then show ?thesis using parse_dotted_short [OF quad_text_def w] b(1) by simp
  next
    fix w5 assume "inet6_text a = ''::'' @ show_hex (unat w5) @ '':'' @ quad_text a"
      "words_of a = replicate 5 0 @ [w5, words_of a ! 6, words_of a ! 7]"
    then show ?thesis using parse_dotted_word [OF quad_text_def w, of w5] b(1) by simp
  next
    assume "inet6_text a = words_end (words_of a)"
    then show ?thesis using inet6_parse_full [OF b(2)] b by simp
  next
    fix us m vs assume "length us + Suc m + length vs = 8" "1 \<le> m" "words_of a = us @ replicate (Suc m) 0 @ vs"
      "inet6_text a = hexs us @ (if us = [] then ''::'' else '':'') @ words_end vs"
    then show ?thesis using inet6_parse_gap [of us m vs] b by simp
  qed
qed

section \<open>The characters and the length of an address\<close>

definition inet_chars :: "string \<Rightarrow> bool" where
  "inet_chars s \<longleftrightarrow> list_all (\<lambda>c. is_digit 16 c \<or> c = CHR '':'' \<or> c = CHR ''.'') s"

lemma inet_chars_simps [simp]:
  "inet_chars []" "inet_chars (s @ t) \<longleftrightarrow> inet_chars s \<and> inet_chars t"
  "inet_chars (c # s) \<longleftrightarrow> (is_digit 16 c \<or> c = CHR '':'' \<or> c = CHR ''.'') \<and> inet_chars s"
  by (simp_all add: inet_chars_def)

lemma inet_chars_dec [simp]: "inet_chars (show_dec n)"
  using show_dec_digits [of n] by (auto simp: inet_chars_def list_all_iff is_digit_10_16)

lemma address_inet_chars: "address_chars s \<Longrightarrow> inet_chars s"
  by (auto simp: inet_chars_def address_chars_def list_all_iff)

lemma inet_chars_not:
  assumes "inet_chars s" "c \<in> {CHR ''['', CHR '']'', CHR ''%'', CHR ''@'', CHR ''/'', CHR ''?'', CHR ''#'', CHR 0x00}"
  shows "c \<notin> set s"
  using assms by (auto simp: inet_chars_def list_all_iff is_digit_16)

lemma length_dec_byte: "length (show_dec (unat (b :: byte))) \<le> 3"
proof -
  have "unat b < 10 ^ Suc 2" using unsigned_less [of b, where 'a = nat] by simp
  from length_show_base [OF _ this] show ?thesis by simp
qed

lemma length_hexs: "length (hexs us) \<le> 5 * length us"
proof (induction us)
  case (Cons u us)
  then show ?case using show_word(4) [of u] by simp
qed simp

lemma length_words_end: "length (words_end vs) \<le> 5 * length vs"
proof (cases vs rule: rev_cases)
  case (snoc us u)
  then show ?thesis using length_hexs [of us] show_word(4) [of u] by (simp add: words_end_def)
qed (simp add: words_end_def)

lemma quad_text_chars: "inet_chars (quad_text a)" "length (quad_text a) \<le> 15"
  using length_dec_byte [of "a ! 12"] length_dec_byte [of "a ! 13"] length_dec_byte [of "a ! 14"]
    length_dec_byte [of "a ! 15"]
  by (simp_all add: quad_text_def)

lemma inet6_text_chars:
  assumes "length a = 16"
  shows "inet_chars (inet6_text a)" "length (inet6_text a) \<le> 42"
proof -
  show "inet_chars (inet6_text a)"
    by (rule inet6_text_forms [OF assms]) (simp_all add: quad_text_chars address_inet_chars)
  show "length (inet6_text a) \<le> 42"
  proof (rule inet6_text_forms [OF assms])
    fix us m vs
    assume "length us + Suc m + length vs = 8" "1 \<le> m"
      "inet6_text a = hexs us @ (if us = [] then ''::'' else '':'') @ words_end vs"
    then show ?thesis using length_hexs [of us] length_words_end [of vs] by simp
  next
    assume "inet6_text a = words_end (words_of a)"
    then show ?thesis using length_words_end [of "words_of a"] assms by (simp add: length_words_of)
  next
    fix w :: "16 word"
    assume "inet6_text a = ''::'' @ show_hex (unat w) @ '':'' @ quad_text a"
    then show ?thesis using quad_text_chars(2) [of a] show_word(4) [of w] by simp
  qed (use quad_text_chars(2) [of a] in simp)
qed

lemma inet4_text_chars:
  "CHR '':'' \<notin> set (inet4_text a)" "hd (inet4_text a) \<noteq> CHR ''[''" "inet4_text a \<noteq> []" "length (inet4_text a) \<le> 15"
proof -
  have d1: "CHR '':'' \<notin> set (show_dec n)" for n
    using show_dec_digits [of n] by (auto simp: list_all_iff is_digit_10)
  have d2: "hd (show_dec n) \<noteq> CHR ''[''" for n
    using show_dec_hd [of n] by (cases "hd (show_dec n) = CHR ''[''") simp_all
  have l: "length (show_dec (unat (x AND 0xff :: 32 word))) \<le> 3" for x
    using length_show_base [of 10 "unat (x AND 0xff)" 2] octet_less [of x] by simp
  have n: "show_dec n \<noteq> []" for n using show_dec_digits [of n] by simp
  show "CHR '':'' \<notin> set (inet4_text a)" "hd (inet4_text a) \<noteq> CHR ''[''" "inet4_text a \<noteq> []"
    by (simp_all add: inet4_text_def d1 d2 n)
  show "length (inet4_text a) \<le> 15"
    using l [of "drop_bit 24 a"] l [of "drop_bit 16 a"] l [of "drop_bit 8 a"] l [of a]
    by (simp add: inet4_text_def)
qed

section \<open>An address with its port\<close>

lemma port_text:
  fixes p :: "16 word"
  shows "atoi (show_dec (unat p)) = uint p" "length (show_dec (unat p)) \<le> 5"
    "(uint p \<le> 0 \<or> uint p > 65535) \<longleftrightarrow> p = 0"
proof -
  have l: "unat p < 65536" using unsigned_less [of p, where 'a = nat] by simp
  then show "length (show_dec (unat p)) \<le> 5"
    using length_show_base [of 10 "unat p" 4] by simp
  have "strtol 10 (show_dec (unat p) @ []) = (int (unat p), [])"
  proof -
    have "\<not> hex_prefix (show_dec (unat p) @ [])"
      using show_dec_digits [of "unat p"] by (intro no_hex_prefix) (auto simp: list_all_iff is_digit_10_16)
    then show ?thesis
      using strtol_digits_end [of 10 "show_dec (unat p)" "[]"] show_dec_digits [of "unat p"] l
      by (simp add: LONG_MAX_def del: of_nat_unat)
  qed
  then show "atoi (show_dec (unat p)) = uint p"
    using l cast_int_id [of "int (unat p)"] unfolding uint_int_unat by (simp add: atoi_def del: of_nat_unat)
  show "(uint p \<le> 0 \<or> uint p > 65535) \<longleftrightarrow> p = 0"
    unfolding uint_int_unat using l by (auto simp: unat_eq_zero simp del: of_nat_unat)
qed

lemma split_port_4: "split_port (inet4_text a @ CHR '':'' # r) = Some (False, inet4_text a, Some r)" if "CHR '':'' \<notin> set r"
proof -
  note c = inet4_text_chars [of a]
  have n: "\<forall>c \<in> set (inet4_text a). c \<noteq> CHR '':''" using c(1) by auto
  have "takeWhile (\<lambda>c. c \<noteq> CHR '':'') (inet4_text a @ CHR '':'' # r) = inet4_text a"
    "dropWhile (\<lambda>c. c \<noteq> CHR '':'') (inet4_text a @ CHR '':'' # r) = CHR '':'' # r"
    using takeWhile_eq_prefix [OF n, of "CHR '':''"] dropWhile_eq_suffix [OF n, of "CHR '':''"] by simp_all
  with c that show ?thesis by (simp add: split_port_def Let_def)
qed

lemma split_port_6:
  assumes "inet_chars s" "length s \<le> 127"
  shows "split_port (CHR ''['' # s @ CHR '']'' # CHR '':'' # r) = Some (True, s, Some r)"
proof -
  have n: "\<forall>c \<in> set s. c \<noteq> CHR '']''" using inet_chars_not [OF assms(1), of "CHR '']''"] by auto
  have "takeWhile (\<lambda>c. c \<noteq> CHR '']'') (s @ CHR '']'' # CHR '':'' # r) = s"
    "dropWhile (\<lambda>c. c \<noteq> CHR '']'') (s @ CHR '']'' # CHR '':'' # r) = CHR '']'' # CHR '':'' # r"
    using takeWhile_eq_prefix [OF n, of "CHR '']''"] dropWhile_eq_suffix [OF n, of "CHR '']''"] by simp_all
  with assms(2) show ?thesis by (simp add: split_port_def Let_def)
qed

text \<open>
  C31: an address printed with its port by \<^verbatim>\<open>evutil_format_sockaddr_port_\<close> is given back by
  \<^verbatim>\<open>evutil_parse_sockaddr_port\<close>, for every IPv4 and every IPv6 address, in whichever of its forms the
  second is printed, except that the zone is not printed and that port 0, which is printed, is refused.
\<close>

theorem sockaddr_roundtrip:
  assumes "64 \<le> outlen" "28 \<le> capacity" and b: "length b = 16"
  shows "evutil_parse_sockaddr_port ifs (evutil_format_sockaddr_port (Sockaddr_in a p) outlen) capacity =
      (if p = 0 then None else Some (Sockaddr_in a p, 16)) \<and>
    evutil_parse_sockaddr_port ifs (evutil_format_sockaddr_port (Sockaddr_in6 b p zone) outlen) capacity =
      (if p = 0 then None else Some (Sockaddr_in6 b p 0, 28))"
proof -
  have d: "CHR '':'' \<notin> set (show_dec n)" for n
    using show_dec_digits [of n] by (auto simp: list_all_iff is_digit_10)
  note t = port_text [of p]
  note c4 = inet4_text_chars [of a]
  have "evutil_format_sockaddr_port (Sockaddr_in a p) outlen = inet4_text a @ CHR '':'' # show_dec (unat p)"
    using c4 t(2) assms(1) by (simp add: evutil_format_sockaddr_port_def evutil_inet_ntop_def)
  then have four: "evutil_parse_sockaddr_port ifs (evutil_format_sockaddr_port (Sockaddr_in a p) outlen) capacity =
      (if p = 0 then None else Some (Sockaddr_in a p, 16))"
    using assms(2) t(1,3)
    by (simp add: evutil_parse_sockaddr_port_def split_port_4 [OF d] evutil_inet_pton_def inet4_roundtrip
        sizeof_sockaddr_in_def)
  note c6 = inet6_text_chars [OF b]
  have f: "evutil_format_sockaddr_port (Sockaddr_in6 b p zone) outlen =
      CHR ''['' # inet6_text b @ CHR '']'' # CHR '':'' # show_dec (unat p)"
    using c6(2) t(2) assms(1) by (simp add: evutil_format_sockaddr_port_def evutil_inet_ntop_def)
  have g: "split_port (CHR ''['' # inet6_text b @ CHR '']'' # CHR '':'' # show_dec (unat p)) =
      Some (True, inet6_text b, Some (show_dec (unat p)))"
    using split_port_6 c6 by simp
  have "CHR ''%'' \<notin> set (inet6_text b)" using inet_chars_not [OF c6(1)] by auto
  then have "evutil_parse_sockaddr_port ifs (evutil_format_sockaddr_port (Sockaddr_in6 b p zone) outlen) capacity =
      (if p = 0 then None else Some (Sockaddr_in6 b p 0, 28))"
    using assms(2) t(1,3) f g
    by (simp add: evutil_parse_sockaddr_port_def evutil_inet_pton_scope_def evutil_inet_pton_def
        inet6_roundtrip [OF b] sizeof_sockaddr_in6_def)
  with four show ?thesis by blast
qed

lemma sockaddr_roundtrip_witness:
  "evutil_parse_sockaddr_port (\<lambda>_. 0)
      (evutil_format_sockaddr_port (Sockaddr_in6 [0x20, 1, 0xd, 0xb8, 0, 0, 0, 0, 0, 0, 0, 0, 0, 0, 0, 1] 80 5) 128) 28 =
    Some (Sockaddr_in6 [0x20, 1, 0xd, 0xb8, 0, 0, 0, 0, 0, 0, 0, 0, 0, 0, 0, 1] 80 0, 28)"
  using sockaddr_roundtrip [of 128 28 "[0x20, 1, 0xd, 0xb8, 0, 0, 0, 0, 0, 0, 0, 0, 0, 0, 0, 1]" "\<lambda>_. 0" 0 80 5]
  by simp

section \<open>What the parser of IPv6 addresses accepts\<close>

definition accepted_char :: "char \<Rightarrow> bool" where
  "accepted_char c \<longleftrightarrow> is_digit 16 c \<or> isspace c \<or>
     c \<in> {CHR '':'', CHR ''.'', CHR ''x'', CHR ''X'', CHR ''+'', CHR ''-''}"

lemma takeWhile_digits_accepted: "b \<le> 16 \<Longrightarrow> list_all accepted_char (takeWhile (is_digit b) s)"
  by (auto simp: list_all_iff accepted_char_def is_digit_def dest!: set_takeWhileD)

lemma scan_u_accepted:
  assumes "scan_u s = Some (n, rest)"
  obtains u where "s = u @ rest" "list_all accepted_char u"
proof -
  define s1 where "s1 = dropWhile isspace s"
  define sg where "sg = (if s1 \<noteq> [] \<and> (hd s1 = CHR ''-'' \<or> hd s1 = CHR ''+'') then [hd s1] else [])"
  define s2 where "s2 = (if s1 \<noteq> [] \<and> (hd s1 = CHR ''-'' \<or> hd s1 = CHR ''+'') then tl s1 else s1)"
  have r: "rest = dropWhile (is_digit 10) s2"
    using assms unfolding scan_u_def Let_def s1_def [symmetric] s2_def [symmetric]
    by (simp split: if_split_asm)
  have "s = takeWhile isspace s @ s1" by (simp add: s1_def)
  moreover have "s1 = sg @ s2" by (cases s1) (auto simp: sg_def s2_def)
  moreover have "s2 = takeWhile (is_digit 10) s2 @ rest" by (simp add: r)
  ultimately have "s = (takeWhile isspace s @ sg @ takeWhile (is_digit 10) s2) @ rest" by (metis append.assoc)
  moreover have "list_all accepted_char (takeWhile isspace s @ sg @ takeWhile (is_digit 10) s2)"
    using takeWhile_digits_accepted [of 10 s2]
    by (auto simp: sg_def list_all_iff accepted_char_def is_digit_10_16 dest!: set_takeWhileD)
  ultimately show thesis by (rule that)
qed

lemma scan_dot_u_accepted:
  assumes "Option.bind (scan_dot s) scan_u = Some (n, rest)"
  obtains u where "s = u @ rest" "list_all accepted_char u"
proof -
  obtain s' where s': "s = CHR ''.'' # s'" "scan_u s' = Some (n, rest)"
    using assms by (auto simp: scan_dot_def split: list.splits if_splits)
  obtain u where "s' = u @ rest" "list_all accepted_char u" using scan_u_accepted [OF s'(2)] .
  then show thesis using s' that [of "CHR ''.'' # u"] by (simp add: accepted_char_def)
qed

lemma scan_quad_accepted:
  assumes "scan_quad s = Some q"
  shows "list_all accepted_char s"
proof -
  obtain a s1 b s2 c s3 d where q: "scan_u s = Some (a, s1)" "Option.bind (scan_dot s1) scan_u = Some (b, s2)"
    "Option.bind (scan_dot s2) scan_u = Some (c, s3)" "Option.bind (scan_dot s3) scan_u = Some (d, [])"
    using assms by (auto simp: scan_quad_def split: option.splits prod.splits if_splits)
  from scan_u_accepted [OF q(1)] scan_dot_u_accepted [OF q(2)] scan_dot_u_accepted [OF q(3)]
    scan_dot_u_accepted [OF q(4)]
  show ?thesis by (metis append_Nil2 list_all_append)
qed

lemma strtol16_accepted:
  assumes "is_digit 16 c" "strtol 16 (c # s) = (r, rest)"
  obtains u where "c # s = u @ rest" "list_all accepted_char u"
proof -
  define s3 where "s3 = (if hex_prefix (c # s) then drop 2 (c # s) else c # s)"
  define pre where "pre = (if hex_prefix (c # s) then take 2 (c # s) else [])"
  have d: "dropWhile isspace (c # s) = c # s" "c \<noteq> CHR ''-''" "c \<noteq> CHR ''+''"
    using digits_not_special [OF assms(1)] by simp_all
  have t: "strtol 16 (c # s) = (let n = digits_val 16 (takeWhile (is_digit 16) s3)
      in if takeWhile (is_digit 16) s3 = [] then (0, c # s) else (clamp_long n, dropWhile (is_digit 16) s3))"
    unfolding strtol_def d using d(2,3) by (simp add: Let_def s3_def)
  have p: "list_all accepted_char pre"
    by (auto simp: pre_def hex_prefix_def accepted_char_def is_digit_16 split: list.splits)
  show thesis
  proof (cases "takeWhile (is_digit 16) s3 = []")
    case True
    then show thesis using assms(2) t that [of "[]"] by simp
  next
    case False
    then have "rest = dropWhile (is_digit 16) s3" using assms(2) t by (simp add: Let_def)
    then have "c # s = (pre @ takeWhile (is_digit 16) s3) @ rest"
      by (simp add: pre_def s3_def)
    then show thesis using that p takeWhile_digits_accepted [of 16 s3] by simp
  qed
qed

lemma one_word_accepted:
  assumes "is_digit 16 c" "one_word (c # s) k = Some (w, s', k')"
  shows "list_all accepted_char (take (nat k') s') \<Longrightarrow> list_all accepted_char (take (nat k) (c # s))"
proof -
  assume tail: "list_all accepted_char (take (nat k') s')"
  obtain r rest where r: "strtol 16 (c # s) = (r, rest)" by fastforce
  obtain u where u: "c # s = u @ rest" "list_all accepted_char u" using strtol16_accepted [OF assms(1) r] .
  have k': "s' = drop 1 rest" "k' = k - int (length u) - 1"
    "(rest = [] \<or> hd rest \<noteq> CHR '':'') \<longrightarrow> k = int (length u)"
    using assms(2) r unfolding one_word_def u(1) Let_def by (auto split: if_splits)
  show ?thesis
  proof (cases "nat k \<le> length u")
    case True
    then show ?thesis using u by (auto simp: list_all_iff dest: in_set_takeD)
  next
    case False
    then obtain rest' where rest: "rest = CHR '':'' # rest'"
      using k'(3) by (cases rest) auto
    have "nat k = length u + Suc (nat k')" using False k'(2) by linarith
    then show ?thesis using u tail k'(1) rest by (simp add: accepted_char_def)
  qed
qed

lemma words_loop_accepted:
  assumes "words_loop src k i gap n ws = Some res"
  shows "list_all accepted_char (take (nat k) src)"
  using assms
proof (induction src k i gap n ws rule: words_loop.induct)
  case (1 src k i gap n ws)
  show ?case
  proof (cases "k \<le> 0 \<or> src = []")
    case True
    then show ?thesis by auto
  next
    case False
    then obtain c s where src: "src = c # s" and k: "\<not> k \<le> 0" by (cases src) auto
    have i: "\<not> i > 7" using 1(4) k by (auto simp: words_loop.simps [of src k])
    have colon: "accepted_char (CHR '':'')" by (simp add: accepted_char_def)
    consider (word) r s' k' where "EVUTIL_ISXDIGIT c" "one_word src k = Some (r, s', k')"
        "words_loop s' k' (i + 1) gap (n + 1) (ws[i := r]) = Some res"
      | (gap) "\<not> EVUTIL_ISXDIGIT c" "c = CHR '':'' \<and> i > 0 \<and> gap = None"
        "words_loop s (k - 1) i (Some i) n ws = Some res"
      | (start) "\<not> EVUTIL_ISXDIGIT c" "\<not> (c = CHR '':'' \<and> i > 0 \<and> gap = None)"
        "c = CHR '':'' \<and> i = 0 \<and> s \<noteq> [] \<and> hd s = CHR '':'' \<and> gap = None"
        "words_loop (tl s) (k - 2) i (Some i) n ws = Some res"
      using 1(4) [unfolded src words_loop.simps [of "c # s" k i gap n ws]] k i src
      by (auto split: if_splits option.splits)
    then show ?thesis
    proof cases
      case word
      then have "list_all accepted_char (take (nat k') s')"
        by (intro 1(1) [OF k i src]) auto
      then show ?thesis
        using one_word_accepted [of c s k r s' k'] word isxdigit_is_digit [of c] by (simp add: src)
    next
      case gap
      then have "list_all accepted_char (take (nat (k - 1)) s)"
        by (intro 1(2) [OF k i src]) auto
      moreover have "nat k = Suc (nat (k - 1))" using k by simp
      ultimately show ?thesis using gap(2) colon by (simp add: src)
    next
      case start
      then have "list_all accepted_char (take (nat (k - 2)) (tl s))"
        by (intro 1(3) [OF k i src]) auto
      moreover have "set (take (nat k) (c # s)) \<subseteq> set (take (Suc (Suc (nat (k - 2)))) (c # s))"
        by (rule set_take_subset_set_take) (use k in simp)
      moreover obtain s2 where "s = CHR '':'' # s2" using start(3) by (cases s) auto
      ultimately show ?thesis using start(3) colon
        by (auto simp: src list_all_iff)
    qed
  qed
qed

lemma inet6_parse_accepted:
  assumes "inet6_parse s = Some a"
  shows "list_all accepted_char s"
proof -
  define dot where "dot \<longleftrightarrow> CHR ''.'' \<in> set s"
  define eow where "eow = (if dot then dotted_end s else length s)"
  obtain lw where lw: "(if dot then dotted_words (drop eow s) else Some [0, 0]) = Some lw"
    and loop: "words_loop s (int eow) 0 None (if dot then 2 else 0) (replicate 6 0 @ lw) \<noteq> None"
    using assms unfolding inet6_parse_def dot_def [symmetric] Let_def eow_def
    by (auto split: if_splits option.splits)
  have "list_all accepted_char (take eow s)"
    using loop words_loop_accepted by fastforce
  moreover have "list_all accepted_char (drop eow s)"
  proof (cases dot)
    case True
    with lw obtain q where "scan_quad (drop eow s) = Some q"
      by (auto simp: dotted_words_def split: option.splits)
    then show ?thesis by (rule scan_quad_accepted)
  next
    case False
    then show ?thesis by (simp add: eow_def)
  qed
  ultimately show ?thesis by (metis append_take_drop_id list_all_append)
qed

end
