(* ===== verification/HttpUriSpec.thy ===== *)
theory HttpUriSpec
  imports HttpUri InetSpec
begin

text \<open>
  What the string and URI functions of the HTTP layer promise: a string encoded for a URI is decoded
  to itself, and a URI that was parsed is put together to a text that parses to the same URI.
\<close>

section \<open>Characters\<close>

lemma uri_chars_map:
  "uri_chars = map (\<lambda>n. if 48 \<le> n \<and> n \<le> 57 \<or> 65 \<le> n \<and> n \<le> 90 \<or> 97 \<le> n \<and> n \<le> 122 \<or>
      n = 45 \<or> n = 46 \<or> n = 95 \<or> n = 126 then 1 else 0) [0..<256]"
  by code_simp

lemma unreserved_iff:
  "CHAR_IS_UNRESERVED c \<longleftrightarrow> (let n = of_char c :: nat in 48 \<le> n \<and> n \<le> 57 \<or> 65 \<le> n \<and> n \<le> 90 \<or>
      97 \<le> n \<and> n \<le> 122 \<or> n = 45 \<or> n = 46 \<or> n = 95 \<or> n = 126)"
proof -
  have "(of_char c :: nat) < length [0..<256]" by simp
  then show ?thesis
    unfolding CHAR_IS_UNRESERVED_def uri_chars_map by (simp only: nth_map nth_upt) (simp add: Let_def)
qed

lemma unreserved_not:
  "CHAR_IS_UNRESERVED c \<Longrightarrow> c \<notin> {CHR ''%'', CHR ''+'', CHR ''?'', CHR ''#'', CHR ''/'', CHR '':'', CHR ''@'',
    CHR ''['', CHR '' '', CHR 0x00}"
  by (auto simp: unreserved_iff Let_def)

lemma digit_hex_upper:
  assumes "d < 16"
  shows "digit_val (hex_upper d) = d"
  using assms by (auto simp: digit_val_def hex_upper_def Let_def)

section \<open>Encoding for a URI\<close>

lemma strtol_percent: "fst (strtol 16 [hex_upper (of_char c div 16), hex_upper (of_char c mod 16)]) = of_char c"
proof -
  have b: "of_char c < (256 :: nat)" by simp
  define h where "h = (of_char c :: nat) div 16"
  define l where "l = (of_char c :: nat) mod 16"
  have hl: "h < 16" "l < 16"
    using b by (simp_all add: h_def l_def less_mult_imp_div_less)
  have "h * 16 + l = of_char c" by (simp add: h_def l_def)
  then have "int (h * 16 + l) = int (of_char c)" by (simp only:)
  then have hl_sum: "int h * 16 + int l = of_char c" by (simp add: of_nat_of_char)
  have d: "list_all (is_digit 16) [hex_upper h, hex_upper l]"
    "digits_val 16 [hex_upper h, hex_upper l] = of_char c"
    using hl hl_sum by (simp_all add: is_digit_def digit_hex_upper digits_val_def)
  have "int h * 16 + int l \<le> LONG_MAX" using hl by (simp add: LONG_MAX_def)
  then have "strtol 16 ([hex_upper h, hex_upper l] @ []) = (of_char c, [])"
    using strtol_digits_end [OF d(1) _ _ no_hex_prefix [OF d(1)], of "[]"] d(2) hl_sum by simp
  then show ?thesis by (simp add: h_def l_def)
qed

lemma decode_percent:
  "decode_loop ctl pl (percent c @ s) = c # decode_loop ctl pl s"
proof -
  have "of_char c div 16 < (16 :: nat)" "of_char c mod 16 < (16 :: nat)"
    by (simp_all add: less_mult_imp_div_less)
  then have "EVUTIL_ISXDIGIT (hex_upper (of_char c div 16))" "EVUTIL_ISXDIGIT (hex_upper (of_char c mod 16))"
    by (simp_all add: isxdigit_is_digit is_digit_def digit_hex_upper)
  moreover have "char_of (nat (of_char c :: int)) = c"
  proof -
    have "nat (of_char c) = (of_char c :: nat)" by (metis nat_int of_nat_of_char)
    then show ?thesis by simp
  qed
  ultimately show ?thesis
    using strtol_percent [of c] by (simp add: percent_def)
qed

definition encode_char :: "bool \<Rightarrow> char \<Rightarrow> string" where
  "encode_char space_as_plus c = (if CHAR_IS_UNRESERVED c then [c]
     else if c = CHR '' '' \<and> space_as_plus then ''+'' else percent c)"

lemma decode_encode:
  assumes "pl \<longleftrightarrow> space_as_plus" "ctl = (if pl then 1 else 0) \<or> \<not> pl"
  shows "decode_loop ctl pl (concat (map (encode_char space_as_plus) s)) = s"
proof (induction s)
  case (Cons c s)
  then show ?case
    using assms unreserved_not [of c] decode_percent [of ctl pl c] by (auto simp: encode_char_def)
qed simp

lemma uriencode_encode_char:
  "evhttp_uriencode s (int (length s)) pl = Some (concat (map (encode_char pl) s))"
  "length (c_str s) < 2 ^ 63 - 1 \<Longrightarrow> evhttp_uriencode s (-1) pl = Some (concat (map (encode_char pl) (c_str s)))"
  by (simp_all add: evhttp_uriencode_def encode_char_def [abs_def] Let_def)


section \<open>The characters of the parts of a URI\<close>

text \<open>A character that stands for itself in every part is none of those that end one.\<close>

abbreviation plain :: "char \<Rightarrow> bool" where
  "plain c \<equiv> CHAR_IS_UNRESERVED c \<or> strchr_in SUBDELIMS c"

definition gen_delims :: "char set" where
  "gen_delims = {CHR ''?'', CHR ''#'', CHR ''/'', CHR ''@'', CHR ''['', CHR '']'', CHR '':'', CHR ''%''}"

lemma plain_not_delim: "plain c \<Longrightarrow> c \<notin> gen_delims"
  by (auto simp: gen_delims_def strchr_in_def SUBDELIMS_def unreserved_iff)

lemma xdigit_not_delim: "EVUTIL_ISXDIGIT c \<Longrightarrow> c \<notin> gen_delims"
  by (auto simp: gen_delims_def isxdigit_is_digit is_digit_16)

definition end_delims :: "char set" where
  "end_delims = {CHR ''?'', CHR ''#'', CHR ''/'', CHR ''@''}"

lemma end_delims_gen: "c \<notin> gen_delims \<Longrightarrow> c \<notin> end_delims"
  by (auto simp: gen_delims_def end_delims_def)

lemma userinfo_ok_chars: "userinfo_ok s \<Longrightarrow> set s \<inter> end_delims = {}"
proof (induction s rule: userinfo_ok.induct)
  case (2 c s)
  have s: "set s \<inter> end_delims = {}"
  proof (cases "CHAR_IS_UNRESERVED c \<or> strchr_in SUBDELIMS c \<or> c = CHR '':''")
    case True
    then show ?thesis using 2 by simp
  next
    case False
    then have h: "2 \<le> length s" "EVUTIL_ISXDIGIT (s ! 0)" "EVUTIL_ISXDIGIT (s ! 1)" "userinfo_ok (drop 2 s)"
      "c = CHR ''%''"
      using 2(3) by (auto split: if_splits)
    then have "set (drop 2 s) \<inter> end_delims = {}" using 2(2) False by simp
    moreover have "s = s ! 0 # s ! 1 # drop 2 s" using h(1) by (cases s; cases "tl s") auto
    ultimately show ?thesis
      using h(2,3) xdigit_not_delim end_delims_gen by (metis Int_insert_left_if0 list.simps(15))
  qed
  have "c \<notin> end_delims"
    using 2(3) plain_not_delim [of c] end_delims_gen [of c] by (auto simp: end_delims_def split: if_splits)
  with s show ?case by simp
qed simp

lemma hex_pair_append:
  assumes "r = [] \<or> \<not> EVUTIL_ISXDIGIT (hd r)"
  shows "hex_pair (s @ r) = hex_pair s"
  using assms by (cases s rule: list.exhaust [case_names Nil Cons]; cases "tl s"; cases r)
    (auto simp: hex_pair_def split: list.splits)

lemma regname_ok_append:
  assumes "r = [] \<or> \<not> EVUTIL_ISXDIGIT (hd r)"
  shows "regname_ok (h @ r) (int (length h)) = regname_ok h (int (length h))"
proof (induction h rule: length_induct)
  case (1 h)
  show ?case
  proof (cases h)
    case Nil
    then show ?thesis by (cases r) auto
  next
    case (Cons c s)
    have p: "hex_pair (s @ r) = hex_pair s" by (rule hex_pair_append [OF assms])
    have i: "regname_ok (s @ r) (int (length s)) = regname_ok s (int (length s))"
      by (rule 1 [rule_format]) (simp add: Cons)
    have e: "regname_ok (drop 2 (s @ r)) (int (length s) - 2) = regname_ok (drop 2 s) (int (length s) - 2)"
      if "hex_pair s"
    proof -
      have l: "2 \<le> length s" using that by (auto simp: hex_pair_def split: list.splits)
      then have d: "int (length s) - 2 = int (length (drop 2 s))" "drop 2 (s @ r) = drop 2 s @ r" by simp_all
      have "length (drop 2 s) < length h" by (simp add: Cons)
      then show ?thesis unfolding d by (rule 1 [rule_format])
    qed
    have n: "int (length (c # s)) - 1 = int (length s)" "int (length (c # s)) - 3 = int (length s) - 2"
      "(int (length (c # s)) \<le> 0) = False"
      by simp_all
    show ?thesis
      unfolding Cons append_Cons regname_ok.simps n p i if_False by (cases "hex_pair s") (simp_all only: e simp_thms if_False)
  qed
qed

lemma regname_ok_chars:
  "regname_ok h (int (length h)) \<Longrightarrow> set h \<inter> (gen_delims - {CHR ''%''}) = {}"
proof (induction h rule: length_induct)
  case (1 h)
  show ?case
  proof (cases h)
    case (Cons c s)
    show ?thesis
    proof (cases "plain c")
      case True
      then show ?thesis using 1 Cons plain_not_delim [of c] by auto
    next
      case False
      then have c: "c = CHR ''%''" "hex_pair s" "regname_ok (drop 2 s) (int (length s) - 2)"
        using 1(2) by (auto simp: Cons split: if_splits)
      then obtain x y z where s: "s = x # y # z" "EVUTIL_ISXDIGIT x" "EVUTIL_ISXDIGIT y"
        by (auto simp: hex_pair_def split: list.splits)
      then have "set z \<inter> (gen_delims - {CHR ''%''}) = {}" using 1(1) c(3) by (simp add: Cons)
      then show ?thesis using s xdigit_not_delim [of x] xdigit_not_delim [of y] c(1) by (auto simp: Cons)
    qed
  qed simp
qed

lemma accepted_char_not_delim: "accepted_char c \<Longrightarrow> c \<notin> end_delims"
  by (auto simp: accepted_char_def end_delims_def is_digit_16 isspace_def)

lemma bracket_addr_ok_chars:
  assumes ok: "bracket_addr_ok h \<noteq> 0" and "CHR 0x00 \<notin> set h"
  shows "set h \<inter> end_delims = {}" "h \<noteq> []" "hd h = CHR ''[''" "last h = CHR '']''" "3 \<le> length h"
proof -
  have b: "3 \<le> length h" "hd h = CHR ''[''" "last h = CHR '']''"
    using ok by (auto simp: bracket_addr_ok_def split: if_splits)
  then show "h \<noteq> []" "hd h = CHR ''[''" "last h = CHR '']''" "3 \<le> length h" by auto
  define m where "m = tl (butlast h)"
  have h: "h = CHR ''['' # m @ [CHR '']'']"
    unfolding m_def using b by (cases h; cases "tl h" rule: rev_cases) auto
  have "set m \<inter> end_delims = {}"
  proof (cases "h ! 1 = CHR ''v''")
    case True
    then have "m \<noteq> [] \<and> hd m = CHR ''v''" using b h by (cases m) auto
    moreover have "ipvfuture_ok (drop 2 (butlast h))"
      using ok True b by (auto simp: bracket_addr_ok_def split: if_splits)
    moreover have "drop 2 (butlast h) = tl m" by (simp add: h drop_Suc numeral_2_eq_2 butlast_append)
    ultimately obtain f where f: "m = CHR ''v'' # f" "ipvfuture_ok f" by (cases m) auto
    define rest where "rest = dropWhile EVUTIL_ISXDIGIT f"
    have r: "rest \<noteq> []" "hd rest = CHR ''.''"
      "list_all (\<lambda>c. CHAR_IS_UNRESERVED c \<or> strchr_in SUBDELIMS c \<or> c = CHR '':'') (tl rest)"
      using f(2) by (simp_all add: ipvfuture_ok_def Let_def rest_def)
    have "\<forall>c \<in> set (takeWhile EVUTIL_ISXDIGIT f). c \<notin> end_delims"
      using xdigit_not_delim end_delims_gen by (auto dest!: set_takeWhileD)
    moreover have "\<forall>c \<in> set rest. c \<notin> end_delims"
      using r plain_not_delim end_delims_gen by (cases rest) (auto simp: list_all_iff end_delims_def)
    moreover have "f = takeWhile EVUTIL_ISXDIGIT f @ rest" by (simp add: rest_def)
    ultimately have "set f \<inter> end_delims = {}" by (metis Un_iff disjoint_iff set_append)
    then show ?thesis using f(1) by (simp add: end_delims_def)
  next
    case False
    have "CHR 0x00 \<notin> set m" using assms(2) h by simp
    then have "c_str m = m" by simp
    then obtain a where "inet6_parse m = Some a"
      using ok False b by (auto simp: bracket_addr_ok_def evutil_inet_pton_def m_def split: if_splits option.splits)
    from inet6_parse_accepted [OF this] show ?thesis
      using accepted_char_not_delim by (auto simp: list_all_iff)
  qed
  then show "set h \<inter> end_delims = {}" by (auto simp: h end_delims_def)
qed

section \<open>Where a part ends\<close>

text \<open>What may follow a part of the URI: nothing, or a character that ends the part.\<close>

definition ends_part :: "uri_part \<Rightarrow> string \<Rightarrow> bool" where
  "ends_part part r \<longleftrightarrow> r = [] \<or>
     (case part of PART_PATH \<Rightarrow> hd r = CHR ''?'' \<or> hd r = CHR ''#'' | PART_QUERY \<Rightarrow> hd r = CHR ''#''
      | PART_FRAGMENT \<Rightarrow> False)"

lemma hex_not_end: "ends_part part r \<Longrightarrow> r = [] \<or> \<not> EVUTIL_ISXDIGIT (hd r)"
  by (auto simp: ends_part_def isxdigit_is_digit is_digit_16 split: uri_part.splits)

lemma conformant_end_stops: "ends_part part r \<Longrightarrow> conformant_end r part = 0"
proof (cases r)
  case (Cons c s)
  assume "ends_part part r"
  then have c: "c = CHR ''?'' \<and> part = PART_PATH \<or> c = CHR ''#''"
    by (auto simp: ends_part_def Cons split: uri_part.splits)
  then have "\<not> plain c" using plain_not_delim [of c] by (auto simp: gen_delims_def)
  then show ?thesis using c by (auto simp: Cons)
qed simp

lemma conformant_end_append:
  assumes "ends_part part r" "conformant_end p part = length p"
  shows "conformant_end (p @ r) part = length p"
  using assms
proof (induction p part rule: conformant_end.induct)
  case (1 part)
  then show ?case using conformant_end_stops by simp
next
  case (2 c s part)
  have h: "hex_pair (s @ r) = hex_pair s" by (rule hex_pair_append) (rule hex_not_end [OF 2(4)])
  have d: "drop 2 (s @ r) = drop 2 s @ r" if "hex_pair s"
    using that by (auto simp: hex_pair_def split: list.splits)
  show ?case using 2 h d by (auto split: if_split_asm)
qed

lemma conformant_end_le: "conformant_end s part \<le> length s"
proof (induction s part rule: conformant_end.induct)
  case (2 c s part)
  then show ?case by (auto simp: hex_pair_def split: list.splits)
qed simp

lemma conformant_end_take: "conformant_end (take (conformant_end s part) s) part = conformant_end s part"
proof (induction s part rule: conformant_end.induct)
  case (2 c s part)
  show ?case
  proof (cases "plain c \<or> c = CHR '':'' \<or> c = CHR ''@'' \<or> c = CHR ''/''")
    case True
    then show ?thesis using 2(1) by simp
  next
    case False
    show ?thesis
    proof (cases "c = CHR ''%'' \<and> hex_pair s")
      case True
      then obtain x y z where s: "s = x # y # z" "EVUTIL_ISXDIGIT x" "EVUTIL_ISXDIGIT y"
        by (auto simp: hex_pair_def split: list.splits)
      moreover have "conformant_end (take (conformant_end (drop 2 s) part) (drop 2 s)) part = conformant_end (drop 2 s) part"
        by (rule 2(2)) (use False True in simp_all)
      ultimately show ?thesis using False True by (simp add: hex_pair_def numeral_3_eq_3)
    next
      case no: False
      moreover have "conformant_end (take (conformant_end s part) s) part = conformant_end s part"
        if "c = CHR ''?'' \<and> part \<noteq> PART_PATH"
        by (rule 2(3)) (use False no that in simp_all)
      ultimately show ?thesis using False by auto
    qed
  qed
qed simp

lemma end_of_path_le: "end_of_path s part flags \<le> length s"
  by (auto simp: end_of_path_def conformant_end_le length_takeWhile_le split: uri_part.splits)

lemma end_of_path_take: "end_of_path (take (end_of_path s part flags) s) part flags = end_of_path s part flags"
proof -
  have t: "length (takeWhile P (take (length (takeWhile P s)) s)) = length (takeWhile P s)" for P :: "char \<Rightarrow> bool"
    using takeWhile_eq_take [of P s] by (metis length_takeWhile_le set_takeWhileD takeWhile_eq_all_conv)
  show ?thesis
    by (cases part) (simp_all add: end_of_path_def conformant_end_take t)
qed

lemma end_of_path_append:
  assumes "ends_part part r" "end_of_path p part flags = length p"
  shows "end_of_path (p @ r) part flags = length p"
proof (cases "nonconformant flags")
  case True
  have t: "length (takeWhile P (p @ r)) = length p" if "length (takeWhile P p) = length p" "r = [] \<or> \<not> P (hd r)"
    for P :: "char \<Rightarrow> bool"
  proof -
    have "takeWhile P p = p" using that(1) by (metis takeWhile_eq_take take_all order_refl)
    then have "\<forall>c \<in> set p. P c" by (simp add: takeWhile_eq_all_conv)
    then show ?thesis using that by (cases r) (auto simp: takeWhile_append2)
  qed
  show ?thesis
  proof (cases part)
    case PART_PATH
    then show ?thesis
      using t [of "\<lambda>c. c \<noteq> CHR ''#'' \<and> c \<noteq> CHR ''?''"] assms True by (auto simp: end_of_path_def ends_part_def)
  next
    case PART_QUERY
    then show ?thesis using t [of "\<lambda>c. c \<noteq> CHR ''#''"] assms True by (auto simp: end_of_path_def ends_part_def)
  next
    case PART_FRAGMENT
    then show ?thesis using assms(1) True by (auto simp: end_of_path_def ends_part_def)
  qed
next
  case False
  then show ?thesis using conformant_end_append assms by (simp add: end_of_path_def)
qed

text \<open>The remainder after a part begins with a character that ends it, where the rest is a query and a fragment.\<close>

definition complete :: "uri_part \<Rightarrow> nat \<Rightarrow> string \<Rightarrow> bool" where
  "complete part flags s \<longleftrightarrow> end_of_path s part flags = length s"

lemma complete_take: "complete part flags (take (end_of_path s part flags) s)"
  using end_of_path_take [of s part flags] end_of_path_le [of s part flags] by (simp add: complete_def)

lemma parse_part_Some:
  assumes "complete part flags q" "ends_part part r"
  shows "parse_part c part flags (c # q @ r) = (Some q, r)"
  using end_of_path_append [of part r q flags] assms by (simp add: parse_part_def complete_def)

lemma parse_part_None:
  assumes "r = [] \<or> hd r \<noteq> c"
  shows "parse_part c part flags r = (None, r)"
  using assms by (auto simp: parse_part_def)

section \<open>The authority\<close>

lemma host_ok_rest:
  assumes "r = [] \<or> \<not> EVUTIL_ISXDIGIT (hd r)"
  shows "host_ok h r = host_ok h []"
  using regname_ok_append [OF assms, of h] by (simp add: host_ok_def)

lemma host_ok_chars:
  assumes "host_ok h []" "CHR 0x00 \<notin> set h"
  shows "set h \<inter> end_delims = {}" "CHR '':'' \<notin> set h \<or> last h = CHR '']'' \<and> h \<noteq> []"
proof -
  let ?bracket = "h \<noteq> [] \<and> hd h = CHR ''['' \<and> 2 \<le> length h \<and> last h = CHR '']''"
  have r: "set h \<inter> (gen_delims - {CHR ''%''}) = {}" if "\<not> ?bracket"
  proof -
    have "regname_ok h (int (length h))" using assms(1) unfolding host_ok_def if_not_P [OF that] by simp
    then show ?thesis by (rule regname_ok_chars)
  qed
  have b: "set h \<inter> end_delims = {}" if ?bracket
    using assms bracket_addr_ok_chars(1) [of h] unfolding host_ok_def if_P [OF that] by simp
  have d: "end_delims \<subseteq> gen_delims - {CHR ''%''}" "CHR '':'' \<in> gen_delims - {CHR ''%''}"
    by (simp_all add: gen_delims_def end_delims_def)
  show "set h \<inter> end_delims = {}"
    using r b d(1) by (cases ?bracket) blast+
  show "CHR '':'' \<notin> set h \<or> last h = CHR '']'' \<and> h \<noteq> []"
    using r d(2) by (cases ?bracket) blast+
qed

lemma split_host_port:
  assumes "list_all EVUTIL_ISDIGIT ds"
  shows "split_host (h @ CHR '':'' # ds) = (h, CHR '':'' # ds)"
proof -
  have "takeWhile EVUTIL_ISDIGIT (rev ds @ CHR '':'' # rev h) = rev ds"
    using takeWhile_digits(1) [of EVUTIL_ISDIGIT "rev ds" "CHR '':'' # rev h"] assms
    by (simp add: isdigit_is_digit is_digit_10 list_all_iff)
  then show ?thesis by (simp add: split_host_def Let_def nth_append)
qed

lemma split_host_none:
  assumes "CHR '':'' \<notin> set h \<or> last h = CHR '']'' \<and> h \<noteq> []"
  shows "split_host h = (h, [])"
proof -
  define n where "n = length h - length (takeWhile EVUTIL_ISDIGIT (rev h))"
  have "\<not> (0 < n \<and> h ! (n - 1) = CHR '':'')"
  proof (cases "CHR '':'' \<in> set h")
    case True
    with assms obtain g where h: "h = g @ [CHR '']'']" by (cases h rule: rev_cases) auto
    then show ?thesis by (simp add: n_def isdigit_is_digit is_digit_10)
  next
    case False
    have "n \<le> length h" by (simp add: n_def)
    with False show ?thesis by (metis Suc_pred' Suc_le_eq nth_mem)
  qed
  then show ?thesis unfolding split_host_def n_def [symmetric] Let_def by auto
qed

lemma digit_char_val: "EVUTIL_ISDIGIT c \<Longrightarrow> int (of_char c) - 48 = int (digit_val c)"
  by (auto simp: isdigit_is_digit is_digit_10 digit_val_def)

lemma foldl_digits_le:
  "0 \<le> v \<Longrightarrow> (v :: int) \<le> foldl (\<lambda>n c. n * 10 + int (digit_val c)) v ds"
proof (induction ds arbitrary: v)
  case (Cons d ds)
  have "v \<le> v * 10 + int (digit_val d)" using Cons.prems by simp
  also have "\<dots> \<le> foldl (\<lambda>n c. n * 10 + int (digit_val c)) (v * 10 + int (digit_val d)) ds"
    using Cons.prems by (intro Cons.IH) simp
  finally show ?case by simp
qed simp

lemma parse_port_digits:
  assumes "list_all EVUTIL_ISDIGIT ds" "0 \<le> v" "foldl (\<lambda>n c. n * 10 + int (digit_val c)) v ds \<le> 65535"
  shows "parse_port v ds = foldl (\<lambda>n c. n * 10 + int (digit_val c)) v ds"
  using assms
proof (induction ds arbitrary: v)
  case (Cons d ds)
  have "v * 10 + int (digit_val d) \<le> 65535"
    using Cons.prems foldl_digits_le [of "v * 10 + int (digit_val d)" ds] by simp
  then show ?case using Cons digit_char_val [of d] by (simp add: Let_def)
qed simp

lemma parse_port_le: "v \<le> 65535 \<Longrightarrow> parse_port v s \<le> 65535"
  by (induction v s rule: parse_port.induct) (auto simp: Let_def)

lemma dec_isdigit: "list_all EVUTIL_ISDIGIT (show_dec n)"
  using show_dec_digits [of n] by (auto simp: list_all_iff isdigit_is_digit)

lemma parse_port_dec: "n \<le> 65535 \<Longrightarrow> parse_port 0 (show_dec n) = int n"
  using parse_port_digits [OF dec_isdigit, of 0 n] show_dec_digits [of n] by (simp add: digits_val_def)

definition port_part :: "int \<Rightarrow> string" where
  "port_part p = (if p \<ge> 0 then CHR '':'' # show_int p else [])"

definition authority_text :: "string option \<Rightarrow> string \<Rightarrow> int \<Rightarrow> string" where
  "authority_text info h p = opt_text [] info ''@'' @ h @ port_part p"

lemma port_part_chars: "set (port_part p) \<inter> end_delims = {}"
  using show_dec_digits [of "nat p"]
  by (auto simp: port_part_def show_int_def end_delims_def list_all_iff is_digit_10)

lemma authority_text_chars:
  assumes "host_ok h []" "CHR 0x00 \<notin> set h" "case info of None \<Rightarrow> True | Some s \<Rightarrow> userinfo_ok s"
  shows "set (authority_text info h p) \<inter> {CHR ''?'', CHR ''#'', CHR ''/''} = {}"
  using host_ok_chars(1) [OF assms(1,2)] port_part_chars [of p] assms(3) userinfo_ok_chars
  by (fastforce simp: authority_text_def opt_text_def end_delims_def split: option.splits)

lemma split_userinfo_text:
  assumes "case info of None \<Rightarrow> True | Some s \<Rightarrow> userinfo_ok s" "CHR ''@'' \<notin> set hp"
  shows "split_userinfo (opt_text [] info ''@'' @ hp) = (info, hp)"
proof (cases info)
  case None
  then show ?thesis using assms by (simp add: split_userinfo_def opt_text_def)
next
  case (Some s)
  then have "\<forall>c \<in> set s. c \<noteq> CHR ''@''" using assms userinfo_ok_chars [of s] by (auto simp: end_delims_def)
  from takeWhile_eq_prefix [OF this, of "CHR ''@''" hp] dropWhile_eq_suffix [OF this, of "CHR ''@''" hp]
  show ?thesis by (simp add: Some split_userinfo_def opt_text_def)
qed

lemma split_host_text:
  assumes "host_ok h []" "CHR 0x00 \<notin> set h"
  shows "split_host (h @ port_part p) = (h, port_part p)"
  using split_host_port [OF dec_isdigit, of h] split_host_none [OF host_ok_chars(2) [OF assms]]
  by (simp add: port_part_def show_int_def)

lemma parse_authority_text:
  assumes h: "host_ok h []" "CHR 0x00 \<notin> set h" and i: "case info of None \<Rightarrow> True | Some s \<Rightarrow> userinfo_ok s"
    and p: "-1 \<le> p" "p \<le> 65535" and r: "r = [] \<or> hd r \<in> {CHR ''?'', CHR ''#'', CHR ''/''}"
    and u: "userinfo u = None" "port u = -1"
  shows "parse_authority u (authority_text info h p @ r) (length (authority_text info h p)) =
    Some (u\<lparr>userinfo := info, port := p, host := Some h\<rparr>)"
proof (cases "authority_text info h p = []")
  case True
  then have "info = None" "h = []" "p = -1"
    using p by (auto simp: authority_text_def opt_text_def port_part_def split: option.splits if_splits)
  then show ?thesis using True u by (simp add: parse_authority_def)
next
  case False
  define portnum where "portnum = (if length (port_part p) \<le> 1 then -1 else parse_port 0 (tl (port_part p)))"
  have pn: "portnum = p" "port_part p = [] \<longleftrightarrow> p = -1" "1 < length (port_part p) \<longleftrightarrow> 0 \<le> p"
    using p parse_port_dec [of "nat p"] show_dec_digits [of "nat p"]
    by (auto simp: portnum_def port_part_def show_int_def not_le)
  have "CHR ''@'' \<notin> set (h @ port_part p)"
    using host_ok_chars(1) [OF h] port_part_chars [of p] by (auto simp: end_delims_def)
  then have s: "split_userinfo (authority_text info h p) = (info, h @ port_part p)"
    unfolding authority_text_def using split_userinfo_text [OF i] by simp
  have "port_part p @ r = [] \<or> \<not> EVUTIL_ISXDIGIT (hd (port_part p @ r))"
    using r by (auto simp: port_part_def isxdigit_is_digit is_digit_16)
  from host_ok_rest [OF this] h have k: "host_ok h (port_part p @ r)" by simp
  have i': "(info \<noteq> None \<and> \<not> userinfo_ok (the info)) = False" using i by (cases info) auto
  have f: "(if port_part p = [] then u\<lparr>userinfo := info\<rparr> else u\<lparr>userinfo := info, port := p\<rparr>) =
      u\<lparr>userinfo := info, port := p\<rparr>"
    using u pn(2) by (cases u) auto
  have l: "(1 < length (port_part p) \<and> p < 0) = False" using pn(3) by auto
  have n: "length (authority_text info h p) \<noteq> 0" using False by simp
  have t: "take (length (authority_text info h p)) (authority_text info h p @ r) = authority_text info h p"
    "drop (length (authority_text info h p)) (authority_text info h p @ r) = r"
    by simp_all
  have g: "(if info = None then u else u\<lparr>userinfo := info\<rparr>) = u\<lparr>userinfo := info\<rparr>"
    using u by (cases u) auto
  show ?thesis
    unfolding parse_authority_def if_not_P [OF n] t s Let_def prod.case split_host_text [OF h]
      portnum_def [symmetric] pn(1) g f i' l if_False
    using k by simp
qed

section \<open>A whole URI\<close>

text \<open>What the parser makes: parts that are valid each, and together.\<close>

definition uri_wf :: "evhttp_uri \<Rightarrow> bool" where
  "uri_wf u \<longleftrightarrow>
     (case scheme u of None \<Rightarrow> True | Some s \<Rightarrow> scheme_ok s) \<and>
     (case host u of
        None \<Rightarrow> userinfo u = None \<and> port u = -1
      | Some h \<Rightarrow> host_ok h [] \<and> CHR 0x00 \<notin> set h \<and> -1 \<le> port u \<and> port u \<le> 65535 \<and>
          (case userinfo u of None \<Rightarrow> True | Some s \<Rightarrow> userinfo_ok s)) \<and>
     (case path u of
        None \<Rightarrow> False
      | Some p \<Rightarrow> complete PART_PATH (uri_flags u) p \<and>
          (if host u = None then \<not> slashes p else p = [] \<or> hd p = CHR ''/'') \<and>
          (scheme u = None \<longrightarrow> path_matches_noscheme p)) \<and>
     (case query u of None \<Rightarrow> True | Some q \<Rightarrow> complete PART_QUERY (uri_flags u) q) \<and>
     (case fragment u of None \<Rightarrow> True | Some f \<Rightarrow> complete PART_FRAGMENT (uri_flags u) f)"

lemma scheme_ok_chars: "scheme_ok s \<Longrightarrow> set s \<inter> {CHR '':'', CHR ''/'', CHR ''?'', CHR ''#''} = {}"
  by (cases s) (auto simp: scheme_ok_def list_all_iff isalnum_iff isalpha_range isdigit_is_digit is_digit_10)

lemma parse_scheme_Some:
  assumes "scheme_ok s"
  shows "parse_scheme (s @ CHR '':'' # r) = (Some s, r)"
proof -
  have "\<forall>c \<in> set s. c \<noteq> CHR '':''" using scheme_ok_chars [OF assms] by auto
  from takeWhile_eq_prefix [OF this, of "CHR '':''" r] dropWhile_eq_suffix [OF this, of "CHR '':''" r] assms
  show ?thesis by (simp add: parse_scheme_def)
qed

lemma noscheme_token:
  assumes "path_matches_noscheme p" "ends_part PART_PATH r" "CHR '':'' \<in> set (p @ r)"
  shows "\<exists>c \<in> set (takeWhile (\<lambda>c. c \<noteq> CHR '':'') (p @ r)). c \<in> {CHR ''/'', CHR ''?'', CHR ''#''}"
  using assms
proof (induction p)
  case Nil
  then show ?case by (cases r) (auto simp: ends_part_def)
next
  case (Cons c p)
  then show ?case by (cases "c = CHR ''/''") (auto split: if_split_asm)
qed

lemma parse_scheme_None:
  assumes "path_matches_noscheme p" "ends_part PART_PATH r"
  shows "parse_scheme (p @ r) = (None, p @ r)"
proof -
  have "\<not> scheme_ok (takeWhile (\<lambda>c. c \<noteq> CHR '':'') (p @ r))" if "CHR '':'' \<in> set (p @ r)"
    using noscheme_token [OF assms that] scheme_ok_chars [of "takeWhile (\<lambda>c. c \<noteq> CHR '':'') (p @ r)"] by blast
  then show ?thesis by (auto simp: parse_scheme_def Let_def)
qed

lemma parse_scheme_slashes: "parse_scheme (''//'' @ r) = (None, ''//'' @ r)"
  by (auto simp: parse_scheme_def scheme_ok_def isalpha_range)

lemma end_of_authority_text:
  assumes "set s \<inter> {CHR ''?'', CHR ''#'', CHR ''/''} = {}" "r = [] \<or> hd r \<in> {CHR ''?'', CHR ''#'', CHR ''/''}"
  shows "end_of_authority (s @ r) = length s"
proof -
  have "list_all (\<lambda>c. \<not> (c = CHR ''?'' \<or> c = CHR ''#'' \<or> c = CHR ''/'')) s"
    using assms(1) by (auto simp: list_all_iff)
  from takeWhile_digits(1) [OF this, of r] assms(2) show ?thesis
    by (auto simp: end_of_authority_def)
qed

text \<open>The path, the query and the fragment.\<close>

definition tail_text :: "evhttp_uri \<Rightarrow> string" where
  "tail_text u = opt_text ''?'' (query u) [] @ opt_text ''#'' (fragment u) []"

lemma tail_text_ends: "ends_part PART_PATH (tail_text u)"
  by (auto simp: tail_text_def ends_part_def opt_text_def split: option.splits)

lemma parse_tail:
  assumes "uri_wf u"
  obtains r where "parse_part (CHR ''?'') PART_QUERY (uri_flags u) (tail_text u) = (query u, r)"
    "parse_part (CHR ''#'') PART_FRAGMENT (uri_flags u) r = (fragment u, [])"
proof -
  define r where "r = opt_text ''#'' (fragment u) []"
  have q: "complete PART_QUERY (uri_flags u) s" if "query u = Some s" for s
    using assms that by (simp add: uri_wf_def)
  have f: "complete PART_FRAGMENT (uri_flags u) s" if "fragment u = Some s" for s
    using assms that by (simp add: uri_wf_def)
  have e: "ends_part PART_QUERY r" by (auto simp: r_def ends_part_def opt_text_def split: option.splits)
  have "parse_part (CHR ''?'') PART_QUERY (uri_flags u) (tail_text u) = (query u, r)"
  proof (cases "query u")
    case None
    have "r = [] \<or> hd r \<noteq> CHR ''?''" by (auto simp: r_def opt_text_def split: option.splits)
    then show ?thesis using parse_part_None None by (simp add: tail_text_def opt_text_def r_def)
  next
    case (Some s)
    then show ?thesis using parse_part_Some [OF q [OF Some] e] by (simp add: tail_text_def opt_text_def r_def)
  qed
  moreover have "parse_part (CHR ''#'') PART_FRAGMENT (uri_flags u) r = (fragment u, [])"
  proof (cases "fragment u")
    case None
    then show ?thesis by (simp add: r_def opt_text_def parse_part_None)
  next
    case (Some s)
    then show ?thesis using parse_part_Some [OF f [OF Some], of "[]"] by (simp add: r_def opt_text_def ends_part_def)
  qed
  ultimately show thesis by (rule that)
qed

lemma uri_text_split:
  "uri_text u = opt_text [] (scheme u) '':'' @
     (case host u of None \<Rightarrow> [] | Some h \<Rightarrow> ''//'' @ authority_text (userinfo u) h (port u)) @
     opt_text [] (path u) [] @ tail_text u"
  by (simp add: uri_text_def authority_text_def port_part_def tail_text_def split: option.split)

lemma slashes_append:
  assumes "\<not> slashes p" "ends_part PART_PATH r"
  shows "\<not> slashes (p @ r)"
  using assms by (cases p; cases "tl p"; cases r; cases "tl r") (auto simp: slashes_def ends_part_def)

text \<open>A URI of valid parts, put together and parsed.\<close>

lemma parse_uri_text:
  assumes wf: "uri_wf u"
  shows "evhttp_uri_parse_with_flags (uri_text u) (uri_flags u) = Some u"
proof -
  obtain p where p: "path u = Some p" using wf by (cases "path u") (auto simp: uri_wf_def)
  define q where "q = tail_text u"
  define auth where "auth = (case host u of None \<Rightarrow> [] | Some h \<Rightarrow> authority_text (userinfo u) h (port u))"
  define rest where "rest = (if host u = None then [] else ''//'' @ auth) @ p @ q"
  have whole: "uri_text u = opt_text [] (scheme u) '':'' @ rest"
    by (cases "host u") (simp_all add: uri_text_split rest_def auth_def q_def p opt_text_def)
  have q: "ends_part PART_PATH q" unfolding q_def by (rule tail_text_ends)
  have pc: "complete PART_PATH (uri_flags u) p" "scheme u = None \<Longrightarrow> path_matches_noscheme p"
    "host u = None \<Longrightarrow> \<not> slashes p" "host u \<noteq> None \<Longrightarrow> p = [] \<or> hd p = CHR ''/''"
    using wf p by (auto simp: uri_wf_def split: if_splits)
  have sch: "parse_scheme (uri_text u) = (scheme u, rest)"
  proof (cases "scheme u")
    case None
    show ?thesis
    proof (cases "host u")
      case h: None
      then show ?thesis using parse_scheme_None [OF pc(2) [OF None] q] by (simp add: whole None rest_def opt_text_def)
    next
      case (Some h)
      then show ?thesis using parse_scheme_slashes [of "auth @ p @ q"] by (simp add: whole None rest_def opt_text_def)
    qed
  next
    case (Some s)
    then have "scheme_ok s" using wf by (simp add: uri_wf_def)
    then show ?thesis using parse_scheme_Some by (simp add: whole Some opt_text_def)
  qed
  have got: "slashes rest \<longleftrightarrow> host u \<noteq> None"
    using slashes_append [OF pc(3) q] by (cases "host u") (simp_all add: rest_def slashes_def)
  have pq: "p @ q = [] \<or> hd (p @ q) \<in> {CHR ''?'', CHR ''#'', CHR ''/''}" if "host u \<noteq> None"
    using pc(4) [OF that] q by (cases p) (auto simp: ends_part_def)
  define u0 where "u0 = evhttp_uri_new\<lparr>uri_flags := uri_flags u, scheme := scheme u\<rparr>"
  define n where "n = end_of_authority (drop 2 rest)"
  define u1 where "u1 = u0\<lparr>userinfo := userinfo u, port := port u, host := host u\<rparr>"
  have u0: "userinfo u0 = None" "port u0 = -1" by (simp_all add: u0_def evhttp_uri_new_def)
  have auth: "(if slashes rest then parse_authority u0 (drop 2 rest) n else Some u0) = Some u1 \<and>
      (if slashes rest then drop n (drop 2 rest) else rest) = p @ q"
  proof (cases "host u")
    case None
    then have "userinfo u = None" "port u = -1" using wf by (simp_all add: uri_wf_def)
    then have "u1 = u0" using None by (simp add: u1_def u0_def evhttp_uri_new_def)
    then show ?thesis using got None by (simp add: rest_def)
  next
    case (Some h)
    then have h: "host_ok h []" "CHR 0x00 \<notin> set h" "-1 \<le> port u" "port u \<le> 65535"
      "case userinfo u of None \<Rightarrow> True | Some s \<Rightarrow> userinfo_ok s"
      using wf by (simp_all add: uri_wf_def)
    have d: "drop 2 rest = authority_text (userinfo u) h (port u) @ p @ q" by (simp add: rest_def Some auth_def)
    have r: "p @ q = [] \<or> hd (p @ q) \<in> {CHR ''?'', CHR ''#'', CHR ''/''}" using pq Some by simp
    have n: "n = length (authority_text (userinfo u) h (port u))"
      unfolding n_def d by (rule end_of_authority_text [OF authority_text_chars [OF h(1,2,5)] r])
    show ?thesis
      using parse_authority_text [OF h(1,2,5,3,4) r u0] got Some by (simp add: d n u1_def)
  qed
  have m: "end_of_path (p @ q) PART_PATH (uri_flags u) = length p"
    using end_of_path_append [OF q] pc(1) by (simp add: complete_def)
  obtain r where r: "parse_part (CHR ''?'') PART_QUERY (uri_flags u) q = (query u, r)"
    "parse_part (CHR ''#'') PART_FRAGMENT (uri_flags u) r = (fragment u, [])"
    unfolding q_def using parse_tail [OF wf] .
  have c: "(\<not> slashes rest \<and> slashes p) = False" "(slashes rest \<and> p \<noteq> [] \<and> hd p \<noteq> CHR ''/'') = False"
    "(scheme u = None \<and> \<not> path_matches_noscheme p) = False"
    using got pc by auto
  have "u1\<lparr>path := Some p, query := query u, fragment := fragment u\<rparr> = u"
    using p by (cases u) (simp add: u1_def u0_def evhttp_uri_new_def)
  then show ?thesis
    unfolding evhttp_uri_parse_with_flags_def sch Let_def prod.case u0_def [symmetric] n_def [symmetric]
      auth [THEN conjunct1] auth [THEN conjunct2] option.case m
    by (simp add: r c)
qed

section \<open>What the parser makes is valid\<close>

lemma set_tl_dropWhile: "set (tl (dropWhile P s)) \<subseteq> set s"
proof
  fix x assume "x \<in> set (tl (dropWhile P s))"
  then have "x \<in> set (dropWhile P s)" by (cases "dropWhile P s") auto
  then show "x \<in> set s" by (rule set_dropWhileD)
qed

lemma split_userinfo_set: "split_userinfo s = (info, hp) \<Longrightarrow> set hp \<subseteq> set s"
proof (cases "CHR ''@'' \<in> set s")
  case True
  assume "split_userinfo s = (info, hp)"
  with True have "hp = tl (dropWhile (\<lambda>c. c \<noteq> CHR ''@'') s)" by (simp add: split_userinfo_def)
  then show ?thesis by (simp add: set_tl_dropWhile)
qed (simp add: split_userinfo_def)

lemma split_host_parts:
  assumes "split_host hp = (h, p)"
  shows "hp = h @ p" "p = [] \<or> hd p = CHR '':''"
proof -
  define n where "n = length hp - length (takeWhile EVUTIL_ISDIGIT (rev hp))"
  have s: "split_host hp = (if 0 < n \<and> hp ! (n - 1) = CHR '':'' then (take (n - 1) hp, drop (n - 1) hp) else (hp, []))"
    unfolding split_host_def n_def [symmetric] Let_def ..
  show "hp = h @ p" using assms s by (auto split: if_splits)
  have "n \<le> length hp" by (simp add: n_def)
  then show "p = [] \<or> hd p = CHR '':''" using assms s by (auto simp: hd_drop_conv_nth split: if_splits)
qed

lemma parse_authority_valid:
  assumes parsed: "parse_authority u0 (drop 2 s) n = Some u1" and n: "n = end_of_authority (drop 2 s)"
    and s: "CHR 0x00 \<notin> set s" and u0: "userinfo u0 = None" "port u0 = -1"
  obtains i p h where "u1 = u0\<lparr>userinfo := i, port := p, host := Some h\<rparr>" "host_ok h []" "CHR 0x00 \<notin> set h"
    "-1 \<le> p" "p \<le> 65535" "case i of None \<Rightarrow> True | Some x \<Rightarrow> userinfo_ok x"
proof (cases "n = 0")
  case True
  have "u1 = u0\<lparr>userinfo := None, port := -1, host := Some []\<rparr>"
    using parsed True u0 by (cases u0) (simp add: parse_authority_def)
  moreover have "host_ok [] []" by (simp add: host_ok_def)
  ultimately show thesis using that by fastforce
next
  case False
  obtain i hp where i: "split_userinfo (take n (drop 2 s)) = (i, hp)" by fastforce
  obtain h p where h: "split_host hp = (h, p)" by fastforce
  define portnum where "portnum = (if length p \<le> 1 then -1 else parse_port 0 (tl p))"
  define rest where "rest = p @ drop n (drop 2 s)"
  have r: "\<not> (i \<noteq> None \<and> \<not> userinfo_ok (the i))" "\<not> (1 < length p \<and> portnum < 0)" "host_ok h rest"
    "u1 = (if p = [] then (if i = None then u0 else u0\<lparr>userinfo := i\<rparr>)
      else (if i = None then u0 else u0\<lparr>userinfo := i\<rparr>)\<lparr>port := portnum\<rparr>)\<lparr>host := Some h\<rparr>"
    using parsed False i h unfolding parse_authority_def Let_def portnum_def [symmetric]
    by (auto simp: rest_def portnum_def split: if_split_asm)
  have "drop n (drop 2 s) = [] \<or> hd (drop n (drop 2 s)) \<in> {CHR ''?'', CHR ''#'', CHR ''/''}"
  proof -
    define P where "P = (\<lambda>c. \<not> (c = CHR ''?'' \<or> c = CHR ''#'' \<or> c = CHR ''/''))"
    have "drop n (drop 2 s) = dropWhile P (drop 2 s)"
      unfolding n end_of_authority_def P_def [symmetric] by (rule dropWhile_eq_drop [symmetric])
    then show ?thesis using hd_dropWhile [of P "drop 2 s"] by (auto simp: P_def)
  qed
  then have "rest = [] \<or> \<not> EVUTIL_ISXDIGIT (hd rest)"
    using split_host_parts(2) [OF h] by (cases p) (auto simp: rest_def isxdigit_is_digit is_digit_16)
  from host_ok_rest [OF this] r(3) have ok: "host_ok h []" by simp
  have "set h \<subseteq> set s"
    using split_host_parts(1) [OF h] split_userinfo_set [OF i] by (auto dest!: subsetD dest: in_set_takeD in_set_dropD)
  with s have nul: "CHR 0x00 \<notin> set h" by auto
  define q where "q = (if p = [] then -1 else portnum)"
  have q: "-1 \<le> q" "q \<le> 65535"
    using r(2) parse_port_le [of 0 "tl p"] by (auto simp: q_def portnum_def not_less)
  have "u1 = u0\<lparr>userinfo := i, port := q, host := Some h\<rparr>"
    using r(4) u0 by (cases u0; cases i) (auto simp: q_def)
  moreover have "case i of None \<Rightarrow> True | Some x \<Rightarrow> userinfo_ok x" using r(1) by (cases i) auto
  ultimately show thesis using that ok nul q by blast
qed

lemma parse_part_complete:
  "parse_part c part flags r = (Some q, r') \<Longrightarrow> complete part flags q"
  by (auto simp: parse_part_def Let_def complete_take split: if_splits)

lemma parse_valid:
  assumes parsed: "evhttp_uri_parse_with_flags s flags = Some u" and s: "CHR 0x00 \<notin> set s"
  shows "uri_wf u" "uri_flags u = flags"
proof -
  obtain sch readp where sch: "parse_scheme s = (sch, readp)" by fastforce
  define u0 where "u0 = evhttp_uri_new\<lparr>uri_flags := flags, scheme := sch\<rparr>"
  define n where "n = end_of_authority (drop 2 readp)"
  define got where "got = slashes readp"
  define readp2 where "readp2 = (if got then drop n (drop 2 readp) else readp)"
  define m where "m = end_of_path readp2 PART_PATH flags"
  define pth where "pth = take m readp2"
  obtain qry r1 where q: "parse_part (CHR ''?'') PART_QUERY flags (drop m readp2) = (qry, r1)" by fastforce
  obtain frag r2 where f: "parse_part (CHR ''#'') PART_FRAGMENT flags r1 = (frag, r2)" by fastforce
  obtain u1 where u1: "(if got then parse_authority u0 (drop 2 readp) n else Some u0) = Some u1"
    and rest: "\<not> (\<not> got \<and> slashes pth)" "\<not> (got \<and> pth \<noteq> [] \<and> hd pth \<noteq> CHR ''/'')"
      "\<not> (sch = None \<and> \<not> path_matches_noscheme pth)" "u = u1\<lparr>path := Some pth, query := qry, fragment := frag\<rparr>"
    using parsed unfolding evhttp_uri_parse_with_flags_def sch Let_def prod.case u0_def [symmetric]
      n_def [symmetric] got_def [symmetric] readp2_def [symmetric] m_def [symmetric] pth_def [symmetric] q f
    by (auto split: option.split_asm if_split_asm)
  have sok: "case sch of None \<Rightarrow> True | Some x \<Rightarrow> scheme_ok x"
    using sch by (auto simp: parse_scheme_def Let_def split: if_splits)
  have nul: "CHR 0x00 \<notin> set readp"
    using sch s set_tl_dropWhile [of "\<lambda>c. c \<noteq> CHR '':''" s]
    by (auto simp: parse_scheme_def Let_def split: if_splits)
  have c: "complete PART_PATH flags pth" "case qry of None \<Rightarrow> True | Some x \<Rightarrow> complete PART_QUERY flags x"
    "case frag of None \<Rightarrow> True | Some x \<Rightarrow> complete PART_FRAGMENT flags x"
    using parse_part_complete q f by (auto simp: pth_def m_def complete_take split: option.split)
  have u0: "userinfo u0 = None" "port u0 = -1" "host u0 = None" "scheme u0 = sch" "uri_flags u0 = flags"
    by (simp_all add: u0_def evhttp_uri_new_def)
  have "uri_wf u \<and> uri_flags u = flags"
  proof (cases got)
    case True
    then have "parse_authority u0 (drop 2 readp) n = Some u1" using u1 by simp
    then obtain i p h where
      "u1 = u0\<lparr>userinfo := i, port := p, host := Some h\<rparr>" "host_ok h []" "CHR 0x00 \<notin> set h"
      "-1 \<le> p" "p \<le> 65535" "case i of None \<Rightarrow> True | Some x \<Rightarrow> userinfo_ok x"
      by (rule parse_authority_valid [OF _ n_def nul u0(1,2)])
    moreover from this have e: "scheme u = sch" "host u = Some h" "userinfo u = i" "port u = p" "path u = Some pth"
      "query u = qry" "fragment u = frag" "uri_flags u = flags"
      using rest(4) u0 by simp_all
    ultimately show ?thesis
      unfolding uri_wf_def e option.case using rest(1-3) c sok True by auto
  next
    case False
    then have e: "scheme u = sch" "host u = None" "userinfo u = None" "port u = -1" "path u = Some pth"
      "query u = qry" "fragment u = frag" "uri_flags u = flags"
      using rest(4) u0 u1 by simp_all
    show ?thesis
      unfolding uri_wf_def e option.case using rest(1-3) c sok False by auto
  qed
  then show "uri_wf u" "uri_flags u = flags" by simp_all
qed

text \<open>
  C33: every URI that \<^verbatim>\<open>evhttp_uri_parse_with_flags\<close> makes of a string is put together by
  \<^verbatim>\<open>evhttp_uri_join\<close>, into any buffer that is long enough, to a string that parses to the same URI, in
  each of its parts. The string may differ from the first in the port only, an empty one of which is
  dropped and the leading zeros of which are.
\<close>

theorem uri_parse_join:
  assumes "evhttp_uri_parse_with_flags s flags = Some u" "CHR 0x00 \<notin> set s" "length (uri_text u) < limit"
  shows "\<exists>t. evhttp_uri_join u limit = Some t \<and> evhttp_uri_parse_with_flags t flags = Some u"
proof -
  note v = parse_valid [OF assms(1,2)]
  have "evhttp_uri_join u limit = Some (uri_text u)"
    using assms(3) v(1) by (auto simp: evhttp_uri_join_def uri_wf_def split: option.splits)
  moreover have "evhttp_uri_parse_with_flags (uri_text u) flags = Some u"
    using parse_uri_text [OF v(1)] v(2) by simp
  ultimately show ?thesis by blast
qed

lemma uri_parse_join_witness:
  "\<exists>u t. evhttp_uri_parse_with_flags ''http://me@[::1]:080/a?b'' 0 = Some u \<and>
     evhttp_uri_join u 100 = Some t \<and> evhttp_uri_parse_with_flags t 0 = Some u"
proof -
  define u where "u = \<lparr>uri_flags = 0, scheme = Some ''http'', userinfo = Some ''me'', host = Some ''[::1]'',
    port = 80, path = Some ''/a'', query = Some ''b'', fragment = None\<rparr>"
  have "evhttp_uri_parse_with_flags ''http://me@[::1]:080/a?b'' 0 = Some u"
    unfolding u_def by code_simp
  moreover have "length (uri_text u) < 100" unfolding u_def by code_simp
  ultimately show ?thesis
    using uri_parse_join [of "''http://me@[::1]:080/a?b''" 0 u 100] by auto
qed

section \<open>What the setters let through\<close>

text \<open>
  the setters check each part by itself. A URI without a host takes a path that begins with two
  slashes; what \<^verbatim>\<open>evhttp_uri_join\<close> makes of it parses to a URI whose host is what followed them, and
  whose path is empty.
\<close>

theorem set_path_makes_host:
  assumes "uri_wf u" "host u = None" "evhttp_uri_set_path u (Some (''//'' @ h)) = (0, v)"
    and h: "regname_ok h (int (length h))" "CHR 0x00 \<notin> set h"
  shows "host v = None \<and> (\<exists>w. evhttp_uri_join v (length (uri_text v) + 1) = Some (uri_text v) \<and>
    evhttp_uri_parse_with_flags (uri_text v) (uri_flags u) = Some w \<and> host w = Some h \<and> path w = Some [])"
proof -
  have v: "v = u\<lparr>path := Some (''//'' @ h)\<rparr>"
    using assms(3) by (auto simp: evhttp_uri_set_path_def split: if_splits)
  define w where "w = u\<lparr>host := Some h, path := Some []\<rparr>"
  have i: "userinfo u = None" "port u = -1" using assms(1,2) by (simp_all add: uri_wf_def)
  have "CHR ''['' \<in> gen_delims - {CHR ''%''}" by (simp add: gen_delims_def)
  then have "CHR ''['' \<notin> set h" using regname_ok_chars [OF h(1)] by blast
  then have "\<not> (h \<noteq> [] \<and> hd h = CHR ''['' \<and> 2 \<le> length h \<and> last h = CHR '']'')" by (metis hd_in_set)
  then have "host_ok h []" using h(1) by (simp only: host_ok_def if_False append_Nil2)
  moreover have "complete PART_PATH n []" for n by (simp add: complete_def end_of_path_def)
  moreover have e: "scheme w = scheme u" "host w = Some h" "userinfo w = None" "port w = -1" "path w = Some []"
    "query w = query u" "fragment w = fragment u" "uri_flags w = uri_flags u"
    using i by (simp_all add: w_def)
  ultimately have "uri_wf w"
    using assms(1) h(2) unfolding uri_wf_def e option.case by simp
  then have "evhttp_uri_parse_with_flags (uri_text w) (uri_flags u) = Some w"
    using parse_uri_text [of w] e by simp
  moreover have "uri_text w = uri_text v"
    using assms(2) i by (simp add: v e uri_text_def opt_text_def)
  moreover have "evhttp_uri_join v (length (uri_text v) + 1) = Some (uri_text v)"
    using assms(2) by (simp add: evhttp_uri_join_def v)
  ultimately show ?thesis using e assms(2) by (auto simp: v)
qed

lemma set_path_makes_host_witness:
  "\<exists>w. evhttp_uri_join (evhttp_uri_new\<lparr>path := Some ''//evil.org''\<rparr>) 11 = Some ''//evil.org'' \<and>
     evhttp_uri_parse ''//evil.org'' = Some w \<and> host w = Some ''evil.org''"
proof -
  define u where "u = evhttp_uri_new\<lparr>path := Some []\<rparr>"
  have wf: "uri_wf u" "host u = None" unfolding u_def by code_simp+
  have s: "evhttp_uri_set_path u (Some (''//'' @ ''evil.org'')) = (0, evhttp_uri_new\<lparr>path := Some ''//evil.org''\<rparr>)"
    unfolding u_def by code_simp
  have r: "regname_ok ''evil.org'' (int (length ''evil.org''))" "CHR 0x00 \<notin> set ''evil.org''" by code_simp+
  have t: "uri_text (evhttp_uri_new\<lparr>path := Some ''//evil.org''\<rparr>) = ''//evil.org''" by code_simp
  have f: "uri_flags u = 0" "length ''//evil.org'' + 1 = (11 :: nat)" by (simp_all add: u_def evhttp_uri_new_def)
  show ?thesis
    using set_path_makes_host [OF wf s r] unfolding t f evhttp_uri_parse_def by blast
qed

end
