(* ===== verification/EvbufferLines.thy ===== *)
theory EvbufferLines
  imports EvbufferLaws EvbufferSearch
begin

text \<open>
  What searching in an \<^verbatim>\<open>evbuffer\<close> and reading lines from it find, in terms of the byte string it
  holds: the walks along the chains agree with simple functions on the bytes, however these are
  cut into chains.
\<close>

section \<open>Reference functions on byte strings\<close>

definition starts :: "byte list \<Rightarrow> byte list \<Rightarrow> bool" where
  "starts what s \<longleftrightarrow> take (length what) s = what"

fun find_sub :: "byte list \<Rightarrow> byte list \<Rightarrow> nat option" where
  "find_sub what [] = (if what = [] then Some 0 else None)"
| "find_sub what (x # xs) =
     (if starts what (x # xs) then Some 0 else map_option Suc (find_sub what xs))"

abbreviation is_eol :: "byte \<Rightarrow> bool" where "is_eol x \<equiv> x = CR \<or> x = LF"

text \<open>Where a line ends and how long its end is.\<close>

definition eol_ref :: "evbuffer_eol_style \<Rightarrow> byte list \<Rightarrow> (nat \<times> nat) option" where
  "eol_ref style s =
     (case style of
        EVBUFFER_EOL_ANY \<Rightarrow> map_option (\<lambda>p. (p, length (takeWhile is_eol (drop p s)))) (first_index is_eol s)
      | EVBUFFER_EOL_CRLF_STRICT \<Rightarrow> map_option (\<lambda>p. (p, 2)) (find_sub [CR, LF] s)
      | EVBUFFER_EOL_CRLF \<Rightarrow>
          map_option (\<lambda>p. if 0 < p \<and> s ! (p - 1) = CR then (p - 1, 2) else (p, 1)) (first_index (\<lambda>x. x = LF) s)
      | EVBUFFER_EOL_LF \<Rightarrow> map_option (\<lambda>p. (p, 1)) (first_index (\<lambda>x. x = LF) s)
      | EVBUFFER_EOL_NUL \<Rightarrow> map_option (\<lambda>p. (p, 1)) (first_index (\<lambda>x. x = 0) s))"

section \<open>Bytes\<close>

lemma first_index_append:
  "first_index P (xs @ ys) =
     (case first_index P xs of Some d \<Rightarrow> Some d | None \<Rightarrow> map_option ((+) (length xs)) (first_index P ys))"
  by (induction xs; cases "first_index P ys") (auto split: option.splits)

lemma first_index_None: "first_index P xs = None \<longleftrightarrow> (\<forall>x \<in> set xs. \<not> P x)"
  by (induction xs) auto

lemma first_index_Some:
  "first_index P xs = Some d \<longleftrightarrow> d < length xs \<and> P (xs ! d) \<and> (\<forall>j < d. \<not> P (xs ! j))"
proof (induction xs arbitrary: d)
  case (Cons x xs)
  then show ?case by (cases d) (auto simp: less_Suc_eq_0_disj)
qed simp

lemma first_index_or:
  "first_index (\<lambda>x. P x \<or> Q x) xs =
     (case first_index P xs of
        Some c \<Rightarrow> (case first_index Q xs of Some l \<Rightarrow> if l < c then Some l else Some c | None \<Rightarrow> Some c)
      | None \<Rightarrow> first_index Q xs)"
  by (induction xs) (auto split: option.splits)

lemma find_eol_char_eq: "find_eol_char s = first_index is_eol s"
proof (induction s rule: find_eol_char.induct)
  case (1 s)
  show ?case
  proof (cases "s = []")
    case False
    define n where "n = (if CHUNK_SZ < length s then CHUNK_SZ else length s)"
    have s: "first_index is_eol s = (case first_index is_eol (take n s) of Some d \<Rightarrow> Some d
        | None \<Rightarrow> map_option ((+) (length (take n s))) (first_index is_eol (drop n s)))"
      by (metis append_take_drop_id first_index_append)
    have tail: "map_option ((+) CHUNK_SZ) (find_eol_char (drop CHUNK_SZ s)) =
        map_option ((+) (length (take n s))) (first_index is_eol (drop n s))"
      if "first_index (\<lambda>x. x = CR) (take n s) = None" "first_index (\<lambda>x. x = LF) (take n s) = None"
    proof -
      have "find_eol_char (drop CHUNK_SZ s) = first_index is_eol (drop CHUNK_SZ s)"
        by (rule 1 [OF False refl refl refl]) (use that in \<open>simp_all add: memchr_def n_def\<close>)
      then show ?thesis by (simp add: n_def)
    qed
    have "find_eol_char s = (case first_index is_eol (take n s) of Some d \<Rightarrow> Some d
        | None \<Rightarrow> map_option ((+) (length (take n s))) (first_index is_eol (drop n s)))"
      unfolding find_eol_char.simps [of s] first_index_or [of "\<lambda>x. x = CR" "\<lambda>x. x = LF" "take n s"]
      using False tail by (auto simp: memchr_def n_def [symmetric] Let_def split: option.splits)
    then show ?thesis by (simp only: s)
  qed (simp add: find_eol_char.simps)
qed

lemma memcmp_zero: "length xs = length ys \<Longrightarrow> memcmp xs ys = 0 \<longleftrightarrow> xs = ys"
  by (induction xs ys rule: memcmp.induct) auto

lemma find_sub_Some:
  assumes "what \<noteq> []"
  shows "find_sub what s = Some d \<longleftrightarrow>
    starts what (drop d s) \<and> (\<forall>j < d. \<not> starts what (drop j s))"
proof (induction s arbitrary: d)
  case (Cons x s)
  show ?case
  proof (cases d)
    case (Suc n)
    then show ?thesis by (auto simp: All_less_Suc2 Cons)
  qed auto
qed (use assms in \<open>auto simp: starts_def\<close>)

lemma find_sub_None:
  assumes "what \<noteq> []"
  shows "find_sub what s = None \<longleftrightarrow> (\<forall>j. \<not> starts what (drop j s))"
  using find_sub_Some [OF assms, of s] exists_least_iff [of "\<lambda>j. starts what (drop j s)"]
  by (cases "find_sub what s") auto

section \<open>Positions\<close>

text \<open>\<open>it\<close> is the position of byte \<open>n\<close>, in the chain that holds it.\<close>

definition byte_at :: "evbuffer \<Rightarrow> evbuffer_ptr \<Rightarrow> nat \<Rightarrow> bool" where
  "byte_at b it n \<longleftrightarrow> (\<exists>k q. it = \<lparr>pos = int n, ptr_chain = Some k, pos_in_chain = q\<rparr> \<and>
     k < length (chains b) \<and> q < off (chains b ! k) \<and> n = length (data_of (take k (chains b))) + q)"

text \<open>A walk that is at byte \<open>n\<close>, in chain \<open>k\<close> at \<open>i\<close>.\<close>

definition walk_at :: "evbuffer \<Rightarrow> nat \<Rightarrow> nat \<Rightarrow> nat \<Rightarrow> bool" where
  "walk_at b k i n \<longleftrightarrow> n = length (data_of (take k (chains b))) + i \<and>
     (if k < length (chains b) then i \<le> off (chains b ! k) else k = length (chains b) \<and> i = 0)"

lemma chains_ok: "evb_ok b \<Longrightarrow> k < length (chains b) \<Longrightarrow> chain_ok (chains b ! k)"
  by (simp add: evb_ok_def list_all_length)

lemma walk_data:
  assumes "evb_ok b" and "walk_at b k i n"
  shows "drop i (data_of (drop k (chains b))) = drop n (content b)" and "n \<le> length (content b)"
proof -
  have c: "content b = data_of (take k (chains b)) @ data_of (drop k (chains b))"
    unfolding content_def by (metis append_take_drop_id data_of_simps(3))
  then show "drop i (data_of (drop k (chains b))) = drop n (content b)" using assms(2) by (simp add: walk_at_def)
  show "n \<le> length (content b)"
  proof (cases "k < length (chains b)")
    case True
    then have "data_of (drop k (chains b)) = chain_data (chains b ! k) @ data_of (drop (k + 1) (chains b))"
      by (simp flip: Cons_nth_drop_Suc)
    with c True assms chains_ok [OF assms(1) True] show ?thesis by (simp add: walk_at_def length_chain_data)
  qed (use c assms(2) in \<open>auto simp: walk_at_def\<close>)
qed

lemma walk_next:
  assumes "evb_ok b" and "k < length (chains b)" and "walk_at b k i n"
  shows "walk_at b (k + 1) 0 (n + (off (chains b ! k) - i))"
  using assms chains_ok [OF assms(1,2)] by (auto simp: walk_at_def take_Suc_conv_app_nth length_chain_data)

lemma walk_in_chain:
  assumes "walk_at b k i n" and "k < length (chains b)" and "i + d \<le> off (chains b ! k)"
  shows "walk_at b k (i + d) (n + d)"
  using assms by (simp add: walk_at_def)

lemma walk_byte:
  assumes "walk_at b k i n" and "k < length (chains b)" and "i + d < off (chains b ! k)"
  shows "byte_at b \<lparr>pos = int n + int d, ptr_chain = Some k, pos_in_chain = i + d\<rparr> (n + d)"
  using assms by (auto simp: byte_at_def walk_at_def)

lemma byte_walk: "byte_at b it n \<Longrightarrow> walk_at b (chain_no it) (pos_in_chain it) n \<and> chains_from b it = drop (chain_no it) (chains b) \<and> pos it = int n \<and> ptr_chain it \<noteq> None"
  by (auto simp: byte_at_def walk_at_def chain_no_def chains_from_def)

lemma begin_walk: "walk_at b (chain_no (begin_ptr b)) (pos_in_chain (begin_ptr b)) 0 \<and>
    chains_from b (begin_ptr b) = drop (chain_no (begin_ptr b)) (chains b) \<and> pos (begin_ptr b) = 0"
  by (auto simp: begin_ptr_def walk_at_def chain_no_def chains_from_def)

lemma byte_less: "evb_ok b \<Longrightarrow> byte_at b it n \<Longrightarrow> n < length (content b)"
  by (auto simp: byte_at_def content_def data_of_split length_chain_data chains_ok)

lemma drop_walk: "k < length (chains b) \<Longrightarrow> drop k (chains b) = chains b ! k # drop (k + 1) (chains b)"
  by (simp add: Cons_nth_drop_Suc)

text \<open>The part of the bytes from a walk on that its chain has.\<close>

lemma walk_split:
  assumes "evb_ok b" and "k < length (chains b)" and "walk_at b k i n"
  shows "drop n (content b) = drop i (chain_data (chains b ! k)) @ drop (n + (off (chains b ! k) - i)) (content b)"
proof -
  have "drop n (content b) = drop i (data_of (chains b ! k # drop (k + 1) (chains b)))"
    using walk_data(1) [OF assms(1,3)] drop_walk [OF assms(2)] by simp
  also have "\<dots> = drop i (chain_data (chains b ! k)) @ data_of (drop (k + 1) (chains b))"
    using assms(2,3) chains_ok [OF assms(1,2)] by (simp add: walk_at_def length_chain_data)
  finally show ?thesis using walk_data(1) [OF assms(1) walk_next [OF assms]] by simp
qed

section \<open>Searching for a byte\<close>

lemma scan_chains_ok:
  assumes "evb_ok b" and "walk_at b k i n" and "\<And>bs. srch bs = first_index P bs"
  shows "case first_index P (drop n (content b)) of
      None \<Rightarrow> scan_chains srch (drop k (chains b)) k i (int n) = None
    | Some d \<Rightarrow> \<exists>it. scan_chains srch (drop k (chains b)) k i (int n) = Some it \<and> byte_at b it (n + d)"
  using assms(2)
proof (induction "length (chains b) - k" arbitrary: k i n)
  case 0
  then have "drop k (chains b) = []" "drop n (content b) = []"
    using walk_data(1) [OF assms(1) 0(2)] by (auto simp: walk_at_def)
  then show ?case by simp
next
  case (Suc m)
  then have k: "k < length (chains b)" by simp
  let ?c = "chains b ! k" and ?n = "n + (off (chains b ! k) - i)"
  have i: "i \<le> off ?c" using Suc(3) k by (simp add: walk_at_def)
  have len: "length (drop i (chain_data ?c)) = off ?c - i" using chains_ok [OF assms(1) k] by (simp add: length_chain_data)
  note IH = Suc(1) [OF _ walk_next [OF assms(1) k Suc(3)]]
  show ?case
  proof (cases "first_index P (drop i (chain_data ?c))")
    case (Some d)
    then have "d < off ?c - i" using first_index_less len by metis
    with walk_byte [OF Suc(3) k, of d] i have "byte_at b \<lparr>pos = int n + int d, ptr_chain = Some k, pos_in_chain = i + d\<rparr> (n + d)"
      by simp
    with Some show ?thesis
      unfolding walk_split [OF assms(1) k Suc(3)] drop_walk [OF k] by (simp add: first_index_append assms(3))
  next
    case None
    have "int n + int (off ?c - i) = int ?n" by simp
    with None IH Suc(2) len show ?thesis
      unfolding walk_split [OF assms(1) k Suc(3)] drop_walk [OF k]
      by (auto simp: first_index_append assms(3) add.assoc split: option.splits)
  qed
qed

lemma takeWhile_short: "length (takeWhile P xs) < length xs \<longleftrightarrow> \<not> (\<forall>x \<in> set xs. P x)"
  by (induction xs) auto

lemma strspn_loop_ok:
  assumes "evb_ok b" and "walk_at b k i n" and "k < length (chains b)"
  shows "fst (strspn_loop cset (drop k (chains b)) k i m) =
    m + length (takeWhile (\<lambda>x. x \<in> set cset) (drop n (content b)))"
  using assms(2,3)
proof (induction "length (chains b) - k" arbitrary: k i n m)
  case (Suc l)
  let ?c = "chains b ! k" and ?n = "n + (off (chains b ! k) - i)"
  let ?d = "drop i (chain_data ?c)" and ?P = "\<lambda>x. x \<in> set cset"
  note sp = walk_split [OF assms(1) Suc(4,3)]
  show ?case
  proof (cases "\<forall>x \<in> set ?d. ?P x")
    case False
    then show ?thesis
      unfolding sp drop_walk [OF Suc(4)] strspn_loop.simps Let_def takeWhile_short takeWhile_append by auto
  next
    case all: True
    then have tw: "takeWhile ?P ?d = ?d" by (simp only: takeWhile_eq_all_conv)
    note nx = walk_next [OF assms(1) Suc(4,3)]
    show ?thesis
    proof (cases "k + 1 < length (chains b)")
      case True
      then have "drop (k + 1) (chains b) \<noteq> []" by simp
      with Suc(1) [OF _ nx True, of "m + length ?d"] Suc(2) all show ?thesis
        unfolding sp drop_walk [OF Suc(4)] strspn_loop.simps Let_def takeWhile_short takeWhile_append tw by simp
    next
      case last: False
      then have e: "drop (k + 1) (chains b) = []" by simp
      with walk_data(1) [OF assms(1) nx] have "drop ?n (content b) = []" by simp
      with all e show ?thesis
        unfolding sp drop_walk [OF Suc(4)] strspn_loop.simps Let_def takeWhile_short takeWhile_append by (simp add: tw)
    qed
  qed
qed simp

lemma strspn_ok:
  assumes "evb_ok b" and "byte_at b it n"
  shows "fst (evbuffer_strspn b it cset) = length (takeWhile (\<lambda>x. x \<in> set cset) (drop n (content b)))"
proof -
  from assms(2) have k: "chain_no it < length (chains b)" by (auto simp: byte_at_def chain_no_def)
  with byte_walk [OF assms(2)] strspn_loop_ok [OF assms(1) _ k, of "pos_in_chain it" n cset 0]
  show ?thesis by (auto simp: evbuffer_strspn_def split: prod.split)
qed

lemma getchr_ok:
  assumes "evb_ok b" and "byte_at b it n"
  shows "evbuffer_getchr b it = uint (content b ! n)"
proof -
  from assms(2) obtain k q where it: "it = \<lparr>pos = int n, ptr_chain = Some k, pos_in_chain = q\<rparr>"
    and k: "k < length (chains b)" "q < off (chains b ! k)" "n = length (data_of (take k (chains b))) + q"
    by (auto simp: byte_at_def)
  have w: "walk_at b k q n" using k by (simp add: walk_at_def)
  note c = chains_ok [OF assms(1) k(1)]
  have "content b ! n = hd (drop n (content b))" using byte_less [OF assms] by (simp add: hd_drop_conv_nth)
  also have "\<dots> = chain_data (chains b ! k) ! q"
    using walk_split [OF assms(1) k(1) w] k(2) c by (simp add: hd_append hd_drop_conv_nth length_chain_data)
  also have "\<dots> = buffer (chains b ! k) ! (misalign (chains b ! k) + q)"
    using c k(2) by (simp add: chain_data_def chain_ok_def buffer_len_def)
  finally show ?thesis by (simp add: evbuffer_getchr_def it)
qed

lemma ptr_walk_ok:
  assumes "list_all chain_ok cs" and "n < length (data_of cs)"
  shows "\<exists>j q. ptr_walk cs k 0 n = (Some (k + j), 0, q) \<and> j < length cs \<and> q < off (cs ! j) \<and>
    n = length (data_of (take j cs)) + q"
  using assms
proof (induction cs arbitrary: k n)
  case (Cons c cs)
  then have c: "length (chain_data c) = off c" by (simp add: length_chain_data)
  show ?case
  proof (cases "off c \<le> n")
    case True
    with Cons c have "n - off c < length (data_of cs)" by auto
    from Cons.IH [OF _ this, of "k + 1"] Cons.prems obtain j q where
      "ptr_walk cs (k + 1) 0 (n - off c) = (Some (k + 1 + j), 0, q)" "j < length cs" "q < off (cs ! j)"
      "n - off c = length (data_of (take j cs)) + q" by auto
    with True c show ?thesis by (intro exI [of _ "Suc j"] exI [of _ q]) auto
  next
    case False
    then show ?thesis by (intro exI [of _ 0] exI [of _ n]) simp
  qed
qed simp

lemma ptr_set_abs_ok:
  assumes "evb_ok b" and "n < length (content b)" and "n \<le> EV_SSIZE_MAX"
  shows "fst (ptr_set_abs b n) = 0 \<and> byte_at b (snd (ptr_set_abs b n)) n"
proof -
  have "list_all chain_ok (chains b)" "n < length (data_of (chains b))" using assms by (auto simp: evb_ok_def content_def)
  from ptr_walk_ok [OF this, of 0] obtain j q where w: "ptr_walk (chains b) 0 0 n = (Some j, 0, q)"
    "j < length (chains b)" "q < off (chains b ! j)" "n = length (data_of (take j (chains b))) + q" by auto
  have "cast_ssize (int n) = int n"
    using assms(3) by (simp add: cast_ssize_def EV_SSIZE_MAX_def signed_take_bit_int_eq_self)
  with w show ?thesis by (simp add: ptr_set_abs_def ptr_arrive_def byte_at_def)
qed

lemma ptr_subtract_ok:
  assumes "evb_ok b" and "byte_at b it n" and "0 < n" and "n \<le> EV_SSIZE_MAX"
  shows "fst (evbuffer_ptr_subtract b it 1) = 0 \<and> byte_at b (snd (evbuffer_ptr_subtract b it 1)) (n - 1)"
proof -
  from assms(2) obtain k q where it: "it = \<lparr>pos = int n, ptr_chain = Some k, pos_in_chain = q\<rparr>"
    and k: "k < length (chains b)" "q < off (chains b ! k)" "n = length (data_of (take k (chains b))) + q"
    by (auto simp: byte_at_def)
  show ?thesis
  proof (cases "1 \<le> q")
    case True
    with it k assms(3) show ?thesis by (simp add: evbuffer_ptr_subtract_def byte_at_def)
  next
    case False
    then have "evbuffer_ptr_subtract b it 1 = ptr_set_abs b (n - 1)"
      using it assms(3) by (simp add: evbuffer_ptr_subtract_def)
    with ptr_set_abs_ok [OF assms(1), of "n - 1"] byte_less [OF assms(1,2)] assms(3,4) show ?thesis by simp
  qed
qed

section \<open>Searching for a string\<close>

lemma memcmp_chains_ok:
  assumes "list_all chain_ok cs" and "cs \<noteq> [] \<Longrightarrow> i \<le> off (hd cs)" and "cs = [] \<Longrightarrow> i = 0"
    and "length mem \<le> length (drop i (data_of cs))"
  shows "memcmp_chains cs i mem = 0 \<longleftrightarrow> starts mem (drop i (data_of cs))"
  using assms
proof (induction cs i mem rule: memcmp_chains.induct)
  case (1 i mem)
  then show ?case by (simp add: starts_def)
next
  case (2 c cs i mem)
  then have c: "length (chain_data c) = off c" "i \<le> off c" "list_all chain_ok cs" by (simp_all add: length_chain_data)
  define n where "n = (if length mem + i > off c then off c - i else length mem)"
  have n: "n \<le> length mem" "n \<le> off c - i" by (auto simp: n_def)
  have z: "memcmp (take n (drop i (chain_data c))) (take n mem) = 0 \<longleftrightarrow> take n (drop i (chain_data c)) = take n mem"
    by (rule memcmp_zero) (use c n in simp)
  show ?case
  proof (cases "mem = [] \<or> take n (drop i (chain_data c)) \<noteq> take n mem")
    case True
    have "take n (take (length mem) (drop i (chain_data c) @ data_of cs)) = take n (drop i (chain_data c))"
      using n c by simp
    then have "starts mem (drop i (chain_data c) @ data_of cs) \<Longrightarrow> take n (drop i (chain_data c)) = take n mem"
      unfolding starts_def by metis
    with True z c show ?thesis by (auto simp: Let_def n_def [symmetric] starts_def)
  next
    case False
    have r: "memcmp_chains (c # cs) i mem = memcmp_chains cs 0 (drop n mem)"
      using False z by (simp add: Let_def n_def [symmetric])
    have "memcmp_chains cs 0 (drop n mem) = 0 \<longleftrightarrow> starts (drop n mem) (drop 0 (data_of cs))"
    proof (rule 2(1))
      show "\<not> memcmp (take n (drop i (chain_data c))) (take n mem) \<noteq> 0" using False z by simp
    qed (use 2 False c n in \<open>auto simp: n_def\<close>)
    moreover have "starts mem (drop i (chain_data c) @ data_of cs) \<longleftrightarrow> starts (drop n mem) (data_of cs)"
    proof (cases "n = length mem")
      case True
      then have "take (length mem) (drop i (chain_data c) @ data_of cs) = mem" using False n c by simp
      with True show ?thesis by (simp add: starts_def)
    next
      case k: False
      define A where "A = drop i (chain_data c)"
      from k have "n = off c - i" using n by (auto simp: n_def split: if_splits)
      with c have "length A = n" by (simp add: A_def)
      moreover from this False have "A = take n mem" by (simp add: A_def)
      ultimately have "take (length mem) (A @ data_of cs) = take n mem @ take (length mem - n) (data_of cs)"
        using n by (metis take_append take_all)
      then have "take (length mem) (drop i (chain_data c) @ data_of cs) =
          take n mem @ take (length mem - n) (data_of cs)" by (simp only: A_def)
      moreover have "mem = take n mem @ drop n mem" by simp
      ultimately show ?thesis unfolding starts_def by (metis length_drop same_append_eq)
    qed
    ultimately show ?thesis using r c by simp
  qed
qed

lemma ptr_memcmp_ok:
  assumes "evb_ok b" and "byte_at b it n" and "length (content b) \<le> EV_SSIZE_MAX"
  shows "evbuffer_ptr_memcmp b it mem = 0 \<longleftrightarrow> starts mem (drop n (content b))"
proof -
  have tot: "total_len b = length (content b)" using assms(1) by (simp add: evb_ok_def)
  note w = byte_walk [OF assms(2)]
  show ?thesis
  proof (cases "n + length mem \<le> length (content b)")
    case False
    with w tot have "evbuffer_ptr_memcmp b it mem = -1" by (simp add: evbuffer_ptr_memcmp_def)
    moreover have "\<not> starts mem (drop n (content b))"
    proof
      assume "starts mem (drop n (content b))"
      then have "length mem = length (take (length mem) (drop n (content b)))" by (simp add: starts_def)
      with False byte_less [OF assms(1,2)] show False by simp
    qed
    ultimately show ?thesis by simp
  next
    case True
    then have "int (EV_SIZE_MAX - length mem) \<ge> pos it" using assms(3) w by (auto simp: EV_SIZE_MAX_def EV_SSIZE_MAX_def)
    with True w tot have r: "evbuffer_ptr_memcmp b it mem = memcmp_chains (drop (chain_no it) (chains b)) (pos_in_chain it) mem"
      by (simp add: evbuffer_ptr_memcmp_def)
    from w have k: "walk_at b (chain_no it) (pos_in_chain it) n" by blast
    have "memcmp_chains (drop (chain_no it) (chains b)) (pos_in_chain it) mem = 0 \<longleftrightarrow>
        starts mem (drop (pos_in_chain it) (data_of (drop (chain_no it) (chains b))))"
    proof (rule memcmp_chains_ok)
      show "list_all chain_ok (drop (chain_no it) (chains b))"
        using assms(1) by (auto simp: evb_ok_def list_all_iff dest: in_set_dropD)
    qed (use k True walk_data(1) [OF assms(1) k] in \<open>auto simp: walk_at_def hd_drop_conv_nth split: if_splits\<close>)
    with r walk_data(1) [OF assms(1) k] show ?thesis by simp
  qed
qed

text \<open>A position of the end that bounds a search does not lie after the end of its chain.\<close>

definition end_ok :: "evbuffer \<Rightarrow> evbuffer_ptr option \<Rightarrow> bool" where
  "end_ok b e \<longleftrightarrow> (case e of None \<Rightarrow> True | Some q \<Rightarrow> ptr_ok b q)"

definition within :: "evbuffer_ptr option \<Rightarrow> nat \<Rightarrow> bool" where
  "within e n \<longleftrightarrow> (case e of None \<Rightarrow> True | Some q \<Rightarrow> int n \<le> pos q)"

lemma find_sub_skip:
  assumes "what \<noteq> []" and "\<forall>j < m. \<not> starts what (drop j s)" and "m \<le> length s"
  shows "find_sub what s = map_option ((+) m) (find_sub what (drop m s))"
proof (cases "find_sub what (drop m s)")
  case None
  then have "\<not> starts what (drop j s)" for j
    using assms(2) find_sub_None [OF assms(1), of "drop m s"]
    by (cases "j < m") (auto dest: spec [of _ "j - m"])
  then have "find_sub what s = None" by (simp add: find_sub_None [OF assms(1)])
  with None show ?thesis by simp
next
  case (Some d)
  then have "starts what (drop (m + d) s)" "\<forall>j < d. \<not> starts what (drop (m + j) s)"
    using find_sub_Some [OF assms(1)] by (simp_all add: add.commute)
  moreover have "\<not> starts what (drop j s)" if "j < m + d" for j
    using that assms(2) calculation(2) by (cases "j < m") (auto dest: spec [of _ "j - m"])
  ultimately show ?thesis using Some find_sub_Some [OF assms(1), of s "m + d"] by simp
qed

lemma starts_hd: "what \<noteq> [] \<Longrightarrow> starts what s \<Longrightarrow> s \<noteq> [] \<and> hd s = hd what"
  by (cases what; cases s) (auto simp: starts_def)

lemma no_start_before:
  assumes "what \<noteq> []" and "\<forall>j < d. xs ! j \<noteq> hd what" and "d \<le> length xs"
  shows "\<forall>j < d. \<not> starts what (drop j (xs @ ys))"
proof (intro allI impI notI)
  fix j assume j: "j < d" "starts what (drop j (xs @ ys))"
  then have "hd (drop j (xs @ ys)) = hd what" using starts_hd [OF assms(1)] by blast
  moreover have "hd (drop j (xs @ ys)) = xs ! j" using j(1) assms(3) by (simp add: hd_drop_conv_nth nth_append)
  ultimately show False using assms(2) j(1) by metis
qed

text \<open>What a search from byte \<open>n\<close> on has to return.\<close>

definition found :: "evbuffer \<Rightarrow> byte list \<Rightarrow> evbuffer_ptr option \<Rightarrow> nat \<Rightarrow> evbuffer_ptr \<Rightarrow> bool" where
  "found b what e n r \<longleftrightarrow>
     (case find_sub what (drop n (content b)) of
        None \<Rightarrow> r = PTR_NOT_FOUND
      | Some d \<Rightarrow> if within e (n + d + length what) then byte_at b r (n + d) else r = PTR_NOT_FOUND)"

lemma found_skip:
  assumes "what \<noteq> []" and "\<forall>j < m. \<not> starts what (drop j (drop n (content b)))" and "n + m \<le> length (content b)"
    and "found b what e (n + m) r"
  shows "found b what e n r"
proof -
  have "find_sub what (drop n (content b)) = map_option ((+) m) (find_sub what (drop (n + m) (content b)))"
    using find_sub_skip [OF assms(1,2)] assms(3) by (simp add: add.commute)
  with assms(4) show ?thesis by (auto simp: found_def add.assoc split: option.splits if_splits)
qed

lemma not_found_late:
  assumes "what \<noteq> []" and "\<forall>j < m. \<not> starts what (drop j (drop n (content b)))" and "\<not> within e (n + m + 1)"
  shows "found b what e n PTR_NOT_FOUND"
proof (cases "find_sub what (drop n (content b))")
  case (Some d)
  then have "m \<le> d" using find_sub_Some [OF assms(1)] assms(2) not_less by blast
  moreover have "1 \<le> length what" using assms(1) by (simp add: Suc_le_eq)
  ultimately have "\<not> within e (n + d + length what)" using assms(3) by (simp add: within_def split: option.splits)
  with Some show ?thesis by (simp add: found_def)
qed (simp add: found_def)

lemma search_loop_ok:
  assumes "evb_ok b" and "length (content b) \<le> EV_SSIZE_MAX" and "what \<noteq> []" and "end_ok b e"
    and "walk_at b k i n" and "cs = drop k (chains b)" and "p = int n"
  shows "found b what e n (search_loop b what e cs k i p)"
  using assms
proof (induction b what e cs k i p arbitrary: n rule: search_loop.induct)
  case (1 b what e k i p)
  then have "drop n (content b) = []" using walk_data(1) [OF 1(1,5)] by simp
  with 1(3) show ?case by (simp add: found_def)
next
  case (2 b what e c cs k i p)
  note ok = 2(4) and what = 2(6) and w = 2(8) and cs = 2(9) and p = 2(10)
  have k: "k < length (chains b)" using cs by (metis drop_all list.distinct(1) not_less)
  have c: "c = chains b ! k" "cs = drop (k + 1) (chains b)" using cs drop_walk [OF k] by simp_all
  define A where "A = drop i (chain_data c)"
  have i: "i \<le> off c" using w k c by (simp add: walk_at_def)
  have len: "length A = off c - i" using chains_ok [OF ok k] c by (simp add: A_def length_chain_data)
  have s: "drop n (content b) = A @ drop (n + (off c - i)) (content b)"
    using walk_split [OF ok k w] c(1) by (simp add: A_def)
  have nx: "walk_at b (k + 1) 0 (n + (off c - i))" using walk_next [OF ok k w] c(1) by simp
  have le: "n + (off c - i) \<le> length (content b)" by (rule walk_data(2) [OF ok nx])
  show ?case
  proof (cases "memchr (hd what) A")
    case None
    then have "\<forall>x \<in> set A. x \<noteq> hd what" by (simp add: memchr_def first_index_None)
    then have before: "\<forall>j < off c - i. \<not> starts what (drop j (drop n (content b)))"
      unfolding s using no_start_before [OF what, of "off c - i" A] len by simp
    show ?thesis
    proof (cases "case e of None \<Rightarrow> False | Some q \<Rightarrow> ptr_chain q = Some k")
      case True
      then obtain q where q: "e = Some q" "ptr_chain q = Some k" by (auto split: option.splits)
      with 2(7) w i c(1) k have "pos q \<le> int (n + (off c - i))" by (auto simp: end_ok_def ptr_ok_def walk_at_def)
      then have "\<not> within e (n + (off c - i) + 1)" using q by (simp add: within_def)
      from not_found_late [OF what before this] True None show ?thesis
        by (simp add: search_loop.simps(2) A_def [symmetric])
    next
      case False
      have "found b what e (n + (off c - i)) (search_loop b what e cs (k + 1) 0 (p + int (off c - i)))"
        by (rule 2(1)) (use 2 None False nx c p in \<open>simp_all add: A_def\<close>)
      from found_skip [OF what before le this] None False show ?thesis
        by (simp add: search_loop.simps(2) A_def [symmetric])
    qed
  next
    case (Some d)
    then have d: "d < length A" "A ! d = hd what" "\<forall>j < d. A ! j \<noteq> hd what"
      by (simp_all add: memchr_def first_index_Some)
    define here where "here = \<lparr>pos = p + int d, ptr_chain = Some k, pos_in_chain = i + d\<rparr>"
    have at: "byte_at b here (n + d)"
      unfolding here_def p by (rule walk_byte [OF w k]) (use d len c in simp)
    have cmp: "evbuffer_ptr_memcmp b here what = 0 \<longleftrightarrow> starts what (drop d (drop n (content b)))"
      using ptr_memcmp_ok [OF ok at 2(5)] by (simp add: add.commute)
    have before: "\<forall>j < d. \<not> starts what (drop j (drop n (content b)))"
      unfolding s using no_start_before [OF what d(3)] d(1) by simp
    show ?thesis
    proof (cases "evbuffer_ptr_memcmp b here what = 0")
      case True
      then have "find_sub what (drop n (content b)) = Some d" using cmp before find_sub_Some [OF what] by simp
      moreover have "pos here = int (n + d)" by (simp add: here_def p)
      then have "search_loop b what e (c # cs) k i p =
          (if within e (n + d + length what) then here else PTR_NOT_FOUND)"
        using True Some by (simp add: search_loop.simps(2) A_def [symmetric] here_def [symmetric] within_def split: option.split)
      ultimately show ?thesis using at by (simp add: found_def)
    next
      case False
      then have before1: "\<forall>j < d + 1. \<not> starts what (drop j (drop n (content b)))"
        using before cmp less_Suc_eq by auto
      have le1: "n + (d + 1) \<le> length (content b)" using le d(1) len by simp
      show ?thesis
      proof (cases "i + d + 1 = off c")
        case True
        then have "off c - i = d + 1" by simp
        with nx have "walk_at b (k + 1) 0 (n + (d + 1))" by simp
        then have "found b what e (n + (d + 1)) (search_loop b what e cs (k + 1) 0 (pos here + 1))"
          by (intro 2(2) [OF Some [unfolded A_def] here_def False True])
            (use 2(4-7) c p in \<open>simp_all add: here_def\<close>)
        from found_skip [OF what before1 le1 this] Some False True show ?thesis
          by (simp add: search_loop.simps(2) A_def [symmetric] here_def)
      next
        case inside: False
        have "walk_at b k (i + (d + 1)) (n + (d + 1))"
          by (rule walk_in_chain [OF w k]) (use d(1) len c in simp)
        then have "found b what e (n + (d + 1)) (search_loop b what e (c # cs) k (i + d + 1) (pos here + 1))"
          by (intro 2(3) [OF Some [unfolded A_def] here_def False inside])
            (use 2(4-7) p cs in \<open>simp_all add: here_def\<close>)
        from found_skip [OF what before1 le1 this] Some False inside show ?thesis
          by (simp add: search_loop.simps(2) A_def [symmetric] here_def)
      qed
    qed
  qed
qed

lemma search_range_ok:
  assumes "evb_ok b" and "length (content b) \<le> EV_SSIZE_MAX" and "what \<noteq> []" and "length what \<le> EV_SSIZE_MAX"
    and "end_ok b e" and "case st of None \<Rightarrow> n = 0 | Some it \<Rightarrow> byte_at b it n"
  shows "found b what e n (evbuffer_search_range b what st e)"
proof -
  define it where "it = (case st of None \<Rightarrow> begin_ptr b | Some it \<Rightarrow> it)"
  have "walk_at b (chain_no it) (pos_in_chain it) n \<and> chains_from b it = drop (chain_no it) (chains b) \<and> pos it = int n"
    using assms(6) begin_walk byte_walk by (auto simp: it_def split: option.splits)
  with search_loop_ok [OF assms(1-3,5)] assms(3,4) show ?thesis
    by (auto simp: evbuffer_search_range_def it_def Let_def)
qed

section \<open>Lines\<close>

lemma scan_ok:
  assumes "evb_ok b" and "\<And>bs. srch bs = first_index P bs"
    and "walk_at b (chain_no it) (pos_in_chain it) n \<and> chains_from b it = drop (chain_no it) (chains b) \<and> pos it = int n"
  shows "case first_index P (drop n (content b)) of
      None \<Rightarrow> scan_chains srch (chains_from b it) (chain_no it) (pos_in_chain it) (pos it) = None
    | Some d \<Rightarrow> \<exists>r. scan_chains srch (chains_from b it) (chain_no it) (pos_in_chain it) (pos it) = Some r \<and>
        byte_at b r (n + d)"
proof -
  from assms(3) have e: "chains_from b it = drop (chain_no it) (chains b)" "pos it = int n"
    "walk_at b (chain_no it) (pos_in_chain it) n" by simp_all
  show ?thesis unfolding e(1,2) by (rule scan_chains_ok [OF assms(1) e(3) assms(2)])
qed

lemma strchr_ok:
  assumes "evb_ok b"
    and "walk_at b (chain_no it) (pos_in_chain it) n \<and> chains_from b it = drop (chain_no it) (chains b) \<and> pos it = int n"
  shows "case first_index (\<lambda>x. x = c) (drop n (content b)) of
      None \<Rightarrow> evbuffer_strchr b it c = None
    | Some d \<Rightarrow> \<exists>r. evbuffer_strchr b it c = Some r \<and> byte_at b r (n + d)"
  unfolding evbuffer_strchr_def by (rule scan_ok [OF assms(1) _ assms(2)]) (simp add: memchr_def)

lemma find_eol_ok:
  assumes "evb_ok b"
    and "walk_at b (chain_no it) (pos_in_chain it) n \<and> chains_from b it = drop (chain_no it) (chains b) \<and> pos it = int n"
  shows "case first_index is_eol (drop n (content b)) of
      None \<Rightarrow> evbuffer_find_eol_char b it = None
    | Some d \<Rightarrow> \<exists>r. evbuffer_find_eol_char b it = Some r \<and> byte_at b r (n + d)"
  unfolding evbuffer_find_eol_char_def by (rule scan_ok [OF assms(1) _ assms(2)]) (simp add: find_eol_char_eq)

text \<open>What a search for an end of line from byte \<open>n\<close> on has to return.\<close>

definition eol_found :: "evbuffer \<Rightarrow> evbuffer_eol_style \<Rightarrow> nat \<Rightarrow> (evbuffer_ptr \<times> nat) option \<Rightarrow> bool" where
  "eol_found b style n r \<longleftrightarrow>
     (case eol_ref style (drop n (content b)) of
        None \<Rightarrow> r = None
      | Some (d, l) \<Rightarrow> \<exists>it. r = Some (it, l) \<and> byte_at b it (n + d))"

lemma search_crlf_ok:
  assumes "evb_ok b" and "length (content b) \<le> EV_SSIZE_MAX"
    and w: "walk_at b (chain_no st) (pos_in_chain st) n \<and> chains_from b st = drop (chain_no st) (chains b) \<and> pos st = int n"
  shows "eol_found b EVBUFFER_EOL_CRLF n (search_crlf b st)"
proof (cases "first_index (\<lambda>x. x = LF) (drop n (content b))")
  case None
  with strchr_ok [OF assms(1) w, of LF] show ?thesis by (simp add: eol_found_def eol_ref_def search_crlf_def)
next
  case (Some d)
  with strchr_ok [OF assms(1) w, of LF] obtain it where it: "evbuffer_strchr b st LF = Some it" "byte_at b it (n + d)"
    by auto
  then have p: "pos it = int (n + d)" using byte_walk by blast
  show ?thesis
  proof (cases "d = 0")
    case True
    with Some it p w show ?thesis by (simp add: eol_found_def eol_ref_def search_crlf_def)
  next
    case False
    have lt: "n + d < length (content b)" using byte_less [OF assms(1) it(2)] .
    obtain r it2 where s: "evbuffer_ptr_subtract b it 1 = (r, it2)" by fastforce
    with ptr_subtract_ok [OF assms(1) it(2)] False lt assms(2) have r: "r = 0" "byte_at b it2 (n + d - 1)" by auto
    have "drop n (content b) ! (d - 1) = content b ! (n + d - 1)" using False lt by simp
    with getchr_ok [OF assms(1) r(2)]
    have "evbuffer_getchr b it2 = uint CR \<longleftrightarrow> drop n (content b) ! (d - 1) = CR"
      by (simp only: word_uint_eq_iff)
    with Some it p w s r False show ?thesis by (auto simp: eol_found_def eol_ref_def search_crlf_def)
  qed
qed

lemma search_style_ok:
  assumes "evb_ok b" and "length (content b) \<le> EV_SSIZE_MAX"
    and w: "walk_at b (chain_no st) (pos_in_chain st) n \<and> chains_from b st = drop (chain_no st) (chains b) \<and> pos st = int n"
  shows "eol_found b style n (search_style b st style)"
proof (cases style)
  case EVBUFFER_EOL_ANY
  show ?thesis
  proof (cases "first_index is_eol (drop n (content b))")
    case (Some d)
    with find_eol_ok [OF assms(1) w] obtain it where it: "evbuffer_find_eol_char b st = Some it" "byte_at b it (n + d)"
      by auto
    with Some EVBUFFER_EOL_ANY strspn_ok [OF assms(1) it(2), of "[CR, LF]"] show ?thesis
      by (simp add: eol_found_def eol_ref_def search_style_def add.commute disj_commute)
  qed (use find_eol_ok [OF assms(1) w] EVBUFFER_EOL_ANY in \<open>simp add: eol_found_def eol_ref_def search_style_def\<close>)
next
  case EVBUFFER_EOL_CRLF_STRICT
  have "found b [CR, LF] None n (evbuffer_search b [CR, LF] (Some st))"
    using search_loop_ok [OF assms(1,2), of "[CR, LF]" None] w
    by (auto simp: evbuffer_search_def evbuffer_search_range_def end_ok_def EV_SSIZE_MAX_def)
  with EVBUFFER_EOL_CRLF_STRICT byte_walk show ?thesis
    by (auto simp: found_def within_def eol_found_def eol_ref_def search_style_def PTR_NOT_FOUND_def Let_def
        split: option.splits)
next
  case EVBUFFER_EOL_CRLF
  with search_crlf_ok [OF assms] show ?thesis by (simp add: search_style_def)
next
  case EVBUFFER_EOL_LF
  with strchr_ok [OF assms(1) w, of LF] show ?thesis
    by (cases "first_index (\<lambda>x. x = LF) (drop n (content b))") (auto simp: eol_found_def eol_ref_def search_style_def)
next
  case EVBUFFER_EOL_NUL
  with strchr_ok [OF assms(1) w, of 0] show ?thesis
    by (cases "first_index (\<lambda>x. x = 0) (drop n (content b))") (auto simp: eol_found_def eol_ref_def search_style_def)
qed

lemma search_eol_ok:
  assumes "evb_ok b" and "length (content b) \<le> EV_SSIZE_MAX"
    and "case st of None \<Rightarrow> n = 0 | Some it \<Rightarrow> byte_at b it n"
  shows "case eol_ref style (drop n (content b)) of
      None \<Rightarrow> evbuffer_search_eol b st style = (PTR_NOT_FOUND, 0)
    | Some (d, l) \<Rightarrow> \<exists>it. evbuffer_search_eol b st style = (it, l) \<and> byte_at b it (n + d)"
proof -
  define it where "it = (case st of None \<Rightarrow> begin_ptr b | Some it \<Rightarrow> it)"
  have "walk_at b (chain_no it) (pos_in_chain it) n \<and> chains_from b it = drop (chain_no it) (chains b) \<and> pos it = int n"
    using assms(3) begin_walk byte_walk by (auto simp: it_def split: option.splits)
  from search_style_ok [OF assms(1,2) this, of style] have "eol_found b style n (search_style b it style)" .
  moreover have "evbuffer_search_eol b st style = (case search_style b it style of None \<Rightarrow> (PTR_NOT_FOUND, 0) | Some r \<Rightarrow> r)"
    using assms(3) by (auto simp: evbuffer_search_eol_def it_def byte_at_def split: option.splits)
  ultimately show ?thesis by (auto simp: eol_found_def split: option.splits)
qed

lemma readln_ok:
  assumes "evb_ok b" and "length (content b) \<le> EV_SSIZE_MAX"
  shows "case (if freeze_start b then None else eol_ref style (content b)) of
      None \<Rightarrow> evbuffer_readln m b style = (None, 0, b)
    | Some (p, l) \<Rightarrow>
        if m (p + 1) = None then evbuffer_readln m b style = (None, 0, b)
        else \<exists>b'. evbuffer_readln m b style = (Some (take p (content b)), p, b') \<and> evb_ok b' \<and>
               content b' = drop (p + l) (content b) \<and> freeze_start b' = freeze_start b \<and> freeze_end b' = freeze_end b"
proof (cases "freeze_start b")
  case True
  then show ?thesis by (simp add: evbuffer_readln_def)
next
  case False
  note eol = search_eol_ok [OF assms, where st = None and n = 0 and style = style]
  show ?thesis
  proof (cases "eol_ref style (content b)")
    case None
    with eol False show ?thesis by (simp add: evbuffer_readln_def PTR_NOT_FOUND_def)
  next
    case (Some e)
    obtain p l where e: "e = (p, l)" by fastforce
    with eol Some obtain it where it: "evbuffer_search_eol b None style = (it, l)" "byte_at b it p" by auto
    then have pos: "pos it = int p" using byte_walk by blast
    obtain r line b1 where rm: "evbuffer_remove b p = (r, line, b1)" by (metis surj_pair)
    note R = evbuffer_remove_ok [OF assms(1) rm]
    obtain r2 b2 where dr: "evbuffer_drain b1 l = (r2, b2)" by fastforce
    note D = evbuffer_drain_ok [OF R(1) dr]
    from R(2-4) D(1-4) False have "line = take p (content b)" "evb_ok b2" "content b2 = drop (p + l) (content b)"
      "freeze_start b2 = freeze_start b" "freeze_end b2 = freeze_end b"
      by (simp_all add: add.commute)
    with Some e it(1) pos rm dr False show ?thesis by (simp add: evbuffer_readln_def)
  qed
qed

text \<open>
  C28: Reading a line does not depend on how the bytes are cut into chains. For each of the five
  styles \<^verbatim>\<open>evbuffer_readln\<close> returns the bytes before the first end of line of the byte string, takes
  them and that end off the buffer, and leaves the buffer alone where there is none, where the line
  cannot be allocated or where the front is frozen.
\<close>

theorem readln_reference:
  assumes "evb_ok b" and "length (content b) \<le> EV_SSIZE_MAX"
  shows "case (if freeze_start b then None else eol_ref style (content b)) of
      None \<Rightarrow> evbuffer_readln m b style = (None, 0, b)
    | Some (p, l) \<Rightarrow>
        if m (p + 1) = None then evbuffer_readln m b style = (None, 0, b)
        else \<exists>b'. evbuffer_readln m b style = (Some (take p (content b)), p, b') \<and> evb_ok b' \<and>
               content b' = drop (p + l) (content b)"
using readln_ok [OF assms, of m style] by (auto split: option.splits prod.splits if_splits)

section \<open>Making bytes contiguous\<close>

lemma pull_chains_ok:
  assumes "list_all chain_ok cs" and "sz \<le> length (data_of cs)" and "pull_chains cs sz = (bs, n, rest)"
  shows "bs = take sz (data_of cs) \<and> data_of rest = drop sz (data_of cs) \<and> list_all chain_ok rest \<and>
    (rest = [] \<and> n = length cs \<or>
     n < length cs \<and> off (cs ! n) \<noteq> 0 \<and> (\<exists>c. rest = c # drop (n + 1) cs \<and> off c \<noteq> 0))"
  using assms
proof (induction cs sz arbitrary: bs n rest rule: pull_chains.induct)
  case (2 c cs sz)
  then have c: "length (chain_data c) = off c" "chain_ok c" by (simp_all add: length_chain_data)
  show ?case
  proof (cases "off c \<le> sz")
    case True
    obtain bs1 n1 rest1 where r: "pull_chains cs (sz - off c) = (bs1, n1, rest1)" by (metis surj_pair)
    with True 2(4) have e: "bs = chain_data c @ bs1" "n = n1 + 1" "rest = rest1" by auto
    from 2(1) [OF True _ _ r] 2(2,3) c True e show ?thesis by auto
  next
    case False
    with 2(4) have e: "bs = take sz (drop (misalign c) (buffer c))" "n = 0"
      "rest = c\<lparr>misalign := misalign c + sz, off := off c - sz\<rparr> # cs" by auto
    have "chain_data (c\<lparr>misalign := misalign c + sz, off := off c - sz\<rparr>) = drop sz (chain_data c)"
      using False by (simp add: chain_data_def drop_take add.commute)
    moreover have "bs = take sz (chain_data c)" using False e by (simp add: chain_data_def min_absorb1)
    ultimately show ?thesis using False e c 2(2) by (simp add: chain_ok_def buffer_len_def)
  qed
qed simp

lemma pulled_lwd_ok:
  assumes "lwd_ok chs l" and "0 < l" and "l < length chs" and "i \<le> 1" and "i = 0 \<Longrightarrow> 0 < n" and "off tmp \<noteq> 0"
    and "rest = [] \<and> n = length (drop i chs) \<or>
     n < length (drop i chs) \<and> off (drop i chs ! n) \<noteq> 0 \<and> (\<exists>c. rest = c # drop (n + 1) (drop i chs) \<and> off c \<noteq> 0)"
  shows "lwd_ok (tmp # rest) (pulled_lwd l i n rest)"
proof -
  have l: "off (chs ! l) \<noteq> 0" and tail: "\<forall>c \<in> set (drop (l + 1) chs). off c = 0"
    using assms(1-3) by (auto simp: lwd_ok_def list_all_iff split: if_splits)
  have after: "off (chs ! j) = 0" if "l < j" "j < length chs" for j
  proof -
    have "drop (l + 1) chs ! (j - (l + 1)) \<in> set (drop (l + 1) chs)" using that by (intro nth_mem) simp
    with tail that show ?thesis by simp
  qed
  consider (none) "rest = []" "n + i = length chs"
    | (some) c where "n + i < length chs" "off (chs ! (n + i)) \<noteq> 0" "rest = c # drop (n + i + 1) chs" "off c \<noteq> 0"
    using assms(3,4,7) by (auto simp: add.commute)
  then show ?thesis
  proof cases
    case none
    then have "pulled_lwd l i n rest = 0" using assms(2,3,4) by (auto simp: pulled_lwd_def)
    with none(1) show ?thesis by (simp add: lwd_ok_def)
  next
    case some
    have "n + i \<le> l" using after some(1,2) not_less by blast
    then consider "l = n + i" | "n + i < l" by linarith
    then show ?thesis
    proof cases
      case 1
      have "list_all (\<lambda>c. off c = 0) (drop (n + i + 1) chs)" using after 1 by (auto simp: list_all_length)
      moreover have "pulled_lwd l i n rest = 1" using 1 some assms(2,4,5) by (cases "n = 0") (auto simp: pulled_lwd_def)
      ultimately show ?thesis using some by (simp add: lwd_ok_def)
    next
      case 2
      then have p: "pulled_lwd l i n rest = l + 1 - (n + i)" using assms(2) by (auto simp: pulled_lwd_def)
      have "list_all (\<lambda>c. off c = 0) (drop (l + 1) chs)" using after by (auto simp: list_all_length)
      moreover have "(tmp # rest) ! (l + 1 - (n + i)) = chs ! l" using 2 some assms(3) by (simp add: nth_Cons')
      moreover have "drop (l + 1 - (n + i)) rest = drop (l + 1) chs" using 2 some by (simp add: drop_Cons')
      moreover have "l + 1 - (n + i) < length (tmp # rest)" using 2 some assms(3) by simp
      ultimately show ?thesis unfolding p lwd_ok_def using l by simp
    qed
  qed
qed

lemma pull_into_ok:
  assumes ok: "evb_ok b" and i: "i \<le> 1" and tmp: "chain_ok tmp" "off tmp = had" "misalign tmp + sz \<le> buffer_len tmp"
    and sz: "had < sz" "sz - had \<le> length (data_of (drop i (chains b)))" "0 < lwd b"
    and whole: "chain_data tmp @ data_of (drop i (chains b)) = content b"
    and n: "i = 0 \<Longrightarrow> chains b \<noteq> [] \<and> off (hd (chains b)) \<le> sz - had"
    and res: "pull_into b tmp had i (drop i (chains b)) sz = (r, b')"
  shows "evb_ok b' \<and> content b' = content b \<and> r = Some (take sz (content b)) \<and>
    chains b' \<noteq> [] \<and> off (hd (chains b')) = sz"
proof -
  obtain bs k rest where pc: "pull_chains (drop i (chains b)) (sz - had) = (bs, k, rest)" by (metis surj_pair)
  have okc: "list_all chain_ok (drop i (chains b))"
    using ok by (auto simp: evb_ok_def list_all_iff dest: in_set_dropD)
  note p = pull_chains_ok [OF okc sz(2) pc]
  have bs: "length bs = sz - had" using p sz(2) by simp
  define t where "t = (chain_write (misalign tmp + had) bs tmp)\<lparr>off := sz\<rparr>"
  have fits: "misalign tmp + off tmp + length bs \<le> buffer_len tmp" using tmp(2,3) sz(1) bs by simp
  have data: "chain_data t = chain_data tmp @ bs"
    using chain_data_write_end [OF fits] bs sz(1) tmp(2) by (simp add: t_def)
  have okt: "chain_ok t" "off t = sz"
    using tmp fits bs by (simp_all add: t_def chain_ok_def buffer_len_def chain_write_def)
  have e: "r = Some (take sz (drop (misalign t) (buffer t)))" "b' = b\<lparr>chains := t # rest, lwd := pulled_lwd (lwd b) i k rest\<rparr>"
    using res [unfolded pull_into_def pc Let_def prod.case, folded t_def] by simp_all
  have content: "content b' = content b"
    using e(2) data p whole by (simp add: content_def)
  have lwd: "lwd_ok (t # rest) (pulled_lwd (lwd b) i k rest)"
  proof (rule pulled_lwd_ok)
    show "lwd_ok (chains b) (lwd b)" using ok by (simp add: evb_ok_def)
    then show "lwd b < length (chains b)" using sz(3) by (auto simp: lwd_ok_def split: if_splits)
    show "0 < k" if "i = 0"
    proof -
      from n [OF that] obtain c cs where "chains b = c # cs" "off c \<le> sz - had" by (cases "chains b") auto
      with that pc show ?thesis by (auto split: prod.splits)
    qed
  qed (use i sz(1,3) okt p in auto)
  have "total_len b' = length (content b')" using e(2) ok content by (simp add: evb_ok_def)
  with e(2) okt p lwd have "evb_ok b'" by (simp add: evb_ok_def)
  moreover have "take sz (drop (misalign t) (buffer t)) = chain_data t" using okt(2) by (simp add: chain_data_def)
  moreover have "content b = chain_data t @ data_of rest" using content e(2) by (simp add: content_def)
  then have "chain_data t = take sz (content b)" using okt length_chain_data [OF okt(1)] by simp
  ultimately show ?thesis using e content okt by simp
qed

lemma pullup_ok:
  assumes ok: "evb_ok b" and mm: "mm_ok m" and res: "evbuffer_pullup m b sz = (r, b')"
  defines "n \<equiv> (if sz < 0 then length (content b) else nat sz)"
  shows "evb_ok b' \<and> content b' = content b \<and> (r = None \<and> b' = b \<or>
     0 < n \<and> n \<le> length (content b) \<and> r = Some (take n (content b)) \<and> chains b' \<noteq> [] \<and> n \<le> off (hd (chains b')))"
proof -
  have tot: "total_len b = length (content b)" using ok by (simp add: evb_ok_def)
  then have nn: "(if sz < 0 then total_len b else nat sz) = n" by (simp add: n_def)
  show ?thesis
  proof (cases "n = 0 \<or> n > length (content b) \<or> chains b = []")
    case True
    with tot have "evbuffer_pullup m b sz = (None, b)" unfolding evbuffer_pullup_def Let_def nn by auto
    with res ok show ?thesis by simp
  next
    case False
    then obtain c cs where cs: "chains b = c # cs" by (cases "chains b") auto
    have c: "chain_ok c" "length (chain_data c) = off c" using ok cs by (simp_all add: evb_ok_def length_chain_data)
    have n: "0 < n" "n \<le> length (content b)" using False by auto
    have eq: "evbuffer_pullup m b sz =
       (if off c \<ge> n then (Some (take n (drop (misalign c) (buffer c))), b)
        else if pinned_ahead cs (n - off c) then (None, b)
        else if CHAIN_PINNED c then
          (if CHAIN_SPACE_LEN c < n - off c then (None, b) else pull_into b c (off c) 1 cs n)
        else if buffer_len c - misalign c \<ge> n then pull_into b c (off c) 1 cs n
        else (case evbuffer_chain_new m n of None \<Rightarrow> (None, b) | Some tmp \<Rightarrow> pull_into b tmp 0 0 (c # cs) n))"
      using False cs tot unfolding evbuffer_pullup_def Let_def nn by simp
    show ?thesis
    proof (cases "off c \<ge> n")
      case True
      then have "take n (drop (misalign c) (buffer c)) = take n (content b)"
        using cs c by (simp add: content_def) (simp add: chain_data_def min_absorb1)
      with True eq res ok cs n show ?thesis by auto
    next
      case short: False
      have lwd: "0 < lwd b"
      proof (rule ccontr)
        assume "\<not> 0 < lwd b"
        then have "data_of cs = []" using ok cs by (auto simp: evb_ok_def lwd_ok_def intro: data_of_empty)
        with short n(2) cs c show False by (simp add: content_def)
      qed
      have whole: "chain_data c @ data_of cs = content b" using cs by (simp add: content_def)
      then have rest: "n - off c \<le> length (data_of cs)" using n(2) c by (metis diff_le_mono length_append diff_add_inverse)
      have one: ?thesis if "pull_into b c (off c) 1 cs n = (r, b')" "misalign c + n \<le> buffer_len c"
        using pull_into_ok [OF ok _ c(1) refl that(2), of 1] that(1) short rest lwd whole cs n by auto
      have zero: ?thesis if "pull_into b tmp 0 0 (c # cs) n = (r, b')" "evbuffer_chain_new m n = Some tmp" for tmp
      proof -
        note f = chain_new_fields [OF mm that(2)]
        have "evb_ok b' \<and> content b' = content b \<and> r = Some (take n (content b)) \<and>
            chains b' \<noteq> [] \<and> off (hd (chains b')) = n"
          by (rule pull_into_ok [OF ok _ f(7,3) _ n(1) _ lwd, of 0])
            (use f that(1) short n cs in \<open>simp_all add: content_def\<close>)
        with n show ?thesis by simp
      qed
      from res show ?thesis
        unfolding eq using short ok one zero c(1)
        by (auto simp: chain_ok_def CHAIN_SPACE_LEN_def not_less split: if_splits option.splits)
    qed
  qed
qed

lemma not_pinned_ahead: "list_all (\<lambda>c. \<not> CHAIN_PINNED c) cs \<Longrightarrow> \<not> pinned_ahead cs n"
  by (induction cs n rule: pinned_ahead.induct) auto

lemma pull_into_some: "fst (pull_into b tmp had i cs sz) \<noteq> None"
  by (simp add: pull_into_def Let_def split: prod.split)

lemma pullup_total:
  assumes "evb_ok b" and "mm_total m" and "list_all (\<lambda>c. \<not> CHAIN_PINNED c) (chains b)"
    and "0 < n" and "n \<le> length (content b)" and "n \<le> EVBUFFER_CHAIN_MAX - EVBUFFER_CHAIN_SIZE"
  shows "fst (evbuffer_pullup m b (int n)) \<noteq> None"
proof -
  have tot: "total_len b = length (content b)" using assms(1) by (simp add: evb_ok_def)
  from assms(4,5) obtain c cs where cs: "chains b = c # cs" by (cases "chains b") (auto simp: content_def)
  have a: "\<not> CHAIN_PINNED c" "\<not> pinned_ahead cs k" for k
    using assms(3) cs not_pinned_ahead by simp_all
  obtain tmp where new: "evbuffer_chain_new m n = Some tmp" using chain_new_exists [OF assms(2,6)] .
  show ?thesis
    using assms(4,5) tot by (simp add: evbuffer_pullup_def cs a new pull_into_some [unfolded not_None_eq] Let_def pull_into_some)
qed


section \<open>Instances\<close>

text \<open>Lines whose ends are cut by the border of two chains.\<close>

definition two_chains :: evbuffer where
  "two_chains = evbuffer_new\<lparr>chains :=
     [\<lparr>buffer = [104, 105, 13], misalign = 0, off = 3, immutable = False, pinned_r = False, pinned_w = False\<rparr>,
      \<lparr>buffer = [10, 121, 111, 10], misalign = 0, off = 4, immutable = False, pinned_r = False, pinned_w = False\<rparr>],
     total_len := 7, lwd := 1\<rparr>"

lemma two_chains_ok: "evb_ok two_chains" "content two_chains = [104, 105, 13, 10, 121, 111, 10]" "\<not> freeze_start two_chains"
  by (simp_all add: two_chains_def evb_ok_def evbuffer_new_def content_def chain_ok_def chain_data_def buffer_len_def
      lwd_ok_def EVBUFFER_CHAIN_MAX_def EV_SSIZE_MAX_def EVBUFFER_CHAIN_SIZE_def)

theorem readln_reference_witness:
  "\<exists>b. evbuffer_readln (\<lambda>n. Some (replicate n 0)) two_chains EVBUFFER_EOL_CRLF = (Some [104, 105], 2, b) \<and>
    content b = [121, 111, 10]"
proof -
  have "eol_ref EVBUFFER_EOL_CRLF (content two_chains) = Some (2, 2)"
    by (simp add: two_chains_ok eol_ref_def)
  with readln_reference [OF two_chains_ok(1), of "\<lambda>n. Some (replicate n 0)" EVBUFFER_EOL_CRLF] show ?thesis
    by (auto simp: two_chains_ok EV_SSIZE_MAX_def)
qed


end
