(* ===== verification/HttpMessageSpec.thy ===== *)
theory HttpMessageSpec
  imports HttpMessage HttpUriSpec EvbufferLines ByteQueue
begin

text \<open>
  What the readers of messages promise: the outcome does not depend on how the bytes arrive nor on
  how they lie in the buffer, and what one side writes is what the other reads. The readers are first
  related to functions on byte strings; \<open>stream_reader\<close> is the interface of these.
\<close>

section \<open>Readers of a stream\<close>

text \<open>
  A reader takes what it can off the bytes there are. It stops with a result, or wants more and is
  called again with what it left and what has arrived since.
\<close>

fun feed :: "('s \<Rightarrow> 'a list \<Rightarrow> 'r option \<times> 's \<times> 'a list) \<Rightarrow> 's \<Rightarrow> 'a list \<Rightarrow> 'a list list \<Rightarrow>
    'r option \<times> 's \<times> 'a list" where
  "feed run s left [] = (None, s, left)"
| "feed run s left (x # xs) =
     (case run s (left @ x) of
        (Some r, s', left') \<Rightarrow> (Some r, s', left' @ concat xs)
      | (None, s', left') \<Rightarrow> feed run s' left' xs)"

locale stream_reader =
  fixes run :: "'s \<Rightarrow> 'a list \<Rightarrow> 'r option \<times> 's \<times> 'a list" and good :: "'s \<Rightarrow> bool"
  assumes good_run: "good s \<Longrightarrow> run s p = (None, s', left) \<Longrightarrow> good s'"
    and more: "good s \<Longrightarrow> run s p = (None, s', left) \<Longrightarrow> run s (p @ q) = run s' (left @ q)"
    and stopped: "good s \<Longrightarrow> run s p = (Some r, s', left) \<Longrightarrow> run s (p @ q) = (Some r, s', left @ q)"
begin

text \<open>In pieces or at once: the same.\<close>

lemma feed_whole: "good s \<Longrightarrow> xs \<noteq> [] \<Longrightarrow> feed run s left xs = run s (left @ concat xs)"
proof (induction xs arbitrary: s left)
  case (Cons x xs)
  obtain r s' left' where r: "run s (left @ x) = (r, s', left')" by (metis prod_cases3)
  show ?case
  proof (cases r)
    case (Some st)
    then show ?thesis using stopped [OF Cons.prems(1), of "left @ x" st s' left' "concat xs"] r by simp
  next
    case None
    note m = more [OF Cons.prems(1) r [unfolded None], of "concat xs"]
    show ?thesis
    proof (cases "xs = []")
      case True
      then show ?thesis using r None by simp
    next
      case False
      then show ?thesis using Cons.IH [of s' left'] good_run [OF Cons.prems(1) r [unfolded None]] r None m by simp
    qed
  qed
qed simp

end

section \<open>Lines\<close>

lemma eol_crlf_prefix:
  assumes "eol_ref EVBUFFER_EOL_CRLF p = Some (n, l)"
  shows "eol_ref EVBUFFER_EOL_CRLF (p @ q) = Some (n, l)" "n + l \<le> length p" "0 < l"
    "take n (p @ q) = take n p" "drop (n + l) (p @ q) = drop (n + l) p @ q"
proof -
  obtain i where i: "first_index (\<lambda>x. x = LF) p = Some i" "(n, l) = (if 0 < i \<and> p ! (i - 1) = CR then (i - 1, 2) else (i, 1))"
    using assms by (auto simp: eol_ref_def)
  then have "i < length p" using first_index_less by blast
  moreover have "first_index (\<lambda>x. x = LF) (p @ q) = Some i" using i(1) by (simp add: first_index_append)
  ultimately show "eol_ref EVBUFFER_EOL_CRLF (p @ q) = Some (n, l)" "n + l \<le> length p" "0 < l"
    "take n (p @ q) = take n p" "drop (n + l) (p @ q) = drop (n + l) p @ q"
    using i(2) by (auto simp: eol_ref_def nth_append split: if_splits)
qed

text \<open>A line without an end of line in it, ended by CR LF.\<close>

lemma eol_crlf_line:
  assumes "LF \<notin> set s" "s = [] \<or> last s \<noteq> CR"
  shows "eol_ref EVBUFFER_EOL_CRLF (s @ CR # LF # q) = Some (length s, 2)"
proof -
  have "first_index (\<lambda>x. x = LF) (s @ [CR]) = None" using assms(1) by (auto simp: first_index_None)
  then have "first_index (\<lambda>x. x = LF) ((s @ [CR]) @ LF # q) = Some (length s + 1)"
    by (simp only: first_index_append) simp
  then show ?thesis by (simp add: eol_ref_def nth_append)
qed

section \<open>A body in chunks, as bytes\<close>

function chunk_ref ::
    "evhttp_request \<times> byte list \<Rightarrow> byte list \<Rightarrow>
     message_read_status option \<times> (evhttp_request \<times> byte list) \<times> byte list" where
  "chunk_ref (req, got) bs =
     (if bs = [] then (None, (req, got), bs)
      else if ntoread req < 0 then
        (case eol_ref EVBUFFER_EOL_CRLF bs of
           None \<Rightarrow> (None, (req, got), bs)
         | Some (p, l) \<Rightarrow>
             (case chunk_header req (line_text (take p bs)) of
                (Some status, req) \<Rightarrow> (Some status, (req, got), drop (p + l) bs)
              | (None, req) \<Rightarrow> chunk_ref (req, got) (drop (p + l) bs)))
      else if ntoread req > 0 \<and> int (length bs) < ntoread req then (None, (req, got), bs)
      else chunk_ref (req\<lparr>ntoread := -1\<rparr>, got @ take (nat (ntoread req)) bs) (drop (nat (ntoread req)) bs))"
  by pat_completeness auto
termination
proof (relation "measure (\<lambda>((req, _), bs). 2 * length bs + (if ntoread req < 0 then 0 else 1))")
  fix req req2 :: evhttp_request and got bs :: "byte list" and x :: "nat \<times> nat" and p l :: nat
    and r2 :: "message_read_status option \<times> evhttp_request" and st
  assume "eol_ref EVBUFFER_EOL_CRLF bs = Some x" "(p, l) = x" "ntoread req < 0"
  with eol_crlf_prefix(2,3) [of bs p l] have "0 < length bs" "length (drop (p + l) bs) < length bs" by auto
  with \<open>ntoread req < 0\<close> show "(((req2, got), drop (p + l) bs), ((req, got), bs)) \<in>
      measure (\<lambda>((req, _), bs). 2 * length bs + (if ntoread req < 0 then 0 else 1))"
    by simp
qed auto

declare chunk_ref.simps [simp del]

lemma strtol_le: "fst (strtol base s) \<le> LONG_MAX"
proof -
  have "clamp_long x \<le> LONG_MAX" for x by (simp add: clamp_long_def LONG_MAX_def LONG_MIN_def)
  then show ?thesis by (simp add: strtol_def Let_def LONG_MAX_def)
qed

lemma chunk_header_ntoread:
  assumes "chunk_header req line = (None, req')" "ntoread req < 0"
  shows "ntoread req' \<le> int EV_SSIZE_MAX"
proof (cases "line = []")
  case False
  obtain n e where s: "strtol 16 line = (n, e)" by fastforce
  then have "n \<le> int EV_SSIZE_MAX"
    using strtol_le [of 16 line] by (simp add: EV_SSIZE_MAX_def LONG_MAX_def)
  moreover have "ntoread req' = n"
    using assms(1) False s unfolding chunk_header_def chunk_size_def Let_def
    by (auto split: option.split_asm if_split_asm)
  ultimately show ?thesis by simp
qed (use assms in \<open>simp add: chunk_header_def EV_SSIZE_MAX_def\<close>)

text \<open>What was read of a part is read of the whole, and the reading goes on where it stopped.\<close>

definition goes_on :: "evhttp_request \<times> byte list \<Rightarrow> byte list \<Rightarrow> byte list \<Rightarrow> bool" where
  "goes_on s p q \<longleftrightarrow>
     (case chunk_ref s p of
        (None, s', left) \<Rightarrow> chunk_ref s (p @ q) = chunk_ref s' (left @ q)
      | (Some r, s', left) \<Rightarrow> chunk_ref s (p @ q) = (Some r, s', left @ q))"

lemma goes_on_step:
  "chunk_ref s p = chunk_ref s1 p1 \<Longrightarrow> chunk_ref s (p @ q) = chunk_ref s1 (p1 @ q) \<Longrightarrow> goes_on s1 p1 q \<Longrightarrow> goes_on s p q"
  by (auto simp: goes_on_def split: prod.splits option.splits)

lemma goes_on_all: "goes_on s p q"
proof (cases s)
  case (Pair req got)
  have "goes_on (req, got) p q"
  proof (induction "(req, got)" p arbitrary: req got rule: chunk_ref.induct)
    case (1 req got bs)
    consider (none) "bs = []" | (wait) "bs \<noteq> []" "ntoread req < 0" "eol_ref EVBUFFER_EOL_CRLF bs = None"
      | (line) n l st req' where "bs \<noteq> []" "ntoread req < 0" "eol_ref EVBUFFER_EOL_CRLF bs = Some (n, l)"
          "chunk_header req (line_text (take n bs)) = (st, req')"
      | (short) "bs \<noteq> []" "\<not> ntoread req < 0" "ntoread req > 0 \<and> int (length bs) < ntoread req"
      | (data) "bs \<noteq> []" "\<not> ntoread req < 0" "\<not> (ntoread req > 0 \<and> int (length bs) < ntoread req)"
      by (metis not_Some_eq surj_pair)
    then show ?case
    proof cases
      case none
      then show ?thesis by (simp add: goes_on_def chunk_ref.simps [of req got "[]"])
    next
      case wait
      then show ?thesis by (simp add: goes_on_def chunk_ref.simps [of req got bs])
    next
      case (line n l st req')
      have e: "eol_ref EVBUFFER_EOL_CRLF (bs @ q) = Some (n, l)" "take n (bs @ q) = take n bs"
        "drop (n + l) (bs @ q) = drop (n + l) bs @ q" "n + l \<le> length bs"
        using eol_crlf_prefix(1,4,5) [OF line(3), where q = q] eol_crlf_prefix(2) [OF line(3)] by simp_all
      have here: "chunk_ref (req, got) bs = (case st of Some s \<Rightarrow> (Some s, (req', got), drop (n + l) bs)
          | None \<Rightarrow> chunk_ref (req', got) (drop (n + l) bs))"
        using line by (subst chunk_ref.simps) (simp split: option.split)
      have whole: "chunk_ref (req, got) (bs @ q) = (case st of Some s \<Rightarrow> (Some s, (req', got), drop (n + l) bs @ q)
          | None \<Rightarrow> chunk_ref (req', got) (drop (n + l) bs @ q))"
        using line e by (subst chunk_ref.simps) (simp split: option.split)
      show ?thesis
      proof (cases st)
        case None
        have "goes_on (req', got) (drop (n + l) bs) q"
          by (rule 1(1)) (use line None in simp_all)
        then show ?thesis using here whole None by (intro goes_on_step [of "(req, got)" bs "(req', got)" "drop (n + l) bs" q]) simp_all
      next
        case (Some s)
        then show ?thesis using here whole by (simp add: goes_on_def)
      qed
    next
      case short
      then show ?thesis by (simp add: goes_on_def chunk_ref.simps [of req got bs])
    next
      case data
      have here: "chunk_ref (req, got) bs = chunk_ref (req\<lparr>ntoread := -1\<rparr>, got @ take (nat (ntoread req)) bs)
          (drop (nat (ntoread req)) bs)"
        using data by (subst chunk_ref.simps) auto
      have "nat (ntoread req) \<le> length bs" using data by linarith
      then have whole: "chunk_ref (req, got) (bs @ q) = chunk_ref (req\<lparr>ntoread := -1\<rparr>, got @ take (nat (ntoread req)) bs)
          (drop (nat (ntoread req)) bs @ q)"
        using data by (subst chunk_ref.simps) auto
      have "goes_on (req\<lparr>ntoread := -1\<rparr>, got @ take (nat (ntoread req)) bs) (drop (nat (ntoread req)) bs) q"
        by (rule 1(2)) (use data in simp_all)
      then show ?thesis by (rule goes_on_step [OF here whole])
    qed
  qed
  then show ?thesis by (simp add: Pair)
qed

interpretation chunks: stream_reader chunk_ref "\<lambda>s. True"
proof unfold_locales
  fix s s' :: "evhttp_request \<times> byte list" and p q left :: "byte list" and r
  show "chunk_ref s p = (None, s', left) \<Longrightarrow> chunk_ref s (p @ q) = chunk_ref s' (left @ q)"
    and "chunk_ref s p = (Some r, s', left) \<Longrightarrow> chunk_ref s (p @ q) = (Some r, s', left @ q)"
    using goes_on_all [of s p q] by (simp_all add: goes_on_def)
qed simp

section \<open>A body in chunks, from a buffer\<close>

text \<open>A request but for the buffer it collects the body in.\<close>

definition bare :: "evhttp_request \<Rightarrow> evhttp_request" where
  "bare req = req\<lparr>input_buffer := evbuffer_new\<rparr>"

lemma bare_simps [simp]:
  "ntoread (bare req) = ntoread req" "body_size (bare req) = body_size req" "evcon (bare req) = evcon req"
  "bare (req\<lparr>ntoread := n\<rparr>) = (bare req)\<lparr>ntoread := n\<rparr>" "bare (req\<lparr>input_buffer := b\<rparr>) = bare req"
  "bare (req\<lparr>body_size := k\<rparr>) = (bare req)\<lparr>body_size := k\<rparr>"
  by (simp_all add: bare_def)

lemma chunk_header_bare:
  "chunk_header (bare req) line = (case chunk_header req line of (st, r) \<Rightarrow> (st, bare r))"
  "chunk_header req line = (st, r) \<Longrightarrow> input_buffer r = input_buffer req"
  by (auto simp: chunk_header_def Let_def split: option.splits if_splits)

definition chunk_status :: "message_read_status option \<Rightarrow> message_read_status" where
  "chunk_status st = (case st of None \<Rightarrow> MORE_DATA_EXPECTED | Some s \<Rightarrow> s)"

text \<open>The state the loop starts and ends in, and what it is of the bytes.\<close>

definition chunk_live :: "evhttp_request \<Rightarrow> evbuffer \<Rightarrow> bool" where
  "chunk_live req b \<longleftrightarrow> evb_live b \<and> evb_live (input_buffer req) \<and>
     length (content b) + length (content (input_buffer req)) \<le> EVQ_CAP \<and> ntoread req \<le> int EV_SSIZE_MAX"

lemma chunked_loop_ref:
  assumes "mm_total m" "chunk_live req b" "2 * length (content b) + (if ntoread req < 0 then 0 else 1) < fuel"
  shows "\<exists>st req' b'. chunked_loop fuel m None req b = (chunk_status st, req', b') \<and> chunk_live req' b' \<and>
    chunk_ref (bare req, content (input_buffer req)) (content b) =
      (st, (bare req', content (input_buffer req')), content b') \<and>
    length (content b') + length (content (input_buffer req')) \<le> length (content b) + length (content (input_buffer req))"
  using assms(2,3)
proof (induction fuel arbitrary: req b)
  case (Suc fuel)
  note live = Suc.prems(1)
  have ok: "evb_live b" "evb_ok b" "total_len b = length (content b)" "evb_live (input_buffer req)"
    using live by (simp_all add: chunk_live_def evb_live_def evb_ok_def)
  have len: "length (content b) \<le> EV_SSIZE_MAX" "ntoread req \<le> int EV_SSIZE_MAX"
    "length (content b) + length (content (input_buffer req)) \<le> EVQ_CAP"
    using live by (simp_all add: chunk_live_def EVQ_CAP_def EV_SSIZE_MAX_def)
  let ?bs = "content b" and ?got = "content (input_buffer req)"
  consider (none) "?bs = []" | (size_line) "?bs \<noteq> []" "ntoread req < 0"
    | (short) "?bs \<noteq> []" "\<not> ntoread req < 0" "ntoread req > 0 \<and> int (length ?bs) < ntoread req"
    | (data) "?bs \<noteq> []" "\<not> ntoread req < 0" "\<not> (ntoread req > 0 \<and> int (length ?bs) < ntoread req)"
    by blast
  then show ?case
  proof cases
    case none
    then show ?thesis
      using live ok by (intro exI [of _ None] exI [of _ req] exI [of _ b])
        (simp add: chunk_status_def chunk_ref.simps [of "bare req" "?got" "[]"])
  next
    case short
    then show ?thesis
      using live ok len by (intro exI [of _ None] exI [of _ req] exI [of _ b])
        (simp add: chunk_status_def chunk_ref.simps [of "bare req" "?got" ?bs])
  next
    case size_line
    note line = readln_ok [OF ok(2) len(1), of m EVBUFFER_EOL_CRLF]
    have fr: "\<not> freeze_start b" using ok(1) by (simp add: evb_live_def)
    show ?thesis
    proof (cases "eol_ref EVBUFFER_EOL_CRLF ?bs")
      case None
      then have "evbuffer_readln m b EVBUFFER_EOL_CRLF = (None, 0, b)" using line fr by simp
      then show ?thesis
        using None live ok len size_line by (intro exI [of _ None] exI [of _ req] exI [of _ b])
          (simp add: chunk_status_def chunk_ref.simps [of "bare req" "?got" ?bs])
    next
      case (Some e)
      obtain p l where e: "eol_ref EVBUFFER_EOL_CRLF ?bs = Some (p, l)" using Some by (cases e) simp
      have "m (p + 1) \<noteq> None" using assms(1) by (simp add: mm_total_def)
      then obtain b1 where b1: "evbuffer_readln m b EVBUFFER_EOL_CRLF = (Some (take p ?bs), p, b1)" "evb_ok b1"
        "content b1 = drop (p + l) ?bs" "freeze_start b1 = freeze_start b" "freeze_end b1 = freeze_end b"
        using line e fr by auto
      obtain st r1 where h: "chunk_header req (line_text (take p ?bs)) = (st, r1)" by fastforce
      note hb = chunk_header_bare(1) [of req "line_text (take p ?bs)", unfolded h prod.case]
      have ib: "input_buffer r1 = input_buffer req" using chunk_header_bare(2) [OF h] .
      have live1: "evb_live b1" using b1 ok(1) by (simp add: evb_live_def)
      have ref: "chunk_ref (bare req, ?got) ?bs = (case st of Some s \<Rightarrow> (Some s, (bare r1, ?got), content b1)
          | None \<Rightarrow> chunk_ref (bare r1, ?got) (content b1))"
        using size_line e hb b1(3) by (subst chunk_ref.simps) (simp split: option.split)
      show ?thesis
      proof (cases st)
        case (Some s)
        have n: "ntoread r1 \<le> int EV_SSIZE_MAX"
          using h len(2) strtol_le [of 16 "line_text (take p ?bs)"] Some
          by (auto simp: chunk_header_def chunk_size_def Let_def EV_SSIZE_MAX_def LONG_MAX_def
              split: option.splits if_splits prod.splits)
        then show ?thesis
          using b1 live1 ib live ok len h ref Some size_line
          by (intro exI [of _ st] exI [of _ r1] exI [of _ b1]) (simp add: chunk_status_def chunk_live_def)
      next
        case None
        have lr: "chunk_live r1 b1"
          using chunk_header_ntoread [OF h [unfolded None] size_line(2)] live live1 b1(3) ib
          by (auto simp: chunk_live_def)
        have "length (content b1) < length ?bs"
          using eol_crlf_prefix(2,3) [OF e] b1(3) size_line(1) by (cases ?bs) auto
        then have "2 * length (content b1) + (if ntoread r1 < 0 then 0 else 1) < fuel"
          using Suc.prems(2) size_line by simp
        from Suc.IH [OF lr this] obtain st' req' b' where
          "chunked_loop fuel m None r1 b1 = (chunk_status st', req', b')" "chunk_live req' b'"
          "chunk_ref (bare r1, content (input_buffer r1)) (content b1) = (st', (bare req', content (input_buffer req')), content b')"
          "length (content b') + length (content (input_buffer req')) \<le> length (content b1) + length (content (input_buffer r1))"
          by blast
        then show ?thesis
          using b1 ib ok len h ref None size_line \<open>length (content b1) < length ?bs\<close>
          by (intro exI [of _ st'] exI [of _ req'] exI [of _ b']) (simp add: chunk_status_def)
      qed
    qed
  next
    case data
    let ?n = "nat (ntoread req)"
    have n: "?n \<le> length ?bs" using data by linarith
    obtain b1 ib where mv: "evbuffer_remove_buffer m b (input_buffer req) ?n = (int (min ?n (length ?bs)), b1, ib)"
      "evb_live b1" "evb_live ib" "content b1 = drop ?n ?bs" "content ib = ?got @ take ?n ?bs"
      using evbuffer_remove_buffer_live [OF assms(1) ok(1) ok(4), of ?n] len(3) by (auto simp: add.commute)
    define r1 where "r1 = req\<lparr>input_buffer := ib, ntoread := -1\<rparr>"
    have l1: "length (content b1) + length (content ib) = length ?bs + length ?got" using mv n by simp
    have lr: "chunk_live r1 b1" using mv l1 len by (simp add: r1_def chunk_live_def)
    have "2 * length (content b1) + (if ntoread r1 < 0 then 0 else 1) < fuel"
      using Suc.prems(2) data mv(4) by (simp add: r1_def)
    from Suc.IH [OF lr this] obtain st' req' b' where ih:
      "chunked_loop fuel m None r1 b1 = (chunk_status st', req', b')" "chunk_live req' b'"
      "chunk_ref (bare r1, content (input_buffer r1)) (content b1) = (st', (bare req', content (input_buffer req')), content b')"
      "length (content b') + length (content (input_buffer req')) \<le> length (content b1) + length (content (input_buffer r1))"
      by blast
    have "chunked_loop (Suc fuel) m None req b = chunked_loop fuel m None r1 b1"
      using data ok len mv(1) by (auto simp: chunk_done_def r1_def)
    moreover have "chunk_ref (bare req, ?got) ?bs = chunk_ref (bare r1, content (input_buffer r1)) (content b1)"
      using data mv by (subst chunk_ref.simps) (auto simp: r1_def)
    moreover have "length (content b1) + length (content (input_buffer r1)) = length ?bs + length ?got"
      using l1 by (simp add: r1_def)
    ultimately show ?thesis using ih by (intro exI [of _ st'] exI [of _ req'] exI [of _ b']) simp
  qed
qed simp

lemma chunked_read_ref:
  assumes "mm_total m" "chunk_live req b"
  shows "\<exists>st req' b'. evhttp_handle_chunked_read m None req b = (chunk_status st, req', b') \<and> chunk_live req' b' \<and>
    chunk_ref (bare req, content (input_buffer req)) (content b) =
      (st, (bare req', content (input_buffer req')), content b') \<and>
    length (content b') + length (content (input_buffer req')) \<le> length (content b) + length (content (input_buffer req))"
proof -
  have "total_len b = length (content b)" using assms(2) by (simp add: chunk_live_def evb_live_def evb_ok_def)
  then show ?thesis
    unfolding evhttp_handle_chunked_read_def by (intro chunked_loop_ref assms) simp
qed

lemma chunk_header_not_more: "chunk_header req line \<noteq> (Some MORE_DATA_EXPECTED, r)"
  by (auto simp: chunk_header_def Let_def split: option.splits if_splits)

lemma chunk_ref_not_more: "fst (chunk_ref s p) \<noteq> Some MORE_DATA_EXPECTED"
proof -
  have "fst (chunk_ref (req, got) p) \<noteq> Some MORE_DATA_EXPECTED" for req got
  proof (induction "(req, got)" p arbitrary: req got rule: chunk_ref.induct)
    case (1 req got bs)
    consider (data) "bs \<noteq> []" "\<not> ntoread req < 0" "\<not> (ntoread req > 0 \<and> int (length bs) < ntoread req)"
      | (other) "bs = [] \<or> ntoread req < 0 \<or> ntoread req > 0 \<and> int (length bs) < ntoread req" by blast
    then show ?case
    proof cases
      case data
      from 1(2) [OF data] show ?thesis by (subst chunk_ref.simps) (use data in auto)
    next
      case other
      then show ?thesis
        by (subst chunk_ref.simps) (auto simp: 1(1) chunk_header_not_more split: option.split prod.split)
    qed
  qed
  then show ?thesis by (cases s) simp
qed

end
