(* ===== verification/HttpReply.thy ===== *)
theory HttpReply
  imports HttpMessageSpec
begin

text \<open>
  Messages, written and read: what is put into the output of a connection is what the readers take it
  for, in whatever pieces it arrives.
\<close>

section \<open>Readers of a buffer\<close>

text \<open>
  What arrives in pieces is added to the buffer, and the reader runs after each of them until it has
  a result; what comes later stays in the buffer.
\<close>

fun arrive ::
    "malloc \<Rightarrow> (evhttp_request \<Rightarrow> evbuffer \<Rightarrow> message_read_status \<times> evhttp_request \<times> evbuffer) \<Rightarrow>
     evhttp_request \<Rightarrow> evbuffer \<Rightarrow> byte list list \<Rightarrow> message_read_status \<times> evhttp_request \<times> evbuffer" where
  "arrive m rd req b [] = (MORE_DATA_EXPECTED, req, b)"
| "arrive m rd req b (x # xs) =
     (case rd req (snd (evbuffer_add m b x)) of
        (status, req', b') \<Rightarrow>
          if status = MORE_DATA_EXPECTED then arrive m rd req' b' xs
          else (status, req', snd (evbuffer_add m b' (concat xs))))"

text \<open>
  The reader \<open>rd\<close> works on buffers and agrees with \<open>run\<close> on byte strings, on the states that are \<open>live\<close>
  for a number of bytes more.
\<close>

locale buffer_reader = stream_reader run "\<lambda>s. True"
  for run :: "'s \<Rightarrow> byte list \<Rightarrow> message_read_status option \<times> 's \<times> byte list" +
  fixes m :: malloc and rd :: "evhttp_request \<Rightarrow> evbuffer \<Rightarrow> message_read_status \<times> evhttp_request \<times> evbuffer"
    and abs :: "evhttp_request \<Rightarrow> 's" and live :: "nat \<Rightarrow> evhttp_request \<Rightarrow> evbuffer \<Rightarrow> bool"
  assumes live_buffer: "live n req b \<Longrightarrow> mm_total m \<and> evb_live b \<and> length (content b) + n \<le> EVQ_CAP"
    and live_add: "live (length x + n) req b \<Longrightarrow> evb_live b1 \<Longrightarrow> content b1 = content b @ x \<Longrightarrow> live n req b1"
    and reads: "live n req b \<Longrightarrow>
      \<exists>st req' b'. rd req b = (chunk_status st, req', b') \<and> st \<noteq> Some MORE_DATA_EXPECTED \<and> live n req' b' \<and>
        run (abs req) (content b) = (st, abs req', content b')"
begin

lemma add_live:
  assumes "live (length x + n) req b"
  obtains b1 where "evbuffer_add m b x = (0, b1)" "content b1 = content b @ x" "live n req b1"
proof -
  have "evb_live b" "mm_total m" "length (content b) + length x \<le> EVQ_CAP" using live_buffer [OF assms] by auto
  then obtain b1 where b1: "evbuffer_add m b x = (0, b1)" "evb_live b1" "content b1 = content b @ x"
    using evbuffer_add_live [of m b x] by (auto simp: evb_live_def)
  with live_add [OF assms b1(2,3)] show thesis by (intro that) simp_all
qed

lemma arrive_feed:
  "live (length (concat xs)) req b \<Longrightarrow>
    \<exists>st req' b'. arrive m rd req b xs = (chunk_status st, req', b') \<and> live 0 req' b' \<and>
      feed run (abs req) (content b) xs = (st, abs req', content b')"
proof (induction xs arbitrary: req b)
  case Nil
  then show ?case by (intro exI [of _ None] exI [of _ req] exI [of _ b]) (simp add: chunk_status_def)
next
  case (Cons x xs)
  obtain b1 where b1: "evbuffer_add m b x = (0, b1)" "content b1 = content b @ x" "live (length (concat xs)) req b1"
    using add_live [of x "length (concat xs)" req b] Cons.prems by auto
  from reads [OF b1(3)] obtain st req' b' where
    r: "rd req b1 = (chunk_status st, req', b')" "st \<noteq> Some MORE_DATA_EXPECTED" "live (length (concat xs)) req' b'"
      "run (abs req) (content b1) = (st, abs req', content b')"
    by blast
  show ?case
  proof (cases st)
    case None
    from Cons.IH [OF r(3)] show ?thesis using None r b1 by (simp add: chunk_status_def)
  next
    case (Some s)
    obtain b2 where b2: "evbuffer_add m b' (concat xs) = (0, b2)" "content b2 = content b' @ concat xs" "live 0 req' b2"
      using add_live [of "concat xs" 0 req' b'] r(3) by auto
    then show ?thesis
      using Some r b1 by (intro exI [of _ st] exI [of _ req'] exI [of _ b2]) (simp add: chunk_status_def)
  qed
qed

text \<open>In pieces or at once, and through chains or not: the same.\<close>

lemma arrive_whole:
  assumes "live (length (concat xs)) req b" "xs \<noteq> []"
    and "run (abs req) (content b @ concat xs) = (st, s, left)"
  obtains req' b' where "arrive m rd req b xs = (chunk_status st, req', b')" "live 0 req' b'" "abs req' = s" "content b' = left"
  using arrive_feed [OF assms(1)] feed_whole [OF TrueI assms(2), of "abs req" "content b"] assms(3) that by auto

end

interpretation chunk_reading: buffer_reader chunk_ref m "evhttp_handle_chunked_read m None"
  "\<lambda>req. (bare req, content (input_buffer req))"
  "\<lambda>n req b. mm_total m \<and> chunk_live req b \<and> length (content b) + length (content (input_buffer req)) + n \<le> EVQ_CAP"
proof unfold_locales
  fix n req b
  assume l: "mm_total m \<and> chunk_live req b \<and> length (content b) + length (content (input_buffer req)) + n \<le> EVQ_CAP"
  then show "mm_total m \<and> evb_live b \<and> length (content b) + n \<le> EVQ_CAP" by (simp add: chunk_live_def)
  obtain st req' b' where r: "evhttp_handle_chunked_read m None req b = (chunk_status st, req', b')" "chunk_live req' b'"
    "chunk_ref (bare req, content (input_buffer req)) (content b) = (st, (bare req', content (input_buffer req')), content b')"
    "length (content b') + length (content (input_buffer req')) \<le> length (content b) + length (content (input_buffer req))"
    using chunked_read_ref [of m req b] l by blast
  then have "st \<noteq> Some MORE_DATA_EXPECTED"
    using chunk_ref_not_more [of "(bare req, content (input_buffer req))" "content b"] by simp
  then show "\<exists>st req' b'. evhttp_handle_chunked_read m None req b = (chunk_status st, req', b') \<and>
      st \<noteq> Some MORE_DATA_EXPECTED \<and>
      (mm_total m \<and> chunk_live req' b' \<and> length (content b') + length (content (input_buffer req')) + n \<le> EVQ_CAP) \<and>
      chunk_ref (bare req, content (input_buffer req)) (content b) = (st, (bare req', content (input_buffer req')), content b')"
    using r l by (intro exI [of _ st] exI [of _ req'] exI [of _ b']) simp
next
  fix x n req b b1
  assume "mm_total m \<and> chunk_live req b \<and> length (content b) + length (content (input_buffer req)) + (length x + n) \<le> EVQ_CAP"
    and "evb_live b1" "content b1 = content b @ x"
  then show "mm_total m \<and> chunk_live req b1 \<and> length (content b1) + length (content (input_buffer req)) + n \<le> EVQ_CAP"
    by (simp add: chunk_live_def)
qed

section \<open>A reply in chunks, written and read\<close>

lemma char_of_byte_of_char [simp]: "char_of_byte (byte_of_char c) = c"
proof -
  have "(of_char c :: nat) < 256" using nat_of_char_less_256 [of c] by simp
  then show ?thesis by (simp add: char_of_byte_def byte_of_char_def unat_of_nat take_bit_nat_eq_self)
qed

lemma byte_of_char_eq [simp]: "byte_of_char a = byte_of_char b \<longleftrightarrow> a = b"
  using char_of_byte_of_char by metis

lemma bytes_simps [simp]:
  "bytes [] = []" "bytes (c # s) = byte_of_char c # bytes s" "bytes (s @ t) = bytes s @ bytes t"
  "length (bytes s) = length s" "bytes s = [] \<longleftrightarrow> s = []"
  by (simp_all add: bytes_def)

lemma in_bytes [simp]: "byte_of_char c \<in> set (bytes s) \<longleftrightarrow> c \<in> set s"
  by (auto simp: bytes_def)

lemma line_text_bytes: "CHR 0x00 \<notin> set s \<Longrightarrow> line_text (bytes s) = s"
  by (simp add: line_text_def bytes_def comp_def c_str_id)

lemma byte_CR_LF: "byte_of_char (CHR 0x0D) = CR" "byte_of_char (CHR 0x0A) = LF"
  by (simp_all add: byte_of_char_def)

lemma eol_of_bytes:
  assumes "CHR 0x0A \<notin> set s" "s = [] \<or> last s \<noteq> CHR 0x0D"
  shows "eol_ref EVBUFFER_EOL_CRLF (bytes s @ CR # LF # q) = Some (length s, 2)"
proof -
  have "LF \<notin> set (bytes s)" using assms(1) in_bytes [of "CHR 0x0A" s] by (simp add: byte_CR_LF)
  moreover have "bytes s = [] \<or> last (bytes s) \<noteq> byte_of_char (CHR 0x0D)"
    using assms(2) by (cases "s = []") (simp_all add: bytes_def last_map)
  then have "bytes s = [] \<or> last (bytes s) \<noteq> CR" by (simp only: byte_CR_LF)
  ultimately show ?thesis using eol_crlf_line [of "bytes s" q] by simp
qed

lemma hex_line:
  "CHR 0x0A \<notin> set (show_hex n)" "last (show_hex n) \<noteq> CHR 0x0D" "CHR 0x00 \<notin> set (show_hex n)" "show_hex n \<noteq> []"
proof -
  have d: "list_all (is_digit 16) (show_hex n)" "show_hex n \<noteq> []" using show_hex_digits [of n] by auto
  then have "c \<notin> set (show_hex n)" if "\<not> is_digit 16 c" for c using that by (auto simp: list_all_iff)
  moreover have "\<not> is_digit 16 (CHR 0x0A)" "\<not> is_digit 16 (CHR 0x0D)" "\<not> is_digit 16 (CHR 0x00)"
    by (simp_all add: is_digit_16)
  ultimately show "CHR 0x0A \<notin> set (show_hex n)" "last (show_hex n) \<noteq> CHR 0x0D" "CHR 0x00 \<notin> set (show_hex n)"
    "show_hex n \<noteq> []"
    using d(2) last_in_set [OF d(2)] by metis+
qed

lemma chunk_size_hex: "int n \<le> LONG_MAX \<Longrightarrow> chunk_size (show_hex n) = Some (int n)"
  using strtol_digits_end [of 16 "show_hex n" "[]"] no_hex_prefix [of "show_hex n" "[]"] show_hex_digits [of n]
  by (simp add: chunk_size_def)

text \<open>That the receiver takes \<open>k\<close> bytes more.\<close>

definition room :: "evhttp_request \<Rightarrow> nat \<Rightarrow> bool" where
  "room req k \<longleftrightarrow> body_size req + k \<le> EV_SIZE_MAX \<and>
     (case evcon req of None \<Rightarrow> True | Some con \<Rightarrow> body_size req + k \<le> max_body_size con)"

lemma chunk_header_hex:
  assumes "room req n" "int n \<le> LONG_MAX"
  shows "chunk_header req (show_hex n) =
    (if n = 0 then (Some ALL_DATA_READ, req\<lparr>ntoread := 0\<rparr>)
     else (None, req\<lparr>body_size := body_size req + n, ntoread := int n\<rparr>))"
proof -
  have "\<not> int n > int (EV_SIZE_MAX - body_size req)" using assms(1) by (simp add: room_def)
  then show ?thesis
    using assms hex_line(4) [of n] by (auto simp: chunk_header_def chunk_size_hex Let_def room_def split: option.split)
qed

lemma chunk_ref_line:
  assumes "ntoread req < 0" "CHR 0x0A \<notin> set s" "s = [] \<or> last s \<noteq> CHR 0x0D" "CHR 0x00 \<notin> set s"
  shows "chunk_ref (req, got) (bytes s @ CR # LF # q) =
    (case chunk_header req s of (Some status, req') \<Rightarrow> (Some status, (req', got), q)
     | (None, req') \<Rightarrow> chunk_ref (req', got) q)"
proof (cases "chunk_header req s")
  case (Pair st req')
  then show ?thesis using assms by (subst chunk_ref.simps) (simp add: eol_of_bytes line_text_bytes split: option.split)
qed

lemma chunk_ref_chunk:
  assumes "ntoread req = -1" "room req (length d)" "d \<noteq> []" "length d < 2 ^ 32"
  shows "chunk_ref (req, got) (chunk_text d @ q) = chunk_ref (req\<lparr>body_size := body_size req + length d\<rparr>, got @ d) q"
proof -
  let ?r = "req\<lparr>body_size := body_size req + length d, ntoread := int (length d)\<rparr>"
    and ?r2 = "req\<lparr>body_size := body_size req + length d, ntoread := -1\<rparr>"
  have "chunk_text d @ q = bytes (show_hex (length d)) @ CR # LF # (d @ CR # LF # q)"
    using assms(4) by (simp add: chunk_text_def cast_uint32_id byte_CR_LF)
  moreover have "chunk_header req (show_hex (length d)) = (None, ?r)"
    using assms by (subst chunk_header_hex) (simp_all add: LONG_MAX_def)
  ultimately have "chunk_ref (req, got) (chunk_text d @ q) = chunk_ref (?r, got) (d @ CR # LF # q)"
    using assms(1) hex_line [of "length d"] by (simp add: chunk_ref_line)
  also have "\<dots> = chunk_ref (?r2, got @ d) (CR # LF # q)"
    using assms(3) by (subst chunk_ref.simps) simp
  also have "\<dots> = chunk_ref (?r2, got @ d) q"
    using chunk_ref_line [of ?r2 "[]" "got @ d" q] by (simp add: chunk_header_def)
  also have "?r2 = req\<lparr>body_size := body_size req + length d\<rparr>" using assms(1) by simp
  finally show ?thesis .
qed

lemma chunk_ref_end:
  assumes "ntoread req = -1" "room req 0"
  shows "chunk_ref (req, got) (48 # 13 # 10 # q) = (Some ALL_DATA_READ, (req\<lparr>ntoread := 0\<rparr>, got), q)"
proof -
  have "bytes (show_hex 0) = [48]" by (simp add: show_base.simps digit_of_def byte_of_char_def)
  then have "chunk_ref (req, got) (48 # 13 # 10 # q) = chunk_ref (req, got) (bytes (show_hex 0) @ CR # LF # q)"
    by simp
  then show ?thesis
    using assms hex_line [of 0] by (simp only: chunk_ref_line) (simp add: chunk_ref_line chunk_header_hex LONG_MAX_def)
qed

text \<open>The output of a reply in the parts \<open>ds\<close>.\<close>

definition reply_in_chunks :: "evhttp_request \<Rightarrow> byte list list \<Rightarrow> byte list" where
  "reply_in_chunks req ds =
     fst (snd (evhttp_send_reply_end req (fold (\<lambda>d out. fst (evhttp_send_reply_chunk req d out)) ds [])))"

lemma reply_in_chunks_text:
  assumes "evcon req \<noteq> None" "chunked req" "evhttp_response_needs_body req"
  shows "reply_in_chunks req ds = concat (map chunk_text (filter (\<lambda>d. d \<noteq> []) ds)) @ [48, 13, 10, 13, 10]"
proof -
  have "fold (\<lambda>d out. fst (evhttp_send_reply_chunk req d out)) ds out =
      out @ concat (map chunk_text (filter (\<lambda>d. d \<noteq> []) ds))" for out
    by (induction ds arbitrary: out) (auto simp: evhttp_send_reply_chunk_def assms)
  then show ?thesis by (simp add: reply_in_chunks_def evhttp_send_reply_end_def assms)
qed

lemma room_mono: "room req k \<Longrightarrow> j \<le> k \<Longrightarrow> room req j"
  by (auto simp: room_def split: option.splits)

lemma room_more: "room req (j + k) \<Longrightarrow> room (req\<lparr>body_size := body_size req + j\<rparr>) k"
  by (auto simp: room_def split: option.splits)

lemma chunk_ref_chunks:
  assumes "ntoread req = -1" "room req (length (concat ds))" "length (concat ds) < 2 ^ 32"
  shows "chunk_ref (req, got) (concat (map chunk_text (filter (\<lambda>d. d \<noteq> []) ds)) @ q) =
    chunk_ref (req\<lparr>body_size := body_size req + length (concat ds)\<rparr>, got @ concat ds) q"
  using assms
proof (induction ds arbitrary: req got)
  case (Cons d ds)
  show ?case
  proof (cases "d = []")
    case False
    let ?r = "req\<lparr>body_size := body_size req + length d\<rparr>"
    have "room req (length d)" using Cons.prems(2) by (rule room_mono) simp
    then have "chunk_ref (req, got) (chunk_text d @ concat (map chunk_text (filter (\<lambda>d. d \<noteq> []) ds)) @ q) =
        chunk_ref (?r, got @ d) (concat (map chunk_text (filter (\<lambda>d. d \<noteq> []) ds)) @ q)"
      using Cons.prems False by (intro chunk_ref_chunk) simp_all
    also have "room ?r (length (concat ds))" using Cons.prems(2) by (intro room_more) simp
    then have "chunk_ref (?r, got @ d) (concat (map chunk_text (filter (\<lambda>d. d \<noteq> []) ds)) @ q) =
        chunk_ref (?r\<lparr>body_size := body_size ?r + length (concat ds)\<rparr>, (got @ d) @ concat ds) q"
      using Cons.prems by (intro Cons.IH) simp_all
    finally show ?thesis using False by (simp add: add.assoc)
  qed (use Cons in simp)
qed simp


definition demo_request :: "evhttp_request" where
  "demo_request = \<lparr>kind = EVHTTP_RESPONSE, req_type = EVHTTP_REQ_GET, proxy_request = False, needs_free = False,
     evcon = Some \<lparr>max_headers_size = 8192, max_body_size = 65536, ext_method_cmp = None, http_server = Evhttp [] [] []\<rparr>,
     req_uri = None, uri_elems = None, major = 1, minor = 1, response_code = 200, response_code_line = Some ''OK'',
     input_headers = [], output_headers = [], headers_size = 0, ntoread = -1, body_size = 0, chunked = True,
     userdone = False, input_buffer = evbuffer_new\<rparr>"


section \<open>Readers of lines\<close>

text \<open>A reader that looks at one line after the other, as bytes.\<close>

function lines_ref ::
    "('s \<Rightarrow> byte list \<Rightarrow> 'r option \<times> 's) \<Rightarrow> 's \<Rightarrow> byte list \<Rightarrow> 'r option \<times> 's \<times> byte list" where
  "lines_ref step s bs =
     (case eol_ref EVBUFFER_EOL_CRLF bs of
        None \<Rightarrow> (None, s, bs)
      | Some (p, l) \<Rightarrow>
          (case step s (take p bs) of
             (Some r, s') \<Rightarrow> (Some r, s', drop (p + l) bs)
           | (None, s') \<Rightarrow> lines_ref step s' (drop (p + l) bs)))"
  by pat_completeness auto
termination
proof (relation "measure (\<lambda>(_, _, bs). length bs)")
  fix step :: "'s \<Rightarrow> byte list \<Rightarrow> 'r option \<times> 's" and s s' :: 's and bs :: "byte list" and x :: "nat \<times> nat"
    and p l :: nat and y :: "'r option \<times> 's"
  assume "eol_ref EVBUFFER_EOL_CRLF bs = Some x" "(p, l) = x"
  with eol_crlf_prefix(2,3) [of bs p l] have "length (drop (p + l) bs) < length bs" by auto
  then show "((step, s', drop (p + l) bs), (step, s, bs)) \<in> measure (\<lambda>(_, _, bs). length bs)" by simp
qed auto

declare lines_ref.simps [simp del]

lemma lines_ref_line:
  assumes "eol_ref EVBUFFER_EOL_CRLF bs = Some (p, l)"
  shows "lines_ref step s bs =
    (case step s (take p bs) of
       (Some r, s') \<Rightarrow> (Some r, s', drop (p + l) bs)
     | (None, s') \<Rightarrow> lines_ref step s' (drop (p + l) bs))"
  using assms by (subst lines_ref.simps) simp

lemma lines_goes_on:
  "case lines_ref step s p of
     (None, s', left) \<Rightarrow> lines_ref step s (p @ q) = lines_ref step s' (left @ q)
   | (Some r, s', left) \<Rightarrow> lines_ref step s (p @ q) = (Some r, s', left @ q)"
proof (induction step s p rule: lines_ref.induct)
  case (1 step s bs)
  show ?case
  proof (cases "eol_ref EVBUFFER_EOL_CRLF bs")
    case None
    then show ?thesis by (simp add: lines_ref.simps [of step s bs])
  next
    case (Some e)
    obtain n l where e: "eol_ref EVBUFFER_EOL_CRLF bs = Some (n, l)" using Some by (cases e) simp
    obtain st s1 where st: "step s (take n bs) = (st, s1)" by fastforce
    have e2: "eol_ref EVBUFFER_EOL_CRLF (bs @ q) = Some (n, l)" "take n (bs @ q) = take n bs"
      "drop (n + l) (bs @ q) = drop (n + l) bs @ q"
      using eol_crlf_prefix(1,4,5) [OF e, where q = q] by simp_all
    have w: "lines_ref step s (bs @ q) = (case st of Some r \<Rightarrow> (Some r, s1, drop (n + l) bs @ q)
        | None \<Rightarrow> lines_ref step s1 (drop (n + l) bs @ q))"
      by (subst lines_ref_line [OF e2(1)]) (simp only: e2(2,3) st prod.case)
    have h: "lines_ref step s bs = (case st of Some r \<Rightarrow> (Some r, s1, drop (n + l) bs)
        | None \<Rightarrow> lines_ref step s1 (drop (n + l) bs))"
      by (subst lines_ref_line [OF e]) (simp only: st prod.case)
    show ?thesis
    proof (cases st)
      case None
      then show ?thesis using 1 [OF e refl st [symmetric] None] by (simp only: w h option.case)
    next
      case Some
      then show ?thesis by (simp add: w h)
    qed
  qed
qed

interpretation lines: stream_reader "lines_ref step" "\<lambda>s. True"
proof unfold_locales
  fix s s' p q left r
  show "lines_ref step s p = (None, s', left) \<Longrightarrow> lines_ref step s (p @ q) = lines_ref step s' (left @ q)"
    and "lines_ref step s p = (Some r, s', left) \<Longrightarrow> lines_ref step s (p @ q) = (Some r, s', left @ q)"
    using lines_goes_on [of step s p q] by simp_all
qed simp

section \<open>Headers, written and read\<close>

definition header_step :: "evhttp_request \<Rightarrow> byte list \<Rightarrow> message_read_status option \<times> evhttp_request" where
  "header_step req bs = header_line req (line_text bs) (length bs)"

lemma parse_headers_ref:
  assumes "mm_total m" "evb_live b" "length (content b) \<le> EVQ_CAP" "length (content b) \<le> fuel"
  shows "\<exists>st req' b'. lines_ref header_step req (content b) = (st, req', content b') \<and> evb_live b' \<and>
    length (content b') \<le> length (content b) \<and>
    parse_headers_loop fuel m req b =
      (case st of Some s \<Rightarrow> s | None \<Rightarrow> headers_more req' (length (content b')), req', b')"
  using assms(2-4)
proof (induction fuel arbitrary: req b)
  case 0
  then have "total_len b = 0" "content b = []" by (simp_all add: evb_live_def evb_ok_def)
  moreover have "lines_ref header_step req [] = (None, req, [])"
    by (subst lines_ref.simps) (simp add: eol_ref_def)
  ultimately show ?case using 0 by (intro exI [of _ None] exI [of _ req] exI [of _ b]) simp
next
  case (Suc fuel)
  have ok: "evb_ok b" "\<not> freeze_start b" "\<not> freeze_end b" "total_len b = length (content b)"
    using Suc.prems(1) by (simp_all add: evb_live_def evb_ok_def)
  have len: "length (content b) \<le> EV_SSIZE_MAX" using Suc.prems(2) by (simp add: EVQ_CAP_def EV_SSIZE_MAX_def)
  note line = readln_ok [OF ok(1) len, of m EVBUFFER_EOL_CRLF]
  show ?case
  proof (cases "eol_ref EVBUFFER_EOL_CRLF (content b)")
    case None
    then have "evbuffer_readln m b EVBUFFER_EOL_CRLF = (None, 0, b)" using line ok(2) by simp
    moreover have "lines_ref header_step req (content b) = (None, req, content b)"
      using None by (subst lines_ref.simps) simp
    ultimately show ?thesis
      using Suc.prems(1) ok(4) by (intro exI [of _ None] exI [of _ req] exI [of _ b]) simp
  next
    case (Some e)
    obtain p l where e: "eol_ref EVBUFFER_EOL_CRLF (content b) = Some (p, l)" using Some by (cases e) simp
    have "m (p + 1) \<noteq> None" using assms(1) by (simp add: mm_total_def)
    then obtain b1 where b1: "evbuffer_readln m b EVBUFFER_EOL_CRLF = (Some (take p (content b)), p, b1)" "evb_ok b1"
      "content b1 = drop (p + l) (content b)" "freeze_start b1 = freeze_start b" "freeze_end b1 = freeze_end b"
      using line e ok(2) by auto
    have live1: "evb_live b1" using b1 ok by (simp add: evb_live_def)
    have p: "length (take p (content b)) = p" "length (content b1) < length (content b)"
      using eol_crlf_prefix(2,3) [OF e] b1(3) by auto
    obtain st req1 where h: "header_line req (line_text (take p (content b))) p = (st, req1)" by fastforce
    then have hs: "header_step req (take p (content b)) = (st, req1)" using p(1) by (simp only: header_step_def)
    have ref: "lines_ref header_step req (content b) = (case st of Some r \<Rightarrow> (Some r, req1, content b1)
        | None \<Rightarrow> lines_ref header_step req1 (content b1))"
      by (subst lines_ref_line [OF e]) (simp only: hs prod.case b1(3))
    show ?thesis
    proof (cases st)
      case (Some s)
      then show ?thesis
        using ref live1 p(2) b1(1) h by (intro exI [of _ st] exI [of _ req1] exI [of _ b1]) simp
    next
      case None
      have "length (content b1) \<le> EVQ_CAP" "length (content b1) \<le> fuel" using p(2) Suc.prems by simp_all
      from Suc.IH [OF live1 this, of req1] obtain st' req' b' where
        "lines_ref header_step req1 (content b1) = (st', req', content b')" "evb_live b'"
        "length (content b') \<le> length (content b1)"
        "parse_headers_loop fuel m req1 b1 =
          (case st' of Some s \<Rightarrow> s | None \<Rightarrow> headers_more req' (length (content b')), req', b')"
        by blast
      then show ?thesis
        using ref p(2) b1(1) h None by (intro exI [of _ st'] exI [of _ req'] exI [of _ b']) simp
    qed
  qed
qed

text \<open>That \<open>n\<close> bytes more are within the limit of the headers.\<close>

definition header_room :: "evhttp_request \<Rightarrow> nat \<Rightarrow> bool" where
  "header_room req n \<longleftrightarrow> (case evcon req of None \<Rightarrow> True | Some con \<Rightarrow> headers_size req + n \<le> max_headers_size con)"

lemma header_line_frame:
  assumes "header_line req line len = (st, req')"
  shows "headers_size req' = headers_size req + len" "evcon req' = evcon req" "st \<noteq> Some MORE_DATA_EXPECTED"
  using assms by (auto simp: header_line_def Let_def split: if_splits option.splits prod.splits)

lemma header_step_frame:
  assumes "lines_ref header_step req bs = (st, req', left)"
  shows "headers_size req' + length left \<le> headers_size req + length bs \<and> evcon req' = evcon req \<and> st \<noteq> Some MORE_DATA_EXPECTED"
  using assms
proof (induction header_step req bs rule: lines_ref.induct)
  case (1 req bs)
  show ?case
  proof (cases "eol_ref EVBUFFER_EOL_CRLF bs")
    case None
    with "1.prems" show ?thesis by (subst (asm) lines_ref.simps) simp
  next
    case (Some e)
    obtain p l where e: "eol_ref EVBUFFER_EOL_CRLF bs = Some (p, l)" using Some by (cases e) simp
    obtain st1 req1 where h: "header_step req (take p bs) = (st1, req1)" by fastforce
    note le = eol_crlf_prefix(2) [OF e]
    have f: "headers_size req1 = headers_size req + p" "evcon req1 = evcon req" "st1 \<noteq> Some MORE_DATA_EXPECTED"
      using header_line_frame [OF h [unfolded header_step_def]] le by simp_all
    show ?thesis
    proof (cases st1)
      case None
      have "lines_ref header_step req1 (drop (p + l) bs) = (st, req', left)"
        using "1.prems" by (simp only: lines_ref_line [OF e] h None prod.case option.case)
      from "1.hyps" [OF e refl h [symmetric] None this] f le show ?thesis by auto
    next
      case (Some s)
      have "(Some s, req1, drop (p + l) bs) = (st, req', left)"
        using "1.prems" by (simp only: lines_ref_line [OF e] h Some prod.case option.case)
      with f le Some show ?thesis by auto
    qed
  qed
qed

interpretation header_reading: buffer_reader "lines_ref header_step" m "evhttp_parse_headers m" "\<lambda>req. req"
  "\<lambda>n req b. mm_total m \<and> evb_live b \<and> length (content b) + n \<le> EVQ_CAP \<and> header_room req (length (content b) + n)"
proof unfold_locales
  fix n req b
  assume l: "mm_total m \<and> evb_live b \<and> length (content b) + n \<le> EVQ_CAP \<and> header_room req (length (content b) + n)"
  then have "total_len b = length (content b)" by (simp add: evb_live_def evb_ok_def)
  then obtain st req' b' where r: "lines_ref header_step req (content b) = (st, req', content b')" "evb_live b'"
    "length (content b') \<le> length (content b)"
    "evhttp_parse_headers m req b = (case st of Some s \<Rightarrow> s | None \<Rightarrow> headers_more req' (length (content b')), req', b')"
    using parse_headers_ref [of m b "total_len b" req] l by (auto simp: evhttp_parse_headers_def)
  note f = header_step_frame [OF r(1)]
  then have "header_room req' (length (content b') + n)" using l by (auto simp: header_room_def split: option.splits)
  moreover from this have "headers_more req' (length (content b')) = MORE_DATA_EXPECTED"
    by (auto simp: headers_more_def too_long_def header_room_def split: option.splits)
  ultimately show "\<exists>st req' b'. evhttp_parse_headers m req b = (chunk_status st, req', b') \<and>
      st \<noteq> Some MORE_DATA_EXPECTED \<and>
      (mm_total m \<and> evb_live b' \<and> length (content b') + n \<le> EVQ_CAP \<and> header_room req' (length (content b') + n)) \<and>
      lines_ref header_step req (content b) = (st, req', content b')"
    using r l f by (intro exI [of _ st] exI [of _ req'] exI [of _ b']) (simp add: chunk_status_def split: option.split)
qed (simp_all add: add.assoc)

text \<open>Headers that survive the way through the text.\<close>

definition header_wf :: "string \<times> string \<Rightarrow> bool" where
  "header_wf header \<longleftrightarrow>
     (case header of (k, v) \<Rightarrow>
        set (k @ v) \<inter> {CHR 0x00, CHR 0x0D, CHR 0x0A} = {} \<and> CHR '':'' \<notin> set k \<and>
        (k \<noteq> [] \<longrightarrow> hd k \<noteq> CHR '' '' \<and> hd k \<noteq> CHR 0x09) \<and>
        (v \<noteq> [] \<longrightarrow> hd v \<noteq> CHR '' '' \<and> last v \<noteq> CHR '' '' \<and> last v \<noteq> CHR 0x09))"

definition header_chars :: "string \<times> string \<Rightarrow> string" where
  "header_chars header = fst header @ '': '' @ snd header"

lemma no_crlf_valid: "CHR 0x0D \<notin> set v \<Longrightarrow> CHR 0x0A \<notin> set v \<Longrightarrow> evhttp_header_is_valid_value v"
proof -
  assume "CHR 0x0D \<notin> set v" "CHR 0x0A \<notin> set v"
  then have "\<forall>c \<in> set v. \<not> is_crlf c" by (auto simp: is_crlf_def)
  then have "dropWhile (\<lambda>c. \<not> is_crlf c) v = []" by simp
  then show ?thesis by (subst evhttp_header_is_valid_value.simps) simp
qed

lemma rtrim_id: "v = [] \<or> last v \<noteq> CHR '' '' \<and> last v \<noteq> CHR 0x09 \<Longrightarrow> evutil_rtrim_lws v = v"
  by (cases v rule: rev_cases) (auto simp: evutil_rtrim_lws_def)

lemma header_line_text:
  assumes "header_wf (k, v)" "header_room req n"
  shows "header_line req (header_chars (k, v)) n =
    (None, req\<lparr>headers_size := headers_size req + n, input_headers := input_headers req @ [(k, v)]\<rparr>)"
proof -
  have w: "CHR 0x0D \<notin> set k" "CHR 0x0A \<notin> set k" "CHR 0x0D \<notin> set v" "CHR 0x0A \<notin> set v" "CHR '':'' \<notin> set k"
    "k = [] \<or> hd k \<noteq> CHR '' '' \<and> hd k \<noteq> CHR 0x09" "v = [] \<or> hd v \<noteq> CHR '' ''"
    "v = [] \<or> last v \<noteq> CHR '' '' \<and> last v \<noteq> CHR 0x09"
    using assms(1) by (auto simp: header_wf_def)
  have t: "takeWhile (\<lambda>c. c \<noteq> CHR '':'') (k @ CHR '':'' # s) = k" "dropWhile (\<lambda>c. c \<noteq> CHR '':'') (k @ CHR '':'' # s) = CHR '':'' # s" for s
    using w(5) by (auto simp: takeWhile_append dropWhile_append)
  have s: "strsep (CHR '':'') (header_chars (k, v)) = (k, Some (CHR '' '' # v))"
    using t [of "CHR '' '' # v"] by (simp add: strsep_def header_chars_def)
  have d: "dropWhile (\<lambda>c. c = CHR '' '') v = v" using w(7) by (cases v) auto
  have n: "\<not> too_long (req\<lparr>headers_size := headers_size req + n\<rparr>) (headers_size req + n)"
    using assms(2) by (auto simp: too_long_def header_room_def split: option.splits)
  have h: "header_chars (k, v) \<noteq> []" "hd (header_chars (k, v)) \<noteq> CHR '' ''" "hd (header_chars (k, v)) \<noteq> CHR 0x09"
    using w(6) by (cases k; auto simp: header_chars_def)+
  show ?thesis
    using n h w(1,2) rtrim_id [OF w(8)] no_crlf_valid [OF w(3,4)]
    by (simp add: header_line_def s d evhttp_add_header_def evhttp_add_header_internal_def Let_def)
qed

lemma lines_ref_text:
  assumes "CHR 0x0A \<notin> set s" "s = [] \<or> last s \<noteq> CHR 0x0D" "CHR 0x00 \<notin> set s"
  shows "lines_ref header_step req (bytes (s @ [CHR 0x0D, CHR 0x0A]) @ q) =
    (case header_line req s (length s) of (Some r, req') \<Rightarrow> (Some r, req', q)
     | (None, req') \<Rightarrow> lines_ref header_step req' q)"
proof -
  have "lines_ref header_step req (bytes s @ CR # LF # q) =
    (case header_step req (bytes s) of (Some r, req') \<Rightarrow> (Some r, req', q)
     | (None, req') \<Rightarrow> lines_ref header_step req' q)"
  proof (cases "header_step req (bytes s)")
    case (Pair st req')
    then show ?thesis
      by (subst lines_ref_line [OF eol_of_bytes [OF assms(1,2)]]) (simp split: option.split)
  qed
  then show ?thesis by (simp add: header_step_def line_text_bytes [OF assms(3)] byte_CR_LF)
qed

lemma headers_text_Cons: "headers_text (h # hs) = header_chars h @ [CHR 0x0D, CHR 0x0A] @ headers_text hs"
  by (simp add: headers_text_def header_text_def header_chars_def)

lemma header_room_le: "header_room req n \<Longrightarrow> k \<le> n \<Longrightarrow> header_room req k"
  by (auto simp: header_room_def split: option.splits)

lemma lines_ref_headers:
  assumes "list_all header_wf hs" "header_room req (length (headers_text hs))"
  shows "\<exists>n. lines_ref header_step req (bytes (headers_text hs) @ q) =
    (Some ALL_DATA_READ, req\<lparr>headers_size := headers_size req + n, input_headers := input_headers req @ hs\<rparr>, q)"
  using assms
proof (induction hs arbitrary: req)
  case Nil
  have "header_line req [] 0 = (Some ALL_DATA_READ, req\<lparr>headers_size := headers_size req\<rparr>)"
    using Nil.prems(2) by (auto simp: header_line_def too_long_def header_room_def split: option.splits)
  then show ?case
    using lines_ref_text [of "[]" req q] by (intro exI [of _ 0]) (simp add: headers_text_def)
next
  case (Cons h hs)
  obtain k v where h: "h = (k, v)" by fastforce
  let ?s = "header_chars (k, v)" and ?n = "length (header_chars (k, v))"
  let ?r = "req\<lparr>headers_size := headers_size req + ?n, input_headers := input_headers req @ [(k, v)]\<rparr>"
  have wf: "header_wf (k, v)" using Cons.prems(1) h by simp
  have l: "length (headers_text (h # hs)) = ?n + 2 + length (headers_text hs)" by (simp add: headers_text_Cons h)
  have c: "CHR 0x0A \<notin> set ?s" "last ?s \<noteq> CHR 0x0D" "CHR 0x00 \<notin> set ?s"
    using wf by (cases v rule: rev_cases; auto simp: header_wf_def header_chars_def)+
  have "header_line req ?s ?n = (None, ?r)"
    using Cons.prems(2) l by (intro header_line_text [OF wf]) (auto intro: header_room_le)
  then have one: "lines_ref header_step req (bytes (headers_text (h # hs)) @ q) =
      lines_ref header_step ?r (bytes (headers_text hs) @ q)"
    using lines_ref_text [of ?s req "bytes (headers_text hs) @ q"] c by (simp add: headers_text_Cons h)
  have "header_room ?r (length (headers_text hs))"
    using Cons.prems(2) l by (auto simp: header_room_def split: option.splits)
  then obtain n where "lines_ref header_step ?r (bytes (headers_text hs) @ q) =
      (Some ALL_DATA_READ, ?r\<lparr>headers_size := headers_size ?r + n, input_headers := input_headers ?r @ hs\<rparr>, q)"
    using Cons.IH [of ?r] Cons.prems(1) by auto
  then show ?case by (intro exI [of _ "?n + n"]) (simp add: one [unfolded h] h add.assoc)
qed

lemma arrive_headers:
  assumes "mm_total m" "length text' \<le> EVQ_CAP" "header_room r (length text')" "concat pieces = text'"
    and "lines_ref header_step r text' = (Some s, r', left)"
  shows "\<exists>b. arrive m (evhttp_parse_headers m) r evbuffer_new pieces = (s, r', b) \<and> content b = left \<and> evb_live b"
proof -
  have new: "evb_live evbuffer_new" "content evbuffer_new = []" by simp_all
  have ne: "pieces \<noteq> []"
  proof
    assume "pieces = []"
    then have "lines_ref header_step r text' = (None, r, [])"
      using assms(4) by (subst lines_ref.simps) (simp add: eol_ref_def)
    then show False using assms(5) by simp
  qed
  have live: "mm_total m \<and> evb_live evbuffer_new \<and> length (content evbuffer_new) + length (concat pieces) \<le> EVQ_CAP \<and>
      header_room r (length (content evbuffer_new) + length (concat pieces))"
    using assms new by simp
  have whole: "lines_ref header_step r (content evbuffer_new @ concat pieces) = (Some s, r', left)"
    using assms new by simp
  obtain req' b where "arrive m (evhttp_parse_headers m) r evbuffer_new pieces = (chunk_status (Some s), req', b)"
    "mm_total m \<and> evb_live b \<and> length (content b) + 0 \<le> EVQ_CAP \<and> header_room req' (length (content b) + 0)"
    "req' = r'" "content b = left"
    by (rule header_reading.arrive_whole [OF live ne whole])
  then show ?thesis by (simp add: chunk_status_def)
qed

text \<open>
  C35: the headers that \<^verbatim>\<open>evhttp_make_header\<close> writes are read back by \<^verbatim>\<open>evhttp_parse_headers_\<close> as they
  were, in their order, in whatever pieces they arrive, and what follows them stays in the buffer; for
  keys and values without line ends, keys without a colon, and values without blanks at their ends.
\<close>

theorem headers_roundtrip:
  assumes "mm_total m" "list_all header_wf hs"
    and "concat pieces = bytes (headers_text hs) @ rest"
    and "length (concat pieces) \<le> EVQ_CAP" "header_room r (length (concat pieces))"
  shows "\<exists>r' b. arrive m (evhttp_parse_headers m) r evbuffer_new pieces = (ALL_DATA_READ, r', b) \<and>
    input_headers r' = input_headers r @ hs \<and> content b = rest"
proof -
  have "header_room r (length (headers_text hs))" using assms(3,5) by (auto intro: header_room_le)
  from lines_ref_headers [OF assms(2) this, of rest] obtain n where
    "lines_ref header_step r (concat pieces) = (Some ALL_DATA_READ,
       r\<lparr>headers_size := headers_size r + n, input_headers := input_headers r @ hs\<rparr>, rest)"
    using assms(3) by auto
  from arrive_headers [OF assms(1,4,5) refl this] show ?thesis by auto
qed

lemma headers_roundtrip_witness:
  "\<exists>r' b. arrive (\<lambda>n. Some (replicate n 0)) (evhttp_parse_headers (\<lambda>n. Some (replicate n 0))) demo_request evbuffer_new
      [bytes ''Host: a:1'', bytes (CHR 0x0D # CHR 0x0A # ''X: ''), bytes [CHR 0x0D, CHR 0x0A, CHR 0x0D, CHR 0x0A] @ [7]] =
      (ALL_DATA_READ, r', b) \<and> input_headers r' = [(''Host'', ''a:1''), (''X'', [])] \<and> content b = [7]"
proof -
  have m: "mm_total (\<lambda>n. Some (replicate n (0 :: byte)))" by (simp add: mm_total_def mm_ok_def)
  let ?ps = "[bytes ''Host: a:1'', bytes (CHR 0x0D # CHR 0x0A # ''X: ''), bytes [CHR 0x0D, CHR 0x0A, CHR 0x0D, CHR 0x0A] @ [7]]"
    and ?hs = "[(''Host'', ''a:1''), (''X'', [])]"
  have "list_all header_wf ?hs" by (simp add: header_wf_def)
  moreover have "concat ?ps = bytes (headers_text ?hs) @ [7]" by (simp add: headers_text_def header_text_def)
  moreover have "length (concat ?ps) \<le> EVQ_CAP" "header_room demo_request (length (concat ?ps))"
    by (simp_all add: EVQ_CAP_def header_room_def demo_request_def)
  moreover have "input_headers demo_request = []" by (simp add: demo_request_def)
  ultimately show ?thesis using headers_roundtrip [OF m, of ?hs ?ps "[7]" demo_request] by (simp only: append_Nil)
qed

text \<open>
  C36: a value that goes on after an empty line, which \<^verbatim>\<open>evhttp_add_header\<close> accepts since a blank
  follows the line ends, splits the message: the receiver has all headers before it, the value cut at
  the line end, takes the headers as complete and the rest of the value and all later headers as the body.
\<close>

theorem header_value_splits_message:
  assumes "mm_total m" "list_all header_wf (hs @ [(k, v)])" "CHR 0x0D \<notin> set w" "CHR 0x0A \<notin> set w"
    and bad: "bad = v @ [CHR 0x0D, CHR 0x0A, CHR 0x0D, CHR 0x0A, CHR '' ''] @ w"
    and "concat pieces = bytes (headers_text (hs @ [(k, bad)] @ more_hs))"
    and "length (concat pieces) \<le> EVQ_CAP" "header_room r (length (concat pieces))"
  shows "evhttp_add_header out k bad = (0, out @ [(k, bad)]) \<and>
    (\<exists>r' b. arrive m (evhttp_parse_headers m) r evbuffer_new pieces = (ALL_DATA_READ, r', b) \<and>
      input_headers r' = input_headers r @ hs @ [(k, v)] \<and>
      content b = bytes (CHR '' '' # w @ [CHR 0x0D, CHR 0x0A] @ headers_text more_hs))"
proof
  have kv: "CHR 0x0D \<notin> set k" "CHR 0x0A \<notin> set k" "CHR 0x0D \<notin> set v" "CHR 0x0A \<notin> set v"
    using assms(2) by (auto simp: header_wf_def)
  have d: "dropWhile (\<lambda>c. \<not> is_crlf c) bad = [CHR 0x0D, CHR 0x0A, CHR 0x0D, CHR 0x0A, CHR '' ''] @ w"
    using kv unfolding bad by (subst dropWhile_append2) (auto simp: is_crlf_def)
  have "evhttp_header_is_valid_value (CHR '' '' # w)" using assms(3,4) by (intro no_crlf_valid) auto
  then have "evhttp_header_is_valid_value bad"
    by (subst evhttp_header_is_valid_value.simps) (simp only: d, simp add: is_crlf_def)
  then show "evhttp_add_header out k bad = (0, out @ [(k, bad)])"
    using kv by (simp add: evhttp_add_header_def evhttp_add_header_internal_def)
next
  let ?left = "bytes (CHR '' '' # w @ [CHR 0x0D, CHR 0x0A] @ headers_text more_hs)"
  have t: "concat pieces = bytes (headers_text (hs @ [(k, v)])) @ ?left"
    using assms(6) by (simp add: headers_text_def header_text_def bad)
  then have "header_room r (length (headers_text (hs @ [(k, v)])))" using assms(8) by (auto intro: header_room_le)
  from lines_ref_headers [OF assms(2) this, of ?left] obtain n where
    "lines_ref header_step r (concat pieces) = (Some ALL_DATA_READ,
       r\<lparr>headers_size := headers_size r + n, input_headers := input_headers r @ hs @ [(k, v)]\<rparr>, ?left)"
    using t by auto
  from arrive_headers [OF assms(1,7,8) refl this]
  show "\<exists>r' b. arrive m (evhttp_parse_headers m) r evbuffer_new pieces = (ALL_DATA_READ, r', b) \<and>
      input_headers r' = input_headers r @ hs @ [(k, v)] \<and> content b = ?left"
    by auto
qed

lemma header_value_splits_message_witness:
  "evhttp_add_header [] ''A'' (''1'' @ [CHR 0x0D, CHR 0x0A, CHR 0x0D, CHR 0x0A, CHR '' ''] @ ''evil'') =
     (0, [(''A'', ''1'' @ [CHR 0x0D, CHR 0x0A, CHR 0x0D, CHR 0x0A, CHR '' ''] @ ''evil'')])"
proof -
  have m: "mm_total (\<lambda>n. Some (replicate n (0 :: byte)))" by (simp add: mm_total_def mm_ok_def)
  let ?bad = "''1'' @ [CHR 0x0D, CHR 0x0A, CHR 0x0D, CHR 0x0A, CHR '' ''] @ ''evil''"
  have "list_all header_wf ([] @ [(''A'', ''1'')])" by (simp add: header_wf_def)
  moreover have "header_room demo_request (length (concat [bytes (headers_text ([] @ [(''A'', ?bad)] @ []))]))"
    by (simp add: header_room_def demo_request_def headers_text_def header_text_def)
  ultimately show ?thesis
    using header_value_splits_message [OF m, of "[]" "''A''" "''1''" "''evil''" ?bad
        "[bytes (headers_text ([] @ [(''A'', ?bad)] @ []))]" "[]" demo_request "[]"]
    by (simp add: EVQ_CAP_def headers_text_def header_text_def)
qed

end
