(* ===== verification/Tagging.thy ===== *)
theory Tagging
  imports EvbufferSearch Timers "HOL-Library.Monad_Syntax"
begin

text \<open>
  Tagged data (\<^verbatim>\<open>event_tagging.c\<close>): tags, integers by nibbles and items of a tag, a length and a payload, put
  into and taken from an \<^verbatim>\<open>evbuffer\<close>. A decoder gives \<^term>\<open>None\<close> where the code reads outside its
  memory; otherwise the value and the number of bytes it took, or \<^term>\<open>None\<close> inside for the return of
  -1, with the buffer.
\<close>

unbundle bit_operations_syntax

section \<open>Encoding\<close>

text \<open>
  The macro \<^verbatim>\<open>ENCODE_INT_INTERNAL\<close>, which is used at the widths 32 and 64: its loop, with the value of
  \<^verbatim>\<open>off\<close>, and the bytes that it returns the number of.
\<close>

definition put_nibble :: "byte \<Rightarrow> nat \<Rightarrow> byte list \<Rightarrow> byte list" where
  "put_nibble x i data =
     data[i div 2 :=
       (if odd i then (data ! (i div 2) AND 0xf0) OR (x AND 0x0f)
        else (data ! (i div 2) AND 0x0f) OR push_bit 4 (x AND 0x0f))]"

function encode_loop :: "'a :: len word \<Rightarrow> nat \<Rightarrow> byte list \<Rightarrow> nat \<times> byte list" where
  "encode_loop number i data =
     (if number = 0 then (i, data)
      else encode_loop (drop_bit 4 number) (i + 1) (put_nibble (ucast number) i data))"
  by pat_completeness auto
termination
proof (relation "measure (\<lambda>(number, _, _). unat number)")
  fix number :: "'a word" and i :: nat and data :: "byte list"
  assume "number \<noteq> 0"
  then have "unat number \<noteq> 0" by (simp add: unat_eq_0)
  then have "unat (drop_bit 4 number) < unat number"
    by (simp only: unat_drop_bit_eq) (simp add: drop_bit_eq_div)
  then show "((drop_bit 4 number, i + 1, put_nibble (ucast number) i data), (number, i, data)) \<in>
      measure (\<lambda>(number, _, _). unat number)"
    by simp
qed simp

declare encode_loop.simps [simp del]

definition encode_int :: "'a :: len word \<Rightarrow> byte list" where
  "encode_int number =
     (let (i, data) = encode_loop number 1 (replicate (LENGTH('a) div 8 + 1) 0);
          nibbles = (if i > 2 then i - 2 else 0)
      in take ((i + 1) div 2) (data[0 := (data ! 0 AND 0x0f) OR push_bit 4 (of_nat nibbles AND 0x0f)]))"

definition evtag_encode_int :: "malloc \<Rightarrow> evbuffer \<Rightarrow> 32 word \<Rightarrow> evbuffer" where
  "evtag_encode_int m evbuf number = snd (evbuffer_add m evbuf (encode_int number))"

definition evtag_encode_int64 :: "malloc \<Rightarrow> evbuffer \<Rightarrow> 64 word \<Rightarrow> evbuffer" where
  "evtag_encode_int64 m evbuf number = snd (evbuffer_add m evbuf (encode_int number))"

function encode_tag :: "32 word \<Rightarrow> byte list" where
  "encode_tag tag =
     (if drop_bit 7 tag = 0 then [ucast tag AND 0x7f]
      else ((ucast tag AND 0x7f) OR 0x80) # encode_tag (drop_bit 7 tag))"
  by pat_completeness auto
termination
proof (relation "measure unat")
  fix tag :: "32 word"
  assume "drop_bit 7 tag \<noteq> 0"
  then have "unat tag \<noteq> 0" by (metis drop_bit_of_0 unat_eq_0)
  then have "unat (drop_bit 7 tag) < unat tag"
    by (simp only: unat_drop_bit_eq) (simp add: drop_bit_eq_div)
  then show "(drop_bit 7 tag, tag) \<in> measure unat" by simp
qed simp

declare encode_tag.simps [simp del]

definition evtag_encode_tag :: "malloc \<Rightarrow> evbuffer option \<Rightarrow> 32 word \<Rightarrow> int \<times> evbuffer option" where
  "evtag_encode_tag m evbuf tag =
     (int (length (encode_tag tag)), map_option (\<lambda>b. snd (evbuffer_add m b (encode_tag tag))) evbuf)"

text \<open>Putting a tag into a buffer that there is.\<close>

definition add_tag :: "malloc \<Rightarrow> evbuffer \<Rightarrow> 32 word \<Rightarrow> evbuffer" where
  "add_tag m evbuf tag = the (snd (evtag_encode_tag m (Some evbuf) tag))"

section \<open>Items\<close>

text \<open>The length is given by the caller; \<open>data\<close> are the bytes there.\<close>

definition evtag_marshal :: "malloc \<Rightarrow> evbuffer \<Rightarrow> 32 word \<Rightarrow> byte list \<Rightarrow> 32 word \<Rightarrow> evbuffer" where
  "evtag_marshal m evbuf tag data len =
     (let evbuf = add_tag m evbuf tag;
          evbuf = evtag_encode_int m evbuf len
      in snd (evbuffer_add m evbuf (take (unat len) data)))"

definition evtag_marshal_buffer :: "malloc \<Rightarrow> evbuffer \<Rightarrow> 32 word \<Rightarrow> evbuffer \<Rightarrow> evbuffer \<times> evbuffer" where
  "evtag_marshal_buffer m evbuf tag data =
     (let evbuf = add_tag m evbuf tag;
          evbuf = evtag_encode_int m evbuf (of_nat (total_len data));
          (r, evbuf, data) = evbuffer_add_buffer m evbuf data
      in (evbuf, data))"

definition evtag_marshal_int :: "malloc \<Rightarrow> evbuffer \<Rightarrow> 32 word \<Rightarrow> 32 word \<Rightarrow> evbuffer" where
  "evtag_marshal_int m evbuf tag integer =
     (let data = encode_int integer;
          evbuf = add_tag m evbuf tag;
          evbuf = evtag_encode_int m evbuf (of_nat (length data))
      in snd (evbuffer_add m evbuf data))"

definition evtag_marshal_int64 :: "malloc \<Rightarrow> evbuffer \<Rightarrow> 32 word \<Rightarrow> 64 word \<Rightarrow> evbuffer" where
  "evtag_marshal_int64 m evbuf tag integer =
     (let data = encode_int integer;
          evbuf = add_tag m evbuf tag;
          evbuf = evtag_encode_int m evbuf (of_nat (length data))
      in snd (evbuffer_add m evbuf data))"

text \<open>A C string, without its NUL.\<close>

definition evtag_marshal_string :: "malloc \<Rightarrow> evbuffer \<Rightarrow> 32 word \<Rightarrow> byte list \<Rightarrow> evbuffer" where
  "evtag_marshal_string m buf tag string = evtag_marshal m buf tag string (of_nat (length string))"

definition evtag_marshal_timeval :: "malloc \<Rightarrow> evbuffer \<Rightarrow> 32 word \<Rightarrow> timeval \<Rightarrow> evbuffer" where
  "evtag_marshal_timeval m evbuf tag tv =
     (let data = encode_int (word_of_int (tv_sec tv) :: 32 word) @ encode_int (word_of_int (tv_usec tv) :: 32 word)
      in evtag_marshal m evbuf tag data (of_nat (length data)))"

section \<open>Decoding\<close>

text \<open>
  The loop of \<^verbatim>\<open>decode_tag_internal\<close>: \<open>mem\<close> is the memory from \<^verbatim>\<open>data\<close> to the end of the first chain,
  which may end before the \<open>len\<close> bytes of the buffer do.
\<close>

fun decode_tag_loop ::
    "byte list \<Rightarrow> nat \<Rightarrow> nat \<Rightarrow> 32 word \<Rightarrow> nat \<Rightarrow> (32 word \<times> nat) option option" where
  "decode_tag_loop mem len taken number shift =
     (if taken < len then
        (case mem of
           [] \<Rightarrow> None
         | lower # mem \<Rightarrow>
             if shift \<ge> 28 \<and> (shift > 28 \<or> lower AND 0x7f > 15) then Some None
             else
               (let number = number OR push_bit shift (ucast (lower AND 0x7f))
                in if lower AND 0x80 = 0 then Some (Some (number, taken + 1))
                   else decode_tag_loop mem len (taken + 1) number (shift + 7)))
      else Some None)"

declare decode_tag_loop.simps [simp del]

definition first_memory :: "evbuffer \<Rightarrow> byte list" where
  "first_memory b = drop (misalign (hd (chains b))) (buffer (hd (chains b)))"

definition decode_tag_internal :: "malloc \<Rightarrow> evbuffer \<Rightarrow> bool \<Rightarrow> ((32 word \<times> int) option \<times> evbuffer) option" where
  "decode_tag_internal m evbuf dodrain =
     (let len = total_len evbuf;
          (data, evbuf) = evbuffer_pullup m evbuf (int (if len < 5 then len else 5))
      in if data = None then Some (None, evbuf)
         else
           do {
             r \<leftarrow> decode_tag_loop (first_memory evbuf) len 0 0 0;
             (case r of
                None \<Rightarrow> Some (None, evbuf)
              | Some (number, taken) \<Rightarrow>
                  Some (Some (number, int taken), if dodrain then snd (evbuffer_drain evbuf taken) else evbuf))
           })"

definition evtag_decode_tag :: "malloc \<Rightarrow> evbuffer \<Rightarrow> ((32 word \<times> int) option \<times> evbuffer) option" where
  "evtag_decode_tag m evbuf = decode_tag_internal m evbuf True"

definition evtag_peek :: "malloc \<Rightarrow> evbuffer \<Rightarrow> ((32 word \<times> int) option \<times> evbuffer) option" where
  "evtag_peek m evbuf = decode_tag_internal m evbuf False"

text \<open>The macro \<^verbatim>\<open>DECODE_INT_INTERNAL\<close>.\<close>

fun decode_nibbles :: "byte list \<Rightarrow> nat \<Rightarrow> 'a :: len word \<Rightarrow> 'a word" where
  "decode_nibbles data 0 number = number"
| "decode_nibbles data (Suc n) number =
     decode_nibbles data n
       (push_bit 4 number OR
        (if odd (Suc n) then ucast (data ! (Suc n div 2) AND 0x0f)
         else ucast (drop_bit 4 (data ! (Suc n div 2) AND 0xf0))))"

definition decode_int_at ::
    "nat \<Rightarrow> malloc \<Rightarrow> evbuffer \<Rightarrow> int \<Rightarrow> (('a :: len word \<times> int) option \<times> evbuffer) option" where
  "decode_int_at maxnibbles m evbuf offset =
     (let len = int (total_len evbuf) - offset
      in if len \<le> 0 then Some (None, evbuf)
         else
           (case evbuffer_pullup m evbuf (offset + 1) of
              (None, evbuf) \<Rightarrow> if offset = 0 then Some (None, evbuf) else None
            | (Some data, evbuf) \<Rightarrow>
                (let nibbles = unat (drop_bit 4 (data ! nat offset AND 0xf0)) + 1
                 in if nibbles > maxnibbles \<or> int (nibbles div 2 + 1) > len then Some (None, evbuf)
                    else
                      (let len = nibbles div 2 + 1
                       in case evbuffer_pullup m evbuf (offset + int len) of
                            (None, evbuf) \<Rightarrow> if offset = 0 then Some (None, evbuf) else None
                          | (Some data, evbuf) \<Rightarrow>
                              Some (Some (decode_nibbles (drop (nat offset) data) nibbles 0, int len), evbuf)))))"

definition decode_int_internal :: "malloc \<Rightarrow> evbuffer \<Rightarrow> int \<Rightarrow> ((32 word \<times> int) option \<times> evbuffer) option" where
  "decode_int_internal m evbuf offset = decode_int_at 8 m evbuf offset"

definition decode_int64_internal :: "malloc \<Rightarrow> evbuffer \<Rightarrow> int \<Rightarrow> ((64 word \<times> int) option \<times> evbuffer) option" where
  "decode_int64_internal m evbuf offset = decode_int_at 16 m evbuf offset"

definition evtag_decode_int :: "malloc \<Rightarrow> evbuffer \<Rightarrow> (32 word option \<times> evbuffer) option" where
  "evtag_decode_int m evbuf =
     do {
       (r, evbuf) \<leftarrow> decode_int_internal m evbuf 0;
       (case r of
          None \<Rightarrow> Some (None, evbuf)
        | Some (number, res) \<Rightarrow> Some (Some number, snd (evbuffer_drain evbuf (nat res))))
     }"

definition evtag_decode_int64 :: "malloc \<Rightarrow> evbuffer \<Rightarrow> (64 word option \<times> evbuffer) option" where
  "evtag_decode_int64 m evbuf =
     do {
       (r, evbuf) \<leftarrow> decode_int64_internal m evbuf 0;
       (case r of
          None \<Rightarrow> Some (None, evbuf)
        | Some (number, res) \<Rightarrow> Some (Some number, snd (evbuffer_drain evbuf (nat res))))
     }"

text \<open>The length of the payload, and the sum of it and of the header in 32 bits.\<close>

definition peek_lengths :: "malloc \<Rightarrow> evbuffer \<Rightarrow> ((32 word \<times> int) option \<times> evbuffer) option" where
  "peek_lengths m evbuf =
     do {
       (t, evbuf) \<leftarrow> decode_tag_internal m evbuf False;
       (case t of
          None \<Rightarrow> Some (None, evbuf)
        | Some (_, len) \<Rightarrow>
            do {
              (r, evbuf) \<leftarrow> decode_int_internal m evbuf len;
              Some (map_option (\<lambda>(plength, res). (plength, res + len)) r, evbuf)
            })
     }"

definition evtag_peek_length :: "malloc \<Rightarrow> evbuffer \<Rightarrow> (32 word option \<times> evbuffer) option" where
  "evtag_peek_length m evbuf =
     do {
       (r, evbuf) \<leftarrow> peek_lengths m evbuf;
       Some (map_option (\<lambda>(plength, header). plength + word_of_int header) r, evbuf)
     }"

definition evtag_payload_length :: "malloc \<Rightarrow> evbuffer \<Rightarrow> (32 word option \<times> evbuffer) option" where
  "evtag_payload_length m evbuf =
     do {
       (r, evbuf) \<leftarrow> peek_lengths m evbuf;
       Some (map_option fst r, evbuf)
     }"

text \<open>The result is the length as an \<^verbatim>\<open>int\<close>: -1 is also what a length of all ones becomes.\<close>

definition evtag_unmarshal_header :: "malloc \<Rightarrow> evbuffer \<Rightarrow> (int \<times> 32 word option \<times> evbuffer) option" where
  "evtag_unmarshal_header m evbuf =
     do {
       (t, evbuf) \<leftarrow> decode_tag_internal m evbuf True;
       (case t of
          None \<Rightarrow> Some (-1, None, evbuf)
        | Some (tag, _) \<Rightarrow>
            do {
              (r, evbuf) \<leftarrow> evtag_decode_int m evbuf;
              (case r of
                 None \<Rightarrow> Some (-1, Some tag, evbuf)
               | Some len \<Rightarrow>
                   if total_len evbuf < unat len then Some (-1, Some tag, evbuf)
                   else Some (cast_int (uint len), Some tag, evbuf))
            })
     }"

text \<open>Draining a number of bytes given as an \<^verbatim>\<open>int\<close>.\<close>

definition drain_int :: "evbuffer \<Rightarrow> int \<Rightarrow> evbuffer" where
  "drain_int evbuf len = snd (evbuffer_drain evbuf (nat (cast_uint64 len)))"

definition evtag_consume :: "malloc \<Rightarrow> evbuffer \<Rightarrow> (int \<times> evbuffer) option" where
  "evtag_consume m evbuf =
     do {
       (len, tag, evbuf) \<leftarrow> evtag_unmarshal_header m evbuf;
       Some (if len = -1 then (-1, evbuf) else (0, drain_int evbuf len))
     }"

text \<open>
  \<^verbatim>\<open>evbuffer_add\<close> of the \<open>len\<close> bytes at \<open>p\<close>: a negative length is a size that no chain has, and a null
  pointer, which \<^verbatim>\<open>evbuffer_pullup\<close> gives where there is no memory, is read unless the call fails first.
\<close>

definition add_pulled :: "malloc \<Rightarrow> evbuffer \<Rightarrow> byte list option \<Rightarrow> int \<Rightarrow> (int \<times> evbuffer) option" where
  "add_pulled m dst p len =
     (if len < 0 then Some (-1, dst)
      else
        (case p of
           Some data \<Rightarrow> Some (evbuffer_add m dst data)
         | None \<Rightarrow>
             (let (r, dst') = evbuffer_add m dst (replicate (nat len) 0)
              in if r = -1 \<or> len = 0 then Some (r, dst') else None)))"

definition evtag_unmarshal :: "malloc \<Rightarrow> evbuffer \<Rightarrow> evbuffer \<Rightarrow> (int \<times> 32 word option \<times> evbuffer \<times> evbuffer) option" where
  "evtag_unmarshal m src dst =
     do {
       (len, tag, src) \<leftarrow> evtag_unmarshal_header m src;
       (if len = -1 then Some (-1, tag, src, dst)
        else
          (let (p, src) = evbuffer_pullup m src len
           in do {
                (r, dst) \<leftarrow> add_pulled m dst p len;
                Some (if r = -1 then (-1, tag, src, dst) else (len, tag, drain_int src len, dst))
              }))
     }"

text \<open>The common part of \<^verbatim>\<open>evtag_unmarshal_int\<close> and \<^verbatim>\<open>evtag_unmarshal_int64\<close>: the length of an item with the tag.\<close>

definition int_header :: "malloc \<Rightarrow> evbuffer \<Rightarrow> 32 word \<Rightarrow> (32 word option \<times> evbuffer) option" where
  "int_header m evbuf need_tag =
     do {
       (t, evbuf) \<leftarrow> decode_tag_internal m evbuf True;
       (case t of
          None \<Rightarrow> Some (None, evbuf)
        | Some (tag, _) \<Rightarrow>
            if need_tag \<noteq> tag then Some (None, evbuf)
            else
              do {
                (r, evbuf) \<leftarrow> evtag_decode_int m evbuf;
                (case r of
                   None \<Rightarrow> Some (None, evbuf)
                 | Some len \<Rightarrow> Some (if total_len evbuf < unat len then (None, evbuf) else (Some len, evbuf)))
              })
     }"

text \<open>The number and the bytes it took, or \<^term>\<open>None\<close> for -1.\<close>

definition evtag_unmarshal_int :: "malloc \<Rightarrow> evbuffer \<Rightarrow> 32 word \<Rightarrow> ((32 word \<times> int) option \<times> evbuffer) option" where
  "evtag_unmarshal_int m evbuf need_tag =
     do {
       (h, evbuf) \<leftarrow> int_header m evbuf need_tag;
       (case h of
          None \<Rightarrow> Some (None, evbuf)
        | Some len \<Rightarrow>
            do {
              (r, evbuf) \<leftarrow> decode_int_internal m evbuf 0;
              (let evbuf = snd (evbuffer_drain evbuf (unat len))
               in case r of
                    None \<Rightarrow> Some (None, evbuf)
                  | Some (number, n) \<Rightarrow> Some (if n > uint len then None else Some (number, n), evbuf))
            })
     }"

definition evtag_unmarshal_int64 :: "malloc \<Rightarrow> evbuffer \<Rightarrow> 32 word \<Rightarrow> ((64 word \<times> int) option \<times> evbuffer) option" where
  "evtag_unmarshal_int64 m evbuf need_tag =
     do {
       (h, evbuf) \<leftarrow> int_header m evbuf need_tag;
       (case h of
          None \<Rightarrow> Some (None, evbuf)
        | Some len \<Rightarrow>
            do {
              (r, evbuf) \<leftarrow> decode_int64_internal m evbuf 0;
              (let evbuf = snd (evbuffer_drain evbuf (unat len))
               in case r of
                    None \<Rightarrow> Some (None, evbuf)
                  | Some (number, n) \<Rightarrow> Some (if n > uint len then None else Some (number, n), evbuf))
            })
     }"

text \<open>The bytes copied to \<^verbatim>\<open>data\<close>, or \<^term>\<open>None\<close> for -1.\<close>

definition evtag_unmarshal_fixed :: "malloc \<Rightarrow> evbuffer \<Rightarrow> 32 word \<Rightarrow> nat \<Rightarrow> (byte list option \<times> evbuffer) option" where
  "evtag_unmarshal_fixed m src need_tag len =
     do {
       (tag_len, tag, src) \<leftarrow> evtag_unmarshal_header m src;
       (if tag_len < 0 \<or> tag \<noteq> Some need_tag then Some (None, src)
        else if nat tag_len \<noteq> len then Some (None, src)
        else (let (r, data, src) = evbuffer_remove src len in Some (Some data, src)))
     }"

text \<open>
  The bytes before the NUL that is written behind them; \<open>has_memory\<close> tells whether \<^verbatim>\<open>mm_malloc\<close> has so
  many bytes.
\<close>

definition evtag_unmarshal_string ::
    "malloc \<Rightarrow> (nat \<Rightarrow> bool) \<Rightarrow> evbuffer \<Rightarrow> 32 word \<Rightarrow> (byte list option \<times> evbuffer) option" where
  "evtag_unmarshal_string m has_memory evbuf need_tag =
     do {
       (tag_len, tag, evbuf) \<leftarrow> evtag_unmarshal_header m evbuf;
       (if tag_len = -1 \<or> tag \<noteq> Some need_tag then Some (None, evbuf)
        else if \<not> has_memory (nat (cast_uint64 (cast_int (tag_len + 1)))) then Some (None, evbuf)
        else (let (r, data, evbuf) = evbuffer_remove evbuf (nat (cast_uint64 tag_len))
              in if tag_len < 0 then None else Some (Some data, evbuf)))
     }"

definition evtag_unmarshal_timeval :: "malloc \<Rightarrow> evbuffer \<Rightarrow> 32 word \<Rightarrow> (timeval option \<times> evbuffer) option" where
  "evtag_unmarshal_timeval m evbuf need_tag =
     do {
       (len, tag, evbuf) \<leftarrow> evtag_unmarshal_header m evbuf;
       (if len = -1 then Some (None, evbuf)
        else if tag \<noteq> Some need_tag then Some (None, drain_int evbuf len)
        else
          do {
            (r, evbuf) \<leftarrow> decode_int_internal m evbuf 0;
            (case r of
               None \<Rightarrow> Some (None, drain_int evbuf len)
             | Some (sec, offset) \<Rightarrow>
                 do {
                   (r, evbuf) \<leftarrow> decode_int_internal m evbuf offset;
                   (case r of
                      None \<Rightarrow> Some (None, drain_int evbuf len)
                    | Some (usec, offset2) \<Rightarrow>
                        Some (if offset + offset2 > len then None else Some (Timeval (uint sec) (uint usec)),
                              drain_int evbuf len))
                 })
          })
     }"

end
