(* ===== verification/TaggingSpec.thy ===== *)
theory TaggingSpec
  imports Tagging ByteQueue EvbufferLines
begin

text \<open>
  Properties of the tagged data of \<^verbatim>\<open>event_tagging.c\<close>: what the buffer operations promise their client, the
  codes of tags and of integers, and the round trip of a stream of items.
\<close>

unbundle bit_operations_syntax

section \<open>The buffer as its client sees it\<close>

text \<open>No chain may not be moved.\<close>

definition unpinned :: "evbuffer \<Rightarrow> bool" where
  "unpinned b \<longleftrightarrow> (\<forall>c \<in> set (chains b). \<not> pinned_w c)"

definition tag_live :: "evbuffer \<Rightarrow> bool" where
  "tag_live b \<longleftrightarrow> evb_live b \<and> unpinned b \<and> length (content b) \<le> EVQ_CAP"

lemma chain_new_unpinned: "evbuffer_chain_new m n = Some c \<Longrightarrow> \<not> pinned_w c"
  by (auto simp: evbuffer_chain_new_def Let_def split: if_splits option.splits)

lemma chain_write_pinned [simp]: "pinned_w (chain_write i bs c) = pinned_w c"
  by (simp add: chain_write_def)

lemma chain_align_pinned [simp]: "pinned_w (evbuffer_chain_align c) = pinned_w c"
  by (simp add: evbuffer_chain_align_def)

lemma invoke_callbacks_unpinned [simp]: "unpinned (evbuffer_invoke_callbacks b) = unpinned b"
  by (simp add: unpinned_def)

lemma unpinned_counter [simp]: "unpinned (b\<lparr>n_add_for_cb := n\<rparr>) = unpinned b"
  by (simp add: unpinned_def)

lemma free_trailing_unpinned: "unpinned b \<Longrightarrow> unpinned (snd (evbuffer_free_trailing_empty_chains b))"
  by (auto simp: unpinned_def evbuffer_free_trailing_empty_chains_def Let_def dest: in_set_takeD)

lemma chain_insert_unpinned: "unpinned b \<Longrightarrow> \<not> pinned_w c \<Longrightarrow> unpinned (evbuffer_chain_insert b c)"
  using free_trailing_unpinned [of b]
  by (auto simp: unpinned_def evbuffer_chain_insert_def Let_def split: prod.splits if_splits)

lemma update_unpinned:
  "unpinned b \<Longrightarrow> pinned_w c = pinned_w (chains b ! i) \<Longrightarrow> chains b' = (chains b)[i := c] \<Longrightarrow> unpinned b'"
  by (cases "i < length (chains b)")
    (simp add: unpinned_def set_update_distinct all_set_conv_all_nth nth_list_update, simp add: unpinned_def list_update_beyond)

lemma append_to_chain_unpinned: "unpinned b \<Longrightarrow> unpinned (append_to_chain i data b)"
  by (erule update_unpinned [where i = i]) (simp_all add: append_to_chain_def Let_def)

lemma add_new_chain_unpinned: "unpinned b \<Longrightarrow> unpinned (snd (add_new_chain m i n data b))"
  unfolding add_new_chain_def Let_def
  by (split option.split)
    (auto simp: unpinned_counter dest!: chain_new_unpinned intro!: chain_insert_unpinned append_to_chain_unpinned
      simp del: if_split split: if_split_asm)

lemma add_to_last_unpinned:
  assumes "unpinned b"
  shows "unpinned (snd (add_to_last m data b))"
proof -
  have "unpinned (b\<lparr>chains := (chains b)[i := evbuffer_chain_align (chains b ! i)]\<rparr>)" for i
    using assms by (rule update_unpinned [where i = i]) simp_all
  then show ?thesis
    using assms by (simp add: add_to_last_def Let_def append_to_chain_unpinned add_new_chain_unpinned)
qed

lemma add_unpinned: "unpinned b \<Longrightarrow> unpinned (snd (evbuffer_add m b data))"
  unfolding evbuffer_add_def
  by (simp add: add_to_last_unpinned chain_insert_unpinned chain_new_unpinned split: option.split)

lemma drain_loop_unpinned:
  "\<forall>c \<in> set cs. \<not> pinned_w c \<Longrightarrow> \<forall>c \<in> set (fst (drain_loop cs n l)). \<not> pinned_w c"
  by (induction cs n l rule: drain_loop.induct) (auto simp: Let_def)

lemma drain_unpinned:
  assumes "unpinned b"
  shows "unpinned (snd (evbuffer_drain b n))"
proof -
  obtain cs r l where d: "drain_loop (chains b) (if total_len b \<le> n then total_len b else n) (lwd b) = (cs, r, l)"
    using prod_cases3 by blast
  then have "\<forall>c \<in> set cs. \<not> pinned_w c"
    using drain_loop_unpinned [of "chains b"] assms by (metis unpinned_def fst_conv)
  then show ?thesis
    using assms d by (auto simp: evbuffer_drain_def Let_def unpinned_def ZERO_CHAIN_def split: list.split)
qed

lemma pull_chains_unpinned:
  "\<forall>c \<in> set cs. \<not> pinned_w c \<Longrightarrow> pull_chains cs n = (bs, k, rest) \<Longrightarrow> \<forall>c \<in> set rest. \<not> pinned_w c"
  by (induction cs n arbitrary: bs k rest rule: pull_chains.induct) (auto simp: Let_def split: if_splits prod.splits)

lemma pull_into_unpinned:
  "\<not> pinned_w tmp \<Longrightarrow> \<forall>c \<in> set cs. \<not> pinned_w c \<Longrightarrow> unpinned (snd (pull_into b tmp had i cs sz))"
  using pull_chains_unpinned [of cs "sz - had"]
  by (auto simp: pull_into_def Let_def unpinned_def split: prod.split)

lemma pullup_unpinned: "unpinned b \<Longrightarrow> unpinned (snd (evbuffer_pullup m b sz))"
  unfolding evbuffer_pullup_def Let_def
  by (simp add: pull_into_unpinned chain_new_unpinned unpinned_def [of b] split: list.split option.split)

lemma pull_into_freeze:
  "freeze_start (snd (pull_into b tmp had i cs sz)) = freeze_start b"
  "freeze_end (snd (pull_into b tmp had i cs sz)) = freeze_end b"
  by (simp_all add: pull_into_def Let_def split: prod.split)

lemma pullup_freeze:
  "freeze_start (snd (evbuffer_pullup m b sz)) = freeze_start b"
  "freeze_end (snd (evbuffer_pullup m b sz)) = freeze_end b"
  unfolding evbuffer_pullup_def Let_def by (simp_all add: pull_into_freeze split: list.split option.split)

text \<open>What the operations do to a buffer that is in order.\<close>

lemma pull_live:
  assumes m: "mm_total m" and b: "tag_live b" and n: "0 < n" "n \<le> length (content b)"
  shows "\<exists>b'. evbuffer_pullup m b (int n) = (Some (take n (content b)), b') \<and> tag_live b' \<and> content b' = content b \<and>
    chains b' \<noteq> [] \<and> take n (first_memory b') = take n (content b)"
proof -
  obtain r b' where r: "evbuffer_pullup m b (int n) = (r, b')" by fastforce
  have b0: "evb_ok b" "unpinned b" "\<not> freeze_start b" "\<not> freeze_end b" "length (content b) \<le> EVQ_CAP"
    using b by (simp_all add: tag_live_def evb_live_def)
  then have np: "list_all (\<lambda>c. \<not> CHAIN_PINNED c) (chains b)"
    by (auto simp: list_all_iff unpinned_def CHAIN_PINNED_def evb_ok_def chain_ok_def)
  have "n \<le> EVBUFFER_CHAIN_MAX - EVBUFFER_CHAIN_SIZE" using n(2) b0(5) EVQ_CAP_le by fastforce
  from pullup_total [OF b0(1) m np n this] r have some: "r \<noteq> None" by simp
  have mo: "mm_ok m" using m by (simp add: mm_total_def)
  note p = pullup_ok [OF b0(1) mo r]
  with some have q: "evb_ok b'" "content b' = content b" "r = Some (take n (content b))" "chains b' \<noteq> []"
    "n \<le> off (hd (chains b'))" by auto
  obtain c cs where cs: "chains b' = c # cs" using q(4) by (cases "chains b'") auto
  have "chain_ok c" using q(1) cs by (simp add: evb_ok_def)
  have "content b' = chain_data c @ data_of cs" using cs by (simp add: content_def)
  then have "take n (content b') = take n (chain_data c)"
    using q(5) cs length_chain_data [OF \<open>chain_ok c\<close>] by simp
  also have "\<dots> = take n (first_memory b')"
    using q(5) cs by (simp add: chain_data_def first_memory_def min_absorb1)
  finally have "take n (first_memory b') = take n (content b)" using q(2) by simp
  moreover have "tag_live b'"
    using pullup_unpinned [OF b0(2)] pullup_freeze [of m b "int n"] r q(1,2) b0
    by (metis evb_live_def snd_conv tag_live_def)
  ultimately show ?thesis using r q by blast
qed

lemma drain_live:
  assumes "tag_live b"
  shows "tag_live (snd (evbuffer_drain b n))" "content (snd (evbuffer_drain b n)) = drop n (content b)"
    "fst (evbuffer_drain b n) = 0"
proof -
  obtain r b' where r: "evbuffer_drain b n = (r, b')" by fastforce
  have b0: "evb_ok b" "unpinned b" "\<not> freeze_start b" "\<not> freeze_end b" "length (content b) \<le> EVQ_CAP"
    using assms by (simp_all add: tag_live_def evb_live_def)
  note d = evbuffer_drain_ok [OF b0(1) r]
  show "tag_live (snd (evbuffer_drain b n))" "content (snd (evbuffer_drain b n)) = drop n (content b)"
    "fst (evbuffer_drain b n) = 0"
    using d b0 r drain_unpinned [OF b0(2), of n] by (simp_all add: tag_live_def evb_live_def)
qed

lemma tag_add_live:
  assumes "mm_total m" and "tag_live b" and "length (content b) + length xs \<le> EVQ_CAP"
  shows "tag_live (snd (evbuffer_add m b xs))" "content (snd (evbuffer_add m b xs)) = content b @ xs"
    "fst (evbuffer_add m b xs) = 0"
proof -
  have b0: "evb_ok b" "unpinned b" "\<not> freeze_start b" "\<not> freeze_end b"
    using assms(2) by (simp_all add: tag_live_def evb_live_def)
  from evbuffer_add_live [OF assms(1) b0(1,4) assms(3)] obtain b' where
    b': "evbuffer_add m b xs = (0, b')" "evb_ok b'" "content b' = content b @ xs" "\<not> freeze_end b'"
      "freeze_start b' = freeze_start b" by blast
  show "tag_live (snd (evbuffer_add m b xs))" "content (snd (evbuffer_add m b xs)) = content b @ xs"
    "fst (evbuffer_add m b xs) = 0"
    using b' b0 add_unpinned [OF b0(2), of m xs] assms(3) by (simp_all add: tag_live_def evb_live_def)
qed

lemma total_len_live: "tag_live b \<Longrightarrow> total_len b = length (content b)"
  by (simp add: tag_live_def evb_live_def total_len_content)

lemma tag_live_new [simp]: "tag_live evbuffer_new"
  using evb_live_new by (simp add: tag_live_def) (simp add: unpinned_def evbuffer_new_def)

section \<open>The code of a tag\<close>

lemma and_low: "(x :: byte) AND 0x7f = take_bit 7 x"
  by (simp add: take_bit_eq_mask mask_eq_exp_minus_1)

lemma or_high: "(x :: byte) OR 0x80 = set_bit 7 x"
  by (simp add: set_bit_eq_or push_bit_of_1)

lemma high_bit: "(x :: byte) AND 0x80 = 0 \<longleftrightarrow> \<not> bit x 7"
  using and_exp_eq_0_iff_not_bit [of x 7] by simp

lemma tag_step:
  assumes "shift \<le> 25"
  shows "(number OR push_bit shift (take_bit 7 t)) OR push_bit (shift + 7) (drop_bit 7 t) = number OR push_bit shift (t :: 32 word)"
proof (rule bit_word_eqI)
  fix n
  assume "n < LENGTH(32)"
  moreover have "7 + (n - (shift + 7)) = n - shift" if "shift + 7 \<le> n" using that by simp
  ultimately show "bit ((number OR push_bit shift (take_bit 7 t)) OR push_bit (shift + 7) (drop_bit 7 t)) n \<longleftrightarrow>
      bit (number OR push_bit shift t) n"
    by (cases "shift + 7 \<le> n") (auto simp: bit_simps)
qed

lemma encode_tag_length: "unat t < 2 ^ (7 * Suc k) \<Longrightarrow> length (encode_tag t) \<le> Suc k"
proof (induction k arbitrary: t)
  case 0
  then have "unat (drop_bit 7 t) = 0" by (simp only: unat_drop_bit_eq) (simp add: drop_bit_eq_div)
  then have "drop_bit 7 t = 0" by (simp only: unat_eq_0)
  then show ?case by (simp add: encode_tag.simps [of t])
next
  case (Suc k)
  have "unat (drop_bit 7 t) < 2 ^ (7 * Suc k)"
    using Suc.prems
    by (simp only: unat_drop_bit_eq) (simp add: drop_bit_eq_div div_less_iff_less_mult power_add mult.commute)
  from Suc.IH [OF this] show ?case by (simp add: encode_tag.simps [of t])
qed

lemma encode_tag_short: "length (encode_tag t) \<le> 5"
proof -
  have "unat t < 2 ^ LENGTH(32)" by (rule unsigned_less)
  then show ?thesis using encode_tag_length [of t 4] by simp
qed

lemma encode_tag_nonempty: "encode_tag t \<noteq> []"
  by (simp add: encode_tag.simps [of t])

lemma low_seven:
  fixes t :: "32 word"
  shows "((ucast t :: byte) AND 0x7f) AND 0x7f = (ucast t AND 0x7f)"
    "(((ucast t :: byte) AND 0x7f) OR 0x80) AND 0x7f = (ucast t AND 0x7f)"
    "((ucast t :: byte) AND 0x7f) AND 0x80 = 0" "(((ucast t :: byte) AND 0x7f) OR 0x80) AND 0x80 \<noteq> 0"
    "ucast ((ucast t :: byte) AND 0x7f) = take_bit 7 t"
    "unat t < 16 \<Longrightarrow> \<not> (ucast t :: byte) AND 0x7f > 15"
proof -
  show "((ucast t :: byte) AND 0x7f) AND 0x7f = (ucast t AND 0x7f)" by (simp add: and_low)
  show "(((ucast t :: byte) AND 0x7f) OR 0x80) AND 0x7f = (ucast t AND 0x7f)"
    unfolding and_low or_high by (rule bit_word_eqI) (auto simp: bit_simps)
  show "((ucast t :: byte) AND 0x7f) AND 0x80 = 0" unfolding and_low high_bit by (simp add: bit_simps)
  show "(((ucast t :: byte) AND 0x7f) OR 0x80) AND 0x80 \<noteq> 0"
    unfolding and_low or_high high_bit by (simp add: bit_simps)
  show "ucast ((ucast t :: byte) AND 0x7f) = take_bit 7 t"
    unfolding and_low by (rule bit_word_eqI) (auto simp: bit_simps)
  assume "unat t < 16"
  moreover have "unat (take_bit 7 (ucast t :: byte)) \<le> unat t"
    by (simp only: unsigned_take_bit_eq unsigned_ucast_eq) (metis order.trans take_bit_nat_less_eq_self)
  ultimately show "\<not> (ucast t :: byte) AND 0x7f > 15" unfolding and_low by (simp add: word_less_nat_alt)
qed

lemma decode_tag_code:
  assumes "unat t < 2 ^ (32 - 7 * k)" and "k \<le> 4" and "taken + length (encode_tag t) \<le> len"
  shows "decode_tag_loop (encode_tag t @ rest) len taken number (7 * k) =
    Some (Some (number OR push_bit (7 * k) t, taken + length (encode_tag t)))"
  using assms
proof (induction t arbitrary: k taken number rule: encode_tag.induct)
  case (1 t)
  have fits: "\<not> (7 * k \<ge> 28 \<and> (7 * k > 28 \<or> (ucast t :: byte) AND 0x7f > 15))"
    using "1.prems"(1,2) low_seven(6) [of t] by (cases "k = 4") auto
  have len: "taken < len" using "1.prems"(3) encode_tag_nonempty [of t] by (cases "encode_tag t") simp_all
  show ?case
  proof (cases "drop_bit 7 t = 0")
    case True
    then have "take_bit 7 t = t" by (metis bits_ident add.left_neutral push_bit_of_0)
    have "decode_tag_loop ((ucast t AND 0x7f) # rest) len taken number (7 * k) =
        Some (Some (number OR push_bit (7 * k) t, taken + 1))"
      unfolding decode_tag_loop.simps [of "_ # _"] list.case Let_def low_seven(1,3,5) if_not_P [OF fits] if_P [OF len]
      using \<open>take_bit 7 t = t\<close> by simp
    with True show ?thesis by (simp add: encode_tag.simps [of t])
  next
    case False
    have small: "unat (drop_bit 7 t) = unat t div 128" by (simp only: unat_drop_bit_eq) (simp add: drop_bit_eq_div)
    have "k < 4"
    proof (rule ccontr)
      assume "\<not> k < 4"
      with "1.prems"(1,2) have "unat (drop_bit 7 t) = 0" unfolding small by (cases "k = 4") auto
      with False show False by (simp only: unat_eq_0)
    qed
    then have "32 - 7 * k = (32 - 7 * Suc k) + 7" by simp
    then have "unat t < 2 ^ (32 - 7 * Suc k) * 128" using "1.prems"(1) by (simp only: power_add) simp
    then have "unat (drop_bit 7 t) < 2 ^ (32 - 7 * Suc k)" unfolding small by (simp add: div_less_iff_less_mult)
    note ih = "1.IH" [OF False this, of "taken + 1" "number OR push_bit (7 * k) (take_bit 7 t)"]
    have "decode_tag_loop (((ucast t AND 0x7f) OR 0x80) # mem) len taken number (7 * k) =
        decode_tag_loop mem len (taken + 1) (number OR push_bit (7 * k) (take_bit 7 t)) (7 * Suc k)" for mem
      unfolding decode_tag_loop.simps [of "_ # _"] list.case Let_def low_seven(2,5) if_not_P [OF fits] if_P [OF len]
        if_not_P [OF low_seven(4)]
      by (simp add: add.commute)
    then show ?thesis
      using ih False tag_step [of "7 * k" number t] "1.prems"(3) \<open>k < 4\<close>
      by (simp add: encode_tag.simps [of t] add.commute)
  qed
qed

text \<open>A tag in front of a buffer is decoded; the other bytes stay.\<close>

lemma decode_tag_live:
  assumes m: "mm_total m" and b: "tag_live b" and c: "content b = encode_tag t @ rest"
  shows "\<exists>b'. decode_tag_internal m b drain = Some (Some (t, int (length (encode_tag t))), b') \<and> tag_live b' \<and>
    content b' = (if drain then rest else content b)"
proof -
  define n where "n = (if length (content b) < 5 then length (content b) else 5)"
  have n: "0 < n" "n \<le> length (content b)" "length (encode_tag t) \<le> n"
    using encode_tag_short [of t] encode_tag_nonempty [of t] c by (auto simp: n_def)
  from pull_live [OF m b n(1,2)] obtain b1 where b1: "evbuffer_pullup m b (int n) = (Some (take n (content b)), b1)"
    "tag_live b1" "content b1 = content b" "take n (first_memory b1) = take n (content b)" by blast
  have "take (length (encode_tag t)) (first_memory b1) = encode_tag t"
    using arg_cong [OF b1(4), of "take (length (encode_tag t))"] n(3) c by (simp add: min_absorb1)
  then obtain mem where mem: "first_memory b1 = encode_tag t @ mem" by (metis append_take_drop_id)
  have "unat t < 2 ^ LENGTH(32)" by (rule unsigned_less)
  then have "decode_tag_loop (first_memory b1) (length (content b)) 0 0 0 = Some (Some (t, length (encode_tag t)))"
    using decode_tag_code [of t 0 0 "length (content b)" mem 0] c mem by simp
  then have "decode_tag_internal m b drain = Some (Some (t, int (length (encode_tag t))),
      if drain then snd (evbuffer_drain b1 (length (encode_tag t))) else b1)"
    using b1(1) total_len_live [OF b] by (simp add: decode_tag_internal_def n_def)
  then show ?thesis using drain_live [OF b1(2), of "length (encode_tag t)"] b1 c by simp
qed

section \<open>The code of an integer\<close>

text \<open>The nibble with the number \<open>j\<close> of an array.\<close>

definition nib :: "byte list \<Rightarrow> nat \<Rightarrow> byte" where
  "nib data j = (if odd j then take_bit 4 (data ! (j div 2)) else drop_bit 4 (data ! (j div 2)))"

lemma and_nibble: "(x :: byte) AND 0x0f = take_bit 4 x"
  by (simp add: take_bit_eq_mask mask_eq_exp_minus_1)

lemma and_high_nibble: "(x :: byte) AND 0xf0 = push_bit 4 (drop_bit 4 x)"
proof -
  have "(0xf0 :: byte) = push_bit 4 (mask 4)" by (simp add: mask_eq_exp_minus_1 push_bit_eq_mult)
  moreover have "x AND push_bit 4 (mask 4) = push_bit 4 (drop_bit 4 x)"
    by (rule bit_word_eqI) (auto simp: bit_simps)
  ultimately show ?thesis by simp
qed

lemma high_nibble: "bit (x :: byte) (4 + n) \<Longrightarrow> n < 4"
  using bit_imp_le_length [of x "4 + n"] by simp

lemma nib_put:
  assumes "i div 2 < length data"
  shows "nib (put_nibble x i data) j = (if j = i then take_bit 4 x else nib data j)"
proof (cases "i div 2 = j div 2")
  case False
  then show ?thesis by (auto simp: nib_def put_nibble_def)
next
  case True
  have "j = i \<longleftrightarrow> odd j = odd i" using True by presburger
  then show ?thesis
    using assms True unfolding nib_def put_nibble_def and_nibble and_high_nibble
    by (auto simp: bit_simps dest: high_nibble intro!: bit_word_eqI)
qed

text \<open>The loop of the encoder writes the nibbles of the number, from \<open>i\<close> on.\<close>

lemma encode_loop_nibbles:
  fixes number :: "'a :: len word"
  assumes "\<forall>j. i \<le> j \<longrightarrow> j div 2 < length data \<longrightarrow> nib data j = 0"
    and "unat number < 2 ^ (4 * r)" and "i + r \<le> 2 * length data"
  shows "\<exists>k data'. encode_loop number i data = (i + k, data') \<and> k \<le> r \<and> length data' = length data \<and>
    drop_bit (4 * k) number = 0 \<and>
    (\<forall>j. j div 2 < length data \<longrightarrow> nib data' j =
       (if i \<le> j then take_bit 4 (ucast (drop_bit (4 * (j - i)) number)) else nib data j))"
  using assms
proof (induction number i data arbitrary: r rule: encode_loop.induct)
  case (1 number i data)
  show ?case
  proof (cases "number = 0")
    case True
    then have "encode_loop number i data = (i + 0, data)" by (subst encode_loop.simps) simp
    with "1.prems"(1) True show ?thesis by (intro exI [of _ 0]) simp
  next
    case False
    then have "r \<noteq> 0" using "1.prems"(2) by (intro notI) (simp add: unat_eq_0)
    then obtain q where r: "r = Suc q" by (cases r) simp_all
    have i: "i div 2 < length data" using "1.prems"(3) r by linarith
    let ?d = "put_nibble (ucast number) i data"
    have len: "length ?d = length data" by (simp add: put_nibble_def)
    have "unat (drop_bit 4 number) < 2 ^ (4 * q)"
      using "1.prems"(2) r
      by (simp only: unat_drop_bit_eq) (simp add: drop_bit_eq_div div_less_iff_less_mult power_add mult.commute)
    moreover have "\<forall>j. i + 1 \<le> j \<longrightarrow> j div 2 < length ?d \<longrightarrow> nib ?d j = 0"
      using "1.prems"(1) nib_put [OF i] len by simp
    moreover have "i + 1 + q \<le> 2 * length ?d" using "1.prems"(3) r len by simp
    ultimately obtain k data' where ih: "encode_loop (drop_bit 4 number) (i + 1) ?d = (i + 1 + k, data')" "k \<le> q"
      "length data' = length data" "drop_bit (4 * k) (drop_bit 4 number) = 0"
      "\<forall>j. j div 2 < length data \<longrightarrow> nib data' j =
         (if i + 1 \<le> j then take_bit 4 (ucast (drop_bit (4 * (j - (i + 1))) (drop_bit 4 number))) else nib ?d j)"
      using "1.IH" [OF False] len by metis
    have "nib data' j = (if i \<le> j then take_bit 4 (ucast (drop_bit (4 * (j - i)) number)) else nib data j)"
      if "j div 2 < length data" for j
    proof (cases "i + 1 \<le> j")
      case True
      then have "4 * (j - (i + 1)) + 4 = 4 * (j - i)" by simp
      with ih(5) that True show ?thesis by (simp add: drop_bit_drop_bit)
    next
      case False
      with ih(5) that nib_put [OF i] show ?thesis by auto
    qed
    moreover have "encode_loop number i data = (i + Suc k, data')"
      using ih(1) False by (simp add: encode_loop.simps [of number i])
    moreover have "drop_bit (4 * Suc k) number = 0" using ih(4) by (simp add: drop_bit_drop_bit add.commute)
    ultimately show ?thesis using ih(2,3) r by blast
  qed
qed

text \<open>The loop of the decoder puts together what nibbles it finds.\<close>

lemma decode_nibbles_number:
  fixes number :: "'a :: len word"
  assumes "\<forall>j. 1 \<le> j \<and> j \<le> k \<longrightarrow> ucast (nib data j) = take_bit 4 (drop_bit (4 * (j - 1)) number)"
  shows "decode_nibbles data k (drop_bit (4 * k) number) = number"
  using assms
proof (induction k)
  case (Suc k)
  have "(if odd (Suc k) then ucast (data ! (Suc k div 2) AND 0x0f)
      else ucast (drop_bit 4 (data ! (Suc k div 2) AND 0xf0))) = (ucast (nib data (Suc k)) :: 'a word)"
    unfolding nib_def and_nibble and_high_nibble
    by (auto simp: bit_simps dest: high_nibble intro!: arg_cong [where f = ucast] bit_word_eqI)
  also have "\<dots> = take_bit 4 (drop_bit (4 * k) number)" using Suc.prems by simp
  finally have n: "(if odd (Suc k) then ucast (data ! (Suc k div 2) AND 0x0f)
      else ucast (drop_bit 4 (data ! (Suc k div 2) AND 0xf0))) = take_bit 4 (drop_bit (4 * k) number)" .
  have "push_bit 4 (drop_bit (4 * Suc k) number) OR take_bit 4 (drop_bit (4 * k) number) = drop_bit (4 * k) number"
  proof (rule bit_word_eqI)
    fix n
    have "4 * Suc k + (n - 4) = 4 * k + n" if "4 \<le> n" using that by simp
    then show "bit (push_bit 4 (drop_bit (4 * Suc k) number) OR take_bit 4 (drop_bit (4 * k) number)) n \<longleftrightarrow>
        bit (drop_bit (4 * k) number) n"
      by (cases "4 \<le> n") (auto simp: bit_simps dest: bit_imp_le_length)
  qed
  moreover have "decode_nibbles data k (drop_bit (4 * k) number) = number" using Suc by simp
  ultimately show ?case by (simp only: decode_nibbles.simps n)
qed simp

text \<open>The code of a number: its size, its first nibble and the others.\<close>

lemma encode_int_code:
  fixes number :: "'a :: len word"
  assumes w: "LENGTH('a) = 4 * r" and r: "even r" "r \<le> 16"
  shows "\<exists>k \<le> r. length (encode_int number) = k div 2 + 1 \<and>
    unat (nib (encode_int number) 0) + 1 = max 1 k \<and> drop_bit (4 * k) number = 0 \<and>
    (\<forall>j. 1 \<le> j \<and> j \<le> max 1 k \<longrightarrow>
       nib (encode_int number) j = take_bit 4 (ucast (drop_bit (4 * (j - 1)) number)))"
proof -
  let ?z = "replicate (LENGTH('a) div 8 + 1) (0 :: byte)"
  have len: "length ?z = r div 2 + 1" using w by simp
  have z: "\<forall>j. j div 2 < length ?z \<longrightarrow> nib ?z j = 0"
    unfolding nib_def length_replicate by (simp del: replicate_Suc replicate.simps)
  have "unat number < 2 ^ LENGTH('a)" by (rule unsigned_less)
  then have n: "unat number < 2 ^ (4 * r)" by (simp only: w)
  have "1 + r \<le> 2 * length ?z" unfolding len using r by auto
  with encode_loop_nibbles [of 1 ?z number r] z n obtain k data where d:
    "encode_loop number 1 ?z = (1 + k, data)" "k \<le> r" "length data = r div 2 + 1" "drop_bit (4 * k) number = 0"
    "\<forall>j. j div 2 < r div 2 + 1 \<longrightarrow> nib data j =
       (if 1 \<le> j then take_bit 4 (ucast (drop_bit (4 * (j - 1)) number)) else nib ?z j)"
    unfolding len by auto
  define nibbles where "nibbles = (if 1 + k > 2 then 1 + k - 2 else 0)"
  define first where "first = (data ! 0 AND 0x0f) OR push_bit 4 (of_nat nibbles AND 0x0f)"
  have e: "encode_int number = take (k div 2 + 1) (data[0 := first])"
    using d(1) by (simp add: encode_int_def first_def nibbles_def)
  have first: "drop_bit 4 first = take_bit 4 (of_nat nibbles)" "take_bit 4 first = take_bit 4 (data ! 0)"
    unfolding first_def and_nibble
    by (auto simp: bit_simps dest: high_nibble intro!: bit_word_eqI)
  have "nibbles < 16" using d(2) r by (auto simp: nibbles_def)
  then have m: "unat (take_bit 4 (of_nat nibbles :: byte)) = nibbles"
    by (simp add: unsigned_take_bit_eq unsigned_of_nat take_bit_nat_eq_self)
  have k: "k div 2 \<le> r div 2" using d(2) by (rule div_le_mono)
  have "nib (encode_int number) 0 = take_bit 4 (of_nat nibbles)" using d(3) unfolding e by (simp add: nib_def first)
  then have "unat (nib (encode_int number) 0) + 1 = max 1 k"
    by (simp only: m) (simp add: nibbles_def)
  moreover have "nib (encode_int number) j = take_bit 4 (ucast (drop_bit (4 * (j - 1)) number))"
    if j: "1 \<le> j" "j \<le> max 1 k" for j
  proof -
    have jk: "j div 2 \<le> k div 2" using j by (cases "k = 0") (auto intro: div_le_mono)
    then have "nib (encode_int number) j = nib (data[0 := first]) j"
      unfolding e nib_def by simp
    also have "\<dots> = nib data j"
      using d(3) first(2) j(1) by (cases "j = 1") (auto simp: nib_def nth_list_update)
    also have "\<dots> = take_bit 4 (ucast (drop_bit (4 * (j - 1)) number))"
      using d(5) j jk k by simp
    finally show ?thesis .
  qed
  ultimately show ?thesis using d(2,3,4) k by (intro exI [of _ k]) (simp add: e)
qed

text \<open>A number behind the first bytes of a buffer is decoded; the buffer stays.\<close>

lemma decode_int_live:
  fixes number :: "'a :: len word"
  assumes w: "LENGTH('a) = 4 * r" "even r" "0 < r" "r \<le> 16" and m: "mm_total m" and b: "tag_live b"
    and c: "content b = pre @ encode_int number @ rest"
  shows "\<exists>b'. decode_int_at r m b (int (length pre)) = Some (Some (number, int (length (encode_int number))), b') \<and>
    tag_live b' \<and> content b' = content b"
proof -
  from encode_int_code [OF w(1,2,4), of number] obtain k where k: "k \<le> r" "length (encode_int number) = k div 2 + 1"
    "unat (nib (encode_int number) 0) + 1 = max 1 k" "drop_bit (4 * k) number = 0"
    "\<forall>j. 1 \<le> j \<and> j \<le> max 1 k \<longrightarrow> nib (encode_int number) j = take_bit 4 (ucast (drop_bit (4 * (j - 1)) number))"
    by blast
  let ?code = "encode_int number"
  have ne: "?code \<noteq> []" using k(2) by auto
  have lc: "length (content b) = length pre + length ?code + length rest" using c by simp
  from pull_live [OF m b, of "length pre + 1"] lc ne obtain b1 where
    b1: "evbuffer_pullup m b (int (length pre + 1)) = (Some (take (length pre + 1) (content b)), b1)"
      "tag_live b1" "content b1 = content b" by (cases ?code) auto
  from pull_live [OF m b1(2), of "length pre + length ?code"] lc b1(3) ne obtain b2 where
    b2: "evbuffer_pullup m b1 (int (length pre + length ?code)) = (Some (pre @ ?code), b2)"
      "tag_live b2" "content b2 = content b" using c by auto
  have hd: "take (length pre + 1) (content b) ! length pre = ?code ! 0"
    using ne c by (simp add: nth_append)
  have nibs: "unat (drop_bit 4 (take (length pre + 1) (content b) ! length pre AND 0xf0)) + 1 = max 1 k"
  proof -
    have "drop_bit 4 (?code ! 0 AND 0xf0) = nib ?code 0"
      unfolding nib_def and_high_nibble by (auto simp: bit_simps dest: high_nibble intro!: bit_word_eqI)
    then show ?thesis unfolding hd using k(3) by simp
  qed
  have size: "max 1 k div 2 + 1 = length ?code" "max 1 k \<le> r" using k(1,2) w(3) by (auto simp: max_def)
  have z: "drop_bit (4 * max 1 k) number = 0"
    using k(4) by (cases "k = 0") (simp_all add: max_def)
  have dec: "decode_nibbles ?code (max 1 k) (0 :: 'a word) = number"
  proof -
    have "\<forall>j. 1 \<le> j \<and> j \<le> max 1 k \<longrightarrow> ucast (nib ?code j) = take_bit 4 (drop_bit (4 * (j - 1)) number)"
    proof (intro allI impI)
      fix j assume "1 \<le> j \<and> j \<le> max 1 k"
      with k(5) have "nib ?code j = take_bit 4 (ucast (drop_bit (4 * (j - 1)) number))" by blast
      then show "ucast (nib ?code j) = take_bit 4 (drop_bit (4 * (j - 1)) number)"
        by (auto simp: bit_simps intro!: bit_word_eqI)
    qed
    from decode_nibbles_number [OF this] show ?thesis by (simp only: z)
  qed
  have p: "evbuffer_pullup m b (int (length pre) + 1) = (Some (take (length pre + 1) (content b)), b1)"
    "evbuffer_pullup m b1 (int (length pre) + int (length ?code)) = (Some (pre @ ?code), b2)"
    using b1(1) b2(1) by (simp_all add: add.commute)
  have "decode_int_at r m b (int (length pre)) =
      Some (Some (decode_nibbles (drop (length pre) (pre @ ?code)) (max 1 k) (0 :: 'a word), int (length ?code)), b2)"
    unfolding decode_int_at_def Let_def p(1) prod.case option.case nat_int nibs size(1) p(2)
    using total_len_live [OF b] lc ne size(2) by (cases ?code) (simp_all add: not_less)
  then show ?thesis using dec b2(2,3) by simp
qed

lemmas decode_int32_live = decode_int_live [where 'a = 32 and r = 8, simplified, folded decode_int_internal_def]
lemmas decode_int64_live = decode_int_live [where 'a = 64 and r = 16, simplified, folded decode_int64_internal_def]

lemma evtag_decode_int_live:
  assumes m: "mm_total m" and b: "tag_live b" and c: "content b = encode_int number @ rest"
  shows "\<exists>b'. evtag_decode_int m b = Some (Some number, b') \<and> tag_live b' \<and> content b' = rest"
proof -
  from decode_int32_live [OF m b, of "[]" number rest] c obtain b1 where
    b1: "decode_int_internal m b 0 = Some (Some (number, int (length (encode_int number))), b1)"
      "tag_live b1" "content b1 = content b" by auto
  show ?thesis
    using drain_live [OF b1(2), of "length (encode_int number)"] b1 c by (simp add: evtag_decode_int_def)
qed

lemma evtag_decode_int64_live:
  assumes m: "mm_total m" and b: "tag_live b" and c: "content b = encode_int number @ rest"
  shows "\<exists>b'. evtag_decode_int64 m b = Some (Some number, b') \<and> tag_live b' \<and> content b' = rest"
proof -
  from decode_int64_live [OF m b, of "[]" number rest] c obtain b1 where
    b1: "decode_int64_internal m b 0 = Some (Some (number, int (length (encode_int number))), b1)"
      "tag_live b1" "content b1 = content b" by auto
  show ?thesis
    using drain_live [OF b1(2), of "length (encode_int number)"] b1 c by (simp add: evtag_decode_int64_def)
qed

lemma encode_int_short:
  "length (encode_int (n :: 32 word)) \<le> 5" "length (encode_int (n' :: 64 word)) \<le> 9"
  using encode_int_code [of 8 n] encode_int_code [of 16 n'] by (auto simp: div_le_mono intro: order.trans)

section \<open>Items\<close>

text \<open>The format of an item.\<close>

definition framed :: "32 word \<Rightarrow> byte list \<Rightarrow> byte list" where
  "framed t data = encode_tag t @ encode_int (of_nat (length data) :: 32 word) @ data"

lemma small_length: "n \<le> EVQ_CAP \<Longrightarrow> unat (of_nat n :: 32 word) = n \<and> cast_int (int n) = int n \<and> nat (cast_uint64 (int n)) = n"
  by (auto simp: EVQ_CAP_def unsigned_of_nat take_bit_nat_eq_self cast_int_id cast_uint64_def take_bit_int_eq_self)

lemma add_tag_live:
  assumes "mm_total m" and "tag_live b" and "length (content b) + length (encode_tag t) \<le> EVQ_CAP"
  shows "tag_live (add_tag m b t)" "content (add_tag m b t) = content b @ encode_tag t"
  using tag_add_live [OF assms] by (simp_all add: add_tag_def evtag_encode_tag_def)

lemma encode_int_live:
  assumes "mm_total m" and "tag_live b" and "length (content b) + length (encode_int n) \<le> EVQ_CAP"
  shows "tag_live (evtag_encode_int m b n)" "content (evtag_encode_int m b n) = content b @ encode_int n"
  using tag_add_live [OF assms] by (simp_all add: evtag_encode_int_def)

lemma marshal_live:
  assumes m: "mm_total m" and b: "tag_live b" and n: "length (content b) + length (framed t data) \<le> EVQ_CAP"
  shows "tag_live (evtag_marshal m b t data (of_nat (length data)))"
    "content (evtag_marshal m b t data (of_nat (length data))) = content b @ framed t data"
proof -
  have l: "length (content b) + length (encode_tag t) + length (encode_int (of_nat (length data) :: 32 word)) +
      length data \<le> EVQ_CAP"
    using n by (simp add: framed_def)
  have t: "take (unat (of_nat (length data) :: 32 word)) data = data" using small_length [of "length data"] l by simp
  define b1 where "b1 = add_tag m b t"
  define b2 where "b2 = evtag_encode_int m b1 (of_nat (length data))"
  have b1: "tag_live b1" "content b1 = content b @ encode_tag t"
    using add_tag_live [OF m b] l by (simp_all add: b1_def)
  have b2: "tag_live b2" "content b2 = content b1 @ encode_int (of_nat (length data) :: 32 word)"
    using encode_int_live [OF m b1(1)] l b1(2) by (simp_all add: b2_def)
  have "evtag_marshal m b t data (of_nat (length data)) = snd (evbuffer_add m b2 data)"
    by (simp add: evtag_marshal_def Let_def b1_def b2_def t)
  then show "tag_live (evtag_marshal m b t data (of_nat (length data)))"
    "content (evtag_marshal m b t data (of_nat (length data))) = content b @ framed t data"
    using tag_add_live [OF m b2(1), of data] l b1(2) b2(2) by (simp_all add: framed_def)
qed

text \<open>The integers are items whose data are their codes.\<close>

lemma marshal_int_eq:
  "evtag_marshal_int m b t n = evtag_marshal m b t (encode_int n) (of_nat (length (encode_int n)))"
  "evtag_marshal_int64 m b t n' = evtag_marshal m b t (encode_int n') (of_nat (length (encode_int n')))"
  using encode_int_short(1) [of n] encode_int_short(2) [of n'] small_length [of "length (encode_int n)"] small_length [of "length (encode_int n')"]
  by (simp_all add: evtag_marshal_int_def evtag_marshal_int64_def evtag_marshal_def Let_def EVQ_CAP_def)

lemma header_live:
  assumes m: "mm_total m" and b: "tag_live b" and c: "content b = framed t data @ rest"
  shows "\<exists>b'. evtag_unmarshal_header m b = Some (int (length data), Some t, b') \<and> tag_live b' \<and> content b' = data @ rest"
proof -
  have c1: "content b = encode_tag t @ encode_int (of_nat (length data) :: 32 word) @ data @ rest"
    using c by (simp add: framed_def)
  from decode_tag_live [OF m b c1, of True] obtain b1 where b1:
    "decode_tag_internal m b True = Some (Some (t, int (length (encode_tag t))), b1)" "tag_live b1"
    "content b1 = encode_int (of_nat (length data) :: 32 word) @ data @ rest" by auto
  from evtag_decode_int_live [OF m b1(2,3)] obtain b2 where b2:
    "evtag_decode_int m b1 = Some (Some (of_nat (length data)), b2)" "tag_live b2" "content b2 = data @ rest" by auto
  have "length data \<le> EVQ_CAP" using b2(2,3) by (simp add: tag_live_def)
  note s = small_length [OF this]
  have u: "uint (of_nat (length data) :: 32 word) = int (length data)"
    using s by (metis of_nat_unat)
  show ?thesis
    using b1(1) b2 total_len_live [OF b2(2)] s u by (simp add: evtag_unmarshal_header_def)
qed

lemma int_header_live:
  assumes m: "mm_total m" and b: "tag_live b" and c: "content b = framed t data @ rest"
  shows "\<exists>b'. int_header m b t = Some (Some (of_nat (length data)), b') \<and> tag_live b' \<and> content b' = data @ rest"
proof -
  have c1: "content b = encode_tag t @ encode_int (of_nat (length data) :: 32 word) @ data @ rest"
    using c by (simp add: framed_def)
  from decode_tag_live [OF m b c1, of True] obtain b1 where b1:
    "decode_tag_internal m b True = Some (Some (t, int (length (encode_tag t))), b1)" "tag_live b1"
    "content b1 = encode_int (of_nat (length data) :: 32 word) @ data @ rest" by auto
  from evtag_decode_int_live [OF m b1(2,3)] obtain b2 where b2:
    "evtag_decode_int m b1 = Some (Some (of_nat (length data)), b2)" "tag_live b2" "content b2 = data @ rest" by auto
  have "length data \<le> EVQ_CAP" using b2(2,3) by (simp add: tag_live_def)
  with b1(1) b2 total_len_live [OF b2(2)] small_length show ?thesis by (simp add: int_header_def)
qed

text \<open>Taking an item from the front of a buffer, by its type.\<close>

lemma unmarshal_live:
  assumes m: "mm_total m" and b: "tag_live b" and d: "tag_live d" and c: "content b = framed t data @ rest"
    and n: "length (content d) + length data \<le> EVQ_CAP"
  shows "\<exists>b' d'. evtag_unmarshal m b d = Some (int (length data), Some t, b', d') \<and> tag_live b' \<and> content b' = rest \<and>
    tag_live d' \<and> content d' = content d @ data"
proof -
  from header_live [OF m b c] obtain b1 where b1: "evtag_unmarshal_header m b = Some (int (length data), Some t, b1)"
    "tag_live b1" "content b1 = data @ rest" by blast
  note s = small_length [of "length data"]
  have "\<exists>b2 p. evbuffer_pullup m b1 (int (length data)) = (p, b2) \<and> tag_live b2 \<and> content b2 = content b1 \<and>
      add_pulled m d p (int (length data)) = Some (evbuffer_add m d data)"
  proof (cases "data = []")
    case True
    then show ?thesis using b1(2) by (simp add: evbuffer_pullup_def add_pulled_def split: prod.split)
  next
    case False
    with pull_live [OF m b1(2), of "length data"] b1(3) show ?thesis by (auto simp: add_pulled_def)
  qed
  then obtain b2 p where b2: "evbuffer_pullup m b1 (int (length data)) = (p, b2)" "tag_live b2" "content b2 = content b1"
    "add_pulled m d p (int (length data)) = Some (evbuffer_add m d data)" by blast
  obtain r d' where a: "evbuffer_add m d data = (r, d')" by fastforce
  from a tag_add_live [OF m d n] have d': "r = 0" "tag_live d'" "content d' = content d @ data" by simp_all
  have "drain_int b2 (int (length data)) = snd (evbuffer_drain b2 (length data))"
    using s n by (simp add: drain_int_def)
  then have "evtag_unmarshal m b d = Some (int (length data), Some t, snd (evbuffer_drain b2 (length data)), d')"
    using b1(1) b2(1,4) a d'(1) by (simp add: evtag_unmarshal_def)
  then show ?thesis using drain_live [OF b2(2), of "length data"] b1(3) b2(3) d' by simp
qed

lemma unmarshal_int_live:
  assumes m: "mm_total m" and b: "tag_live b" and c: "content b = framed t (encode_int n) @ rest"
  shows "\<exists>b'. evtag_unmarshal_int m b t = Some (Some (n, int (length (encode_int n))), b') \<and> tag_live b' \<and> content b' = rest"
proof -
  from int_header_live [OF m b c] obtain b1 where b1:
    "int_header m b t = Some (Some (of_nat (length (encode_int n))), b1)" "tag_live b1" "content b1 = encode_int n @ rest"
    by blast
  from decode_int32_live [OF m b1(2), of "[]" n rest] b1(3) obtain b2 where b2:
    "decode_int_internal m b1 0 = Some (Some (n, int (length (encode_int n))), b2)" "tag_live b2" "content b2 = content b1"
    by auto
  have s: "unat (of_nat (length (encode_int n)) :: 32 word) = length (encode_int n)"
    using small_length [of "length (encode_int n)"] encode_int_short(1) [of n] by (simp add: EVQ_CAP_def)
  have u: "uint (of_nat (length (encode_int n)) :: 32 word) = int (length (encode_int n))" by (metis s of_nat_unat)
  show ?thesis
    using b1(1) b2(1) drain_live [OF b2(2), of "length (encode_int n)"] b1(3) b2(3)
    by (simp add: evtag_unmarshal_int_def s u)
qed

lemma unmarshal_int64_live:
  assumes m: "mm_total m" and b: "tag_live b" and c: "content b = framed t (encode_int n) @ rest"
  shows "\<exists>b'. evtag_unmarshal_int64 m b t = Some (Some (n, int (length (encode_int n))), b') \<and> tag_live b' \<and>
    content b' = rest"
proof -
  from int_header_live [OF m b c] obtain b1 where b1:
    "int_header m b t = Some (Some (of_nat (length (encode_int n))), b1)" "tag_live b1" "content b1 = encode_int n @ rest"
    by blast
  from decode_int64_live [OF m b1(2), of "[]" n rest] b1(3) obtain b2 where b2:
    "decode_int64_internal m b1 0 = Some (Some (n, int (length (encode_int n))), b2)" "tag_live b2"
    "content b2 = content b1" by auto
  have s: "unat (of_nat (length (encode_int n)) :: 32 word) = length (encode_int n)"
    using small_length [of "length (encode_int n)"] encode_int_short(2) [of n] by (simp add: EVQ_CAP_def)
  have u: "uint (of_nat (length (encode_int n)) :: 32 word) = int (length (encode_int n))" by (metis s of_nat_unat)
  show ?thesis
    using b1(1) b2(1) drain_live [OF b2(2), of "length (encode_int n)"] b1(3) b2(3)
    by (simp add: evtag_unmarshal_int64_def s u)
qed

lemma remove_live:
  assumes "tag_live b"
  shows "\<exists>r b'. evbuffer_remove b n = (r, take n (content b), b') \<and> tag_live b' \<and> content b' = drop n (content b)"
proof -
  have b0: "evb_live b" "length (content b) \<le> EVQ_CAP" "unpinned b" using assms by (simp_all add: tag_live_def)
  from evbuffer_remove_live [OF b0(1,2), of n] obtain b' where b': "evbuffer_remove b n =
      (int (length (take n (content b))), take n (content b), b')" "evb_live b'" "content b' = drop n (content b)" by blast
  have "unpinned (snd (snd (evbuffer_remove b n)))"
    using b0(3) drain_unpinned [OF b0(3)] by (auto simp: evbuffer_remove_def split: prod.split)
       (metis snd_conv)
  with b' b0(2) show ?thesis by (auto simp: tag_live_def)
qed

lemma unmarshal_fixed_live:
  assumes m: "mm_total m" and b: "tag_live b" and c: "content b = framed t data @ rest"
  shows "\<exists>b'. evtag_unmarshal_fixed m b t (length data) = Some (Some data, b') \<and> tag_live b' \<and> content b' = rest"
proof -
  from header_live [OF m b c] obtain b1 where b1: "evtag_unmarshal_header m b = Some (int (length data), Some t, b1)"
    "tag_live b1" "content b1 = data @ rest" by blast
  from remove_live [OF b1(2), of "length data"] b1(3) obtain r b2 where
    b2: "evbuffer_remove b1 (length data) = (r, data, b2)" "tag_live b2" "content b2 = rest" by auto
  with b1(1) show ?thesis by (simp add: evtag_unmarshal_fixed_def)
qed

lemma unmarshal_string_live:
  assumes m: "mm_total m" and b: "tag_live b" and c: "content b = framed t data @ rest"
    and h: "h (length data + 1)" and n: "length data < EVQ_CAP"
  shows "\<exists>b'. evtag_unmarshal_string m h b t = Some (Some data, b') \<and> tag_live b' \<and> content b' = rest"
proof -
  from header_live [OF m b c] obtain b1 where b1: "evtag_unmarshal_header m b = Some (int (length data), Some t, b1)"
    "tag_live b1" "content b1 = data @ rest" by blast
  have l: "nat (cast_uint64 (int (length data))) = length data"
    "nat (cast_uint64 (cast_int (int (length data) + 1))) = length data + 1"
    using n small_length [of "length data"] small_length [of "length data + 1"] by (simp_all add: add.commute)
  from remove_live [OF b1(2), of "length data"] b1(3) obtain r b2 where
    b2: "evbuffer_remove b1 (length data) = (r, data, b2)" "tag_live b2" "content b2 = rest" by auto
  show ?thesis using b1(1) b2 h by (simp add: evtag_unmarshal_string_def l)
qed

lemma unmarshal_timeval_live:
  assumes m: "mm_total m" and b: "tag_live b"
    and c: "content b = framed t (encode_int (s :: 32 word) @ encode_int (u :: 32 word)) @ rest"
  shows "\<exists>b'. evtag_unmarshal_timeval m b t = Some (Some (Timeval (uint s) (uint u)), b') \<and> tag_live b' \<and>
    content b' = rest"
proof -
  let ?d = "encode_int s @ encode_int u"
  from header_live [OF m b c] obtain b1 where b1: "evtag_unmarshal_header m b = Some (int (length ?d), Some t, b1)"
    "tag_live b1" "content b1 = ?d @ rest" by blast
  from decode_int32_live [OF m b1(2), of "[]" s "encode_int u @ rest"] b1(3) obtain b2 where b2:
    "decode_int_internal m b1 0 = Some (Some (s, int (length (encode_int s))), b2)" "tag_live b2" "content b2 = content b1"
    by auto
  from decode_int32_live [OF m b2(2), of "encode_int s" u rest] b1(3) b2(3) obtain b3 where b3:
    "decode_int_internal m b2 (int (length (encode_int s))) = Some (Some (u, int (length (encode_int u))), b3)"
    "tag_live b3" "content b3 = content b1" by auto
  have "length ?d \<le> EVQ_CAP" using b1(2,3) by (simp add: tag_live_def)
  then have dr: "drain_int b3 (int (length ?d)) = snd (evbuffer_drain b3 (length ?d))"
    using small_length [of "length ?d"] by (simp only: drain_int_def)
  have "evtag_unmarshal_timeval m b t = Some (Some (Timeval (uint s) (uint u)), drain_int b3 (int (length ?d)))"
    using b1(1) b2(1) b3(1) by (simp add: evtag_unmarshal_timeval_def)
  then show ?thesis
    using drain_live [OF b3(2), of "length ?d"] b1(3) b3(3) unfolding dr by simp
qed

section \<open>Streams of items\<close>

text \<open>
  A writer puts items at the end of a queue of bytes, a reader that knows what kind of item comes next
  takes them from its front. What both need of the code is that an item adds its code, and that the
  code in front of anything gives the item back.
\<close>

datatype 'a wire_op = Send 'a | Receive

fun wire_run ::
    "('a \<Rightarrow> 'q \<Rightarrow> 'q) \<Rightarrow> ('k \<Rightarrow> 'q \<Rightarrow> ('a \<times> 'q) option) \<Rightarrow> ('a \<Rightarrow> 'k) \<Rightarrow> 'a wire_op list \<Rightarrow> 'q \<Rightarrow> 'a list \<Rightarrow>
     ('a list \<times> 'q \<times> 'a list) option" where
  "wire_run put get kind [] q pending = Some ([], q, pending)"
| "wire_run put get kind (Send x # ops) q pending = wire_run put get kind ops (put x q) (pending @ [x])"
| "wire_run put get kind (Receive # ops) q [] = wire_run put get kind ops q []"
| "wire_run put get kind (Receive # ops) q (x # pending) =
     do {
       (y, q) \<leftarrow> get (kind x) q;
       (ys, r) \<leftarrow> wire_run put get kind ops q pending;
       Some (y # ys, r)
     }"

fun sent :: "'a wire_op list \<Rightarrow> 'a list" where
  "sent [] = []"
| "sent (Send x # ops) = x # sent ops"
| "sent (Receive # ops) = sent ops"

locale item_stream =
  fixes view :: "'q \<Rightarrow> byte list"
    and valid :: "'q \<Rightarrow> bool"
    and put :: "'a \<Rightarrow> 'q \<Rightarrow> 'q"
    and get :: "'k \<Rightarrow> 'q \<Rightarrow> ('a \<times> 'q) option"
    and kind :: "'a \<Rightarrow> 'k"
    and code :: "'a \<Rightarrow> byte list"
    and cap :: nat
  assumes put_code: "valid q \<Longrightarrow> length (view q) + length (code x) \<le> cap \<Longrightarrow>
      valid (put x q) \<and> view (put x q) = view q @ code x"
    and get_code: "valid q \<Longrightarrow> view q = code x @ rest \<Longrightarrow>
      \<exists>q'. get (kind x) q = Some (x, q') \<and> valid q' \<and> view q' = rest"
begin

lemma wire:
  assumes "valid q" and "view q = concat (map code pending)"
    and "length (view q) + length (concat (map code (sent ops))) \<le> cap"
  shows "\<exists>got q' left. wire_run put get kind ops q pending = Some (got, q', left) \<and> got @ left = pending @ sent ops \<and>
    valid q' \<and> view q' = concat (map code left)"
  using assms
proof (induction ops arbitrary: q pending)
  case Nil
  then show ?case by simp
next
  case (Cons op ops)
  show ?case
  proof (cases op)
    case (Send x)
    have "length (view q) + length (code x) \<le> cap" using Cons.prems(3) Send by simp
    with put_code Cons.prems(1) have "valid (put x q)" "view (put x q) = view q @ code x" by simp_all
    with Cons.IH [of "put x q" "pending @ [x]"] Cons.prems Send show ?thesis by simp
  next
    case Receive
    show ?thesis
    proof (cases pending)
      case Nil
      with Cons.IH [of q "[]"] Cons.prems Receive show ?thesis by simp
    next
      case (Cons x pending')
      have "view q = code x @ concat (map code pending')" using Cons.prems(2) Cons by simp
      from get_code [OF Cons.prems(1) this] obtain q1 where
        q1: "get (kind x) q = Some (x, q1)" "valid q1" "view q1 = concat (map code pending')" by blast
      have "length (view q1) + length (concat (map code (sent ops))) \<le> cap"
        using Cons.prems(2,3) Cons Receive q1(3) by simp
      from Cons.IH [OF q1(2,3) this] q1(1) Cons Receive show ?thesis by auto
    qed
  qed
qed

end

lemma add_buffer_live:
  assumes b: "tag_live b" "tag_live d" and n: "length (content b) + length (content d) \<le> EVQ_CAP"
  shows "\<exists>b' d'. evbuffer_add_buffer m b d = (0, b', d') \<and> tag_live b' \<and> content b' = content b @ content d \<and>
    content d' = []"
proof -
  obtain r b' d' where a: "evbuffer_add_buffer m b d = (r, b', d')" using prod_cases3 by blast
  have ok: "evb_ok b" "evb_ok d" "\<not> freeze_start b" "\<not> freeze_end b" "\<not> freeze_start d" "unpinned b" "unpinned d"
    using b by (simp_all add: tag_live_def evb_live_def)
  have "unpinned (APPEND_CHAIN b d)"
    using free_trailing_unpinned [OF ok(6)] ok(7) by (auto simp: unpinned_def APPEND_CHAIN_def Let_def split: prod.split)
  then have "unpinned b'"
    using a ok(6,7) no_pinned_r [OF ok(2)]
    by (auto simp: evbuffer_add_buffer_def Let_def preserve_none [OF ok(2)] unpinned_def COPY_CHAIN_def split: if_splits)
  with a evbuffer_add_buffer_ok [OF ok(1,2) a] add_buffer_freeze [OF a ok(2)] ok n show ?thesis
    by (auto simp: tag_live_def evb_live_def)
qed

lemma marshal_buffer_live:
  assumes m: "mm_total m" and b: "tag_live b" and d: "tag_live d"
    and n: "length (content b) + length (framed t (content d)) \<le> EVQ_CAP"
  shows "tag_live (fst (evtag_marshal_buffer m b t d))"
    "content (fst (evtag_marshal_buffer m b t d)) = content b @ framed t (content d)"
proof -
  have l: "length (content b) + length (encode_tag t) + length (encode_int (of_nat (length (content d)) :: 32 word)) +
      length (content d) \<le> EVQ_CAP"
    using n by (simp add: framed_def)
  define b1 where "b1 = add_tag m b t"
  define b2 where "b2 = evtag_encode_int m b1 (of_nat (total_len d))"
  have b1: "tag_live b1" "content b1 = content b @ encode_tag t"
    using add_tag_live [OF m b] l by (simp_all add: b1_def)
  have b2: "tag_live b2" "content b2 = content b1 @ encode_int (of_nat (length (content d)) :: 32 word)"
    using encode_int_live [OF m b1(1)] l b1(2) total_len_live [OF d] by (simp_all add: b2_def)
  from add_buffer_live [OF b2(1) d, of m] l b1(2) b2(2) obtain b3 d' where b3: "evbuffer_add_buffer m b2 d = (0, b3, d')"
    "tag_live b3" "content b3 = content b2 @ content d" by auto
  have "fst (evtag_marshal_buffer m b t d) = b3"
    using b3(1) by (simp add: evtag_marshal_buffer_def Let_def b1_def b2_def)
  with b1(2) b2(2) b3(2,3) show "tag_live (fst (evtag_marshal_buffer m b t d))"
    "content (fst (evtag_marshal_buffer m b t d)) = content b @ framed t (content d)"
    by (simp_all add: framed_def)
qed

text \<open>The items of the code, each with its tag, and what the reader asks for.\<close>

datatype item =
  Bytes "byte list" | Whole "byte list" | Fixed "byte list" | Str "byte list" | Int32 "32 word" | Int64 "64 word"
  | Time "32 word" "32 word"

datatype item_kind = AsBytes | AsWhole | AsFixed nat | AsStr | AsInt32 | AsInt64 | AsTime

fun item_data :: "item \<Rightarrow> byte list" where
  "item_data (Bytes xs) = xs"
| "item_data (Whole xs) = xs"
| "item_data (Fixed xs) = xs"
| "item_data (Str xs) = xs"
| "item_data (Int32 n) = encode_int n"
| "item_data (Int64 n) = encode_int n"
| "item_data (Time s u) = encode_int s @ encode_int u"

fun kind_of :: "item \<Rightarrow> item_kind" where
  "kind_of (Bytes xs) = AsBytes"
| "kind_of (Whole xs) = AsWhole"
| "kind_of (Fixed xs) = AsFixed (length xs)"
| "kind_of (Str xs) = AsStr"
| "kind_of (Int32 n) = AsInt32"
| "kind_of (Int64 n) = AsInt64"
| "kind_of (Time s u) = AsTime"

fun put_item :: "malloc \<Rightarrow> 32 word \<times> item \<Rightarrow> evbuffer \<Rightarrow> evbuffer" where
  "put_item m (t, Bytes xs) b = evtag_marshal m b t xs (of_nat (length xs))"
| "put_item m (t, Whole xs) b = fst (evtag_marshal_buffer m b t (snd (evbuffer_add m evbuffer_new xs)))"
| "put_item m (t, Fixed xs) b = evtag_marshal m b t xs (of_nat (length xs))"
| "put_item m (t, Str xs) b = evtag_marshal_string m b t xs"
| "put_item m (t, Int32 n) b = evtag_marshal_int m b t n"
| "put_item m (t, Int64 n) b = evtag_marshal_int64 m b t n"
| "put_item m (t, Time s u) b = evtag_marshal_timeval m b t (Timeval (uint s) (uint u))"

text \<open>A new buffer takes the data; the memory of a string is what \<open>h\<close> has.\<close>

definition get_data :: "malloc \<Rightarrow> 32 word \<Rightarrow> evbuffer \<Rightarrow> (byte list \<times> evbuffer) option" where
  "get_data m t b =
     do {
       (r, tag, b, d) \<leftarrow> evtag_unmarshal m b evbuffer_new;
       (if r = -1 \<or> tag \<noteq> Some t then None else Some (content d, b))
     }"

fun get_item :: "malloc \<Rightarrow> (nat \<Rightarrow> bool) \<Rightarrow> 32 word \<times> item_kind \<Rightarrow> evbuffer \<Rightarrow> ((32 word \<times> item) \<times> evbuffer) option" where
  "get_item m h (t, AsBytes) b = do { (xs, b) \<leftarrow> get_data m t b; Some ((t, Bytes xs), b) }"
| "get_item m h (t, AsWhole) b = do { (xs, b) \<leftarrow> get_data m t b; Some ((t, Whole xs), b) }"
| "get_item m h (t, AsFixed n) b =
     do { (r, b) \<leftarrow> evtag_unmarshal_fixed m b t n; xs \<leftarrow> r; Some ((t, Fixed xs), b) }"
| "get_item m h (t, AsStr) b = do { (r, b) \<leftarrow> evtag_unmarshal_string m h b t; xs \<leftarrow> r; Some ((t, Str xs), b) }"
| "get_item m h (t, AsInt32) b = do { (r, b) \<leftarrow> evtag_unmarshal_int m b t; (n, _) \<leftarrow> r; Some ((t, Int32 n), b) }"
| "get_item m h (t, AsInt64) b = do { (r, b) \<leftarrow> evtag_unmarshal_int64 m b t; (n, _) \<leftarrow> r; Some ((t, Int64 n), b) }"
| "get_item m h (t, AsTime) b =
     do {
       (r, b) \<leftarrow> evtag_unmarshal_timeval m b t;
       tv \<leftarrow> r;
       Some ((t, Time (word_of_int (tv_sec tv)) (word_of_int (tv_usec tv))), b)
     }"

definition item_code :: "32 word \<times> item \<Rightarrow> byte list" where
  "item_code x = framed (fst x) (item_data (snd x))"

lemma put_item_live:
  assumes m: "mm_total m" and b: "tag_live b" and n: "length (content b) + length (item_code x) \<le> EVQ_CAP"
  shows "tag_live (put_item m x b) \<and> content (put_item m x b) = content b @ item_code x"
proof -
  obtain t i where x: "x = (t, i)" by fastforce
  have l: "length (content b) + length (framed t (item_data i)) \<le> EVQ_CAP" using n x by (simp add: item_code_def)
  note mm = marshal_live [OF m b l]
  show ?thesis
  proof (cases i)
    case (Whole xs)
    have "length (content evbuffer_new) + length xs \<le> EVQ_CAP" using l Whole by (simp add: framed_def)
    note d = tag_add_live [OF m tag_live_new this]
    from marshal_buffer_live [OF m b d(1), of t] l Whole d(2) x show ?thesis by (simp add: item_code_def)
  qed (use mm x in \<open>simp_all add: item_code_def marshal_int_eq evtag_marshal_string_def evtag_marshal_timeval_def\<close>)
qed

lemma get_item_live:
  assumes m: "mm_total m" and h: "\<forall>n. h n" and b: "tag_live b" and c: "content b = item_code x @ rest"
  shows "\<exists>b'. get_item m h (fst x, kind_of (snd x)) b = Some (x, b') \<and> tag_live b' \<and> content b' = rest"
proof -
  obtain t i where x: "x = (t, i)" by fastforce
  have c': "content b = framed t (item_data i) @ rest" using c x by (simp add: item_code_def)
  have "length (framed t (item_data i)) \<le> EVQ_CAP" using b c' by (simp add: tag_live_def)
  then have n: "length (item_data i) < EVQ_CAP"
    using encode_tag_nonempty [of t] by (cases "encode_tag t") (simp_all add: framed_def)
  have d: "\<exists>b'. get_data m t b = Some (item_data i, b') \<and> tag_live b' \<and> content b' = rest"
    using unmarshal_live [OF m b tag_live_new c'] n by (auto simp: get_data_def)
  show ?thesis
  proof (cases i)
    case (Bytes xs)
    with d x show ?thesis by auto
  next
    case (Whole xs)
    with d x show ?thesis by auto
  next
    case (Fixed xs)
    with unmarshal_fixed_live [OF m b c'] x show ?thesis by auto
  next
    case (Str xs)
    with unmarshal_string_live [OF m b c', of h] h n x show ?thesis by auto
  next
    case (Int32 k)
    with unmarshal_int_live [OF m b, of t k rest] c' x show ?thesis by auto
  next
    case (Int64 k)
    with unmarshal_int64_live [OF m b, of t k rest] c' x show ?thesis by auto
  next
    case (Time s u)
    with unmarshal_timeval_live [OF m b, of t s u rest] c' x show ?thesis by auto
  qed
qed

interpretation tagged: item_stream content "\<lambda>b. mm_total m \<and> (\<forall>n. h n) \<and> tag_live b" "put_item m" "get_item m h"
  "\<lambda>x. (fst x, kind_of (snd x))" item_code EVQ_CAP
  by unfold_locales (use put_item_live get_item_live in blast)+

interpretation plain: item_stream content "\<lambda>b. mm_total m \<and> tag_live b" "\<lambda>n b. evtag_encode_int64 m b n"
  "\<lambda>_ b. do { (r, b) \<leftarrow> evtag_decode_int64 m b; n \<leftarrow> r; Some (n, b) }" "\<lambda>_. ()" encode_int EVQ_CAP
proof unfold_locales
  fix q and n :: "64 word"
  assume "mm_total m \<and> tag_live q" "length (content q) + length (encode_int n) \<le> EVQ_CAP"
  then show "(mm_total m \<and> tag_live (evtag_encode_int64 m q n)) \<and>
      content (evtag_encode_int64 m q n) = content q @ encode_int n"
    using tag_add_live [of m q "encode_int n"] by (simp add: evtag_encode_int64_def)
next
  fix q and n :: "64 word" and rest
  assume "mm_total m \<and> tag_live q" "content q = encode_int n @ rest"
  then show "\<exists>q'. do { (r, b) \<leftarrow> evtag_decode_int64 m q; n \<leftarrow> r; Some (n, b) } = Some (n, q') \<and>
      (mm_total m \<and> tag_live q') \<and> content q' = rest"
    using evtag_decode_int64_live [of m q n rest] by auto
qed

text \<open>
  C37: what is put into a stream of tagged data comes out of it. Items of any kinds are marshalled to one end of
  a buffer while others are unmarshalled from its front, in any interleaving, by a reader that knows which tags
  and types to expect: no call fails, what is read is what was written, in order, with every tag and value
  intact, and the buffer holds exactly the items not read yet. (The memory suffices and no more
  than 2^31 - 1 bytes are written.)
\<close>

theorem tagged_stream:
  assumes "mm_total m" and "\<forall>n. h n" and "length (concat (map item_code (sent ops))) \<le> EVQ_CAP"
  shows "\<exists>got b left. wire_run (put_item m) (get_item m h) (\<lambda>x. (fst x, kind_of (snd x))) ops evbuffer_new [] =
      Some (got, b, left) \<and> got @ left = sent ops \<and> evb_ok b \<and> content b = concat (map item_code left)"
proof -
  have "mm_total m \<and> (\<forall>n. h n) \<and> tag_live evbuffer_new" "content evbuffer_new = concat (map item_code [])"
    "length (content evbuffer_new) + length (concat (map item_code (sent ops))) \<le> EVQ_CAP"
    using assms by simp_all
  from tagged.wire [OF this] obtain got b left where
    "wire_run (put_item m) (get_item m h) (\<lambda>x. (fst x, kind_of (snd x))) ops evbuffer_new [] = Some (got, b, left)"
    "got @ left = [] @ sent ops" "tag_live b" "content b = concat (map item_code left)" by blast
  then show ?thesis by (auto simp: tag_live_def evb_live_def)
qed

theorem tagged_stream_witness:
  "\<exists>got b left. wire_run (put_item (\<lambda>n. Some (replicate n 0))) (get_item (\<lambda>n. Some (replicate n 0)) (\<lambda>_. True))
      (\<lambda>x. (fst x, kind_of (snd x))) [Send (300, Str [104, 105]), Send (1, Bytes []), Receive] evbuffer_new [] =
      Some (got, b, left) \<and>
    got @ left = [(300, Str [104, 105]), (1, Bytes [])] \<and> evb_ok b \<and> content b = concat (map item_code left)"
proof -
  have m: "mm_total (\<lambda>n. Some (replicate n 0))" by (simp add: mm_total_def mm_ok_def)
  have e: "encode_int (2 :: 32 word) = [2]" "encode_int (0 :: 32 word) = [0]" by code_simp+
  have t: "encode_tag 300 = [0xac, 2]" "encode_tag 1 = [1]" by code_simp+
  have "length (concat (map item_code (sent [Send (300, Str [104, 105]), Send (1, Bytes []), Receive]))) \<le> EVQ_CAP"
    by (simp add: item_code_def framed_def e t EVQ_CAP_def)
  from tagged_stream [OF m _ this, of "\<lambda>_. True"] show ?thesis by simp
qed

section \<open>Where the decoder reads\<close>

lemma decode_tag_outside:
  assumes "k \<le> 5" and "min len 5 \<le> k + length mem"
  shows "decode_tag_loop mem len k number (7 * k) = None \<longleftrightarrow>
    5 < len \<and> k + length mem = 5 \<and> (\<forall>x \<in> set mem. x AND 0x80 \<noteq> 0) \<and> (mem \<noteq> [] \<longrightarrow> \<not> last mem AND 0x7f > 15)"
  using assms
proof (induction mem arbitrary: k number)
  case Nil
  then show ?case by (auto simp: decode_tag_loop.simps [of "[]"])
next
  case (Cons x mem)
  have s: "7 * k \<ge> 28 \<longleftrightarrow> k \<ge> 4" "7 * k > 28 \<longleftrightarrow> k > 4" "7 * k + 7 = 7 * (k + 1)" by auto
  show ?case
  proof (cases "k < len \<and> k < 5 \<and> \<not> (k = 4 \<and> x AND 0x7f > 15)")
    case False
    have "decode_tag_loop (x # mem) len k number (7 * k) \<noteq> None"
      unfolding decode_tag_loop.simps [of "_ # _"] s using False Cons.prems(1) by auto
    with False Cons.prems show ?thesis by (cases "mem = []") auto
  next
    case True
    show ?thesis
    proof (cases "x AND 0x80 = 0")
      case True': True
      then show ?thesis using True unfolding decode_tag_loop.simps [of "_ # _"] s by (simp add: Let_def)
    next
      case False
      have "decode_tag_loop (x # mem) len k number (7 * k) =
          decode_tag_loop mem len (k + 1) (number OR push_bit (7 * k) (ucast (x AND 0x7f))) (7 * (k + 1))"
        unfolding decode_tag_loop.simps [of "_ # _"] s list.case Let_def if_not_P [OF False] using True by auto
      with Cons.IH [of "k + 1"] Cons.prems True False show ?thesis by auto
    qed
  qed
qed

text \<open>
  C38: where \<^verbatim>\<open>decode_tag_internal\<close> reads outside the memory it asked for. It pulls five bytes together and then
  reads while the high bit of a byte is set, bounded by the length of the whole buffer; it rejects a
  sixth byte only after reading it. So it reads past the end of the first chain exactly where five bytes with
  the high bit fill that chain's memory, the fifth of them fits, and more bytes follow in other
  chains. On every other buffer it stays inside.
\<close>

theorem decode_tag_overread:
  assumes "mm_total m" and "tag_live b"
  shows "decode_tag_internal m b drain = None \<longleftrightarrow>
    5 < length (content b) \<and> (\<forall>x \<in> set (take 5 (content b)). x AND 0x80 \<noteq> 0) \<and> \<not> content b ! 4 AND 0x7f > 15 \<and>
    length (first_memory (snd (evbuffer_pullup m b 5))) = 5"
proof (cases "content b = []")
  case True
  then show ?thesis using total_len_live [OF assms(2)] by (simp add: decode_tag_internal_def evbuffer_pullup_def)
next
  case False
  define n where "n = (if length (content b) < 5 then length (content b) else 5)"
  have n: "0 < n" "n \<le> length (content b)" using False by (auto simp: n_def)
  from pull_live [OF assms n] obtain b1 where b1: "evbuffer_pullup m b (int n) = (Some (take n (content b)), b1)"
    "take n (first_memory b1) = take n (content b)" by blast
  have "length (take n (first_memory b1)) = n" using b1(2) n(2) by simp
  then have l: "min (length (content b)) 5 \<le> 0 + length (first_memory b1)" by (auto simp: n_def split: if_splits)
  have d: "decode_tag_internal m b drain = None \<longleftrightarrow>
      decode_tag_loop (first_memory b1) (length (content b)) 0 0 (7 * 0) = None"
    using b1(1) total_len_live [OF assms(2)] unfolding n_def
    by (auto simp: decode_tag_internal_def bind_eq_None_conv split: option.splits)
  show ?thesis
  proof (cases "5 < length (content b)")
    case False
    then show ?thesis unfolding d using decode_tag_outside [OF _ l, of 0] by simp
  next
    case True
    then have "n = 5" by (simp add: n_def)
    with b1 have p: "snd (evbuffer_pullup m b 5) = b1" "take 5 (first_memory b1) = take 5 (content b)" by simp_all
    have "first_memory b1 = take 5 (content b)" if "length (first_memory b1) = 5" using p(2) that by simp
    moreover have "last (take 5 (content b)) = content b ! 4" "take 5 (content b) \<noteq> []"
      using True take_Suc_conv_app_nth [of 4 "content b"] by simp_all
    ultimately show ?thesis
      unfolding d decode_tag_outside [OF le0 l, of 0] p(1) using True by auto
  qed
qed

text \<open>Two chains, the first full with five bytes.\<close>

definition full_first :: evbuffer where
  "full_first = evbuffer_new\<lparr>chains :=
       [\<lparr>buffer = [0x80, 0x80, 0x80, 0x80, 0x81], misalign = 0, off = 5, immutable = False, pinned_r = False, pinned_w = False\<rparr>,
        \<lparr>buffer = [1], misalign = 0, off = 1, immutable = False, pinned_r = False, pinned_w = False\<rparr>],
     lwd := 1, total_len := 6\<rparr>"

lemma full_first_live: "tag_live full_first" "content full_first = [0x80, 0x80, 0x80, 0x80, 0x81, 1]"
proof -
  show c: "content full_first = [0x80, 0x80, 0x80, 0x80, 0x81, 1]"
    by (simp add: full_first_def content_def data_of_def chain_data_def)
  have "chains full_first = [\<lparr>buffer = [0x80, 0x80, 0x80, 0x80, 0x81], misalign = 0, off = 5, immutable = False,
      pinned_r = False, pinned_w = False\<rparr>, \<lparr>buffer = [1], misalign = 0, off = 1, immutable = False, pinned_r = False,
      pinned_w = False\<rparr>]" "lwd full_first = 1" "total_len full_first = 6"
    by (simp_all add: full_first_def)
  moreover have "\<not> freeze_start full_first" "\<not> freeze_end full_first"
    by (simp_all add: full_first_def) (simp_all add: evbuffer_new_def)
  ultimately show "tag_live full_first"
    using c by (simp add: tag_live_def evb_live_def evb_ok_def unpinned_def lwd_ok_def chain_ok_def buffer_len_def
        EVQ_CAP_def EVBUFFER_CHAIN_MAX_def EV_SSIZE_MAX_def EVBUFFER_CHAIN_SIZE_def)
qed

theorem decode_tag_overread_witness:
  "decode_tag_internal (\<lambda>n. Some (replicate n 0)) full_first True = None"
proof -
  have m: "mm_total (\<lambda>n. Some (replicate n 0))" by (simp add: mm_total_def mm_ok_def)
  have p: "snd (evbuffer_pullup (\<lambda>n. Some (replicate n 0)) full_first 5) = full_first"
    by (simp add: evbuffer_pullup_def full_first_def)
  have f: "length (first_memory full_first) = 5" by (simp add: first_memory_def full_first_def)
  show ?thesis
    unfolding decode_tag_overread [OF m full_first_live(1)] p f full_first_live(2) by simp
qed

section \<open>Lengths and misread items\<close>

text \<open>
  C40: the length that \<^verbatim>\<open>evtag_peek_length\<close> gives. For a header in front of the buffer,
  \<^verbatim>\<open>evtag_payload_length\<close> gives the length in it as it is, of whatever size; \<^verbatim>\<open>evtag_peek_length\<close> adds the size of the
  header in 32 bits, so that for a length of nearly 2^32 the whole item is reported to be shorter than
  its header. Neither takes anything from the buffer.
\<close>

theorem peek_length_wraps:
  assumes m: "mm_total m" and b: "tag_live b" and c: "content b = encode_tag t @ encode_int n @ rest"
  shows "\<exists>b' b'' len. evtag_payload_length m b = Some (Some n, b') \<and> content b' = content b \<and>
    evtag_peek_length m b = Some (Some len, b'') \<and> content b'' = content b \<and>
    unat len = (unat n + length (encode_tag t) + length (encode_int n)) mod 2 ^ 32"
proof -
  from decode_tag_live [OF m b c, of False] obtain b1 where
    b1: "decode_tag_internal m b False = Some (Some (t, int (length (encode_tag t))), b1)" "tag_live b1" "content b1 = content b"
    by auto
  from decode_int32_live [OF m b1(2)] b1(3) c obtain b2 where
    b2: "decode_int_internal m b1 (int (length (encode_tag t))) = Some (Some (n, int (length (encode_int n))), b2)"
      "content b2 = content b" by metis
  let ?h = "int (length (encode_int n)) + int (length (encode_tag t))"
  have "unat (n + word_of_int ?h) = (unat n + length (encode_tag t) + length (encode_int n)) mod 2 ^ 32"
  proof -
    have "word_of_int ?h = (of_nat (length (encode_int n) + length (encode_tag t)) :: 32 word)" by simp
    then have "unat (n + word_of_int ?h) = (unat n + (length (encode_int n) + length (encode_tag t)) mod 2 ^ 32) mod 2 ^ 32"
      by (simp only: unat_word_ariths unsigned_of_nat take_bit_eq_mod) simp
    then show ?thesis by (simp only: mod_add_right_eq) (simp only: ac_simps)
  qed
  moreover have "peek_lengths m b = Some (Some (n, ?h), b2)" using b1(1) b2(1) by (simp add: peek_lengths_def)
  ultimately show ?thesis
    using b2(2) by (simp add: evtag_payload_length_def evtag_peek_length_def)
qed

theorem peek_length_wraps_witness:
  "\<exists>b b' b'' len. evtag_payload_length (\<lambda>n. Some (replicate n 0)) b = Some (Some 0xffffffff, b') \<and>
    content b' = content b \<and> evtag_peek_length (\<lambda>n. Some (replicate n 0)) b = Some (Some len, b'') \<and>
    content b'' = content b \<and> unat len = 5"
proof -
  let ?m = "\<lambda>n. Some (replicate n (0 :: byte))"
  have m: "mm_total ?m" by (simp add: mm_total_def mm_ok_def)
  define b where "b = snd (evbuffer_add ?m evbuffer_new (encode_tag 1 @ encode_int (0xffffffff :: 32 word)))"
  have l: "length (encode_tag 1) = 1" "length (encode_int (0xffffffff :: 32 word)) = 5" by code_simp+
  have "tag_live b" "content b = encode_tag 1 @ encode_int (0xffffffff :: 32 word) @ []"
    using tag_add_live [OF m tag_live_new, of "encode_tag 1 @ encode_int (0xffffffff :: 32 word)"] l
    by (simp_all add: b_def EVQ_CAP_def)
  from peek_length_wraps [OF m this] l show ?thesis by auto
qed

lemma consume_live:
  assumes m: "mm_total m" and b: "tag_live b" and c: "content b = framed t data @ rest"
  shows "\<exists>b'. evtag_consume m b = Some (0, b') \<and> tag_live b' \<and> content b' = rest"
proof -
  from header_live [OF m b c] obtain b1 where b1: "evtag_unmarshal_header m b = Some (int (length data), Some t, b1)"
    "tag_live b1" "content b1 = data @ rest" by blast
  have "length data \<le> EVQ_CAP" using b1(2,3) by (simp add: tag_live_def)
  then have "drain_int b1 (int (length data)) = snd (evbuffer_drain b1 (length data))"
    using small_length [of "length data"] by (simp add: drain_int_def)
  then show ?thesis using b1 drain_live [OF b1(2), of "length data"] by (simp add: evtag_consume_def)
qed

text \<open>
  C39: a reader that asks for a tag that is not the next one. All of the calls report it, but they
  leave different bytes in front: those for integers take the tag only, so that the
  next call reads the length as a tag; those for strings and fixed data take the tag and the length,
  so that it reads the payload; only \<^verbatim>\<open>evtag_unmarshal_timeval\<close> skips the item, as \<^verbatim>\<open>evtag_consume\<close>
  does.
\<close>

theorem wrong_tag:
  assumes m: "mm_total m" and b: "tag_live b" and c: "content b = framed t data @ rest" and t: "need \<noteq> t"
  shows "\<exists>b1 b2 b3 b4 b5 b6.
    evtag_unmarshal_int m b need = Some (None, b1) \<and> content b1 = encode_int (of_nat (length data) :: 32 word) @ data @ rest \<and>
    evtag_unmarshal_int64 m b need = Some (None, b2) \<and> content b2 = content b1 \<and>
    evtag_unmarshal_fixed m b need n = Some (None, b3) \<and> content b3 = data @ rest \<and>
    evtag_unmarshal_string m h b need = Some (None, b4) \<and> content b4 = data @ rest \<and>
    evtag_unmarshal_timeval m b need = Some (None, b5) \<and> content b5 = rest \<and>
    evtag_consume m b = Some (0, b6) \<and> content b6 = rest"
proof -
  have c1: "content b = encode_tag t @ encode_int (of_nat (length data) :: 32 word) @ data @ rest"
    using c by (simp add: framed_def)
  from decode_tag_live [OF m b c1, of True] obtain b1 where b1:
    "decode_tag_internal m b True = Some (Some (t, int (length (encode_tag t))), b1)"
    "content b1 = encode_int (of_nat (length data) :: 32 word) @ data @ rest" by auto
  from header_live [OF m b c] obtain b3 where b3: "evtag_unmarshal_header m b = Some (int (length data), Some t, b3)"
    "tag_live b3" "content b3 = data @ rest" by blast
  have "length data \<le> EVQ_CAP" using b3(2,3) by (simp add: tag_live_def)
  then have "drain_int b3 (int (length data)) = snd (evbuffer_drain b3 (length data))"
    using small_length [of "length data"] by (simp add: drain_int_def)
  then have "content (drain_int b3 (int (length data))) = rest"
    using drain_live [OF b3(2), of "length data"] b3(3) by simp
  moreover from consume_live [OF m b c] obtain b6 where "evtag_consume m b = Some (0, b6)" "content b6 = rest" by blast
  moreover have "int_header m b need = Some (None, b1)" using b1(1) t by (simp add: int_header_def)
  ultimately show ?thesis
    using b1 b3 t
    by (simp add: evtag_unmarshal_int_def evtag_unmarshal_int64_def evtag_unmarshal_fixed_def evtag_unmarshal_string_def
        evtag_unmarshal_timeval_def)
qed

theorem wrong_tag_witness:
  "\<exists>b b1 b2 b3 b4 b5 b6. content b = [5, 0, 7] \<and>
    evtag_unmarshal_int (\<lambda>n. Some (replicate n 0)) b 6 = Some (None, b1) \<and> content b1 = [0, 7] \<and>
    evtag_unmarshal_int64 (\<lambda>n. Some (replicate n 0)) b 6 = Some (None, b2) \<and> content b2 = content b1 \<and>
    evtag_unmarshal_fixed (\<lambda>n. Some (replicate n 0)) b 6 4 = Some (None, b3) \<and> content b3 = [7] \<and>
    evtag_unmarshal_string (\<lambda>n. Some (replicate n 0)) (\<lambda>_. True) b 6 = Some (None, b4) \<and> content b4 = [7] \<and>
    evtag_unmarshal_timeval (\<lambda>n. Some (replicate n 0)) b 6 = Some (None, b5) \<and> content b5 = [7] \<and>
    evtag_consume (\<lambda>n. Some (replicate n 0)) b = Some (0, b6) \<and> content b6 = [7]"
proof -
  let ?m = "\<lambda>n. Some (replicate n (0 :: byte))"
  have m: "mm_total ?m" by (simp add: mm_total_def mm_ok_def)
  define b where "b = snd (evbuffer_add ?m evbuffer_new [5, 0, 7])"
  have f: "encode_tag 5 = [5]" "encode_int (0 :: 32 word) = [0]" by code_simp+
  have b: "tag_live b" "content b = [5, 0, 7]"
    using tag_add_live [OF m tag_live_new, of "[5, 0, 7]"] by (simp_all add: b_def EVQ_CAP_def)
  then have "content b = framed 5 [] @ [7]" by (simp add: framed_def f)
  from wrong_tag [OF m b(1) this, of 6 4 "\<lambda>_. True"] b(2) show ?thesis by (auto simp: f)
qed

text \<open>
  The comment at the top of \<^verbatim>\<open>event_tagging.c\<close> gives the tag 0x166 the bytes 82 66 and says that the nibbles of an
  integer are in big-endian order; the code writes the low parts of both first.
\<close>

lemma encode_tag_low_first: "encode_tag 0x166 = [0xe6, 0x02]"
  by code_simp

lemma encode_int_low_first: "encode_int (0x123 :: 32 word) = [0x23, 0x21]"
  by code_simp

end
