(* ===== verification/Mysql.thy ===== *)
theory Mysql
  imports IniReader
begin

text \<open>
  The pool of database connections (\<^verbatim>\<open>SyMysqlConPool.cpp\<close>) and the rows of its last queries. What
  the MySQL client library answers are arguments: the handle \<^verbatim>\<open>mysql_init\<close> returns, 0 when it
  fails, and whether the connection is made; the result of a query and the rows it stores, a
  null pointer being \<open>None\<close>. The calls of the library are recorded. A result \<open>None\<close> is a read
  outside a vector.
\<close>

section \<open>State\<close>

datatype mysql_call = Mysql_init nat | Mysql_connect nat bool | Mysql_query nat string
  | Mysql_store_result nat | Mysql_close nat

record mysql_pool =
  m_queueMysql :: "nat list"
  m_MysqlMaxnum :: int
  m_Count :: int
  m_Capacity :: int
  m_strHost :: string
  m_strUser :: string
  m_strPasswd :: string
  m_strDatabase :: string
  m_vecReslut :: "string list list"
  mysql_calls :: "mysql_call list"  \<comment> \<open>latest first\<close>

record mysql_answer =
  query_ret :: int
  stored :: "(nat \<times> string option list list) option"

definition new_SyMysqlConPool :: mysql_pool where
  "new_SyMysqlConPool = \<lparr>m_queueMysql = [], m_MysqlMaxnum = 0, m_Count = 0, m_Capacity = 0, m_strHost = [],
     m_strUser = [], m_strPasswd = [], m_strDatabase = [], m_vecReslut = [], mysql_calls = []\<rparr>"

definition mysql_call :: "mysql_call \<Rightarrow> mysql_pool \<Rightarrow> mysql_pool" where
  "mysql_call c p = p\<lparr>mysql_calls := c # mysql_calls p\<rparr>"

section \<open>Connections\<close>

text \<open>The loop from \<open>i\<close> on, \<open>n\<close> rounds; it tells whether it came to its end.\<close>

fun connect_rounds :: "(nat \<Rightarrow> nat \<times> bool) \<Rightarrow> nat \<Rightarrow> nat \<Rightarrow> mysql_pool \<Rightarrow> bool \<times> mysql_pool" where
  "connect_rounds answer i 0 p = (True, p)"
| "connect_rounds answer i (Suc n) p =
     (let (h, connected) = answer i;
          p = mysql_call (Mysql_init h) p
      in if h = 0 then (False, p)
         else
           (let p = mysql_call (Mysql_connect h connected) p;
                p = (if connected then p\<lparr>m_queueMysql := m_queueMysql p @ [h]\<rparr> else p)
            in connect_rounds answer (i + 1) n p))"

definition Mysql_Initialize ::
    "int \<Rightarrow> (nat \<Rightarrow> nat \<times> bool) \<Rightarrow> int \<Rightarrow> string \<Rightarrow> string \<Rightarrow> string \<Rightarrow> string \<Rightarrow> mysql_pool \<Rightarrow> bool \<times> mysql_pool" where
  "Mysql_Initialize mutex_init answer connum host user passwd database p =
     (let p = p\<lparr>m_strHost := host, m_strUser := user, m_strPasswd := passwd, m_strDatabase := database,
            m_Capacity := cast_uint32 connum\<rparr>
      in if mutex_init \<noteq> 0 then (False, p)
         else
           (let (done, p) = connect_rounds answer 0 (nat connum) p
            in if \<not> done then (False, p)
               else (int (length (m_queueMysql p)) = cast_uint64 connum, p)))"

definition GetMysqlHandle :: "mysql_pool \<Rightarrow> nat \<times> mysql_pool" where
  "GetMysqlHandle p =
     (case m_queueMysql p of [] \<Rightarrow> (0, p) | h # q \<Rightarrow> (h, p\<lparr>m_queueMysql := q\<rparr>))"

definition PutMysqlHandle :: "nat \<Rightarrow> mysql_pool \<Rightarrow> bool \<times> mysql_pool" where
  "PutMysqlHandle h p =
     (if h = 0 then (False, p) else (True, p\<lparr>m_queueMysql := m_queueMysql p @ [h]\<rparr>))"

fun close_handles :: "nat \<Rightarrow> mysql_pool \<Rightarrow> mysql_pool" where
  "close_handles 0 p = p"
| "close_handles (Suc n) p =
     (let h = hd (m_queueMysql p);
          p = (if h \<noteq> 0 then mysql_call (Mysql_close h) p else p)
      in close_handles n (p\<lparr>m_queueMysql := tl (m_queueMysql p)\<rparr>))"

definition Mysql_pool_close :: "mysql_pool \<Rightarrow> mysql_pool" where
  "Mysql_pool_close p = close_handles (length (m_queueMysql p)) p"

section \<open>Rows\<close>

text \<open>The fields \<open>i\<close>, ... of a row, \<open>n\<close> of them; a value ends at its first NUL.\<close>

fun row_fields :: "string option list \<Rightarrow> nat \<Rightarrow> nat \<Rightarrow> string list option" where
  "row_fields row i 0 = Some []"
| "row_fields row i (Suc n) =
     (if length row \<le> i then None
      else case row_fields row (i + 1) n of
        None \<Rightarrow> None
      | Some cells \<Rightarrow> Some ((case row ! i of None \<Rightarrow> [] | Some v \<Rightarrow> c_str v) # cells))"

fun fetch_rows :: "nat \<Rightarrow> string option list list \<Rightarrow> string list list \<Rightarrow> string list list option" where
  "fetch_rows nf [] vec = Some vec"
| "fetch_rows nf (row # rows) vec =
     (case row_fields row 0 nf of
        None \<Rightarrow> None
      | Some cells \<Rightarrow> fetch_rows nf rows (vec @ [cells]))"

definition MysqlCarryOutQuery ::
    "mysql_answer \<Rightarrow> nat \<Rightarrow> string \<Rightarrow> bool \<Rightarrow> mysql_pool \<Rightarrow> (bool \<times> mysql_pool) option" where
  "MysqlCarryOutQuery ans h sql select p =
     (if h = 0 then Some (False, p)
      else
        (let p = mysql_call (Mysql_query h sql) p
         in if query_ret ans \<noteq> 0 then Some (False, p)
            else if select then
              (let p = mysql_call (Mysql_store_result h) p
               in case stored ans of
                    None \<Rightarrow> Some (False, p)
                  | Some (nf, rows) \<Rightarrow>
                      (case fetch_rows nf rows (m_vecReslut p) of
                         None \<Rightarrow> None
                       | Some vec \<Rightarrow> Some (True, p\<lparr>m_vecReslut := vec\<rparr>)))
            else Some (True, p)))"

definition GetRows :: "mysql_pool \<Rightarrow> int" where
  "GetRows p = cast_int (int (length (m_vecReslut p)))"

definition GetCols :: "mysql_pool \<Rightarrow> int" where
  "GetCols p = (if m_vecReslut p = [] then 0 else cast_int (int (length (hd (m_vecReslut p)))))"

text \<open>The test of the getters; \<open>row\<close> and \<open>col\<close> are unsigned, so the sizes become so.\<close>

definition in_result :: "nat \<Rightarrow> nat \<Rightarrow> mysql_pool \<Rightarrow> bool" where
  "in_result row col p \<longleftrightarrow>
     (row > 0 \<and> int row \<le> cast_uint32 (GetRows p)) \<and> (col > 0 \<and> int col \<le> cast_uint32 (GetCols p))"

text \<open>\<^verbatim>\<open>m_vecReslut[row - 1][col - 1]\<close>\<close>

definition cell :: "nat \<Rightarrow> nat \<Rightarrow> mysql_pool \<Rightarrow> string option" where
  "cell row col p =
     (if row - 1 < length (m_vecReslut p) \<and> col - 1 < length (m_vecReslut p ! (row - 1))
      then Some (m_vecReslut p ! (row - 1) ! (col - 1)) else None)"

definition atoi :: "string \<Rightarrow> int" where
  "atoi s =
     (let s1 = dropWhile isspace s;
          neg = (s1 \<noteq> [] \<and> hd s1 = CHR ''-'');
          s2 = (if s1 \<noteq> [] \<and> (hd s1 = CHR ''-'' \<or> hd s1 = CHR ''+'') then tl s1 else s1);
          n = digits_val 10 (takeWhile (is_digit 10) s2)
      in cast_int (clamp_long (if neg then - n else n)))"

definition Mysql_GetInt :: "nat \<Rightarrow> nat \<Rightarrow> mysql_pool \<Rightarrow> int option" where
  "Mysql_GetInt row col p = (if in_result row col p then map_option atoi (cell row col p) else Some (-1))"

definition Mysql_GetString :: "nat \<Rightarrow> nat \<Rightarrow> string \<Rightarrow> mysql_pool \<Rightarrow> string option" where
  "Mysql_GetString row col out p = (if in_result row col p then cell row col p else Some out)"

definition Mysql_Clear :: "mysql_pool \<Rightarrow> mysql_pool" where
  "Mysql_Clear p = p\<lparr>m_vecReslut := []\<rparr>"

section \<open>What is lent\<close>

text \<open>
  Clients take handles out and give back what they hold; the interface of a pool that lends things
  out and takes them back, with the things that are idle and nothing else in its state that matters.
\<close>

datatype lend_op = Take | Give nat

locale lending =
  fixes idle :: "'p \<Rightarrow> nat list"
    and take_out :: "'p \<Rightarrow> nat \<times> 'p"
    and give_back :: "nat \<Rightarrow> 'p \<Rightarrow> bool \<times> 'p"
  assumes take_empty: "idle p = [] \<Longrightarrow> take_out p = (0, p)"
    and take_head: "idle p = h # hs \<Longrightarrow> fst (take_out p) = h \<and> idle (snd (take_out p)) = hs"
    and give_null: "give_back 0 p = (False, p)"
    and give_tail: "h \<noteq> 0 \<Longrightarrow> fst (give_back h p) \<and> idle (snd (give_back h p)) = idle p @ [h]"
begin

text \<open>A client gives back only what it holds; the result is the pool and what is held.\<close>

fun lend_run :: "lend_op list \<Rightarrow> 'p \<times> nat list \<Rightarrow> 'p \<times> nat list" where
  "lend_run [] s = s"
| "lend_run (Take # ops) (p, held) =
     (let (h, p) = take_out p in lend_run ops (p, if h = 0 then held else h # held))"
| "lend_run (Give h # ops) (p, held) =
     (if h \<in> set held then lend_run ops (snd (give_back h p), remove1 h held) else lend_run ops (p, held))"

definition lent_ok :: "nat multiset \<Rightarrow> 'p \<times> nat list \<Rightarrow> bool" where
  "lent_ok hs s \<longleftrightarrow> mset (idle (fst s)) + mset (snd s) = hs"

lemma take_ok:
  assumes "lent_ok hs (p, held)" and "0 \<notin># hs" and "take_out p = (h, p')"
  shows "lent_ok hs (p', if h = 0 then held else h # held)"
proof (cases "idle p")
  case Nil
  with take_empty [of p] assms show ?thesis by simp
next
  case (Cons x xs)
  with take_head [of p] assms have "h = x" "idle p' = xs" by fastforce+
  with Cons assms show ?thesis by (auto simp: lent_ok_def)
qed

lemma give_ok:
  assumes "lent_ok hs (p, held)" and "0 \<notin># hs" and "h \<in> set held"
  shows "lent_ok hs (snd (give_back h p), remove1 h held)"
proof -
  have "h \<in># hs" using assms(1,3) by (auto simp: lent_ok_def)
  then have "h \<noteq> 0" using assms(2) by metis
  with give_tail [of h p] assms show ?thesis by (auto simp: lent_ok_def)
qed

theorem lends: "lent_ok hs s \<Longrightarrow> 0 \<notin># hs \<Longrightarrow> lent_ok hs (lend_run ops s)"
proof (induction ops s rule: lend_run.induct)
  case (2 ops p held)
  obtain h p' where "take_out p = (h, p')" by fastforce
  with 2 take_ok [OF 2(2,3)] show ?case by simp
next
  case (3 h ops p held)
  then show ?case using give_ok by simp
qed simp

lemma take_null:
  assumes "lent_ok hs (p, held)" and "0 \<notin># hs"
  shows "fst (take_out p) = 0 \<longleftrightarrow> mset held = hs"
proof (cases "idle p")
  case Nil
  with assms take_empty [of p] show ?thesis by (auto simp: lent_ok_def)
next
  case (Cons x xs)
  with assms(1) have "x \<in># hs" "mset held \<noteq> hs" by (auto simp: lent_ok_def)
  with Cons take_head [of p] assms(2) show ?thesis by metis
qed

end

interpretation connections: lending m_queueMysql GetMysqlHandle PutMysqlHandle
  by unfold_locales (simp_all add: GetMysqlHandle_def PutMysqlHandle_def)

section \<open>From the start to the end\<close>

lemma connect_step:
  assumes "connect_rounds answer i (Suc n) p = (True, p')"
  obtains q where "fst (answer i) \<noteq> 0" "connect_rounds answer (i + 1) n q = (True, p')"
    "m_queueMysql q = m_queueMysql p @ map fst (filter snd [answer i])"
    "\<forall>h. Mysql_close h \<in> set (mysql_calls q) \<longleftrightarrow> Mysql_close h \<in> set (mysql_calls p)"
  using assms that by (cases "answer i") (auto simp: Let_def mysql_call_def split: if_splits)

lemma connect_rounds_ok:
  assumes "connect_rounds answer i n p = (True, p')"
  shows "m_queueMysql p' = m_queueMysql p @ map fst (filter snd (map answer [i..<i + n])) \<and>
    (\<forall>j \<in> {i..<i + n}. fst (answer j) \<noteq> 0) \<and>
    (\<forall>h. Mysql_close h \<in> set (mysql_calls p') \<longleftrightarrow> Mysql_close h \<in> set (mysql_calls p))"
  using assms
proof (induction n arbitrary: i p)
  case (Suc n)
  from Suc.prems obtain q where q: "fst (answer i) \<noteq> 0" "connect_rounds answer (i + 1) n q = (True, p')"
    "m_queueMysql q = m_queueMysql p @ map fst (filter snd [answer i])"
    "\<forall>h. Mysql_close h \<in> set (mysql_calls q) \<longleftrightarrow> Mysql_close h \<in> set (mysql_calls p)" by (rule connect_step)
  have u: "[i..<i + Suc n] = i # [i + 1..<i + 1 + n]" by (simp add: upt_conv_Cons del: upt_Suc)
  have s: "{i..<i + Suc n} = insert i {i + 1..<i + 1 + n}" by auto
  show ?case unfolding u s using Suc.IH [OF q(2)] q by (simp del: upt_Suc)
qed simp

lemma filter_full: "length (filter P xs) = length xs \<Longrightarrow> filter P xs = xs"
  by (metis filter_True length_filter_less less_irrefl)

lemma Initialize_ok:
  assumes "Mysql_Initialize r answer connum host user passwd database new_SyMysqlConPool = (True, p)"
    and "- (2 ^ 31) \<le> connum" and "connum < 2 ^ 31"
  shows "m_queueMysql p = map (\<lambda>i. fst (answer i)) [0..<nat connum]" "0 \<notin> set (m_queueMysql p)" "0 \<le> connum"
    "Mysql_close h \<notin> set (mysql_calls p)"
proof -
  define q where "q = new_SyMysqlConPool\<lparr>m_strHost := host, m_strUser := user, m_strPasswd := passwd,
      m_strDatabase := database, m_Capacity := cast_uint32 connum\<rparr>"
  from assms(1) have run: "connect_rounds answer 0 (nat connum) q = (True, p)"
    and n: "int (length (m_queueMysql p)) = cast_uint64 connum"
    by (auto simp: Mysql_Initialize_def q_def Let_def split: if_splits prod.splits)
  note c = connect_rounds_ok [OF run]
  have e: "m_queueMysql q = []" "mysql_calls q = []" by (simp_all add: q_def new_SyMysqlConPool_def)
  have le: "length (m_queueMysql p) \<le> nat connum"
    using c e length_filter_le [of snd "map answer [0..<nat connum]"] by simp
  show pos: "0 \<le> connum"
  proof (rule ccontr)
    assume "\<not> 0 \<le> connum"
    with le n have "cast_uint64 connum = 0" by simp
    then have "(2 :: int) ^ 64 dvd connum" by (simp add: cast_uint64_def take_bit_eq_0_iff)
    with \<open>\<not> 0 \<le> connum\<close> assms(2) show False by (auto dest!: zdvd_imp_le [of _ "- connum", rotated])
  qed
  have "length (m_queueMysql p) = nat connum" using n pos assms(3) by (simp add: cast_uint64_id)
  then have "filter snd (map answer [0..<nat connum]) = map answer [0..<nat connum]"
    using c e by (intro filter_full) simp
  with c e show q: "m_queueMysql p = map (\<lambda>i. fst (answer i)) [0..<nat connum]" by (simp add: comp_def)
  show "0 \<notin> set (m_queueMysql p)" 
  proof -
    have "\<forall>j < nat connum. fst (answer j) \<noteq> 0" using c by simp
    then show ?thesis unfolding q by (fastforce simp: image_iff)
  qed
  show "Mysql_close h \<notin> set (mysql_calls p)" using c e by simp
qed

lemma Get_calls: "mysql_calls (snd (GetMysqlHandle p)) = mysql_calls p"
  by (simp add: GetMysqlHandle_def split: list.split)

lemma Put_calls: "mysql_calls (snd (PutMysqlHandle h p)) = mysql_calls p"
  by (simp add: PutMysqlHandle_def)

lemma lend_run_calls: "mysql_calls (fst (connections.lend_run ops s)) = mysql_calls (fst s)"
proof (induction ops s rule: connections.lend_run.induct)
  case (2 ops p held)
  obtain h q where "GetMysqlHandle p = (h, q)" by fastforce
  with 2 [OF this [symmetric] refl] Get_calls [of p] show ?case by simp
next
  case (3 h ops p held)
  then show ?case by (simp add: Put_calls)
qed simp

lemma close_handles_ok:
  "m_queueMysql p = q \<Longrightarrow> 0 \<notin> set q \<Longrightarrow>
   close_handles (length q) p = p\<lparr>m_queueMysql := [], mysql_calls := rev (map Mysql_close q) @ mysql_calls p\<rparr>"
proof (induction q arbitrary: p)
  case (Cons h q)
  have "close_handles (length (h # q)) p = close_handles (length q) (mysql_call (Mysql_close h) p\<lparr>m_queueMysql := q\<rparr>)"
    using Cons.prems by (simp add: mysql_call_def)
  also have "\<dots> = p\<lparr>m_queueMysql := [], mysql_calls := rev (map Mysql_close (h # q)) @ mysql_calls p\<rparr>"
    using Cons by (subst Cons.IH) (simp_all add: mysql_call_def)
  finally show ?case .
qed simp

text \<open>
  C29: The connections are neither lost nor lent twice. After a start that succeeded, whatever
  sequence of taking and giving back clients make, every connection is either idle or held by one
  client, and asking for one fails only when all are held. The end closes each idle connection
  once, and none of those that are held.
\<close>

theorem mysql_pool_lends:
  assumes "Mysql_Initialize r answer connum host user passwd database new_SyMysqlConPool = (True, p)"
    and "- (2 ^ 31) \<le> connum" and "connum < 2 ^ 31" and "distinct (map (\<lambda>i. fst (answer i)) [0..<nat connum])"
    and "connections.lend_run ops (p, []) = (p', held)"
  shows "distinct (m_queueMysql p' @ held) \<and> set (m_queueMysql p' @ held) = (\<lambda>i. fst (answer i)) ` {0..<nat connum} \<and>
    (fst (GetMysqlHandle p') = 0 \<longleftrightarrow> int (length held) = connum) \<and>
    mysql_calls (Mysql_pool_close p') = rev (map Mysql_close (m_queueMysql p')) @ mysql_calls p' \<and>
    (\<forall>h \<in> set held. Mysql_close h \<notin> set (mysql_calls (Mysql_pool_close p')))"
proof -
  note i = Initialize_ok [OF assms(1-3)]
  let ?hs = "mset (m_queueMysql p)"
  have z: "0 \<notin># ?hs" using i(2) by simp
  have ok: "connections.lent_ok ?hs (p', held)"
    using connections.lends [OF _ z, of "(p, [])" ops] assms(5) by (simp add: connections.lent_ok_def)
  then have m: "mset (m_queueMysql p' @ held) = ?hs" by (simp add: connections.lent_ok_def)
  have d: "distinct (m_queueMysql p' @ held)" using mset_eq_imp_distinct_iff [OF m] assms(4) i(1) by simp
  have s: "set (m_queueMysql p' @ held) = set (m_queueMysql p)" by (rule mset_eq_setD [OF m])
  have null: "fst (GetMysqlHandle p') = 0 \<longleftrightarrow> int (length held) = connum"
  proof -
    have "length (m_queueMysql p') + length held = nat connum"
      using mset_eq_length [OF m] i(1) by simp
    moreover have "mset held = ?hs \<longleftrightarrow> m_queueMysql p' = []" using m by auto
    ultimately show ?thesis using connections.take_null [OF ok z] i(3) by auto
  qed
  have "0 \<notin> set (m_queueMysql p')" using s i(2) by auto
  note close = close_handles_ok [OF refl this]
  have "Mysql_close h \<notin> set (mysql_calls p')" for h
    using lend_run_calls [of ops "(p, [])"] assms(5) i(4) by simp
  with close d s i(1) null show ?thesis by (auto simp: Mysql_pool_close_def)
qed

section \<open>Rows of successive queries\<close>

definition row_cells :: "nat \<times> string option list list \<Rightarrow> string list list" where
  "row_cells res = map (map (\<lambda>v. case v of None \<Rightarrow> [] | Some s \<Rightarrow> c_str s)) (snd res)"

text \<open>A row has as many values as the result has fields.\<close>

definition rectangular :: "nat \<times> string option list list \<Rightarrow> bool" where
  "rectangular res \<longleftrightarrow> list_all (\<lambda>row. length row = fst res) (snd res)"

fun selects :: "nat \<Rightarrow> (string \<times> nat \<times> string option list list) list \<Rightarrow> mysql_pool \<Rightarrow> mysql_pool option" where
  "selects h [] p = Some p"
| "selects h ((sql, res) # qs) p =
     (case MysqlCarryOutQuery \<lparr>query_ret = 0, stored = Some res\<rparr> h sql True p of
        None \<Rightarrow> None
      | Some (ok, p) \<Rightarrow> selects h qs p)"

lemma row_fields_ok:
  "i + n = length row \<Longrightarrow>
   row_fields row i n = Some (map (\<lambda>v. case v of None \<Rightarrow> [] | Some s \<Rightarrow> c_str s) (drop i row))"
proof (induction n arbitrary: i)
  case (Suc n)
  then have "drop i row = row ! i # drop (i + 1) row" by (simp add: Cons_nth_drop_Suc)
  with Suc show ?case by simp
qed simp

lemma fetch_rows_ok:
  "rectangular (nf, rows) \<Longrightarrow> fetch_rows nf rows vec = Some (vec @ row_cells (nf, rows))"
  by (induction rows arbitrary: vec) (simp_all add: rectangular_def row_cells_def row_fields_ok)

lemma selects_ok:
  "h \<noteq> 0 \<Longrightarrow> list_all (\<lambda>q. rectangular (snd q)) qs \<Longrightarrow>
   \<exists>p'. selects h qs p = Some p' \<and> m_vecReslut p' = m_vecReslut p @ concat (map (row_cells \<circ> snd) qs)"
proof (induction h qs p rule: selects.induct)
  case (2 h sql res qs p)
  obtain nf rows where res: "res = (nf, rows)" by fastforce
  define q where "q = mysql_call (Mysql_store_result h) (mysql_call (Mysql_query h sql) p)
      \<lparr>m_vecReslut := m_vecReslut p @ row_cells res\<rparr>"
  have "MysqlCarryOutQuery \<lparr>query_ret = 0, stored = Some res\<rparr> h sql True p = Some (True, q)"
    using 2(2,3) fetch_rows_ok [of nf rows "m_vecReslut p"]
    by (simp add: MysqlCarryOutQuery_def mysql_call_def q_def res)
  with 2 show ?case by (auto simp: q_def)
qed simp

lemma getters_ok:
  fixes p defines "all \<equiv> m_vecReslut p" and "cols \<equiv> (if m_vecReslut p = [] then 0 else length (hd (m_vecReslut p)))"
  assumes "length all < 2 ^ 31" and "cols < 2 ^ 31"
  shows "GetRows p = int (length all)" "GetCols p = int cols"
    "Mysql_GetString i j out p =
       (if i \<in> {1..length all} \<and> j \<in> {1..cols}
        then if j \<le> length (all ! (i - 1)) then Some (all ! (i - 1) ! (j - 1)) else None
        else Some out)"
proof -
  show rows: "GetRows p = int (length all)"
    using assms(3) unfolding GetRows_def all_def by (subst cast_int_id) simp_all
  show cols: "GetCols p = int cols"
    using assms(4) unfolding GetCols_def cols_def by (auto simp: cast_int_id)
  have "in_result i j p \<longleftrightarrow> i \<in> {1..length all} \<and> j \<in> {1..cols}"
    using assms(3,4) unfolding in_result_def rows cols by (auto simp: cast_uint32_id)
  moreover have "cell i j p = (if j \<le> length (all ! (i - 1)) then Some (all ! (i - 1) ! (j - 1)) else None)"
    if "i \<in> {1..length all}" "j \<in> {1..cols}"
    using that by (auto simp: cell_def all_def)
  ultimately show "Mysql_GetString i j out p =
       (if i \<in> {1..length all} \<and> j \<in> {1..cols}
        then if j \<le> length (all ! (i - 1)) then Some (all ! (i - 1) ! (j - 1)) else None
        else Some out)"
    by (simp add: Mysql_GetString_def)
qed

text \<open>
  Rows pile up. After \<^verbatim>\<open>Clear\<close> and any queries, the rows are those of all their results, one
  after the other, NULL as the empty string and each value up to its first NUL; the numbers of rows
  and columns are those of the whole and of the first row, and a cell inside them is read, others
  leave the caller's string alone. So the second query does not hide the rows of the first, and
  where its rows are shorter a cell inside the table is a read outside its row.
\<close>

theorem mysql_rows_pile_up:
  assumes "h \<noteq> 0" and "list_all (\<lambda>q. rectangular (snd q)) qs"
    and "length (concat (map (row_cells \<circ> snd) qs)) < 2 ^ 31"
    and "list_all (\<lambda>q. fst (snd q) < 2 ^ 31) qs"
  shows "let all = concat (map (row_cells \<circ> snd) qs);
             cols = (if all = [] then 0 else length (hd all))
    in \<exists>p'. selects h qs (Mysql_Clear p) = Some p' \<and> GetRows p' = int (length all) \<and> GetCols p' = int cols \<and>
       (\<forall>i j out. Mysql_GetString i j out p' =
          (if i \<in> {1..length all} \<and> j \<in> {1..cols}
           then if j \<le> length (all ! (i - 1)) then Some (all ! (i - 1) ! (j - 1)) else None
           else Some out))"
proof -
  let ?all = "concat (map (row_cells \<circ> snd) qs)"
  obtain p' where p': "selects h qs (Mysql_Clear p) = Some p'" "m_vecReslut p' = ?all"
    using selects_ok [OF assms(1,2), of "Mysql_Clear p"] by (auto simp: Mysql_Clear_def)
  have "length (hd ?all) < 2 ^ 31" if "?all \<noteq> []"
  proof -
    from that have "hd ?all \<in> set ?all" by (rule hd_in_set)
    then obtain q row where q: "q \<in> set qs" and row: "row \<in> set (snd (snd q))" "length (hd ?all) = length row"
      by (auto simp: row_cells_def)
    from q row(1) assms(2) have "length row = fst (snd q)" by (auto simp: rectangular_def list_all_iff)
    with q row(2) assms(4) show ?thesis by (auto simp: list_all_iff)
  qed
  then have "(if m_vecReslut p' = [] then 0 else length (hd (m_vecReslut p'))) < 2 ^ 31" using p'(2) by simp
  note g = getters_ok [OF _ this, unfolded p'(2), OF assms(3)]
  show ?thesis unfolding Let_def using p'(1) g by blast
qed

section \<open>Instances\<close>

definition started :: mysql_pool where
  "started = snd (Mysql_Initialize 0 (\<lambda>i. (i + 7, True)) 3 ''h'' ''u'' ''p'' ''d'' new_SyMysqlConPool)"

lemma started_queue: "m_queueMysql started = [7, 8, 9]"
  and started_calls: "list_all (\<lambda>h. Mysql_close h \<notin> set (mysql_calls started)) [7, 8, 9]"
  and started_ok: "Mysql_Initialize 0 (\<lambda>i. (i + 7, True)) 3 ''h'' ''u'' ''p'' ''d'' new_SyMysqlConPool = (True, started)"
  by (simp_all add: started_def Mysql_Initialize_def new_SyMysqlConPool_def mysql_call_def Let_def numeral_3_eq_3 cast_uint64_def)

theorem mysql_pool_lends_witness:
  "let (p, held) = connections.lend_run [Take, Take, Give 8, Take, Give 9, Take, Give 8, Give 8] (started, [])
   in distinct (m_queueMysql p @ held) \<and> set (m_queueMysql p @ held) = {7, 8, 9} \<and>
      (fst (GetMysqlHandle p) = 0 \<longleftrightarrow> length held = 3)"
proof -
  obtain p held where r: "connections.lend_run [Take, Take, Give 8, Take, Give 9, Take, Give 8, Give 8] (started, []) = (p, held)"
    by fastforce
  have u: "(\<lambda>i. fst (i + 7, True)) ` {0..<nat 3} = {7, 8, 9}" by (auto simp: image_iff)
  have "distinct (map (\<lambda>i. fst (i + 7, True)) [0..<nat 3])" by (simp add: upt_rec)
  from mysql_pool_lends [OF started_ok _ _ this r] u show ?thesis unfolding r by simp
qed

theorem mysql_rows_pile_up_witness:
  "let qs = [(''select a, b from t'', 2, [[Some ''x'', None], [Some ''y'', Some ''2'']]), (''select c from u'', 1, [[Some ''z'']])]
   in \<exists>p. selects 7 qs (Mysql_Clear started) = Some p \<and> GetRows p = 3 \<and> GetCols p = 2 \<and>
        Mysql_GetString 1 1 [] p = Some ''x'' \<and> Mysql_GetString 3 2 [] p = None"
proof -
  define qs where "qs = [(''select a, b from t'', 2 :: nat, [[Some ''x'', None], [Some ''y'', Some ''2'']]),
     (''select c from u'', 1, [[Some ''z'']])]"
  let ?L = "[[''x'', []], [''y'', ''2''], [''z'']]"
  have all: "concat (map (row_cells \<circ> snd) qs) = ?L" by (simp add: row_cells_def qs_def)
  have ok: "list_all (\<lambda>q. rectangular (snd q)) qs" "list_all (\<lambda>q. fst (snd q) < 2 ^ 31) qs"
    "length (concat (map (row_cells \<circ> snd) qs)) < 2 ^ 31"
    by (simp_all only: all) (simp_all add: qs_def rectangular_def)
  obtain p where p: "selects 7 qs (Mysql_Clear started) = Some p" "GetRows p = int (length ?L)"
      "GetCols p = int (if ?L = [] then 0 else length (hd ?L))"
    and g: "\<And>i j out. Mysql_GetString i j out p =
      (if i \<in> {1..length ?L} \<and> j \<in> {1..if ?L = [] then 0 else length (hd ?L)}
       then if j \<le> length (?L ! (i - 1)) then Some (?L ! (i - 1) ! (j - 1)) else None
       else Some out)"
    using mysql_rows_pile_up [of 7, OF _ ok(1,3,2), of started] unfolding all Let_def by fastforce
  show ?thesis unfolding Let_def qs_def [symmetric] using p by (intro exI [of _ p]) (simp add: g)
qed

end
