(* ===== verification/Spec2Isabelle.thy ===== *)
theory Spec2Isabelle
  imports PoolThreads IniReader KernelSpec EventReach HttpReply TaggingSpec Mysql
begin

text \<open>
  The Syinx game server (\<^verbatim>\<open>src/code/Syinx\<close>) and what it stands on.

  \<^bold>\<open>The program.\<close> \<^verbatim>\<open>main.cpp\<close> starts the kernel (\<^verbatim>\<open>Syinx.cpp\<close>), which reads a configuration file
  with the INI reader (\<^verbatim>\<open>pkg/inih\<close>), makes an event base and a listener with libevent
  (\<^verbatim>\<open>src/Shard/include/libevent-master\<close>), and runs turns of its loop with frames 15 times a second.
  An accepted client gets a channel (\<^verbatim>\<open>SyTaskAdapter.cpp\<close>) from a pool of them (\<^verbatim>\<open>SyResAdapter.cpp\<close>);
  a channel has a \<^verbatim>\<open>bufferevent\<close> and an \<^verbatim>\<open>evbuffer\<close> of input, cuts what arrives into packets and sends
  them back. \<^verbatim>\<open>SConnect.cpp\<close> connects to other servers; \<^verbatim>\<open>SyPthreadPool.cpp\<close> runs tasks in threads.

  \<^bold>\<open>The theories\<close>, with the files they model:
  \<^item> \<open>Prelude\<close>: C conversions and characters, shared facts and hint collections. \<open>CNumbers\<close>: the numbers
    of the C library in text, \<^verbatim>\<open>strtol\<close> and the directives \<^verbatim>\<open>%u\<close>, \<^verbatim>\<open>%d\<close> and \<^verbatim>\<open>%x\<close>.
  \<^item> \<open>Ini\<close> (\<^verbatim>\<open>ini.c\<close>, \<^verbatim>\<open>ini.h\<close>), \<open>IniReader\<close> (\<^verbatim>\<open>INIReader.cpp\<close>): the parser a line at a time, and the
    table of values. Parsing ends for every text; a text made from sections and entries gives them
    back; the first bad line is what is returned; the two 50-byte buffers are never overrun; what
    the getters answer.
  \<^item> \<open>ThreadPool\<close>, \<open>PoolThreads\<close> (\<^verbatim>\<open>SyPthreadPool.cpp\<close>): the operations, and the threads as a step
    relation under every interleaving: tasks run in the order they were queued, a free worker can
    take a task, a full queue stops the pool for ever, and closing frees it under its threads.
  \<^item> \<open>Evbuffer\<close> (\<^verbatim>\<open>buffer.c\<close>), \<open>EvbufferLaws\<close>, \<open>EvbufferSpec\<close>: chains with their misalignment, length
    and place in memory. The laws say what each operation does to the bytes and that it keeps the
    invariant; the theorems say that a buffer is a byte string, moves between buffers move bytes, and
    what is left when memory is short. \<open>EvbufferSearch\<close> has the searches, the lines and the making
    contiguous of the same file, \<open>EvbufferLines\<close> that they agree with plain functions on the byte
    string, however it is cut into chains. \<open>ByteQueue\<close>: the interface of a byte queue, with the buffer
    and a whole channel as instances.
  \<^item> \<open>Channel\<close>, \<open>ChannelSpec\<close> (\<^verbatim>\<open>SyTaskAdapter.cpp\<close>, \<^verbatim>\<open>CPlayer.cpp\<close>, the part of \<^verbatim>\<open>bufferevent.c\<close> they use):
    a channel sends back what it gets, in order; what it leaks to the next client.
  \<^item> \<open>Resource\<close>, \<open>ResourceSpec\<close> (\<^verbatim>\<open>SyResAdapter.cpp\<close>, the callbacks of \<^verbatim>\<open>Syinx.cpp\<close>): no sequence of network
    events makes a callback use freed memory; who is admitted; closing.
  \<^item> \<open>Mysql\<close> (\<^verbatim>\<open>SyMysqlConPool.cpp\<close>): the pool of database connections, an instance of the interface
    \<open>lending\<close>, and the rows that queries leave in it.
  \<^item> \<open>SConnects\<close> (\<^verbatim>\<open>SConnect.cpp\<close>), \<open>Kernel\<close>, \<open>KernelSpec\<close> (\<^verbatim>\<open>Syinx.cpp\<close>): configuration, start, turns of the
    loop, the signal handler and the end.
  \<^item> \<open>Timers\<close> (\<^verbatim>\<open>minheap-internal.h\<close>): the heap of timeouts. The interface \<open>deadline_queue\<close> is what its
    clients rely on; the heap is its instance.
  \<^item> \<open>Events\<close>, \<open>EventOps\<close>, \<open>EventLoop\<close> (\<^verbatim>\<open>event.c\<close>, \<^verbatim>\<open>evmap.c\<close>): the event base with its queues, its maps of
    descriptors and signals, common timeouts, closures and the loop. \<open>EventInv\<close> has the invariant,
    in parts by the structures they read; \<open>EventMaps\<close>, \<open>EventSteps\<close>, \<open>EventAdd\<close>, \<open>EventRun\<close>,
    \<open>EventProcess\<close> and \<open>EventClosures\<close> show for each operation that it keeps it; \<open>EventReach\<close> has the
    step relation and the theorems.
  \<^item> \<open>Inet\<close>, \<open>InetSpec\<close> (\<^verbatim>\<open>evutil.c\<close>): addresses in text. What is printed for an address and a port is
    parsed back to them.
  \<^item> \<open>HttpUri\<close>, \<open>HttpUriSpec\<close> (\<^verbatim>\<open>http.c\<close>): escapes, header lists, URIs and queries. Decoding undoes
    encoding, an accepted URI survives being put together and parsed, and one way it does not.
  \<^item> \<open>HttpMessage\<close>, \<open>HttpMessageSpec\<close>, \<open>HttpReply\<close> (\<^verbatim>\<open>http.c\<close>): the readers of first line, headers and
    chunks, virtual hosts, and the text of a reply. The interface \<open>stream_reader\<close> is what makes a reader
    independent of how the bytes arrive, \<open>buffer_reader\<close> that it works on a buffer as on a byte string;
    the reader of chunks and that of headers are their instances. What is sent is what is read, and
    one way it is not.
  \<^item> \<open>Tagging\<close>, \<open>TaggingSpec\<close> (\<^verbatim>\<open>event_tagging.c\<close>): tagged data. The interface \<open>item_stream\<close> is what makes a
    stream of items come out as it went in; the tagged items and the plain integers are its instances.
    Where the decoder reads outside its memory, lengths that wrap, and readers that lose their place.

  \<^bold>\<open>Conventions.\<close> Pointers are addresses in a heap of the component that owns the objects, 0 being
  null; memory allocation, sockets, files, clocks, the backend of libevent and callbacks of the
  application are arguments of the definitions. A C string is a list of characters, an
  \<^verbatim>\<open>evbuffer\<close> holds bytes. A result \<open>None\<close> of a definition of the server is undefined behaviour of the
  C++; a failed assertion of libevent raises the flag \<open>aborted\<close> of the base.

  \<^bold>\<open>Bounds and loops.\<close> Loops are structural or have a measure, but for those that run callbacks or
  that end only by the invariant (the reader loop of the parser, the loops over timeouts that are due,
  the loop over a queue of active events, the event loop), which are partial functions into \<open>option\<close>.
  \<open>ini_parse_total\<close> and \<open>due_timeouts_fire\<close> show that the first two end; for the last two
  \<open>loop_keeps_integrity\<close> is about returning, since a callback may make itself active for ever. The
  addresses of events are below \<open>EVENT_LIMIT\<close>, two to the 57, since an event has more than 64 bytes;
  so the sizes of the heap and of the queues do not overflow. The heap keeps \<open>EV_SIZE_MAX\<close> as the mark
  of an event outside it.

  \<^bold>\<open>Not modelled.\<close> Floating-point getters; logging (\<^verbatim>\<open>easylogging++\<close>) and the headers of MySQL and pthreads, which are other
  people's; the HTTP request handler of the kernel, which only opens files; of
  \<^verbatim>\<open>evbuffer\<close> what needs descriptors (reading, writing, file segments) and chains that refer to memory of
  others; of \<^verbatim>\<open>event.c\<close> freeing a base, finalizers, the debug map, waking other threads and dumps; the
  backends, \<^verbatim>\<open>signal.c\<close> and the thread layers, which are system calls behind tables of functions; of
  \<^verbatim>\<open>http.c\<close> the connections with their states and the failure of allocations; of \<^verbatim>\<open>evutil.c\<close> what needs the
  system. DNS, TLS, RPC and the rate limits of libevent are not called by the server's own code.
\<close>

end
